(* ===== verification/Chunkdb_Prelude.thy ===== *)
theory Chunkdb_Prelude
  imports Main "HOL-Library.Word"
begin

unbundle bit_operations_syntax

text \<open>
  The shared base of the development: the types the components use for bytes and machine
  integers, the exceptions of the C++ code as values, the little-endian byte forms and the
  bit view of a byte array, with the lemmas every component proof rests on.

  A thrown exception is a value of type \<open>exn\<close>: its constructor is the exception class, its
  string the constant text of the message (numbers and names that the source interpolates
  are left out). \<open>Undefined\<close> marks an access the C++ standard leaves undefined.
\<close>

type_synonym byte = "8 word"
type_synonym u16 = "16 word"
type_synonym u32 = "32 word"
type_synonym u64 = "64 word"
type_synonym bytes = "8 word list"

datatype exn =
    InvalidArgument string
  | OutOfRange string
  | RuntimeError string
  | LogicError string
  | LengthError string
  | BadVariantAccess
  | Undefined string

type_synonym 'a res = "exn + 'a"

text \<open>Sequencing of computations that may stop with an error of any type, exceptions among them.\<close>

definition rbind :: "'e + 'a \<Rightarrow> ('a \<Rightarrow> 'e + 'b) \<Rightarrow> 'e + 'b" where
  "rbind m f = (case m of Inl e \<Rightarrow> Inl e | Inr x \<Rightarrow> f x)"

text \<open>A loop over a list that stops at the first error.\<close>

fun rfold :: "('a \<Rightarrow> 's \<Rightarrow> 'e + 's) \<Rightarrow> 'a list \<Rightarrow> 's \<Rightarrow> 'e + 's" where
  "rfold f [] s = Inr s"
| "rfold f (x # xs) s = rbind (f x s) (rfold f xs)"

text \<open>\<open>std::size_t\<close> arithmetic wraps at 64 bits; an index outside a vector is undefined.\<close>

definition size_add :: "nat \<Rightarrow> nat \<Rightarrow> nat" where
  "size_add a b = (a + b) mod 2 ^ 64"

definition size_mul :: "nat \<Rightarrow> nat \<Rightarrow> nat" where
  "size_mul a b = (a * b) mod 2 ^ 64"

definition size_sub :: "nat \<Rightarrow> nat \<Rightarrow> nat" where
  "size_sub a b = (a + 2 ^ 64 - b) mod 2 ^ 64"

definition u32_add :: "nat \<Rightarrow> nat \<Rightarrow> nat" where
  "u32_add a b = (a + b) mod 2 ^ 32"

definition at_index :: "'a list \<Rightarrow> nat \<Rightarrow> 'a res" where
  "at_index xs i = (if i < length xs then Inr (xs ! i) else Inl (Undefined ''index''))"

definition put_index :: "'a list \<Rightarrow> nat \<Rightarrow> 'a \<Rightarrow> 'a list res" where
  "put_index xs i v = (if i < length xs then Inr (xs[i := v]) else Inl (Undefined ''index''))"

text \<open>The bytes from \<open>i\<close> to \<open>i + n\<close> of a buffer; reading past its end is undefined.\<close>

definition at_range :: "'a list \<Rightarrow> nat \<Rightarrow> nat \<Rightarrow> 'a list res" where
  "at_range xs i n = (if i + n \<le> length xs then Inr (take n (drop i xs)) else Inl (Undefined ''range''))"

lemma size_add_small [simp]: "a + b < 2 ^ 64 \<Longrightarrow> size_add a b = a + b"
  by (simp add: size_add_def)

lemma size_mul_small [simp]: "a * b < 2 ^ 64 \<Longrightarrow> size_mul a b = a * b"
  by (simp add: size_mul_def)

lemma size_sub_small [simp]:
  assumes "b \<le> a" "a < 2 ^ 64"
  shows "size_sub a b = a - b"
proof -
  have "a + 2 ^ 64 - b = a - b + 2 ^ 64" using assms(1) by (rule Nat.diff_add_assoc2)
  then show ?thesis using assms(2) by (simp only: size_sub_def mod_add_self2) simp
qed

lemma u32_add_small [simp]: "a + b < 2 ^ 32 \<Longrightarrow> u32_add a b = a + b"
  by (simp add: u32_add_def)

lemma at_index_in [simp]: "i < length xs \<Longrightarrow> at_index xs i = Inr (xs ! i)"
  by (simp add: at_index_def)

lemma at_range_in [simp]: "i + n \<le> length xs \<Longrightarrow> at_range xs i n = Inr (take n (drop i xs))"
  by (simp add: at_range_def)

lemma put_index_in [simp]: "i < length xs \<Longrightarrow> put_index xs i v = Inr (xs[i := v])"
  by (simp add: put_index_def)

lemma rbind_simps [simp]:
  "rbind (Inl e) f = Inl e"
  "rbind (Inr x) f = f x"
  by (simp_all add: rbind_def)

lemma rbind_eq_Inr_iff: "rbind m f = Inr y \<longleftrightarrow> (\<exists>x. m = Inr x \<and> f x = Inr y)"
  by (cases m) auto

lemma rbind_eq_Inl_iff: "rbind m f = Inl e \<longleftrightarrow> m = Inl e \<or> (\<exists>x. m = Inr x \<and> f x = Inl e)"
  by (cases m) auto

lemma rbind_InrE [elim!]:
  assumes "rbind m f = Inr y"
  obtains x where "m = Inr x" "f x = Inr y"
  using assms by (auto simp: rbind_eq_Inr_iff)

lemma rbind_Inr_right [simp]: "rbind m Inr = m"
  by (cases m) simp_all

lemma rbind_assoc: "rbind (rbind m f) g = rbind m (\<lambda>x. rbind (f x) g)"
  by (cases m) auto

lemma rbind_cong [fundef_cong]:
  "m = m' \<Longrightarrow> (\<And>x. m' = Inr x \<Longrightarrow> f x = g x) \<Longrightarrow> rbind m f = rbind m' g"
  by (cases m') auto

lemma throw_eq_Inr [simp]: "(if c then Inl e else r) = Inr x \<longleftrightarrow> \<not> c \<and> r = Inr x"
  by auto

lemma rfold_append: "rfold f (xs @ ys) s = rbind (rfold f xs s) (rfold f ys)"
proof (induction xs arbitrary: s)
  case (Cons x xs)
  then have "rfold f (xs @ ys) = (\<lambda>s. rbind (rfold f xs s) (rfold f ys))" by (intro ext)
  then show ?case by (simp add: rbind_assoc)
qed simp

lemma rfold_cong: "(\<And>x s. x \<in> set xs \<Longrightarrow> f x s = h x s) \<Longrightarrow> rfold f xs s = rfold h xs s"
  by (induction xs arbitrary: s) (auto intro!: rbind_cong)

text \<open>An invariant of the loop body is an invariant of the loop.\<close>

lemma rfold_invariant:
  assumes "rfold f xs s = Inr t" and "P s"
    and "\<And>x s s'. x \<in> set xs \<Longrightarrow> P s \<Longrightarrow> f x s = Inr s' \<Longrightarrow> P s'"
  shows "P t"
  using assms
proof (induction xs arbitrary: s)
  case Nil
  then show ?case by simp
next
  case (Cons x xs)
  from Cons.prems(1) obtain s' where s': "f x s = Inr s'" "rfold f xs s' = Inr t"
    by auto
  have "P s'" using Cons.prems(2,3) s'(1) by auto
  with s'(2) show ?case
    using Cons.prems(3) by (intro Cons.IH) auto
qed

section \<open>Bits of the masks the code uses\<close>

lemma unat_of_nat_small: "n < 2 ^ LENGTH('a) \<Longrightarrow> unat (of_nat n :: 'a::len word) = n"
  by (simp add: unat_of_nat take_bit_nat_eq_self)

lemma unat_of_nat_le16: "n \<le> 0xFFFF \<Longrightarrow> unat (of_nat n :: u16) = n"
  by (rule unat_of_nat_small) simp

lemma unat_of_nat_le32: "n \<le> 0xFFFFFFFF \<Longrightarrow> unat (of_nat n :: u32) = n"
  by (rule unat_of_nat_small) simp

lemma bit_mask_word: "bit (mask m :: 'a::len word) n \<longleftrightarrow> n < LENGTH('a) \<and> n < m"
  by (simp only: bit_mask_iff possible_bit_word)

lemma bit_0xFF: "bit (0xFF :: 'a::len word) n \<longleftrightarrow> n < LENGTH('a) \<and> n < 8"
proof -
  have "(0xFF :: 'a word) = mask 8" by (simp add: mask_eq_exp_minus_1)
  then show ?thesis by (simp only: bit_mask_word)
qed

lemma bit_0x7F: "bit (0x7F :: 'a::len word) n \<longleftrightarrow> n < LENGTH('a) \<and> n < 7"
proof -
  have "(0x7F :: 'a word) = mask 7" by (simp add: mask_eq_exp_minus_1)
  then show ?thesis by (simp only: bit_mask_word)
qed

lemma bit_0x80: "bit (0x80 :: 'a::len word) n \<longleftrightarrow> n < LENGTH('a) \<and> n = 7"
proof -
  have "(0x80 :: 'a word) = 2 ^ 7" by simp
  then show ?thesis by (simp only: bit_exp_iff possible_bit_word)
qed

lemma and_FF_take: "(w :: 'a::len word) AND 0xFF = take_bit 8 w"
  by (rule bit_word_eqI) (simp only: bit_and_iff bit_take_bit_iff bit_0xFF, auto dest: bit_imp_le_length)

lemmas bit_consts = bit_0xFF bit_0x7F bit_0x80

section \<open>Little-endian byte strings\<close>

text \<open>
  \<open>le_bytes n w\<close> are the \<open>n\<close> lowest bytes of a word, the lowest first, and \<open>le_word\<close> reads
  such a string back: the shape every fixed-width field of the file formats has.
\<close>

definition le_bytes :: "nat \<Rightarrow> 'a::len word \<Rightarrow> bytes" where
  "le_bytes n w = map (\<lambda>i. ucast (drop_bit (8 * i) w)) [0..<n]"

fun le_word :: "bytes \<Rightarrow> 'a::len word" where
  "le_word [] = 0"
| "le_word (b # bs) = ucast b OR push_bit 8 (le_word bs)"

lemma length_le_bytes [simp]: "length (le_bytes n w) = n"
  by (simp add: le_bytes_def)

lemma le_bytes_0 [simp]: "le_bytes 0 w = []"
  by (simp add: le_bytes_def)

lemma bit_byteD: "bit (b :: byte) j \<Longrightarrow> j < 8"
  using bit_imp_le_length [of b j] by simp

lemma bit_le_bytes:
  assumes "i < n"
  shows "bit (le_bytes n w ! i) j \<longleftrightarrow> j < 8 \<and> bit w (8 * i + j)"
  using assms by (auto simp: le_bytes_def bit_simps)

lemma bit_le_word:
  "bit (le_word bs :: 'a::len word) k \<longleftrightarrow>
     k < LENGTH('a) \<and> k div 8 < length bs \<and> bit (bs ! (k div 8)) (k mod 8)"
proof (induction bs arbitrary: k)
  case Nil
  then show ?case by simp
next
  case (Cons b bs)
  show ?case
  proof (cases "k < 8")
    case True
    then show ?thesis by (auto simp: bit_simps)
  next
    case False
    then have "bit b k = False" using bit_byteD by blast
    moreover have "k div 8 = Suc ((k - 8) div 8)" "k mod 8 = (k - 8) mod 8"
      using False by (simp_all add: le_div_geq le_mod_geq)
    ultimately show ?thesis
      using False Cons [of "k - 8"] by (auto simp: bit_simps)
  qed
qed

lemma le_word_le_bytes:
  "LENGTH('a) \<le> 8 * n \<Longrightarrow> le_word (le_bytes n w) = (w :: 'a::len word)"
proof (rule bit_word_eqI)
  fix k assume n: "LENGTH('a) \<le> 8 * n" and k: "k < LENGTH('a)"
  then have "k div 8 < n" by auto
  then show "bit (le_word (le_bytes n w) :: 'a word) k = bit w k"
    using k by (simp add: bit_le_word bit_le_bytes)
qed

lemma le_bytes_le_word:
  assumes "8 * length bs \<le> LENGTH('a)"
  shows "le_bytes (length bs) (le_word bs :: 'a::len word) = bs"
proof (rule nth_equalityI)
  fix i assume "i < length (le_bytes (length bs) (le_word bs :: 'a word))"
  then have i: "i < length bs" by simp
  show "le_bytes (length bs) (le_word bs :: 'a word) ! i = bs ! i"
  proof (rule bit_word_eqI)
    fix j assume "j < LENGTH(8)"
    then have j: "j < 8" by simp
    have "8 * i + j < LENGTH('a)" using i j assms by auto
    then show "bit (le_bytes (length bs) (le_word bs :: 'a word) ! i) j = bit (bs ! i) j"
      using i j by (auto simp: bit_le_word bit_le_bytes div_add1_eq mod_add_eq)
  qed
qed simp

section \<open>A byte array as a bit array\<close>

text \<open>
  Bit \<open>k\<close> of a byte array, the lowest bit of each byte first: the addressing that the bit
  codec, the presence bitmap and the chunk payload share. \<open>put_bit\<close> writes one such bit.
\<close>

definition byte_bit :: "bytes \<Rightarrow> nat \<Rightarrow> bool" where
  "byte_bit bs k = bit (bs ! (k div 8)) (k mod 8)"

definition put_bit :: "bytes \<Rightarrow> nat \<Rightarrow> bool \<Rightarrow> bytes" where
  "put_bit bs k v =
     bs[k div 8 := (if v then set_bit (k mod 8) (bs ! (k div 8))
                    else unset_bit (k mod 8) (bs ! (k div 8)))]"

lemma length_put_bit [simp]: "length (put_bit bs k v) = length bs"
  by (simp add: put_bit_def)

lemma byte_bit_put_bit:
  assumes "k < 8 * length bs" "j < 8 * length bs"
  shows "byte_bit (put_bit bs k v) j = (if j = k then v else byte_bit bs j)"
proof -
  have *: "k div 8 < length bs" "j div 8 < length bs" using assms by auto
  have "j = k \<longleftrightarrow> j div 8 = k div 8 \<and> j mod 8 = k mod 8"
    by (metis div_mult_mod_eq)
  moreover have "j mod 8 < 8" "k mod 8 < 8" by auto
  ultimately show ?thesis
    using * by (auto simp: byte_bit_def put_bit_def nth_list_update bit_simps)
qed

lemma bytes_eqI:
  assumes "length xs = length ys"
    and "\<And>k. k < 8 * length xs \<Longrightarrow> byte_bit xs k = byte_bit ys k"
  shows "xs = ys"
proof (rule nth_equalityI [OF assms(1)])
  fix i assume i: "i < length xs"
  show "xs ! i = ys ! i"
  proof (rule bit_word_eqI)
    fix j assume "j < LENGTH(8)"
    then have "8 * i + j < 8 * length xs" "(8 * i + j) div 8 = i" "(8 * i + j) mod 8 = j"
      using i by auto
    then show "bit (xs ! i) j = bit (ys ! i) j"
      using assms(2) [of "8 * i + j"] by (simp add: byte_bit_def)
  qed
qed

lemma byte_bit_append:
  "byte_bit (xs @ ys) k = (if k < 8 * length xs then byte_bit xs k else byte_bit ys (k - 8 * length xs))"
proof (cases "k < 8 * length xs")
  case True
  then have "k div 8 < length xs" by auto
  with True show ?thesis by (simp add: byte_bit_def nth_append)
next
  case False
  then obtain m where "k = 8 * length xs + m" by (metis le_iff_add not_less)
  then show ?thesis by (simp add: byte_bit_def nth_append)
qed

section \<open>Interface: values stored in ranges of bits\<close>

text \<open>
  What a pair of routines that read and write \<open>n\<close>-bit values at a bit offset of a byte array
  promises. \<open>valid n v\<close> says that \<open>v\<close> is the canonical form of an \<open>n\<close>-bit value and
  \<open>vbit v i\<close> is its bit \<open>i\<close>. The bit codec and the value copies of the chunk layout both
  provide it.
\<close>

locale bit_range_store =
  fixes rd :: "bytes \<Rightarrow> nat \<Rightarrow> nat \<Rightarrow> 'v res"
    and wr :: "bytes \<Rightarrow> nat \<Rightarrow> nat \<Rightarrow> 'v \<Rightarrow> bytes res"
    and valid :: "nat \<Rightarrow> 'v \<Rightarrow> bool"
    and vbit :: "'v \<Rightarrow> nat \<Rightarrow> bool"
  assumes rd_ok: "length d < 2 ^ 61 \<Longrightarrow> off + n \<le> 8 * length d \<Longrightarrow>
      \<exists>v. rd d off n = Inr v \<and> valid n v \<and> (\<forall>i<n. vbit v i = byte_bit d (off + i))"
    and wr_ok: "length d < 2 ^ 61 \<Longrightarrow> off + n \<le> 8 * length d \<Longrightarrow> valid n v \<Longrightarrow>
      \<exists>d'. wr d off n v = Inr d' \<and> length d' = length d \<and>
        (\<forall>k < 8 * length d. byte_bit d' k =
           (if off \<le> k \<and> k < off + n then vbit v (k - off) else byte_bit d k))"
    and valid_eq: "valid n v \<Longrightarrow> valid n w \<Longrightarrow> (\<forall>i<n. vbit v i = vbit w i) \<Longrightarrow> v = w"
begin

lemma rd_eqI:
  assumes "length d < 2 ^ 61" "off + n \<le> 8 * length d" "valid n v"
    and "\<And>i. i < n \<Longrightarrow> byte_bit d (off + i) = vbit v i"
  shows "rd d off n = Inr v"
proof -
  obtain w where w: "rd d off n = Inr w" "valid n w" "\<forall>i<n. vbit w i = byte_bit d (off + i)"
    using rd_ok [OF assms(1,2)] by blast
  then have "w = v" using valid_eq [OF w(2) assms(3)] assms(4) by auto
  with w(1) show ?thesis by simp
qed

lemma rd_wr_same:
  assumes "length d < 2 ^ 61" "off + n \<le> 8 * length d" "valid n v" "wr d off n v = Inr d'"
  shows "rd d' off n = Inr v"
proof -
  obtain e where e: "wr d off n v = Inr e" "length e = length d"
    "\<forall>k < 8 * length d. byte_bit e k =
       (if off \<le> k \<and> k < off + n then vbit v (k - off) else byte_bit d k)"
    using wr_ok [OF assms(1-3)] by blast
  then show ?thesis using assms by (intro rd_eqI) auto
qed

lemma rd_wr_other:
  assumes "length d < 2 ^ 61" "off + n \<le> 8 * length d" "valid n v" "wr d off n v = Inr d'"
    and "off' + m \<le> 8 * length d" "off + n \<le> off' \<or> off' + m \<le> off"
  shows "rd d' off' m = rd d off' m"
proof -
  obtain e where e: "wr d off n v = Inr e" "length e = length d"
    "\<forall>k < 8 * length d. byte_bit e k =
       (if off \<le> k \<and> k < off + n then vbit v (k - off) else byte_bit d k)"
    using wr_ok [OF assms(1-3)] by blast
  obtain w where w: "rd d off' m = Inr w" "valid m w" "\<forall>i<m. vbit w i = byte_bit d (off' + i)"
    using rd_ok [OF assms(1,5)] by blast
  have "rd d' off' m = Inr w"
    using assms e w by (intro rd_eqI) auto
  with w(1) show ?thesis by simp
qed

lemma wr_rd_id:
  assumes "length d < 2 ^ 61" "off + n \<le> 8 * length d" "rd d off n = Inr v"
  shows "wr d off n v = Inr d"
proof -
  obtain w where w: "rd d off n = Inr w" "valid n w" "\<forall>i<n. vbit w i = byte_bit d (off + i)"
    using rd_ok [OF assms(1,2)] by blast
  then have v: "valid n v" "\<forall>i<n. vbit v i = byte_bit d (off + i)" using assms(3) by auto
  obtain e where e: "wr d off n v = Inr e" "length e = length d"
    "\<forall>k < 8 * length d. byte_bit e k =
       (if off \<le> k \<and> k < off + n then vbit v (k - off) else byte_bit d k)"
    using wr_ok [OF assms(1,2) v(1)] by blast
  have "e = d"
  proof (rule bytes_eqI)
    fix k assume "k < 8 * length e"
    then show "byte_bit e k = byte_bit d k"
      using e v(2) by auto
  qed (use e in simp)
  with e(1) show ?thesis by simp
qed

lemma wr_wr_swap:
  assumes d: "length d < 2 ^ 61"
    and 1: "off + n \<le> 8 * length d" "valid n v" and 2: "off' + m \<le> 8 * length d" "valid m w"
    and dis: "off + n \<le> off' \<or> off' + m \<le> off"
  shows "rbind (wr d off n v) (\<lambda>e. wr e off' m w) = rbind (wr d off' m w) (\<lambda>e. wr e off n v)"
proof -
  obtain a where a: "wr d off n v = Inr a" "length a = length d"
    "\<forall>k < 8 * length d. byte_bit a k =
       (if off \<le> k \<and> k < off + n then vbit v (k - off) else byte_bit d k)"
    using wr_ok [OF d 1] by blast
  obtain b where b: "wr d off' m w = Inr b" "length b = length d"
    "\<forall>k < 8 * length d. byte_bit b k =
       (if off' \<le> k \<and> k < off' + m then vbit w (k - off') else byte_bit d k)"
    using wr_ok [OF d 2] by blast
  obtain a' where a': "wr a off' m w = Inr a'" "length a' = length d"
    "\<forall>k < 8 * length d. byte_bit a' k =
       (if off' \<le> k \<and> k < off' + m then vbit w (k - off') else byte_bit a k)"
    using wr_ok [of a off' m w] d 2 a(2) by auto
  obtain b' where b': "wr b off n v = Inr b'" "length b' = length d"
    "\<forall>k < 8 * length d. byte_bit b' k =
       (if off \<le> k \<and> k < off + n then vbit v (k - off) else byte_bit b k)"
    using wr_ok [of b off n v] d 1 b(2) by auto
  have "a' = b'"
  proof (rule bytes_eqI)
    fix k assume "k < 8 * length a'"
    then show "byte_bit a' k = byte_bit b' k"
      using a b a' b' dis by auto
  qed (use a' b' in simp)
  then show ?thesis using a b a' b' by simp
qed

end

end
