(* ===== verification/Bit_Codec.thy ===== *)
theory Bit_Codec
  imports Chunkdb_Prelude
begin

text \<open>
  The bit codec of \<open>src/src/bit_codec.cpp\<close>: strings of the characters 0 and 1 read from and
  written to a byte array at any bit offset. The code works in three loops (single bits up to
  a byte boundary, whole bytes by a lookup table, the remaining single bits); the lemmas show
  that they agree with the plain view of the array as a sequence of bits.
\<close>

section \<open>Definitions\<close>

definition ByteToBitCharsLsb :: "byte \<Rightarrow> string" where
  "ByteToBitCharsLsb value =
     map (\<lambda>b. if (drop_bit b value) AND 1 \<noteq> 0 then CHR ''1'' else CHR ''0'') [0..<8]"

definition ParseBitByteLsb :: "string \<Rightarrow> byte" where
  "ParseBitByteLsb bits =
     fold (\<lambda>b value. if bits ! b = CHR ''1'' then value OR push_bit b 1 else value) [0..<8] 0"

definition WriteSingleBit :: "bytes \<Rightarrow> nat \<Rightarrow> bool \<Rightarrow> bytes res" where
  "WriteSingleBit data bit_index one =
     (let byte_index = bit_index div 8; mask = push_bit (bit_index mod 8) 1 in
      rbind (at_index data byte_index) (\<lambda>old.
        put_index data byte_index (if one then old OR mask else old AND NOT mask)))"

definition IsBitString :: "string \<Rightarrow> bool" where
  "IsBitString bits = list_all (\<lambda>c. \<not> (c \<noteq> CHR ''0'' \<and> c \<noteq> CHR ''1'')) bits"

text \<open>The loops of \<open>ExtractBits\<close>; each returns \<open>absolute_bit\<close>, \<open>remaining\<close> and the result so far.\<close>

fun ExtractBits_align :: "bytes \<Rightarrow> nat \<Rightarrow> nat \<Rightarrow> string \<Rightarrow> (nat \<times> nat \<times> string) res" where
  "ExtractBits_align data absolute_bit remaining result =
     (if remaining > 0 \<and> absolute_bit mod 8 \<noteq> 0
      then rbind (at_index data (absolute_bit div 8)) (\<lambda>b.
             ExtractBits_align data (absolute_bit + 1) (remaining - 1)
               (result @ [if b AND push_bit (absolute_bit mod 8) 1 \<noteq> 0
                          then CHR ''1'' else CHR ''0'']))
      else Inr (absolute_bit, remaining, result))"

fun ExtractBits_bytes :: "bytes \<Rightarrow> nat \<Rightarrow> nat \<Rightarrow> string \<Rightarrow> (nat \<times> nat \<times> string) res" where
  "ExtractBits_bytes data absolute_bit remaining result =
     (if remaining \<ge> 8
      then let byte_index = absolute_bit div 8; bit_index = absolute_bit mod 8 in
           rbind (if bit_index = 0 then at_index data byte_index
                  else rbind (at_index data byte_index) (\<lambda>lo.
                       rbind (at_index data (byte_index + 1)) (\<lambda>hi.
                       Inr (drop_bit bit_index lo OR push_bit (8 - bit_index) hi)))) (\<lambda>merged.
             ExtractBits_bytes data (absolute_bit + 8) (remaining - 8)
               (result @ ByteToBitCharsLsb merged))
      else Inr (absolute_bit, remaining, result))"

fun ExtractBits_tail :: "bytes \<Rightarrow> nat \<Rightarrow> nat \<Rightarrow> string \<Rightarrow> string res" where
  "ExtractBits_tail data absolute_bit remaining result =
     (if remaining > 0
      then rbind (at_index data (absolute_bit div 8)) (\<lambda>b.
             ExtractBits_tail data (absolute_bit + 1) (remaining - 1)
               (result @ [if b AND push_bit (absolute_bit mod 8) 1 \<noteq> 0
                          then CHR ''1'' else CHR ''0'']))
      else Inr result)"

definition ExtractBits :: "bytes \<Rightarrow> nat \<Rightarrow> nat \<Rightarrow> string res" where
  "ExtractBits data bit_offset bit_count =
     (if bit_count = 0 then Inr []
      else let total_bits = size_mul (length data) 8 in
      if size_add bit_offset bit_count > total_bits
      then Inl (OutOfRange ''bit range out of bounds'')
      else rbind (ExtractBits_align data bit_offset bit_count []) (\<lambda>(absolute_bit, remaining, result).
           rbind (ExtractBits_bytes data absolute_bit remaining result) (\<lambda>(absolute_bit, remaining, result).
           ExtractBits_tail data absolute_bit remaining result)))"

text \<open>The loops of \<open>WriteBits\<close>; each returns the data, \<open>absolute_bit\<close> and \<open>input_index\<close>.\<close>

function WriteBits_align :: "bytes \<Rightarrow> nat \<Rightarrow> string \<Rightarrow> nat \<Rightarrow> (bytes \<times> nat \<times> nat) res" where
  "WriteBits_align data absolute_bit bits input_index =
     (if input_index < length bits \<and> absolute_bit mod 8 \<noteq> 0
      then rbind (WriteSingleBit data absolute_bit (bits ! input_index = CHR ''1'')) (\<lambda>data'.
             WriteBits_align data' (absolute_bit + 1) bits (input_index + 1))
      else Inr (data, absolute_bit, input_index))"
  by pat_completeness auto
termination
  by (relation "measure (\<lambda>(data, ab, bits, i). length bits - i)") auto

function WriteBits_bytes :: "bytes \<Rightarrow> nat \<Rightarrow> string \<Rightarrow> nat \<Rightarrow> (bytes \<times> nat \<times> nat) res" where
  "WriteBits_bytes data absolute_bit bits input_index =
     (if input_index + 8 \<le> length bits
      then rbind (put_index data (absolute_bit div 8) (ParseBitByteLsb (drop input_index bits))) (\<lambda>data'.
             WriteBits_bytes data' (absolute_bit + 8) bits (input_index + 8))
      else Inr (data, absolute_bit, input_index))"
  by pat_completeness auto
termination
  by (relation "measure (\<lambda>(data, ab, bits, i). length bits - i)") auto

function WriteBits_tail :: "bytes \<Rightarrow> nat \<Rightarrow> string \<Rightarrow> nat \<Rightarrow> bytes res" where
  "WriteBits_tail data absolute_bit bits input_index =
     (if input_index < length bits
      then rbind (WriteSingleBit data absolute_bit (bits ! input_index = CHR ''1'')) (\<lambda>data'.
             WriteBits_tail data' (absolute_bit + 1) bits (input_index + 1))
      else Inr data)"
  by pat_completeness auto
termination
  by (relation "measure (\<lambda>(data, ab, bits, i). length bits - i)") auto

definition WriteBits :: "bytes \<Rightarrow> nat \<Rightarrow> string \<Rightarrow> bytes res" where
  "WriteBits data bit_offset bits =
     (if \<not> IsBitString bits then Inl (InvalidArgument ''bits must contain only 0 or 1'')
      else let total_bits = size_mul (length data) 8 in
      if size_add bit_offset (length bits) > total_bits
      then Inl (OutOfRange ''bit range out of bounds'')
      else if bits = [] then Inr data
      else rbind (WriteBits_align data bit_offset bits 0) (\<lambda>(data, absolute_bit, input_index).
           rbind (WriteBits_bytes data absolute_bit bits input_index) (\<lambda>(data, absolute_bit, input_index).
           WriteBits_tail data absolute_bit bits input_index)))"

declare ExtractBits_align.simps [simp del] ExtractBits_bytes.simps [simp del]
  ExtractBits_tail.simps [simp del] WriteBits_align.simps [simp del]
  WriteBits_bytes.simps [simp del] WriteBits_tail.simps [simp del]

section \<open>Reading\<close>

text \<open>The character of a bit, and the characters of a range of bits: the reference reader.\<close>

definition bit_char :: "bool \<Rightarrow> char" where
  "bit_char b = (if b then CHR ''1'' else CHR ''0'')"

declare bit_char_def [simp]

definition bit_chars :: "bytes \<Rightarrow> nat \<Rightarrow> nat \<Rightarrow> string" where
  "bit_chars data off n = map (\<lambda>i. bit_char (byte_bit data (off + i))) [0..<n]"

lemma length_bit_chars [simp]: "length (bit_chars data off n) = n"
  by (simp add: bit_chars_def)

lemma bit_chars_add: "bit_chars data off (m + n) = bit_chars data off m @ bit_chars data (off + m) n"
  by (rule nth_equalityI) (auto simp: bit_chars_def nth_append)

lemma bit_chars_1: "bit_chars data off (Suc 0) = [bit_char (byte_bit data off)]"
  by (simp add: bit_chars_def)

lemma ByteToBitCharsLsb_bits:
  assumes "ab mod 8 = 0"
  shows "ByteToBitCharsLsb (data ! (ab div 8)) = bit_chars data ab 8"
proof (rule nth_equalityI)
  fix i assume "i < length (ByteToBitCharsLsb (data ! (ab div 8)))"
  then have i: "i < 8" by (simp add: ByteToBitCharsLsb_def)
  obtain q where "ab = 8 * q" using assms by (metis mult_div_mod_eq add_0_right)
  with i show "ByteToBitCharsLsb (data ! (ab div 8)) ! i = bit_chars data ab 8 ! i"
    by (simp add: ByteToBitCharsLsb_def bit_chars_def bit_char_def byte_bit_def
        and_one_eq bit_iff_odd_drop_bit odd_iff_mod_2_eq_one)
qed (simp add: ByteToBitCharsLsb_def)

lemma bit_test_iff [simp]:
  "(data ! (ab div 8)) AND 2 ^ (ab mod 8) = 0 \<longleftrightarrow> \<not> byte_bit data ab"
  by (simp add: byte_bit_def bit_iff_and_push_bit_not_eq_0)

lemma ExtractBits_align_spec:
  assumes "ab + r \<le> 8 * length data"
  shows "\<exists>j \<le> r. ExtractBits_align data ab r res = Inr (ab + j, r - j, res @ bit_chars data ab j) \<and>
           (r - j = 0 \<or> (ab + j) mod 8 = 0)"
  using assms
proof (induction data ab r res rule: ExtractBits_align.induct)
  case (1 data ab r res)
  show ?case
  proof (cases "r > 0 \<and> ab mod 8 \<noteq> 0")
    case True
    let ?c = "if (data ! (ab div 8)) AND push_bit (ab mod 8) 1 \<noteq> 0 then CHR ''1'' else CHR ''0''"
    have i: "ab div 8 < length data" using 1 True by auto
    then obtain j where j: "j \<le> r - 1"
      "ExtractBits_align data (ab + 1) (r - 1) (res @ [?c]) =
         Inr (ab + 1 + j, r - 1 - j, (res @ [?c]) @ bit_chars data (ab + 1) j)"
      "r - 1 - j = 0 \<or> (ab + 1 + j) mod 8 = 0"
      using "1.IH" [OF True, of "data ! (ab div 8)"] "1.prems" True by auto
    have "bit_chars data ab (Suc j) = ?c # bit_chars data (ab + 1) j"
      using bit_chars_add [of data ab "Suc 0" j] by (simp add: bit_chars_1)
    then show ?thesis
      using j True i by (intro exI [of _ "Suc j"]) (auto simp: ExtractBits_align.simps [of data ab r res])
  next
    case False
    then show ?thesis
      by (intro exI [of _ 0]) (auto simp: ExtractBits_align.simps [of data ab r res] bit_chars_def)
  qed
qed

lemma ExtractBits_bytes_spec:
  assumes "ab + r \<le> 8 * length data" "r < 8 \<or> ab mod 8 = 0"
  shows "\<exists>j \<le> r. ExtractBits_bytes data ab r res = Inr (ab + j, r - j, res @ bit_chars data ab j) \<and> r - j < 8"
  using assms
proof (induction data ab r res rule: ExtractBits_bytes.induct)
  case (1 data ab r res)
  show ?case
  proof (cases "r \<ge> 8")
    case True
    then have a: "ab mod 8 = 0" using 1 by auto
    have i: "ab div 8 < length data" using 1 True by auto
    let ?m = "data ! (ab div 8)"
    obtain j where j: "j \<le> r - 8"
      "ExtractBits_bytes data (ab + 8) (r - 8) (res @ ByteToBitCharsLsb ?m) =
         Inr (ab + 8 + j, r - 8 - j, (res @ ByteToBitCharsLsb ?m) @ bit_chars data (ab + 8) j)"
      "r - 8 - j < 8"
      using "1.IH" [OF True refl refl, of ?m] "1.prems" True a i by auto
    have "bit_chars data ab (8 + j) = ByteToBitCharsLsb ?m @ bit_chars data (ab + 8) j"
      by (simp add: bit_chars_add ByteToBitCharsLsb_bits a)
    then show ?thesis
      using j True i a
      by (intro exI [of _ "8 + j"]) (auto simp: ExtractBits_bytes.simps [of data ab r res] Let_def add_ac)
  next
    case False
    then show ?thesis
      by (intro exI [of _ 0]) (auto simp: ExtractBits_bytes.simps [of data ab r res] bit_chars_def)
  qed
qed

lemma ExtractBits_tail_spec:
  "ab + r \<le> 8 * length data \<Longrightarrow> ExtractBits_tail data ab r res = Inr (res @ bit_chars data ab r)"
proof (induction data ab r res rule: ExtractBits_tail.induct)
  case (1 data ab r res)
  show ?case
  proof (cases "r > 0")
    case True
    then obtain r' where r': "r = Suc r'" by (cases r) auto
    have i: "ab div 8 < length data" using 1 True by auto
    let ?c = "if (data ! (ab div 8)) AND push_bit (ab mod 8) 1 \<noteq> 0 then CHR ''1'' else CHR ''0''"
    have "ExtractBits_tail data (ab + 1) (r - 1) (res @ [?c]) = Inr ((res @ [?c]) @ bit_chars data (ab + 1) (r - 1))"
      using "1.IH" [OF True, of "data ! (ab div 8)"] "1.prems" True by auto
    then show ?thesis
      using True i r' bit_chars_add [of data ab "Suc 0" r']
      by (subst ExtractBits_tail.simps) (auto simp: bit_chars_1)
  next
    case False
    then show ?thesis by (subst ExtractBits_tail.simps) (simp add: bit_chars_def)
  qed
qed

text \<open>
  A range past the end, should it reach the loops: each loop reads out of bounds or hands on a range
  with the same end, having read up to the end of the array at most.
\<close>

definition loop_reads :: "bytes \<Rightarrow> nat \<Rightarrow> nat \<Rightarrow> (nat \<times> nat \<times> string) res \<Rightarrow> bool" where
  "loop_reads data ab r result \<longleftrightarrow> result = Inl (Undefined ''index'') \<or>
    (\<exists>ab' r' res. result = Inr (ab', r', res) \<and> ab' + r' = ab + r \<and> (ab' = ab \<or> ab' \<le> 8 * length data))"

lemma loop_reads_step:
  "loop_reads data (ab + k) (r - k) result \<Longrightarrow> k \<le> r \<Longrightarrow> ab + k \<le> 8 * length data \<Longrightarrow> loop_reads data ab r result"
  by (auto simp: loop_reads_def)

lemma ExtractBits_align_reads: "loop_reads data ab r (ExtractBits_align data ab r res)"
proof (induction data ab r res rule: ExtractBits_align.induct)
  case (1 data ab r res)
  show ?case
  proof (cases "r > 0 \<and> ab mod 8 \<noteq> 0 \<and> ab div 8 < length data")
    case True
    then have "ab + 1 \<le> 8 * length data" by linarith
    then show ?thesis
      using True loop_reads_step [OF "1.IH" [of "data ! (ab div 8)"]]
      by (subst ExtractBits_align.simps) simp
  next
    case False
    then show ?thesis by (subst ExtractBits_align.simps) (auto simp: loop_reads_def at_index_def)
  qed
qed

lemma ExtractBits_bytes_reads: "loop_reads data ab r (ExtractBits_bytes data ab r res)"
proof (induction data ab r res rule: ExtractBits_bytes.induct)
  case (1 data ab r res)
  let ?i = "ab div 8"
  show ?case
  proof (cases "r \<ge> 8 \<and> ?i < length data \<and> (ab mod 8 = 0 \<or> ?i + 1 < length data)")
    case True
    have "ab = 8 * ?i + ab mod 8" by simp
    then have "ab + 8 \<le> 8 * length data" using True mod_less_divisor [of 8 ab] by linarith
    then show ?thesis
      using True loop_reads_step [OF "1.IH" [OF _ refl refl], of _]
      by (subst ExtractBits_bytes.simps) (auto simp: Let_def)
  next
    case False
    then show ?thesis by (subst ExtractBits_bytes.simps) (auto simp: loop_reads_def at_index_def Let_def)
  qed
qed

lemma ExtractBits_tail_reads:
  "8 * length data < ab + r \<Longrightarrow> 0 < r \<Longrightarrow> ExtractBits_tail data ab r res = Inl (Undefined ''index'')"
proof (induction data ab r res rule: ExtractBits_tail.induct)
  case (1 data ab r res)
  show ?case
  proof (cases "ab div 8 < length data")
    case True
    then have "r - 1 > 0" using "1.prems" by linarith
    then show ?thesis
      using True "1.IH" [OF "1.prems"(2), of "data ! (ab div 8)"] "1.prems" by (subst ExtractBits_tail.simps) simp
  next
    case False
    then show ?thesis using "1.prems" by (subst ExtractBits_tail.simps) (simp add: at_index_def)
  qed
qed

lemma ExtractBits_past:
  assumes "8 * length data < off + n" "0 < n" "size_add off n \<le> size_mul (length data) 8"
  shows "ExtractBits data off n = Inl (Undefined ''index'')"
proof -
  consider "ExtractBits_align data off n [] = Inl (Undefined ''index'')"
    | ab r res where "ExtractBits_align data off n [] = Inr (ab, r, res)" "ab + r = off + n" "0 < r"
    using ExtractBits_align_reads [of data off n "[]"] assms(1,2) unfolding loop_reads_def by fastforce
  then show ?thesis
  proof cases
    case 1
    then show ?thesis using assms by (simp add: ExtractBits_def Let_def)
  next
    case (2 ab r res)
    consider "ExtractBits_bytes data ab r res = Inl (Undefined ''index'')"
      | ab' r' res' where "ExtractBits_bytes data ab r res = Inr (ab', r', res')" "ab' + r' = off + n" "0 < r'"
      using ExtractBits_bytes_reads [of data ab r res] assms(1) 2(2,3) unfolding loop_reads_def by fastforce
    then show ?thesis
      by cases (use 2 assms ExtractBits_tail_reads in \<open>auto simp: ExtractBits_def Let_def\<close>)
  qed
qed

lemma ExtractBits_eq:
  assumes "length data < 2 ^ 61" "off + n \<le> 8 * length data"
  shows "ExtractBits data off n = Inr (bit_chars data off n)"
proof (cases "n = 0")
  case True
  then show ?thesis by (simp add: ExtractBits_def bit_chars_def)
next
  case False
  obtain j where j: "j \<le> n" "ExtractBits_align data off n [] = Inr (off + j, n - j, bit_chars data off j)"
    "n - j = 0 \<or> (off + j) mod 8 = 0"
    using ExtractBits_align_spec [OF assms(2), of "[]"] by auto
  obtain k where k: "k \<le> n - j"
    "ExtractBits_bytes data (off + j) (n - j) (bit_chars data off j) =
       Inr (off + j + k, n - j - k, bit_chars data off j @ bit_chars data (off + j) k)"
    using ExtractBits_bytes_spec [of "off + j" "n - j" data "bit_chars data off j"] assms(2) j by auto
  have "n = j + (k + (n - j - k))" using j k by auto
  then have "bit_chars data off n =
      bit_chars data off j @ bit_chars data (off + j) k @ bit_chars data (off + j + k) (n - j - k)"
    by (metis add.assoc bit_chars_add)
  moreover have "ExtractBits_tail data (off + j + k) (n - j - k) (bit_chars data off j @ bit_chars data (off + j) k) =
      Inr ((bit_chars data off j @ bit_chars data (off + j) k) @ bit_chars data (off + j + k) (n - j - k))"
    by (rule ExtractBits_tail_spec) (use assms j k in auto)
  moreover have "size_add off n \<le> size_mul (length data) 8"
    using assms by simp
  ultimately show ?thesis
    using False j k by (simp add: ExtractBits_def Let_def)
qed

section \<open>Writing\<close>

text \<open>
  \<open>wrote d ab bits i n d'\<close>: the \<open>n\<close> characters of \<open>bits\<close> from \<open>i\<close> on are now the bits of
  \<open>d'\<close> from \<open>ab\<close> on, and every other bit is as in \<open>d\<close>.
\<close>

definition wrote :: "bytes \<Rightarrow> nat \<Rightarrow> string \<Rightarrow> nat \<Rightarrow> nat \<Rightarrow> bytes \<Rightarrow> bool" where
  "wrote d ab bits i n d' \<longleftrightarrow> length d' = length d \<and>
     (\<forall>k < 8 * length d. byte_bit d' k =
        (if ab \<le> k \<and> k < ab + n then bits ! (i + (k - ab)) = CHR ''1'' else byte_bit d k))"

lemma wrote_0: "wrote d ab bits i 0 d"
  unfolding wrote_def by auto

lemma wrote_length: "wrote d ab bits i n d' \<Longrightarrow> length d' = length d"
  by (simp add: wrote_def)

lemma wrote_trans:
  assumes "wrote d ab bits i m d'" "wrote d' (ab + m) bits (i + m) n d''"
  shows "wrote d ab bits i (m + n) d''"
proof -
  have "byte_bit d'' k = (if ab \<le> k \<and> k < ab + (m + n) then bits ! (i + (k - ab)) = CHR ''1'' else byte_bit d k)"
    if k: "k < 8 * length d" for k
  proof -
    consider "k < ab" | "ab \<le> k" "k < ab + m" | "ab + m \<le> k" "k < ab + m + n" | "ab + m + n \<le> k"
      by linarith
    then show ?thesis using assms k by cases (auto simp: wrote_def)
  qed
  then show ?thesis using assms by (simp add: wrote_def)
qed

lemma WriteSingleBit_eq: "k < 8 * length d \<Longrightarrow> WriteSingleBit d k v = Inr (put_bit d k v)"
proof -
  assume "k < 8 * length d"
  then have "k div 8 < length d" by auto
  then show ?thesis
    by (simp add: WriteSingleBit_def put_bit_def set_bit_eq_or unset_bit_eq_and_not Let_def)
qed

lemma wrote_1:
  "ab < 8 * length d \<Longrightarrow> wrote d ab bits i (Suc 0) (put_bit d ab (bits ! i = CHR ''1''))"
  by (auto simp: wrote_def byte_bit_put_bit)

lemma bit_ParseBitByteLsb: "bit (ParseBitByteLsb s) j \<longleftrightarrow> j < 8 \<and> s ! j = CHR ''1''"
proof -
  have "bit (fold (\<lambda>b value. if s ! b = CHR ''1'' then value OR push_bit b 1 else value) [0..<n] (0 :: byte)) j \<longleftrightarrow>
      j < n \<and> s ! j = CHR ''1''" if "n \<le> 8" for n
    using that by (induction n) (auto simp: bit_simps less_Suc_eq)
  from this [of 8] show ?thesis by (simp add: ParseBitByteLsb_def)
qed

lemma wrote_8:
  assumes "ab mod 8 = 0" "ab + 8 \<le> 8 * length d" "i + 8 \<le> length bits"
  shows "wrote d ab bits i 8 (d[ab div 8 := ParseBitByteLsb (drop i bits)])"
proof -
  obtain q where q: "ab = 8 * q" using assms(1) by (metis mult_div_mod_eq add_0_right)
  have "byte_bit (d[q := ParseBitByteLsb (drop i bits)]) k =
      (if ab \<le> k \<and> k < ab + 8 then bits ! (i + (k - ab)) = CHR ''1'' else byte_bit d k)"
    if "k < 8 * length d" for k
  proof (cases "ab \<le> k \<and> k < ab + 8")
    case True
    then obtain j where j: "k = 8 * q + j" "j < 8" using q by (metis le_iff_add nat_add_left_cancel_less)
    then have "(8 * q + j) div 8 = q" "(8 * q + j) mod 8 = j" by auto
    then show ?thesis
      using j q assms True by (auto simp: byte_bit_def bit_ParseBitByteLsb)
  next
    case False
    then have "k div 8 \<noteq> q" using q by auto
    then show ?thesis using False by (auto simp: byte_bit_def)
  qed
  then show ?thesis using q by (auto simp: wrote_def)
qed

lemma WriteBits_align_spec:
  assumes "i \<le> length bits" "ab + (length bits - i) \<le> 8 * length d"
  shows "\<exists>j d'. WriteBits_align d ab bits i = Inr (d', ab + j, i + j) \<and> i + j \<le> length bits \<and>
           wrote d ab bits i j d' \<and> (i + j = length bits \<or> (ab + j) mod 8 = 0)"
  using assms
proof (induction d ab bits i rule: WriteBits_align.induct)
  case (1 d ab bits i)
  show ?case
  proof (cases "i < length bits \<and> ab mod 8 \<noteq> 0")
    case True
    let ?d = "put_bit d ab (bits ! i = CHR ''1'')"
    have w: "WriteSingleBit d ab (bits ! i = CHR ''1'') = Inr ?d"
      by (rule WriteSingleBit_eq) (use 1 True in auto)
    obtain j d' where j: "WriteBits_align ?d (ab + 1) bits (i + 1) = Inr (d', ab + 1 + j, i + 1 + j)"
      "i + 1 + j \<le> length bits" "wrote ?d (ab + 1) bits (i + 1) j d'"
      "i + 1 + j = length bits \<or> (ab + 1 + j) mod 8 = 0"
    proof -
      have "i + 1 \<le> length bits" "ab + 1 + (length bits - (i + 1)) \<le> 8 * length ?d"
        using "1.prems" True by auto
      from "1.IH" [OF True w this] show ?thesis by (elim exE conjE) (rule that)
    qed
    have "wrote d ab bits i (Suc 0 + j) d'"
      by (rule wrote_trans [OF wrote_1]) (use 1 True j in auto)
    then show ?thesis
      using j True w
      by (intro exI [of _ "Suc j"] exI [of _ d']) (auto simp: WriteBits_align.simps [of d ab bits i])
  next
    case False
    then show ?thesis
      using 1 by (intro exI [of _ 0] exI [of _ d])
        (auto simp: WriteBits_align.simps [of d ab bits i] wrote_0)
  qed
qed

lemma WriteBits_bytes_spec:
  assumes "i \<le> length bits" "ab + (length bits - i) \<le> 8 * length d" "i = length bits \<or> ab mod 8 = 0"
  shows "\<exists>j d'. WriteBits_bytes d ab bits i = Inr (d', ab + j, i + j) \<and> i + j \<le> length bits \<and>
           wrote d ab bits i j d'"
  using assms
proof (induction d ab bits i rule: WriteBits_bytes.induct)
  case (1 d ab bits i)
  show ?case
  proof (cases "i + 8 \<le> length bits")
    case True
    let ?d = "d[ab div 8 := ParseBitByteLsb (drop i bits)]"
    have a: "ab mod 8 = 0" and b: "ab + 8 \<le> 8 * length d" and c: "ab div 8 < length d"
      using 1 True by auto
    obtain j d' where j: "WriteBits_bytes ?d (ab + 8) bits (i + 8) = Inr (d', ab + 8 + j, i + 8 + j)"
      "i + 8 + j \<le> length bits" "wrote ?d (ab + 8) bits (i + 8) j d'"
      using "1.IH" [OF True, of ?d] "1.prems" True a c by auto
    have "wrote d ab bits i (8 + j) d'"
      by (rule wrote_trans [OF wrote_8 [OF a b True] j(3)])
    then show ?thesis
      using j True c
      by (intro exI [of _ "8 + j"] exI [of _ d']) (auto simp: WriteBits_bytes.simps [of d ab bits i] add_ac)
  next
    case False
    then show ?thesis
      using 1 by (intro exI [of _ 0] exI [of _ d])
        (auto simp: WriteBits_bytes.simps [of d ab bits i] wrote_0)
  qed
qed

lemma WriteBits_tail_spec:
  assumes "i \<le> length bits" "ab + (length bits - i) \<le> 8 * length d"
  shows "\<exists>d'. WriteBits_tail d ab bits i = Inr d' \<and> wrote d ab bits i (length bits - i) d'"
  using assms
proof (induction d ab bits i rule: WriteBits_tail.induct)
  case (1 d ab bits i)
  show ?case
  proof (cases "i < length bits")
    case True
    let ?d = "put_bit d ab (bits ! i = CHR ''1'')"
    have w: "WriteSingleBit d ab (bits ! i = CHR ''1'') = Inr ?d"
      by (rule WriteSingleBit_eq) (use 1 True in auto)
    obtain d' where d': "WriteBits_tail ?d (ab + 1) bits (i + 1) = Inr d'"
      "wrote ?d (ab + 1) bits (i + 1) (length bits - (i + 1)) d'"
    proof -
      have "i + 1 \<le> length bits" "ab + 1 + (length bits - (i + 1)) \<le> 8 * length ?d"
        using "1.prems" True by auto
      from "1.IH" [OF True w this] show ?thesis by (elim exE conjE) (rule that)
    qed
    have "wrote d ab bits i (Suc 0 + (length bits - (i + 1))) d'"
      by (rule wrote_trans [OF wrote_1]) (use 1 True d' in auto)
    then show ?thesis
      using d' True w by (auto simp: WriteBits_tail.simps [of d ab bits i] Suc_diff_Suc)
  next
    case False
    then show ?thesis using 1 by (subst WriteBits_tail.simps) (auto simp: wrote_0)
  qed
qed

lemma WriteBits_wrote:
  assumes "length d < 2 ^ 61" "off + length bits \<le> 8 * length d" "IsBitString bits"
  shows "\<exists>d'. WriteBits d off bits = Inr d' \<and> wrote d off bits 0 (length bits) d'"
proof -
  obtain j d1 where 1: "WriteBits_align d off bits 0 = Inr (d1, off + j, j)" "j \<le> length bits"
    "wrote d off bits 0 j d1" "j = length bits \<or> (off + j) mod 8 = 0"
    using WriteBits_align_spec [of 0 bits off d] assms by auto
  obtain k d2 where 2: "WriteBits_bytes d1 (off + j) bits j = Inr (d2, off + j + k, j + k)"
    "j + k \<le> length bits" "wrote d1 (off + j) bits j k d2"
  proof -
    have "off + j + (length bits - j) \<le> 8 * length d1"
      using assms(2) 1(2) wrote_length [OF 1(3)] by simp
    from WriteBits_bytes_spec [OF 1(2) this 1(4)] show ?thesis by (elim exE conjE) (rule that)
  qed
  obtain d3 where 3: "WriteBits_tail d2 (off + j + k) bits (j + k) = Inr d3"
    "wrote d2 (off + j + k) bits (j + k) (length bits - (j + k)) d3"
  proof -
    have "off + j + k + (length bits - (j + k)) \<le> 8 * length d2"
      using assms(2) 2(2) wrote_length [OF 1(3)] wrote_length [OF 2(3)] by simp
    from WriteBits_tail_spec [OF 2(2) this] show ?thesis by (elim exE conjE) (rule that)
  qed
  have "wrote d off bits 0 (j + k) d2"
    using wrote_trans [OF 1(3)] 2(3) by simp
  then have "wrote d off bits 0 (j + k + (length bits - (j + k))) d3"
    using wrote_trans [of d off bits 0 "j + k" d2 "length bits - (j + k)" d3] 3(2)
    by (simp add: add.assoc)
  then have w: "wrote d off bits 0 (length bits) d3" using 2(2) by simp
  have "size_add off (length bits) \<le> size_mul (length d) 8" using assms by simp
  moreover have "d3 = d" if "bits = []"
    using w that by (intro bytes_eqI) (auto simp: wrote_def)
  ultimately show ?thesis
    using 1 2 3 w assms(3) by (auto simp: WriteBits_def Let_def intro!: exI [of _ d3])
qed

lemma IsBitString_nth: "IsBitString s \<Longrightarrow> i < length s \<Longrightarrow> s ! i = CHR ''0'' \<or> s ! i = CHR ''1''"
  by (auto simp: IsBitString_def list_all_length)

section \<open>The codec as a store of bit strings\<close>

interpretation bit_codec: bit_range_store ExtractBits "\<lambda>d off n bits. WriteBits d off bits"
  "\<lambda>n bits. length bits = n \<and> IsBitString bits" "\<lambda>bits i. bits ! i = CHR ''1''"
proof unfold_locales
  fix d :: bytes and off n :: nat
  assume "length d < 2 ^ 61" "off + n \<le> 8 * length d"
  then show "\<exists>v. ExtractBits d off n = Inr v \<and> (length v = n \<and> IsBitString v) \<and>
      (\<forall>i<n. (v ! i = CHR ''1'') = byte_bit d (off + i))"
    by (simp add: ExtractBits_eq) (auto simp: bit_chars_def bit_char_def IsBitString_def list_all_iff)
next
  fix d :: bytes and off n :: nat and v :: string
  assume "length d < 2 ^ 61" "off + n \<le> 8 * length d" "length v = n \<and> IsBitString v"
  then show "\<exists>d'. WriteBits d off v = Inr d' \<and> length d' = length d \<and>
      (\<forall>k<8 * length d. byte_bit d' k =
         (if off \<le> k \<and> k < off + n then v ! (k - off) = CHR ''1'' else byte_bit d k))"
    using WriteBits_wrote [of d off v] by (auto simp: wrote_def)
next
  fix n :: nat and v w :: string
  assume vw: "length v = n \<and> IsBitString v" "length w = n \<and> IsBitString w"
    "\<forall>i<n. (v ! i = CHR ''1'') = (w ! i = CHR ''1'')"
  show "v = w"
  proof (rule nth_equalityI)
    fix i assume "i < length v"
    then show "v ! i = w ! i"
      using vw IsBitString_nth [of v i] IsBitString_nth [of w i] by fastforce
  qed (use vw in simp)
qed

section \<open>Properties\<close>

text \<open>
  Claim C23. Writing a string of bits inside the array succeeds, keeps the array's length,
  reads back as the same string, and leaves every disjoint range of bits as it was.
\<close>

theorem WriteBits_ExtractBits:
  assumes "length d < 2 ^ 61" "off + length bits \<le> 8 * length d" "IsBitString bits"
    and "off' + m \<le> 8 * length d" "off + length bits \<le> off' \<or> off' + m \<le> off"
  shows "\<exists>d'. WriteBits d off bits = Inr d' \<and> length d' = length d \<and>
    ExtractBits d' off (length bits) = Inr bits \<and> ExtractBits d' off' m = ExtractBits d off' m"
proof -
  have v: "length bits = length bits \<and> IsBitString bits" using assms(3) by simp
  obtain d' where d': "WriteBits d off bits = Inr d'" "length d' = length d"
    using bit_codec.wr_ok [OF assms(1,2) v] by blast
  then show ?thesis
    using bit_codec.rd_wr_same [OF assms(1,2) v d'(1)]
      bit_codec.rd_wr_other [OF assms(1,2) v d'(1) assms(4,5)] by blast
qed

theorem WriteBits_ExtractBits_witness:
  "\<exists>d'. WriteBits [0xFF, 0] 6 ''0110'' = Inr d' \<and> length d' = length [0xFF, 0 :: byte] \<and>
    ExtractBits d' 6 (length ''0110'') = Inr ''0110'' \<and>
    ExtractBits d' 1 5 = ExtractBits [0xFF, 0] 1 5"
  by (rule WriteBits_ExtractBits) (simp_all add: IsBitString_def)

text \<open>
  Claim C24. \<open>ExtractBits\<close> on every offset and count of \<open>std::size_t\<close> that a string can hold (a count below \<open>2\<^sup>6\<^sup>3\<close>)
  and every array below \<open>2\<^sup>6\<^sup>1\<close> bytes: for a range within the array the three loops together return the
  characters of its bits in order.  A range past the end is refused with \<open>std::out_of_range\<close>, except
  when offset plus count reaches \<open>2\<^sup>6\<^sup>4\<close> and the wrapped sum is within the array: that range passes
  the check, and the loops read outside the array.
\<close>

theorem ExtractBits_characters:
  assumes "length data < 2 ^ 61" "off < 2 ^ 64" "n < 2 ^ 63"
  shows "ExtractBits data off n =
    (if n = 0 \<or> off + n \<le> 8 * length data
     then Inr (map (\<lambda>i. if byte_bit data (off + i) then CHR ''1'' else CHR ''0'') [0..<n])
     else if off + n < 2 ^ 64 \<or> off + n > 2 ^ 64 + 8 * length data
     then Inl (OutOfRange ''bit range out of bounds'')
     else Inl (Undefined ''index''))"
proof (cases "n = 0 \<or> off + n \<le> 8 * length data")
  case True
  show ?thesis
  proof (cases "n = 0")
    case False
    then show ?thesis using True ExtractBits_eq [OF assms(1)] by (simp add: bit_chars_def)
  qed (simp add: ExtractBits_def)
next
  case False
  have m: "size_mul (length data) 8 = 8 * length data" using assms(1) by simp
  have "size_add off n = off + n - 2 ^ 64" if "2 ^ 64 \<le> off + n"
    unfolding size_add_def using that assms(2,3) by (subst le_mod_geq) simp_all
  then show ?thesis
    using False m ExtractBits_past [of data off n] by (cases "off + n < 2 ^ 64") (auto simp: ExtractBits_def Let_def)
qed

theorem ExtractBits_characters_witness:
  "ExtractBits [0x2C] 1 4 = Inr ''0110'' \<and> ExtractBits [0x2C] 6 4 = Inl (OutOfRange ''bit range out of bounds'') \<and>
   ExtractBits [0x2C] (2 ^ 64 - 1) 2 = Inl (Undefined ''index'')"
  using ExtractBits_characters [of "[0x2C]" 1 4] ExtractBits_characters [of "[0x2C]" 6 4]
    ExtractBits_characters [of "[0x2C]" "2 ^ 64 - 1" 2]
  by (simp add: byte_bit_def upt_rec)

end
