(* ===== verification/Le_Codec.thy ===== *)
theory Le_Codec
  imports Chunkdb_Prelude
begin

text \<open>
  The little-endian integer fields of \<open>src/src/chunk_format.cpp\<close>: \<open>WriteLe16\<close>, \<open>WriteLe32\<close>
  and \<open>WriteLe64\<close> are modelled by the bytes they append, the readers by the value they return
  for in-range offsets. All are instances of \<open>le_bytes\<close> and \<open>le_word\<close>.
\<close>

definition WriteLe16 :: "u16 \<Rightarrow> bytes" where
  "WriteLe16 v = [ucast (v AND 0xFF), ucast (drop_bit 8 v AND 0xFF)]"

definition WriteLe32 :: "u32 \<Rightarrow> bytes" where
  "WriteLe32 v = [ucast (v AND 0xFF), ucast (drop_bit 8 v AND 0xFF),
     ucast (drop_bit 16 v AND 0xFF), ucast (drop_bit 24 v AND 0xFF)]"

definition WriteLe64 :: "u64 \<Rightarrow> bytes" where
  "WriteLe64 v = map (\<lambda>i. ucast (drop_bit (8 * i) v AND 0xFF)) [0..<8]"

definition ReadLe16 :: "bytes \<Rightarrow> nat \<Rightarrow> u16" where
  "ReadLe16 data offset = ucast (data ! offset) OR push_bit 8 (ucast (data ! (offset + 1)))"

definition ReadLe32 :: "bytes \<Rightarrow> nat \<Rightarrow> u32" where
  "ReadLe32 data offset = ucast (data ! offset) OR push_bit 8 (ucast (data ! (offset + 1)))
     OR push_bit 16 (ucast (data ! (offset + 2))) OR push_bit 24 (ucast (data ! (offset + 3)))"

definition ReadLe64 :: "bytes \<Rightarrow> nat \<Rightarrow> u64" where
  "ReadLe64 data offset =
     fold (\<lambda>i acc. acc OR push_bit (8 * i) (ucast (data ! (offset + i)))) [0..<8] 0"

section \<open>As little-endian byte strings\<close>

lemma ucast_and_FF: "ucast ((w :: 'a::len word) AND 0xFF) = (ucast w :: byte)"
proof (rule bit_word_eqI)
  fix n assume "n < LENGTH(8)"
  then have "n < 8" by simp
  then show "bit (ucast (w AND 0xFF) :: byte) n = bit (ucast w :: byte) n"
    by (auto simp only: bit_unsigned_iff bit_and_iff bit_consts possible_bit_word
        dest: bit_imp_le_length)
qed

lemma WriteLe16_le: "WriteLe16 v = le_bytes 2 v"
  by (simp add: WriteLe16_def le_bytes_def ucast_and_FF upt_rec)

lemma WriteLe32_le: "WriteLe32 v = le_bytes 4 v"
  by (simp add: WriteLe32_def le_bytes_def ucast_and_FF upt_rec)

lemma WriteLe64_le: "WriteLe64 v = le_bytes 8 v"
  by (simp add: WriteLe64_def le_bytes_def ucast_and_FF)

lemma length_WriteLe [simp]:
  "length (WriteLe16 a) = 2" "length (WriteLe32 b) = 4" "length (WriteLe64 c) = 8"
  by (simp_all add: WriteLe16_le WriteLe32_le WriteLe64_le)

lemma ReadLe16_le: "offset + 2 \<le> length data \<Longrightarrow> ReadLe16 data offset = le_word (take 2 (drop offset data))"
  by (simp add: ReadLe16_def take_Suc_conv_app_nth numeral_2_eq_2)

lemma le_word_snoc:
  "le_word (bs @ [b]) = (le_word bs :: 'a::len word) OR push_bit (8 * length bs) (ucast b)"
  by (induction bs) (simp_all add: push_bit_or or.assoc push_bit_push_bit add_ac)

lemma le_word_take_Suc:
  assumes "offset + n < length data"
  shows "(le_word (take (Suc n) (drop offset data)) :: 'a::len word) =
     le_word (take n (drop offset data)) OR push_bit (8 * n) (ucast (data ! (offset + n)))"
proof -
  have "take (Suc n) (drop offset data) = take n (drop offset data) @ [data ! (offset + n)]"
    using assms by (simp add: take_Suc_conv_app_nth)
  moreover have "length (take n (drop offset data)) = n" using assms by simp
  ultimately show ?thesis by (simp add: le_word_snoc del: take_Suc)
qed

lemma ReadLe32_le: "offset + 4 \<le> length data \<Longrightarrow> ReadLe32 data offset = le_word (take 4 (drop offset data))"
  by (simp add: ReadLe32_def le_word_take_Suc numeral_eq_Suc or.assoc)

lemma ReadLe64_le:
  assumes "offset + 8 \<le> length data"
  shows "ReadLe64 data offset = le_word (take 8 (drop offset data))"
proof -
  have "fold (\<lambda>i acc. acc OR push_bit (8 * i) (ucast (data ! (offset + i)))) [0..<n] 0 =
      (le_word (take n (drop offset data)) :: u64)" if "n \<le> 8" for n
    using that assms by (induction n) (simp_all add: le_word_take_Suc del: take_Suc)
  from this [of 8] show ?thesis by (simp add: ReadLe64_def)
qed

text \<open>A field read where it was written gives the value back.\<close>

lemma ReadLe_prefix:
  "drop offset data = WriteLe16 a @ r \<Longrightarrow> ReadLe16 data offset = a"
  "drop offset data = WriteLe32 b @ r \<Longrightarrow> ReadLe32 data offset = b"
  "drop offset data = WriteLe64 c @ r \<Longrightarrow> ReadLe64 data offset = c"
proof -
  assume a: "drop offset data = WriteLe16 a @ r"
  then have "length data - offset = 2 + length r" by (metis length_WriteLe(1) length_append length_drop)
  with a show "ReadLe16 data offset = a"
    by (simp add: ReadLe16_le WriteLe16_le le_word_le_bytes)
next
  assume a: "drop offset data = WriteLe32 b @ r"
  then have "length data - offset = 4 + length r" by (metis length_WriteLe(2) length_append length_drop)
  with a show "ReadLe32 data offset = b"
    by (simp add: ReadLe32_le WriteLe32_le le_word_le_bytes)
next
  assume a: "drop offset data = WriteLe64 c @ r"
  then have "length data - offset = 8 + length r" by (metis length_WriteLe(3) length_append length_drop)
  with a show "ReadLe64 data offset = c"
    by (simp add: ReadLe64_le WriteLe64_le le_word_le_bytes)
qed

end
