(* ===== verification/Zrle.thy ===== *)
theory Zrle
  imports Le_Codec
begin

text \<open>
  The zero-run codec of \<open>src/src/zrle.cpp\<close> (format CZ1): a header with the codec id and the
  uncompressed size, then tokens for runs of zero bytes and runs of literal bytes, each with
  a uleb128 length. \<open>std::vector\<close> outputs are modelled by the bytes a routine appends, the
  read position by \<open>cursor\<close>.
\<close>

section \<open>Definitions\<close>

definition kZrleCodecId :: byte where
  "kZrleCodecId = 1"

definition kZrleMaxOverheadBytes :: nat where
  "kZrleMaxOverheadBytes = 5 + 1 + 5"

text \<open>The bytes \<open>AppendUleb128\<close> appends for a value.\<close>

function AppendUleb128 :: "u64 \<Rightarrow> bytes" where
  "AppendUleb128 value =
     (if value \<ge> 0x80
      then ucast ((value AND 0x7F) OR 0x80) # AppendUleb128 (drop_bit 7 value)
      else [ucast value])"
  by pat_completeness auto
termination
proof (relation "measure unat")
  fix v :: u64 assume "v \<ge> 0x80"
  then have "unat (0x80 :: u64) \<le> unat v" by (simp add: word_le_nat_alt)
  then have "128 \<le> unat v" by simp
  moreover have "unat (drop_bit 7 v) = unat v div 128"
    by (simp only: unat_drop_bit_eq) (simp add: drop_bit_eq_div)
  ultimately have "unat (drop_bit 7 v) < unat v" by auto
  then show "(drop_bit 7 v, v) \<in> measure unat" by simp
qed simp

function ReadUleb128_loop :: "bytes \<Rightarrow> nat \<Rightarrow> u64 \<Rightarrow> nat \<Rightarrow> (u64 \<times> nat) res" where
  "ReadUleb128_loop data cursor value shift =
     (if cursor \<ge> length data then Inl (RuntimeError ''zrle: truncated varint'')
      else if shift \<ge> 63 then Inl (RuntimeError ''zrle: varint too large'')
      else rbind (at_index data cursor) (\<lambda>b.
           let cursor = cursor + 1;
               value = value OR push_bit shift (ucast (b AND 0x7F)) in
           if b AND 0x80 = 0 then Inr (value, cursor)
           else ReadUleb128_loop data cursor value (shift + 7)))"
  by pat_completeness auto
termination
  by (relation "measure (\<lambda>(data, cursor, value, shift). length data - cursor)") auto

definition ReadUleb128 :: "bytes \<Rightarrow> nat \<Rightarrow> (u64 \<times> nat) res" where
  "ReadUleb128 data cursor = ReadUleb128_loop data cursor 0 0"

text \<open>
  \<open>zero_run input base count\<close> advances \<open>count\<close> over zero bytes from \<open>base\<close>; \<open>literal_run\<close> is
  the run of a literal token, which takes in gaps of at most two zeros.
\<close>

function zero_run :: "bytes \<Rightarrow> nat \<Rightarrow> nat \<Rightarrow> nat" where
  "zero_run input base count =
     (if base + count < length input \<and> input ! (base + count) = 0
      then zero_run input base (count + 1) else count)"
  by pat_completeness auto
termination
  by (relation "measure (\<lambda>(input, base, count). length input - (base + count))") auto

declare zero_run.simps [simp del]

function literal_run :: "bytes \<Rightarrow> nat \<Rightarrow> nat \<Rightarrow> nat" where
  "literal_run input i run =
     (if i + run < length input
      then if input ! (i + run) \<noteq> 0 then literal_run input i (run + 1)
           else let zeros = zero_run input (i + run) 0 in
             if zeros \<le> 2 \<and> i + run + zeros < length input
             then literal_run input i (run + (zeros + 1))
             else run
      else run)"
  by pat_completeness auto
termination
  by (relation "measure (\<lambda>(input, i, run). length input - (i + run))") (auto simp: Let_def)

declare AppendUleb128.simps [simp del] ReadUleb128_loop.simps [simp del]
  literal_run.simps [simp del]

lemma zero_run_ge: "count \<le> zero_run input base count"
proof (induction input base count rule: zero_run.induct)
  case (1 input base count)
  then show ?case by (subst zero_run.simps) (auto dest: Suc_leD)
qed

lemma literal_run_ge: "run \<le> literal_run input i run"
proof (induction input i run rule: literal_run.induct)
  case (1 input i run)
  let ?z = "zero_run input (i + run) 0"
  show ?case
  proof (cases "i + run < length input")
    case True
    show ?thesis
    proof (cases "input ! (i + run) = 0")
      case z: True
      show ?thesis
        using "1.IH"(2) [OF True _ refl] z True by (subst literal_run.simps) (auto simp: Let_def)
    next
      case False
      then show ?thesis
        using "1.IH"(1) [OF True False] True by (subst literal_run.simps) auto
    qed
  next
    case False
    then show ?thesis by (subst literal_run.simps) simp
  qed
qed

text \<open>The tokens the compression loop appends from position \<open>i\<close> on.\<close>

function ZrleCompress_tokens :: "bytes \<Rightarrow> nat \<Rightarrow> bytes" where
  "ZrleCompress_tokens input i =
     (if i < length input
      then if input ! i = 0
           then let run = zero_run input i 1 in
                0x00 # AppendUleb128 (of_nat run) @ ZrleCompress_tokens input (i + run)
           else let run = literal_run input i 1 in
                0x01 # AppendUleb128 (of_nat run) @ take run (drop i input)
                  @ ZrleCompress_tokens input (i + run)
      else [])"
  by pat_completeness auto
termination
proof (relation "measure (\<lambda>(input, i). length input - i)")
  fix input :: bytes and i run
  assume "i < length input" "run = zero_run input i 1"
  then show "((input, i + run), (input, i)) \<in> measure (\<lambda>(input, i). length input - i)"
    using zero_run_ge [of 1 input i] by auto
next
  fix input :: bytes and i run
  assume "i < length input" "run = literal_run input i 1"
  then show "((input, i + run), (input, i)) \<in> measure (\<lambda>(input, i). length input - i)"
    using literal_run_ge [of 1 input i] by auto
qed simp

definition ZrleHeader :: "bytes \<Rightarrow> bytes" where
  "ZrleHeader input =
     (let size32 = of_nat (length input) :: u32 in
      [kZrleCodecId, ucast (size32 AND 0xFF), ucast (drop_bit 8 size32 AND 0xFF),
       ucast (drop_bit 16 size32 AND 0xFF), ucast (drop_bit 24 size32 AND 0xFF)])"

definition ZrleCompress :: "bytes \<Rightarrow> bytes res" where
  "ZrleCompress input =
     (if length input > 0xFFFFFFFF then Inl (RuntimeError ''zrle: input too large'')
      else let out = ZrleHeader input @ ZrleCompress_tokens input 0;
               literal_only = take 5 out @
                 (if input \<noteq> [] then 0x01 # AppendUleb128 (of_nat (length input)) else []) in
           if length out > length literal_only + length input
           then Inr (literal_only @ input)
           else Inr out)"

definition DeclaredSize32 :: "bytes \<Rightarrow> u32" where
  "DeclaredSize32 data =
     ucast (data ! 1) OR push_bit 8 (ucast (data ! 2)) OR push_bit 16 (ucast (data ! 3))
       OR push_bit 24 (ucast (data ! 4))"

lemma ReadUleb128_loop_cursor:
  "ReadUleb128_loop data cursor acc shift = Inr (v, c) \<Longrightarrow> cursor < c \<and> c \<le> length data"
proof (induction data cursor acc shift rule: ReadUleb128_loop.induct)
  case (1 data cursor acc shift)
  show ?case
    using "1.prems" "1.IH" [OF _ _ _ refl refl]
    by (auto simp: ReadUleb128_loop.simps [of data cursor acc shift] Let_def split: if_splits)
qed

lemma ReadUleb128_cursor:
  "ReadUleb128 data cursor = Inr x \<Longrightarrow> cursor < snd x \<and> snd x \<le> length data"
  using ReadUleb128_loop_cursor [of data cursor 0 0 "fst x" "snd x"] by (simp add: ReadUleb128_def)

text \<open>
  One token: the new cursor and output.  \<open>size - cursor\<close> cannot wrap, the varint reader stops within the
  input; \<open>expected_output_size - out.size()\<close> is the subtraction of \<open>std::size_t\<close>.
\<close>

definition ZrleDecompress_token :: "bytes \<Rightarrow> nat \<Rightarrow> nat \<times> bytes \<Rightarrow> (nat \<times> bytes) res" where
  "ZrleDecompress_token data expected_output_size = (\<lambda>(cursor, out).
     rbind (at_index data cursor) (\<lambda>token.
     rbind (ReadUleb128 data (cursor + 1)) (\<lambda>(run, cursor).
       if run = 0 then Inl (RuntimeError ''zrle: zero-length run'')
       else if unat run > size_sub expected_output_size (length out)
       then Inl (RuntimeError ''zrle: output overflows expected size'')
       else if token = 0x00 then Inr (cursor, out @ replicate (unat run) 0)
       else if token = 0x01
       then if unat run > length data - cursor
            then Inl (RuntimeError ''zrle: truncated literal run'')
            else rbind (at_range data cursor (unat run)) (\<lambda>literal. Inr (cursor + unat run, out @ literal))
       else Inl (RuntimeError ''zrle: unknown token''))))"

lemma ZrleDecompress_token_cursor:
  "ZrleDecompress_token data e (cursor, out) = Inr (cursor', out') \<Longrightarrow> cursor < cursor'"
  by (auto simp: ZrleDecompress_token_def dest!: ReadUleb128_cursor split: if_splits)

function ZrleDecompress_loop :: "bytes \<Rightarrow> nat \<Rightarrow> nat \<Rightarrow> bytes \<Rightarrow> bytes res" where
  "ZrleDecompress_loop data cursor expected_output_size out =
     (if cursor < length data
      then rbind (ZrleDecompress_token data expected_output_size (cursor, out)) (\<lambda>(cursor, out).
             ZrleDecompress_loop data cursor expected_output_size out)
      else if length out \<noteq> expected_output_size
      then Inl (RuntimeError ''zrle: output smaller than expected size'')
      else Inr out)"
  by pat_completeness auto
termination
  by (relation "measure (\<lambda>(data, cursor, e, out). length data - cursor)")
    (auto dest!: ZrleDecompress_token_cursor)

definition ZrleDecompress_header :: "bytes \<Rightarrow> nat \<Rightarrow> unit res" where
  "ZrleDecompress_header data expected_output_size =
     (if length data < 5 then Inl (RuntimeError ''zrle: input too small'')
      else if data ! 0 \<noteq> kZrleCodecId then Inl (RuntimeError ''zrle: unsupported codec id'')
      else if unat (DeclaredSize32 data) \<noteq> expected_output_size
      then Inl (RuntimeError ''zrle: declared size does not match expected size'')
      else Inr ())"

definition ZrleDecompress :: "bytes \<Rightarrow> nat \<Rightarrow> bytes res" where
  "ZrleDecompress data expected_output_size =
     rbind (ZrleDecompress_header data expected_output_size) (\<lambda>_.
       ZrleDecompress_loop data 5 expected_output_size [])"

text \<open>The states, cursor and output, that the token loop goes through.\<close>

inductive decompressing :: "bytes \<Rightarrow> nat \<Rightarrow> nat \<times> bytes \<Rightarrow> bool" for data n where
  start: "ZrleDecompress_header data n = Inr () \<Longrightarrow> decompressing data n (5, [])"
| token: "decompressing data n (cursor, out) \<Longrightarrow> cursor < length data \<Longrightarrow>
    ZrleDecompress_token data n (cursor, out) = Inr s \<Longrightarrow> decompressing data n s"

definition ZrleDeclaredSize :: "bytes \<Rightarrow> nat res" where
  "ZrleDeclaredSize data =
     (if length data < 5 \<or> data ! 0 \<noteq> kZrleCodecId
      then Inl (RuntimeError ''zrle input has no valid header'')
      else Inr (unat (ucast (data ! 1) OR push_bit 8 (ucast (data ! 2)) OR push_bit 16 (ucast (data ! 3))
             OR push_bit 24 (ucast (data ! 4)) :: u64)))"

declare ZrleCompress_tokens.simps [simp del] ZrleDecompress_loop.simps [simp del]

section \<open>Variable-length integers\<close>

lemma uleb_more:
  fixes w :: u64
  defines "b \<equiv> (ucast ((w AND 0x7F) OR 0x80) :: byte)"
  shows "b AND 0x80 \<noteq> 0" and "(ucast (b AND 0x7F) :: u64) = take_bit 7 w"
proof -
  have "bit (b AND 0x80) 7"
    by (simp only: b_def bit_and_iff bit_unsigned_iff bit_or_iff bit_consts possible_bit_word) simp
  then show "b AND 0x80 \<noteq> 0" by (metis bit_0_eq bot_apply bot_bool_def)
  show "(ucast (b AND 0x7F) :: u64) = take_bit 7 w"
  proof (rule bit_word_eqI)
    fix n assume "n < LENGTH(64)"
    then show "bit (ucast (b AND 0x7F) :: u64) n = bit (take_bit 7 w) n"
      by (auto simp only: b_def bit_and_iff bit_unsigned_iff bit_or_iff bit_consts
          possible_bit_word bit_take_bit_iff) auto
  qed
qed

lemma uleb_last:
  fixes w :: u64
  assumes "\<not> w \<ge> 0x80"
  shows "(ucast w :: byte) AND 0x80 = 0" and "(ucast ((ucast w :: byte) AND 0x7F) :: u64) = w"
proof -
  have "unat w < 128" using assms by (simp add: word_le_nat_alt)
  then have "take_bit 7 w = w"
    by (simp add: word_unat_eq_iff unsigned_take_bit_eq take_bit_nat_eq_self_iff)
  then have *: "bit w n \<Longrightarrow> n < 7" for n by (metis bit_take_bit_iff)
  show "(ucast w :: byte) AND 0x80 = 0"
    by (rule bit_word_eqI) (auto simp only: bit_and_iff bit_unsigned_iff bit_consts bit_0_eq bot_apply bot_bool_def dest!: *)
  show "(ucast ((ucast w :: byte) AND 0x7F) :: u64) = w"
  proof (rule bit_word_eqI)
    fix n assume "n < LENGTH(64)"
    then show "bit (ucast ((ucast w :: byte) AND 0x7F) :: u64) n = bit w n"
      using * [of n]
      by (auto simp only: bit_and_iff bit_unsigned_iff bit_consts possible_bit_word; simp)
  qed
qed

lemma AppendUleb128_nonempty [simp]: "AppendUleb128 v \<noteq> []"
  by (subst AppendUleb128.simps) simp

lemma ReadUleb128_loop_Append:
  assumes "drop cursor data = AppendUleb128 (drop_bit s V) @ rest" "s < 63" "unat V < 2 ^ 63"
  shows "ReadUleb128_loop data cursor (take_bit s V) s =
           Inr (V, cursor + length (AppendUleb128 (drop_bit s V)))"
  using assms(1,2)
proof (induction "unat (drop_bit s V)" arbitrary: s cursor rule: less_induct)
  case less
  let ?w = "drop_bit s V"
  have ne: "cursor < length data"
    using less.prems(1) by (cases "cursor < length data") auto
  have split: "V = take_bit s V OR push_bit s ?w"
    by (rule bit_word_eqI) (auto simp: bit_simps, metis le_add_diff_inverse not_less)
  have unat_w: "unat ?w = unat V div 2 ^ s"
    by (simp only: unat_drop_bit_eq) (simp add: drop_bit_eq_div)
  show ?case
  proof (cases "?w \<ge> 0x80")
    case True
    let ?b = "ucast ((?w AND 0x7F) OR 0x80) :: byte"
    have enc: "AppendUleb128 ?w = ?b # AppendUleb128 (drop_bit (s + 7) V)"
      using True by (subst AppendUleb128.simps) (simp add: add.commute)
    have d: "data ! cursor = ?b" "drop (cursor + 1) data = AppendUleb128 (drop_bit (s + 7) V) @ rest"
      using less.prems(1) ne enc Cons_nth_drop_Suc [OF ne] by auto
    have "128 \<le> unat V div 2 ^ s" using True unat_w by (simp add: word_le_nat_alt)
    then have big: "2 ^ (s + 7) \<le> unat V"
      by (simp add: power_add less_eq_div_iff_mult_less_eq mult.commute)
    then have s7: "s + 7 < 63"
      using assms(3) by (metis le_less_trans nat_power_less_imp_less zero_less_numeral)
    have "unat (drop_bit (s + 7) V) = unat V div 2 ^ (s + 7)"
      by (simp only: unat_drop_bit_eq) (simp add: drop_bit_eq_div)
    also have "\<dots> < unat V div 2 ^ s"
      using \<open>128 \<le> unat V div 2 ^ s\<close> by (simp add: power_add div_mult2_eq)
    finally have dec: "unat (drop_bit (s + 7) V) < unat ?w" using unat_w by simp
    have acc: "take_bit s V OR push_bit s (take_bit 7 ?w) = take_bit (s + 7) V"
      by (rule bit_word_eqI) (auto simp: bit_simps)
    have "ReadUleb128_loop data (cursor + 1) (take_bit (s + 7) V) (s + 7) =
        Inr (V, cursor + 1 + length (AppendUleb128 (drop_bit (s + 7) V)))"
      by (rule less.hyps [OF dec d(2) s7])
    then show ?thesis
      using ne less.prems(2) d(1) enc
      by (subst ReadUleb128_loop.simps) (simp add: Let_def uleb_more acc)
  next
    case False
    have enc: "AppendUleb128 ?w = [ucast ?w]" using False by (subst AppendUleb128.simps) simp
    have "data ! cursor = ucast ?w"
      using less.prems(1) ne enc Cons_nth_drop_Suc [OF ne] by auto
    then show ?thesis
      using ne less.prems(2) enc uleb_last [OF False] split
      by (subst ReadUleb128_loop.simps) (simp add: Let_def)
  qed
qed

lemma ReadUleb128_Append:
  assumes "drop cursor data = AppendUleb128 V @ rest" "unat V < 2 ^ 63"
  shows "ReadUleb128 data cursor = Inr (V, cursor + length (AppendUleb128 V))"
  using ReadUleb128_loop_Append [of cursor data 0 V rest] assms by (simp add: ReadUleb128_def)

lemma length_AppendUleb128:
  "unat v < 2 ^ (7 * Suc k) \<Longrightarrow> length (AppendUleb128 v) \<le> Suc k"
proof (induction k arbitrary: v)
  case 0
  then have "\<not> v \<ge> 0x80" by (simp add: word_le_nat_alt)
  then show ?case by (subst AppendUleb128.simps) simp
next
  case (Suc k)
  have "unat (drop_bit 7 v) = unat v div 128"
    by (simp only: unat_drop_bit_eq) (simp add: drop_bit_eq_div)
  moreover have "unat v < 128 * 2 ^ (7 * Suc k)"
    using Suc.prems by (simp add: power_add)
  ultimately have "unat (drop_bit 7 v) < 2 ^ (7 * Suc k)" by (simp add: less_mult_imp_div_less mult.commute)
  then have "length (AppendUleb128 (drop_bit 7 v)) \<le> Suc k" by (rule Suc.IH)
  then show ?case by (subst AppendUleb128.simps) simp
qed

section \<open>Runs\<close>

lemma zero_run_spec:
  assumes "base + count \<le> length input"
  shows "base + zero_run input base count \<le> length input \<and>
     (\<forall>j. count \<le> j \<longrightarrow> j < zero_run input base count \<longrightarrow> input ! (base + j) = 0)"
  using assms
proof (induction input base count rule: zero_run.induct)
  case (1 input base count)
  show ?case
  proof (cases "base + count < length input \<and> input ! (base + count) = 0")
    case True
    have rec: "zero_run input base count = zero_run input base (count + 1)"
      using True by (subst zero_run.simps) simp
    have IH: "base + zero_run input base (count + 1) \<le> length input \<and>
       (\<forall>j. count + 1 \<le> j \<longrightarrow> j < zero_run input base (count + 1) \<longrightarrow> input ! (base + j) = 0)"
      using "1.IH" [OF True] True by simp
    show ?thesis unfolding rec
    proof (intro conjI allI impI)
      fix j assume "count \<le> j" "j < zero_run input base (count + 1)"
      then show "input ! (base + j) = 0"
        using IH True by (cases "j = count") auto
    qed (use IH in simp)
  next
    case False
    then have "zero_run input base count = count" by (subst zero_run.simps) auto
    with "1.prems" show ?thesis by auto
  qed
qed

lemma zero_run_replicate:
  assumes "i < length input" "input ! i = 0"
  shows "take (zero_run input i 1) (drop i input) = replicate (zero_run input i 1) 0"
proof (rule nth_equalityI)
  let ?r = "zero_run input i 1"
  have r: "i + ?r \<le> length input" "\<And>j. 1 \<le> j \<Longrightarrow> j < ?r \<Longrightarrow> input ! (i + j) = 0"
    using zero_run_spec [of i 1 input] assms by auto
  show "length (take ?r (drop i input)) = length (replicate ?r (0 :: byte))" using r by simp
  fix j assume "j < length (take ?r (drop i input))"
  then have "j < ?r" by simp
  then show "take ?r (drop i input) ! j = replicate ?r 0 ! j"
    using r(1) r(2) [of j] assms by (cases "j = 0") auto
qed

lemma literal_run_le: "i + run \<le> length input \<Longrightarrow> i + literal_run input i run \<le> length input"
proof (induction input i run rule: literal_run.induct)
  case (1 input i run)
  let ?z = "zero_run input (i + run) 0"
  show ?case
  proof (cases "i + run < length input")
    case True
    show ?thesis
    proof (cases "input ! (i + run) = 0")
      case z: True
      show ?thesis
        using "1.IH"(2) [OF True _ refl] z True by (subst literal_run.simps) (auto simp: Let_def)
    next
      case False
      then show ?thesis
        using "1.IH"(1) [OF True False] True by (subst literal_run.simps) auto
    qed
  next
    case False
    then show ?thesis using "1.prems" by (subst literal_run.simps) simp
  qed
qed

section \<open>Round trip\<close>

text \<open>One token decoded at the cursor.\<close>

lemma decode_zero_token:
  assumes "drop cursor data = 0x00 # AppendUleb128 (of_nat run) @ rest"
    and "0 < run" "run < 2 ^ 63" "length out + run \<le> e" "e < 2 ^ 64"
  shows "ZrleDecompress_loop data cursor e out =
     ZrleDecompress_loop data (cursor + 1 + length (AppendUleb128 (of_nat run))) e (out @ replicate run 0)"
proof -
  have c: "cursor < length data" using assms(1) by (cases "cursor < length data") auto
  have d: "data ! cursor = 0" "drop (cursor + 1) data = AppendUleb128 (of_nat run) @ rest"
    using assms(1) Cons_nth_drop_Suc [OF c] by auto
  have u: "unat (of_nat run :: u64) = run" using assms(3) by (simp add: unat_of_nat take_bit_nat_eq_self)
  have "ReadUleb128 data (cursor + 1) = Inr (of_nat run, cursor + 1 + length (AppendUleb128 (of_nat run)))"
    by (rule ReadUleb128_Append [OF d(2)]) (use u assms in simp)
  moreover have "(of_nat run :: u64) \<noteq> 0" using u assms(2) by auto
  moreover have "\<not> size_sub e (length out) < run" using assms(4,5) by simp
  ultimately show ?thesis
    using c d u by (subst ZrleDecompress_loop.simps) (simp add: ZrleDecompress_token_def)
qed

lemma decode_literal_token:
  assumes "drop cursor data = 0x01 # AppendUleb128 (of_nat run) @ lit @ rest" "length lit = run"
    and "0 < run" "run < 2 ^ 63" "length out + run \<le> e" "e < 2 ^ 64"
  shows "ZrleDecompress_loop data cursor e out =
     ZrleDecompress_loop data (cursor + 1 + length (AppendUleb128 (of_nat run)) + run) e (out @ lit)"
proof -
  have c: "cursor < length data" using assms(1) by (cases "cursor < length data") auto
  let ?u = "AppendUleb128 (of_nat run)"
  have d: "data ! cursor = 1" "drop (cursor + 1) data = ?u @ lit @ rest"
    using assms(1) Cons_nth_drop_Suc [OF c] by auto
  have u: "unat (of_nat run :: u64) = run" using assms(4) by (simp add: unat_of_nat take_bit_nat_eq_self)
  have r: "ReadUleb128 data (cursor + 1) = Inr (of_nat run, cursor + 1 + length ?u)"
    by (rule ReadUleb128_Append [OF d(2)]) (use u assms in simp)
  have dl: "drop (cursor + 1 + length ?u) data = lit @ rest"
    using d(2) by (metis append_eq_conv_conj drop_drop add.commute)
  then have "run \<le> length data - (cursor + 1 + length ?u)"
    using assms(2) by (metis length_append length_drop le_add1)
  moreover from this have "cursor + 1 + length ?u + run \<le> length data" using assms(3) by simp
  moreover have "take run (drop (cursor + 1 + length ?u) data) = lit" using dl assms(2) by simp
  moreover have "(of_nat run :: u64) \<noteq> 0" using u assms(3) by auto
  moreover have "\<not> size_sub e (length out) < run" using assms(5,6) by simp
  ultimately show ?thesis
    using c d u r by (subst ZrleDecompress_loop.simps) (simp add: ZrleDecompress_token_def)
qed

lemma decode_end: "cursor \<ge> length data \<Longrightarrow> length out = e \<Longrightarrow> ZrleDecompress_loop data cursor e out = Inr out"
  by (subst ZrleDecompress_loop.simps) simp

lemma drop_token:
  "drop cursor data = a # u @ rest \<Longrightarrow> drop (cursor + 1 + length u) data = rest"
  by (metis append_Cons append_eq_conv_conj drop_drop add.commute length_Cons plus_1_eq_Suc)

lemma decode_tokens:
  assumes "drop cursor data = ZrleCompress_tokens input i" "i \<le> length input"
    and "length input < 2 ^ 63" "length out + (length input - i) = e" "cursor \<le> length data" "e < 2 ^ 64"
  shows "ZrleDecompress_loop data cursor e out = Inr (out @ drop i input)"
  using assms
proof (induction input i arbitrary: cursor out rule: ZrleCompress_tokens.induct)
  case (1 input i)
  show ?case
  proof (cases "i < length input")
    case i: True
    show ?thesis
    proof (cases "input ! i = 0")
      case z: True
      define run where "run = zero_run input i 1"
      let ?u = "AppendUleb128 (of_nat run)"
      have run: "0 < run" "i + run \<le> length input"
        using zero_run_ge [of 1 input i] zero_run_spec [of i 1 input] i by (auto simp: run_def)
      have tok: "drop cursor data = 0 # ?u @ ZrleCompress_tokens input (i + run)"
        using "1.prems"(1) i z by (simp add: ZrleCompress_tokens.simps [of input i] run_def Let_def)
      have d: "drop (cursor + 1 + length ?u) data = ZrleCompress_tokens input (i + run)"
        by (rule drop_token [OF tok])
      have "length (drop cursor data) = 1 + length ?u + length (ZrleCompress_tokens input (i + run))"
        by (subst tok) simp
      then have c: "cursor + 1 + length ?u \<le> length data" by simp
      have "ZrleDecompress_loop data cursor e out =
          ZrleDecompress_loop data (cursor + 1 + length ?u) e (out @ replicate run 0)"
        by (rule decode_zero_token [OF tok]) (use run "1.prems" in auto)
      also have "\<dots> = Inr ((out @ replicate run 0) @ drop (i + run) input)"
        by (rule "1.IH"(1) [OF i z run_def d]) (use run "1.prems" c in auto)
      also have "replicate run 0 = take run (drop i input)"
        using zero_run_replicate [OF i z] by (simp add: run_def)
      finally show ?thesis by (metis append.assoc append_take_drop_id drop_drop add.commute)
    next
      case nz: False
      define run where "run = literal_run input i 1"
      let ?u = "AppendUleb128 (of_nat run)" and ?l = "take run (drop i input)"
      have run: "0 < run" "i + run \<le> length input"
        using literal_run_ge [of 1 input i] literal_run_le [of i 1 input] i by (auto simp: run_def)
      have tok: "drop cursor data = 1 # ?u @ ?l @ ZrleCompress_tokens input (i + run)"
        using "1.prems"(1) i nz by (simp add: ZrleCompress_tokens.simps [of input i] run_def Let_def)
      have l: "length ?l = run" using run by simp
      have d': "drop (cursor + 1 + length (?u @ ?l)) data = ZrleCompress_tokens input (i + run)"
        by (rule drop_token [of cursor data 1]) (simp add: tok)
      have "length (drop cursor data) = 1 + length ?u + run + length (ZrleCompress_tokens input (i + run))"
        by (subst tok) (simp add: l del: length_take)
      then have c: "cursor + 1 + length ?u + run \<le> length data" by simp
      have d: "drop (cursor + 1 + length ?u + run) data = ZrleCompress_tokens input (i + run)"
        using d' l by (simp add: add.assoc)
      have "ZrleDecompress_loop data cursor e out =
          ZrleDecompress_loop data (cursor + 1 + length ?u + run) e (out @ ?l)"
        by (rule decode_literal_token [OF tok l]) (use run "1.prems" in auto)
      also have "\<dots> = Inr ((out @ ?l) @ drop (i + run) input)"
        by (rule "1.IH"(2) [OF i nz run_def d]) (use run "1.prems" c l in auto)
      finally show ?thesis by (metis append.assoc append_take_drop_id drop_drop add.commute)
    qed
  next
    case False
    then have "ZrleCompress_tokens input i = []" by (subst ZrleCompress_tokens.simps) simp
    then show ?thesis using "1.prems" False by (simp add: decode_end)
  qed
qed

lemma ZrleHeader_le: "ZrleHeader input = kZrleCodecId # le_bytes 4 (of_nat (length input) :: u32)"
  by (simp add: ZrleHeader_def Let_def flip: WriteLe32_le) (simp add: WriteLe32_def)

lemma DeclaredSize32_le: "5 \<le> length data \<Longrightarrow> DeclaredSize32 data = le_word (take 4 (drop 1 data))"
  using ReadLe32_le [of 1 data] by (simp add: DeclaredSize32_def ReadLe32_def numeral_eq_Suc)

lemma ZrleDecompress_header:
  assumes "length input < 2 ^ 32"
  shows "ZrleDecompress (ZrleHeader input @ body) (length input) =
    ZrleDecompress_loop (ZrleHeader input @ body) 5 (length input) []"
proof -
  have "unat (of_nat (length input) :: u32) = length input"
    using assms by (simp add: unat_of_nat take_bit_nat_eq_self)
  then have "unat (DeclaredSize32 (ZrleHeader input @ body)) = length input"
    by (simp add: DeclaredSize32_le ZrleHeader_le le_word_le_bytes)
  then show ?thesis
    by (simp add: ZrleDecompress_def ZrleDecompress_header_def ZrleHeader_le)
qed

lemma ZrleCompress_literal_size:
  "length input < 2 ^ 32 \<Longrightarrow> length (AppendUleb128 (of_nat (length input))) \<le> 5"
  using length_AppendUleb128 [of "of_nat (length input)" 4]
  by (simp add: unat_of_nat take_bit_nat_eq_self)

lemma ZrleCompress_decodes:
  assumes "length input < 2 ^ 32"
  obtains out where "ZrleCompress input = Inr out"
    "length out \<le> length input + kZrleMaxOverheadBytes"
    "ZrleDecompress out (length input) = Inr input"
proof -
  let ?h = "ZrleHeader input" and ?t = "ZrleCompress_tokens input 0"
  let ?lo = "?h @ (if input \<noteq> [] then 0x01 # AppendUleb128 (of_nat (length input)) else [])"
  have h [simp]: "length ?h = 5" by (simp add: ZrleHeader_le)
  have n: "\<not> length input > 0xFFFFFFFF" using assms by simp
  have u: "length (AppendUleb128 (of_nat (length input))) \<le> 5"
    by (rule ZrleCompress_literal_size [OF assms])
  have lo: "length ?lo \<le> kZrleMaxOverheadBytes" using u h by (simp add: kZrleMaxOverheadBytes_def)
  have tk: "take 5 (?h @ ?t) = ?h" using h by simp
  show thesis
  proof (cases "length (?h @ ?t) > length ?lo + length input")
    case True
    then have ne: "input \<noteq> []" by (auto simp: ZrleCompress_tokens.simps [of "[]"])
    let ?out = "?lo @ input" and ?u = "AppendUleb128 (of_nat (length input))"
    have c: "ZrleCompress input = Inr ?out"
      using True n tk by (simp add: ZrleCompress_def Let_def)
    have "ZrleDecompress_loop ?out 5 (length input) [] =
        ZrleDecompress_loop ?out (5 + 1 + length ?u + length input) (length input) ([] @ input)"
      by (rule decode_literal_token [where rest = "[]"]) (use ne assms h in auto)
    also have "\<dots> = Inr ([] @ input)" by (rule decode_end) (use h ne in auto)
    finally have "ZrleDecompress ?out (length input) = Inr input"
      using ZrleDecompress_header [OF assms] by simp
    with c lo show thesis by (intro that [of ?out]) auto
  next
    case False
    let ?out = "?h @ ?t"
    have c: "ZrleCompress input = Inr ?out"
      using False n tk by (simp add: ZrleCompress_def Let_def)
    have "ZrleDecompress_loop ?out 5 (length input) [] = Inr ([] @ drop 0 input)"
      by (rule decode_tokens) (use h assms in auto)
    then have "ZrleDecompress ?out (length input) = Inr input"
      using ZrleDecompress_header [OF assms] by simp
    with c False lo show thesis by (intro that [of ?out]) auto
  qed
qed

lemma ReadUleb128_loop_errors: "ReadUleb128_loop data cursor acc shift = Inl e \<Longrightarrow> \<exists>m. e = RuntimeError m"
proof (induction data cursor acc shift rule: ReadUleb128_loop.induct)
  case (1 data cursor acc shift)
  show ?case
    using "1.prems" "1.IH" [OF _ _ _ refl refl]
    by (auto simp: ReadUleb128_loop.simps [of data cursor acc shift] Let_def split: if_splits)
qed

lemma ZrleDecompress_token_errors:
  assumes "ZrleDecompress_token data e (cursor, out) = Inl x" "cursor < length data"
  shows "\<exists>m. x = RuntimeError m"
proof (cases "ReadUleb128 data (cursor + 1)")
  case (Inl y)
  then show ?thesis using assms ReadUleb128_loop_errors by (auto simp: ZrleDecompress_token_def ReadUleb128_def)
next
  case (Inr y)
  then have "snd y \<le> length data" using ReadUleb128_cursor by blast
  then show ?thesis using assms Inr by (cases y) (auto simp: ZrleDecompress_token_def split: if_splits)
qed

lemma ZrleDecompress_token_bounds:
  assumes "ZrleDecompress_token data e (cursor, out) = Inr (cursor', out')" "cursor < length data" "length out \<le> e" "e < 2 ^ 64"
  shows "cursor' \<le> length data \<and> length out' \<le> e"
proof -
  obtain run c where r: "ReadUleb128 data (cursor + 1) = Inr (run, c)" using assms(1) by (auto simp: ZrleDecompress_token_def)
  have c: "c \<le> length data" using ReadUleb128_cursor [OF r] by simp
  have "\<not> e - length out < unat run" using assms r by (auto simp: ZrleDecompress_token_def)
  then have "length out + unat run \<le> e" using assms(3) by linarith
  then show ?thesis using assms(1,2) r c by (auto simp: ZrleDecompress_token_def split: if_splits)
qed

lemma decompressing_bounds:
  "decompressing data n s \<Longrightarrow> n < 2 ^ 32 \<and> fst s \<le> length data \<and> length (snd s) \<le> n"
proof (induction rule: decompressing.induct)
  case start
  then have "n = unat (DeclaredSize32 data)" "5 \<le> length data" by (auto simp: ZrleDecompress_header_def split: if_splits)
  then show ?case using unsigned_less [of "DeclaredSize32 data"] by simp
next
  case (token cursor out s)
  then show ?case using ZrleDecompress_token_bounds [of data n cursor out "fst s" "snd s"] by simp
qed

lemma ZrleDecompress_loop_outcome:
  "decompressing data e (cursor, out) \<Longrightarrow>
   (\<exists>r. ZrleDecompress_loop data cursor e out = Inr r \<and> length r = e \<and> decompressing data e (length data, r)) \<or>
   (\<exists>m. ZrleDecompress_loop data cursor e out = Inl (RuntimeError m))"
proof (induction data cursor e out rule: ZrleDecompress_loop.induct)
  case (1 data cursor e out)
  show ?case
  proof (cases "cursor < length data")
    case c: True
    show ?thesis
    proof (cases "ZrleDecompress_token data e (cursor, out)")
      case (Inl x)
      then show ?thesis using c ZrleDecompress_token_errors [OF Inl c] by (subst (1 2) ZrleDecompress_loop.simps) auto
    next
      case (Inr s)
      have s: "decompressing data e (fst s, snd s)" using decompressing.token [OF "1.prems" c Inr] by simp
      have "ZrleDecompress_loop data cursor e out = ZrleDecompress_loop data (fst s) e (snd s)"
        using c Inr by (subst ZrleDecompress_loop.simps) (simp add: case_prod_beta)
      then show ?thesis using "1.IH" [OF c Inr prod.collapse s] by simp
    qed
  next
    case False
    then have "cursor = length data" using decompressing_bounds [OF "1.prems"] by simp
    then show ?thesis using "1.prems" by (subst (1 2) ZrleDecompress_loop.simps) auto
  qed
qed

lemma ZrleDecompress_outcome:
  "(\<exists>out. ZrleDecompress data n = Inr out \<and> length out = n \<and> decompressing data n (length data, out)) \<or>
   (\<exists>m. ZrleDecompress data n = Inl (RuntimeError m))"
proof (cases "ZrleDecompress_header data n")
  case (Inl e)
  then show ?thesis by (auto simp: ZrleDecompress_def ZrleDecompress_header_def split: if_splits)
next
  case (Inr u)
  then show ?thesis using ZrleDecompress_loop_outcome [OF decompressing.start] by (simp add: ZrleDecompress_def)
qed

lemma ZrleDeclaredSize_eq:
  assumes "5 \<le> length data" "data ! 0 = kZrleCodecId"
  shows "ZrleDeclaredSize data = Inr (unat (DeclaredSize32 data))"
proof -
  have "(ucast (DeclaredSize32 data) :: u64) =
      ucast (data ! 1) OR push_bit 8 (ucast (data ! 2)) OR push_bit 16 (ucast (data ! 3))
        OR push_bit 24 (ucast (data ! 4))"
    by (rule bit_word_eqI) (auto simp: DeclaredSize32_def bit_simps dest: bit_byteD)
  moreover have "unat (ucast (DeclaredSize32 data) :: u64) = unat (DeclaredSize32 data)"
    by (simp add: unsigned_ucast_eq take_bit_nat_eq_self_iff
      order_less_le_trans [OF unsigned_less])
  ultimately show ?thesis using assms by (simp add: ZrleDeclaredSize_def)
qed

section \<open>Properties\<close>

text \<open>
  Claim C21. Compression of any input below 4 GiB succeeds, its output is at most
  \<open>kZrleMaxOverheadBytes\<close> longer than the input, and decompressing it with the input's size
  gives the input back.
\<close>

theorem zrle_round_trip:
  assumes "length input < 2 ^ 32"
  shows "\<exists>out. ZrleCompress input = Inr out \<and>
    length out \<le> length input + kZrleMaxOverheadBytes \<and>
    ZrleDecompress out (length input) = Inr input"
  using ZrleCompress_decodes [OF assms] by metis

theorem zrle_round_trip_witness:
  "length [0, 0, 0, 7 :: byte] < 2 ^ 32 \<and>
   (\<exists>out. ZrleCompress [0, 0, 0, 7] = Inr out \<and>
      length out \<le> length [0, 0, 0, 7 :: byte] + kZrleMaxOverheadBytes \<and>
      ZrleDecompress out (length [0, 0, 0, 7 :: byte]) = Inr [0, 0, 0, 7])"
proof -
  have h: "length [0, 0, 0, 7 :: byte] < 2 ^ 32" by simp
  show ?thesis using h zrle_round_trip [OF h] by blast
qed

text \<open>
  Claim C22. Decompression of arbitrary bytes, however damaged, stays within its buffers: at every token
  the cursor is within the input and the output within the expected size, and no read passes the end
  of the input (such a read is an error of its own in the model, \<open>Undefined\<close>).  It either consumes
  the whole input and produces exactly the expected number of bytes, which is also the size the
  header declares, or fails with a \<open>std::runtime_error\<close>.
\<close>

theorem zrle_decompress_bounded:
  "((\<exists>out. ZrleDecompress data n = Inr out \<and> length out = n \<and> ZrleDeclaredSize data = Inr n \<and>
        decompressing data n (length data, out)) \<or>
    (\<exists>msg. ZrleDecompress data n = Inl (RuntimeError msg))) \<and>
   (\<forall>cursor out. decompressing data n (cursor, out) \<longrightarrow> cursor \<le> length data \<and> length out \<le> n)"
proof -
  have "ZrleDeclaredSize data = Inr n" if "ZrleDecompress data n = Inr out" for out
    using that ZrleDeclaredSize_eq [of data] by (auto simp: ZrleDecompress_def ZrleDecompress_header_def split: if_splits)
  then show ?thesis using ZrleDecompress_outcome [of data n] decompressing_bounds [of data n] by fastforce
qed

lemma example_header: "ZrleDecompress_header [1, 4, 0, 0, 0, 0, 3, 1, 1, 7] 4 = Inr ()"
  by (simp add: ZrleDecompress_header_def kZrleCodecId_def DeclaredSize32_def)

theorem zrle_decompress_bounded_witness:
  "decompressing [1, 4, 0, 0, 0, 0, 3, 1, 1, 7] 4 (5, []) \<and>
   (5 :: nat) \<le> length [1, 4, 0, 0, 0, 0, 3, 1, 1, 7 :: byte] \<and> length ([] :: bytes) \<le> 4"
  using decompressing.start [OF example_header]
    zrle_decompress_bounded [of "[1, 4, 0, 0, 0, 0, 3, 1, 1, 7]" 4] by blast

end
