(* ===== verification/Crc32.thy ===== *)
theory Crc32
  imports Le_Codec
begin

text \<open>
  The CRC-32 of \<open>src/crc32.cpp\<close>: the sixteen tables, the byte-at-a-time kernel, the
  slicing-by-16 kernel, the ARMv8 kernel of \<open>src/crc32_armv8.cpp\<close> over the two CRC
  instructions, the selection of an implementation, and the incremental \<open>Crc32Extend\<close>.  The
  reference is the bit-at-a-time register \<open>crc_bits\<close>; every kernel computes it.
\<close>

section \<open>The register and the tables\<close>

definition kPolynomial :: u32 where
  "kPolynomial = 0xEDB88320"

definition kSlices :: nat where
  "kSlices = 16"

definition crc_bit :: "u32 \<Rightarrow> u32" where
  "crc_bit value = (if value AND 1 \<noteq> 0 then drop_bit 1 value XOR kPolynomial else drop_bit 1 value)"

definition BuildTables_first :: "u32 list" where
  "BuildTables_first = map (\<lambda>i. (crc_bit ^^ 8) (of_nat i)) [0..<256]"

definition BuildTables_next :: "u32 list \<Rightarrow> u32 list" where
  "BuildTables_next row =
    map (\<lambda>previous. drop_bit 8 previous XOR BuildTables_first ! unat (previous AND 0xFF)) row"

definition BuildTables :: "u32 list list" where
  "BuildTables = map (\<lambda>k. (BuildTables_next ^^ k) BuildTables_first) [0..<kSlices]"

definition kTables :: "u32 list list" where
  "kTables = BuildTables"

section \<open>Kernels\<close>

type_synonym crc_kernel = "u32 \<Rightarrow> bytes \<Rightarrow> u32"

definition LoadLe32 :: "bytes \<Rightarrow> u32" where
  "LoadLe32 p = ucast (p ! 0) OR push_bit 8 (ucast (p ! 1)) OR push_bit 16 (ucast (p ! 2))
     OR push_bit 24 (ucast (p ! 3))"

definition Slice4 :: "u32 \<Rightarrow> nat \<Rightarrow> u32" where
  "Slice4 w last' =
    kTables ! last' ! unat (w AND 0xFF) XOR kTables ! (last' - 1) ! unat (drop_bit 8 w AND 0xFF) XOR
    kTables ! (last' - 2) ! unat (drop_bit 16 w AND 0xFF) XOR kTables ! (last' - 3) ! unat (drop_bit 24 w)"

fun TableKernel :: crc_kernel where
  "TableKernel state [] = state"
| "TableKernel state (b # data) =
    TableKernel (drop_bit 8 state XOR kTables ! 0 ! unat ((state XOR ucast b) AND 0xFF)) data"

function SlicingKernel :: crc_kernel where
  "SlicingKernel state data =
    (if length data \<ge> kSlices then
       SlicingKernel
         (Slice4 (LoadLe32 data XOR state) 15 XOR Slice4 (LoadLe32 (drop 4 data)) 11 XOR
          Slice4 (LoadLe32 (drop 8 data)) 7 XOR Slice4 (LoadLe32 (drop 12 data)) 3)
         (drop kSlices data)
     else TableKernel state data)"
  by pat_completeness auto
termination
  by (relation "measure (\<lambda>(_, data). length data)") (auto simp: kSlices_def)

declare SlicingKernel.simps [simp del]

text \<open>
  The ARMv8 kernel over the instructions \<open>crc32b\<close> and \<open>crc32d\<close>, which are parameters;
  \<open>addr\<close> is the address of the first byte.
\<close>

fun Armv8_align :: "(u32 \<Rightarrow> byte \<Rightarrow> u32) \<Rightarrow> nat \<Rightarrow> u32 \<Rightarrow> bytes \<Rightarrow> u32 \<times> bytes" where
  "Armv8_align crc32b addr state [] = (state, [])"
| "Armv8_align crc32b addr state (b # data) =
    (if addr mod 8 \<noteq> 0 then Armv8_align crc32b (addr + 1) (crc32b state b) data
     else (state, b # data))"

function Armv8_words4 :: "(u32 \<Rightarrow> u64 \<Rightarrow> u32) \<Rightarrow> u32 \<Rightarrow> bytes \<Rightarrow> u32 \<times> bytes" where
  "Armv8_words4 crc32d state data =
    (if length data \<ge> 32 then
       Armv8_words4 crc32d
         (crc32d (crc32d (crc32d (crc32d state (le_word (take 8 data)))
            (le_word (take 8 (drop 8 data)))) (le_word (take 8 (drop 16 data))))
            (le_word (take 8 (drop 24 data))))
         (drop 32 data)
     else (state, data))"
  by pat_completeness auto
termination
  by (relation "measure (\<lambda>(_, _, data). length data)") auto

declare Armv8_words4.simps [simp del]

function Armv8_words :: "(u32 \<Rightarrow> u64 \<Rightarrow> u32) \<Rightarrow> u32 \<Rightarrow> bytes \<Rightarrow> u32 \<times> bytes" where
  "Armv8_words crc32d state data =
    (if length data \<ge> 8 then Armv8_words crc32d (crc32d state (le_word (take 8 data))) (drop 8 data)
     else (state, data))"
  by pat_completeness auto
termination
  by (relation "measure (\<lambda>(_, _, data). length data)") auto

declare Armv8_words.simps [simp del]

definition Armv8Kernel :: "(u32 \<Rightarrow> byte \<Rightarrow> u32) \<Rightarrow> (u32 \<Rightarrow> u64 \<Rightarrow> u32) \<Rightarrow> nat \<Rightarrow> crc_kernel" where
  "Armv8Kernel crc32b crc32d addr state data =
    (let (state, data) = Armv8_align crc32b addr state data;
         (state, data) = Armv8_words4 crc32d state data;
         (state, data) = Armv8_words crc32d state data
     in fold (\<lambda>b s. crc32b s b) data state)"

section \<open>Selection\<close>

datatype Crc32Impl = kTable | kSlicing | kClmul | kArmv8

definition kAllCrc32Impls :: "Crc32Impl list" where
  "kAllCrc32Impls = [kTable, kSlicing, kClmul, kArmv8]"

text \<open>
  What the build and the processor provide: a kernel that is compiled in, with whether the
  processor supports it.
\<close>

record crc_platform =
  clmul :: "(crc_kernel \<times> bool) option"
  armv8 :: "(crc_kernel \<times> bool) option"

fun KernelFor :: "crc_platform \<Rightarrow> Crc32Impl \<Rightarrow> crc_kernel" where
  "KernelFor pf kTable = TableKernel"
| "KernelFor pf kSlicing = SlicingKernel"
| "KernelFor pf kClmul = (case clmul pf of Some (k, _) \<Rightarrow> k | None \<Rightarrow> SlicingKernel)"
| "KernelFor pf kArmv8 = (case armv8 pf of Some (k, _) \<Rightarrow> k | None \<Rightarrow> SlicingKernel)"

fun Crc32ImplName :: "Crc32Impl \<Rightarrow> string" where
  "Crc32ImplName kTable = ''table''"
| "Crc32ImplName kSlicing = ''slicing''"
| "Crc32ImplName kClmul = ''clmul''"
| "Crc32ImplName kArmv8 = ''armv8''"

fun Crc32ImplAvailable :: "crc_platform \<Rightarrow> Crc32Impl \<Rightarrow> bool" where
  "Crc32ImplAvailable pf kTable = True"
| "Crc32ImplAvailable pf kSlicing = True"
| "Crc32ImplAvailable pf kClmul = (case clmul pf of Some (_, supported) \<Rightarrow> supported | None \<Rightarrow> False)"
| "Crc32ImplAvailable pf kArmv8 = (case armv8 pf of Some (_, supported) \<Rightarrow> supported | None \<Rightarrow> False)"

definition SelectCrc32Impl :: "crc_platform \<Rightarrow> string option \<Rightarrow> Crc32Impl" where
  "SelectCrc32Impl pf requested =
    (let named = (case requested of None \<Rightarrow> None
        | Some r \<Rightarrow> find (\<lambda>impl. r = Crc32ImplName impl \<and> Crc32ImplAvailable pf impl) kAllCrc32Impls)
     in case named of Some impl \<Rightarrow> impl
        | None \<Rightarrow> (case find (Crc32ImplAvailable pf) [kClmul, kArmv8] of Some impl \<Rightarrow> impl
            | None \<Rightarrow> kSlicing))"

definition Crc32ExtendWith :: "crc_platform \<Rightarrow> Crc32Impl \<Rightarrow> u32 \<Rightarrow> bytes \<Rightarrow> u32" where
  "Crc32ExtendWith pf impl previous data =
    KernelFor pf impl (previous XOR 0xFFFFFFFF) data XOR 0xFFFFFFFF"

definition Crc32Extend :: "crc_platform \<Rightarrow> string option \<Rightarrow> u32 \<Rightarrow> bytes \<Rightarrow> u32" where
  "Crc32Extend pf env previous data =
    KernelFor pf (SelectCrc32Impl pf env) (previous XOR 0xFFFFFFFF) data XOR 0xFFFFFFFF"

definition portable :: crc_platform where
  "portable = \<lparr>clmul = None, armv8 = None\<rparr>"

definition Crc32 :: "bytes \<Rightarrow> u32" where
  "Crc32 data = Crc32Extend portable None 0 data"

section \<open>The reference register\<close>

text \<open>
  The register advanced by zero bits is linear and injective, so a kernel is determined by what
  it does to one word at a time.
\<close>

definition crc_zeros :: "nat \<Rightarrow> u32 \<Rightarrow> u32" where
  "crc_zeros k s = (crc_bit ^^ (8 * k)) s"

definition crc_bits :: "u32 \<Rightarrow> bytes \<Rightarrow> u32" where
  "crc_bits state data = fold (\<lambda>b s. (crc_bit ^^ 8) (s XOR ucast b)) data state"

lemma and_1_eq_0_iff: "(w :: u32) AND 1 \<noteq> 0 \<longleftrightarrow> bit w 0"
  by (simp add: and_one_eq bit_0 odd_iff_mod_2_eq_one)

lemma crc_bit_alt: "crc_bit v = drop_bit 1 v XOR (if bit v 0 then kPolynomial else 0)"
  by (simp only: crc_bit_def and_1_eq_0_iff) simp

lemma crc_bit_xor: "crc_bit (x XOR y) = crc_bit x XOR crc_bit y"
  by (rule bit_word_eqI) (auto simp: crc_bit_alt bit_simps)

lemma bit_31_kPolynomial: "bit kPolynomial 31"
  by (simp add: kPolynomial_def bit_numeral_rec)

lemma crc_bit_inj: "crc_bit x = 0 \<Longrightarrow> x = 0"
proof -
  assume z: "crc_bit x = 0"
  then have b: "\<not> bit (crc_bit x) 31" by simp
  have n0: "\<not> bit x 0"
    using b bit_31_kPolynomial by (auto simp: crc_bit_alt bit_simps dest: bit_imp_le_length)
  have x: "\<not> bit x n" for n
  proof (cases n)
    case (Suc m)
    have "bit (crc_bit x) m = bit x (Suc m)" using n0 by (simp add: crc_bit_alt bit_simps)
    then show ?thesis using z Suc by simp
  qed (use n0 in simp)
  show "x = 0" by (rule bit_word_eqI) (simp add: x)
qed

lemma crc_bits_pow_xor: "(crc_bit ^^ n) (x XOR y) = (crc_bit ^^ n) x XOR (crc_bit ^^ n) y"
  by (induction n) (simp_all add: crc_bit_xor)

lemma crc_zeros_xor: "crc_zeros k (x XOR y) = crc_zeros k x XOR crc_zeros k y"
  by (simp add: crc_zeros_def crc_bits_pow_xor)

lemma crc_zeros_add: "crc_zeros (j + k) s = crc_zeros j (crc_zeros k s)"
  by (simp add: crc_zeros_def funpow_add distrib_left)

lemma crc_zeros_0 [simp]: "crc_zeros 0 s = s"
  by (simp add: crc_zeros_def)

lemma crc_zeros_zero [simp]: "crc_zeros k 0 = 0"
  using crc_zeros_xor [of k 0 0] by simp

lemma xor_eq_0_iff: "(x :: 'a::len word) XOR y = 0 \<longleftrightarrow> x = y"
proof
  assume "x XOR y = 0"
  then have "(x XOR y) XOR y = y" by simp
  then show "x = y" by (simp add: xor.assoc)
qed simp

lemma xor_right_cancel: "(x :: 'a::len word) XOR c = y XOR c \<longleftrightarrow> x = y"
proof
  assume "x XOR c = y XOR c"
  then have "(x XOR c) XOR c = (y XOR c) XOR c" by (rule arg_cong)
  then show "x = y" by (simp add: xor.assoc)
qed simp

lemma xor_left_cancel: "c XOR (x :: 'a::len word) = c XOR y \<longleftrightarrow> x = y"
  using xor_right_cancel [of x c y] by (simp add: xor.commute)

lemma crc_pow_inj: "(crc_bit ^^ n) x = 0 \<Longrightarrow> x = 0"
  by (induction n) (auto dest: crc_bit_inj)

lemma crc_zeros_inj: "crc_zeros k x = crc_zeros k y \<longleftrightarrow> x = y"
proof
  assume "crc_zeros k x = crc_zeros k y"
  then have "crc_zeros k (x XOR y) = 0" by (simp add: crc_zeros_xor)
  then have "x XOR y = 0" unfolding crc_zeros_def by (rule crc_pow_inj)
  then show "x = y" by (simp add: xor_eq_0_iff)
qed simp

lemma crc_bit_pow_shift: "n \<le> 31 \<Longrightarrow> (\<And>i. i < n \<Longrightarrow> \<not> bit x i) \<Longrightarrow> (crc_bit ^^ n) x = drop_bit n x"
proof (induction n)
  case (Suc n)
  then have "(crc_bit ^^ n) x = drop_bit n x" by simp
  then show ?case using Suc.prems(2) [of n] by (simp add: crc_bit_alt [of "drop_bit n x"] bit_simps)
qed simp

lemma crc_zeros_shift:
  assumes "j \<le> 3" "\<And>i. 32 - 8 * j \<le> i \<Longrightarrow> \<not> bit x i"
  shows "crc_zeros (k + j) (push_bit (8 * j) x) = crc_zeros k x"
proof -
  have "crc_zeros j (push_bit (8 * j) x) = drop_bit (8 * j) (push_bit (8 * j) x)"
    unfolding crc_zeros_def by (rule crc_bit_pow_shift) (use assms in \<open>auto simp: bit_simps\<close>)
  also have "\<dots> = x"
  proof (rule bit_word_eqI)
    fix n assume "n < LENGTH(32)"
    show "bit (drop_bit (8 * j) (push_bit (8 * j) x)) n = bit x n"
      using assms(2) [of n] by (cases "32 - 8 * j \<le> n") (auto simp: bit_simps)
  qed
  finally show ?thesis by (simp add: crc_zeros_add)
qed

lemma crc_zeros_push:
  "(\<And>i. 24 \<le> i \<Longrightarrow> \<not> bit x i) \<Longrightarrow> crc_zeros (Suc 0) (push_bit 8 x) = x"
  using crc_zeros_shift [of 1 x 0] by simp

lemma crc_split_low:
  "crc_zeros (Suc 0) w = drop_bit 8 w XOR crc_zeros (Suc 0) (w AND 0xFF)"
proof -
  have hi: "drop_bit 8 w = crc_zeros (Suc 0) (push_bit 8 (drop_bit 8 w))"
    by (rule crc_zeros_push [symmetric]) (auto simp: bit_simps dest: bit_imp_le_length)
  have w: "w = push_bit 8 (drop_bit 8 w) XOR (w AND 0xFF)"
    by (rule bit_word_eqI) (auto simp: and_FF_take bit_simps)
  show ?thesis by (subst w, subst crc_zeros_xor, subst hi [symmetric]) simp
qed

section \<open>Every kernel computes the register\<close>

lemma unat_and_FF_less [simp]: "unat ((w :: u32) AND 0xFF) < 256"
  using take_bit_nat_less_exp [of 8 "unat w"] by (simp add: and_FF_take unsigned_take_bit_eq)

lemma BuildTables_first_nth [simp]:
  "i < 256 \<Longrightarrow> BuildTables_first ! i = crc_zeros (Suc 0) (of_nat i)"
  by (simp add: BuildTables_first_def crc_zeros_def del: funpow.simps)

lemma length_BuildTables_first [simp]: "length BuildTables_first = 256"
  by (simp add: BuildTables_first_def)

lemma BuildTables_row:
  "length ((BuildTables_next ^^ k) BuildTables_first) = 256 \<and>
   (\<forall>i < 256. (BuildTables_next ^^ k) BuildTables_first ! i = crc_zeros (Suc k) (of_nat i))"
proof (induction k)
  case (Suc k)
  let ?row = "(BuildTables_next ^^ k) BuildTables_first"
  have "BuildTables_next ?row ! i = crc_zeros (Suc (Suc k)) (of_nat i)" if "i < 256" for i
    using Suc that crc_split_low [of "crc_zeros (Suc k) (of_nat i)"]
      crc_zeros_add [of "Suc 0" "Suc k"]
    by (simp add: BuildTables_next_def [of ?row])
  moreover have "length (BuildTables_next ?row) = 256"
    using Suc by (simp add: BuildTables_next_def [of ?row])
  ultimately show ?case by simp
qed simp

lemma kTables_nth: "k < 16 \<Longrightarrow> i < 256 \<Longrightarrow> kTables ! k ! i = crc_zeros (Suc k) (of_nat i)"
  using BuildTables_row [of k] by (simp add: kTables_def BuildTables_def kSlices_def)

lemma kTables_word:
  "k < 16 \<Longrightarrow> kTables ! k ! unat (w AND 0xFF) = crc_zeros (Suc k) (w AND 0xFF)"
  by (simp add: kTables_nth)

lemma TableKernel_bits: "TableKernel state data = crc_bits state data"
proof (induction state data rule: TableKernel.induct)
  case (2 state b data)
  have d: "drop_bit 8 (state XOR ucast b) = drop_bit 8 state"
    by (rule bit_word_eqI) (auto simp: bit_simps dest: bit_byteD)
  have "drop_bit 8 state XOR kTables ! 0 ! unat ((state XOR ucast b) AND 0xFF) =
      crc_zeros (Suc 0) (state XOR ucast b)"
    using crc_split_low [of "state XOR ucast b"] d by (simp add: kTables_word)
  then show ?case using 2 by (simp add: crc_bits_def crc_zeros_def del: funpow.simps)
qed (simp add: crc_bits_def)

lemma crc_bits_Cons: "crc_bits s (b # bs) = crc_bits (crc_zeros (Suc 0) (s XOR ucast b)) bs"
  by (simp add: crc_bits_def crc_zeros_def del: funpow.simps)

lemma crc_bits_append: "crc_bits s (a @ b) = crc_bits (crc_bits s a) b"
  by (simp add: crc_bits_def)

lemma crc_bits_Nil [simp]: "crc_bits s [] = s"
  by (simp add: crc_bits_def)

lemma le_word_Cons_xor:
  "le_word (b # bs) = ucast b XOR push_bit 8 (le_word bs)"
  by (rule bit_word_eqI) (auto simp: bit_simps dest: bit_byteD)

lemma crc_bits_word: "length bs \<le> 4 \<Longrightarrow> crc_bits s bs = crc_zeros (length bs) (s XOR le_word bs)"
proof (induction bs arbitrary: s)
  case (Cons b bs)
  have hi: "\<not> bit (le_word bs :: u32) i" if "24 \<le> i" for i
    using that Cons.prems by (auto simp: bit_le_word)
  have "crc_bits s (b # bs) = crc_zeros (length bs) (crc_zeros (Suc 0) (s XOR ucast b) XOR le_word bs)"
    using Cons by (simp add: crc_bits_Cons)
  also have "\<dots> = crc_zeros (length bs) (crc_zeros (Suc 0) (s XOR le_word (b # bs)))"
    by (simp only: le_word_Cons_xor crc_zeros_xor crc_zeros_push [OF hi] xor.assoc)
  also have "\<dots> = crc_zeros (length (b # bs)) (s XOR le_word (b # bs))"
    by (simp only: crc_zeros_add [symmetric]) simp
  finally show ?case .
qed simp

lemma crc_bits_inj: "crc_bits s bs = crc_bits t bs \<longleftrightarrow> s = t"
proof (induction bs arbitrary: s t)
  case (Cons b bs)
  show ?case by (simp add: crc_bits_Cons Cons crc_zeros_inj xor_right_cancel)
qed simp

lemma word32_bytes:
  "(w :: u32) = (w AND 0xFF) XOR push_bit 8 (drop_bit 8 w AND 0xFF) XOR
     push_bit 16 (drop_bit 16 w AND 0xFF) XOR push_bit 24 (drop_bit 24 w)"
  by (rule bit_word_eqI) (auto simp: and_FF_take bit_simps)

lemma Slice4_zeros:
  assumes "3 \<le> l" "l < 16"
  shows "Slice4 w l = crc_zeros (Suc l) w"
proof -
  let ?b0 = "w AND 0xFF" and ?b1 = "drop_bit 8 w AND 0xFF" and ?b2 = "drop_bit 16 w AND 0xFF"
    and ?b3 = "drop_bit 24 w"
  have top: "?b3 = ?b3 AND 0xFF"
    by (rule bit_word_eqI) (auto simp: and_FF_take bit_simps dest: bit_imp_le_length)
  have s: "Suc l = Suc (l - j) + j" if "j \<le> 3" for j using that assms by simp
  have z: "crc_zeros (Suc l) (push_bit (8 * j) (x AND 0xFF)) = crc_zeros (Suc (l - j)) (x AND 0xFF)"
    if "j \<le> 3" for j x
    unfolding s [OF that] by (rule crc_zeros_shift [OF that]) (use that in \<open>auto simp: and_FF_take bit_simps\<close>)
  have z123: "crc_zeros (Suc l) (push_bit 8 ?b1) = crc_zeros (Suc (l - 1)) ?b1"
    "crc_zeros (Suc l) (push_bit 16 ?b2) = crc_zeros (Suc (l - 2)) ?b2"
    "crc_zeros (Suc l) (push_bit 24 ?b3) = crc_zeros (Suc (l - 3)) ?b3"
    using z [of 1 "drop_bit 8 w"] z [of 2 "drop_bit 16 w"] z [of 3 "drop_bit 24 w"] top [symmetric]
    by simp_all
  have "crc_zeros (Suc l) w = crc_zeros (Suc l) (?b0 XOR push_bit 8 ?b1 XOR push_bit 16 ?b2 XOR push_bit 24 ?b3)"
    by (subst word32_bytes [of w]) (rule refl)
  also have "\<dots> = crc_zeros (Suc l) ?b0 XOR crc_zeros (Suc (l - 1)) ?b1 XOR
      crc_zeros (Suc (l - 2)) ?b2 XOR crc_zeros (Suc (l - 3)) ?b3"
    by (simp only: crc_zeros_xor z123)
  also have "\<dots> = Slice4 w l"
    using kTables_word [of "l - 3" "drop_bit 24 w"] assms
    by (simp only: Slice4_def kTables_word top [symmetric])
  finally show ?thesis by simp
qed

lemma LoadLe32_word: "4 \<le> length p \<Longrightarrow> LoadLe32 p = le_word (take 4 p)"
  using ReadLe32_le [of 0 p] by (simp add: LoadLe32_def ReadLe32_def numeral_2_eq_2)

lemma crc_bits_take4:
  assumes "4 \<le> length data"
  shows "crc_bits s data = crc_bits (crc_zeros 4 (s XOR LoadLe32 data)) (drop 4 data)"
proof -
  have "crc_bits s data = crc_bits (crc_bits s (take 4 data)) (drop 4 data)"
    by (simp add: crc_bits_append [symmetric])
  then show ?thesis using assms by (simp add: crc_bits_word LoadLe32_word)
qed

lemma SlicingKernel_bits: "SlicingKernel state data = crc_bits state data"
proof (induction state data rule: SlicingKernel.induct)
  case (1 state data)
  show ?case
  proof (cases "kSlices \<le> length data")
    case True
    let ?l0 = "LoadLe32 data" and ?l1 = "LoadLe32 (drop 4 data)"
      and ?l2 = "LoadLe32 (drop 8 data)" and ?l3 = "LoadLe32 (drop 12 data)"
    have "crc_zeros 4 (crc_zeros 4 (crc_zeros 4 (crc_zeros 4 (state XOR ?l0) XOR ?l1) XOR ?l2) XOR ?l3) =
        crc_zeros 16 (?l0 XOR state) XOR crc_zeros 12 ?l1 XOR crc_zeros 8 ?l2 XOR crc_zeros 4 ?l3"
      using crc_zeros_add [of 4 4, symmetric] crc_zeros_add [of 4 8, symmetric] crc_zeros_add [of 4 12, symmetric]
      by (simp add: crc_zeros_xor ac_simps)
    then have "crc_bits state data =
        crc_bits (Slice4 (?l0 XOR state) 15 XOR Slice4 ?l1 11 XOR Slice4 ?l2 7 XOR Slice4 ?l3 3) (drop kSlices data)"
      using True by (simp add: crc_bits_take4 kSlices_def Slice4_zeros)
    then show ?thesis using 1 True by (simp add: SlicingKernel.simps [of state data])
  next
    case False
    then show ?thesis by (simp add: SlicingKernel.simps [of state data] TableKernel_bits)
  qed
qed

text \<open>The ARMv8 loops, for instructions that advance the register.\<close>

definition crc32b_ok :: "(u32 \<Rightarrow> byte \<Rightarrow> u32) \<Rightarrow> bool" where
  "crc32b_ok f \<longleftrightarrow> (\<forall>s b. f s b = (crc_bit ^^ 8) (s XOR ucast b))"

definition crc32d_ok :: "(u32 \<Rightarrow> u64 \<Rightarrow> u32) \<Rightarrow> bool" where
  "crc32d_ok g \<longleftrightarrow> (\<forall>s w. g s w = fold (\<lambda>b s. (crc_bit ^^ 8) (s XOR ucast b)) (le_bytes 8 w) s)"

lemma crc32b_bits: "crc32b_ok f \<Longrightarrow> f s b = crc_bits s [b]"
  by (simp add: crc32b_ok_def crc_bits_def)

lemma crc32d_bits:
  assumes "crc32d_ok g" "8 \<le> length data"
  shows "crc_bits (g s (le_word (take 8 data))) (drop 8 data) = crc_bits s data"
proof -
  have "le_bytes 8 (le_word (take 8 data) :: u64) = take 8 data"
    using assms(2) le_bytes_le_word [where ?'a = 64, of "take 8 data"] by (simp add: min_absorb2)
  then have "g s (le_word (take 8 data)) = crc_bits s (take 8 data)"
    using assms(1) by (simp add: crc32d_ok_def crc_bits_def)
  then show ?thesis by (simp add: crc_bits_append [symmetric])
qed

lemma Armv8_align_bits:
  "crc32b_ok f \<Longrightarrow> Armv8_align f addr s data = (s', rest) \<Longrightarrow> crc_bits s' rest = crc_bits s data"
  by (induction f addr s data rule: Armv8_align.induct)
     (auto simp: crc32b_bits crc_bits_append [symmetric, of s "[b]" for s b, simplified] split: if_splits)

lemma Armv8_words_bits:
  "crc32d_ok g \<Longrightarrow> Armv8_words g s data = (s', rest) \<Longrightarrow> crc_bits s' rest = crc_bits s data"
proof (induction g s data rule: Armv8_words.induct)
  case (1 g s data)
  show ?case
  proof (cases "8 \<le> length data")
    case True
    then show ?thesis using 1 by (simp add: Armv8_words.simps [of g s] crc32d_bits)
  next
    case False
    then show ?thesis using 1 by (simp add: Armv8_words.simps [of g s])
  qed
qed

lemma Armv8_words4_bits:
  "crc32d_ok g \<Longrightarrow> Armv8_words4 g s data = (s', rest) \<Longrightarrow> crc_bits s' rest = crc_bits s data"
proof (induction g s data rule: Armv8_words4.induct)
  case (1 g s data)
  show ?case
  proof (cases "32 \<le> length data")
    case True
    note step = crc32d_bits [OF "1.prems"(1)]
    show ?thesis
      using True 1 step [of data] step [of "drop 8 data"] step [of "drop 16 data"] step [of "drop 24 data"]
      by (simp add: Armv8_words4.simps [of g s])
  next
    case False
    then show ?thesis using 1 by (simp add: Armv8_words4.simps [of g s])
  qed
qed

lemma Armv8Kernel_bits:
  assumes "crc32b_ok f" "crc32d_ok g"
  shows "Armv8Kernel f g addr s data = crc_bits s data"
proof -
  obtain s1 d1 where 1: "Armv8_align f addr s data = (s1, d1)" by fastforce
  obtain s2 d2 where 2: "Armv8_words4 g s1 d1 = (s2, d2)" by fastforce
  obtain s3 d3 where 3: "Armv8_words g s2 d2 = (s3, d3)" by fastforce
  have "fold (\<lambda>b s. f s b) d3 s3 = crc_bits s3 d3"
    using assms(1) by (simp add: crc32b_ok_def crc_bits_def)
  then show ?thesis
    using Armv8_align_bits [OF assms(1) 1] Armv8_words4_bits [OF assms(2) 2]
      Armv8_words_bits [OF assms(2) 3] by (simp add: Armv8Kernel_def 1 2 3)
qed

section \<open>What any kernel that computes the register gives\<close>

text \<open>The contract of a \<open>Crc32Kernel\<close> and what \<open>Crc32Extend\<close> over such a kernel satisfies.\<close>

locale crc_kernel_law =
  fixes kernel :: crc_kernel
  assumes kernel_bits: "kernel s data = crc_bits s data"
begin

definition extend :: "u32 \<Rightarrow> bytes \<Rightarrow> u32" where
  "extend previous data = kernel (previous XOR 0xFFFFFFFF) data XOR 0xFFFFFFFF"

lemma extend_append: "extend (extend p a) b = extend p (a @ b)"
  by (simp add: extend_def kernel_bits crc_bits_append xor.assoc)

lemma extend_burst:
  assumes "length w = length w'" "length w \<le> 4" "w \<noteq> w'"
  shows "extend p (a @ w @ b) \<noteq> extend p (a @ w' @ b)"
proof -
  have "(le_word w :: u32) \<noteq> le_word w'"
    using assms le_bytes_le_word [where ?'a = 32, of w] le_bytes_le_word [where ?'a = 32, of w'] by auto
  then have "crc_bits s w \<noteq> crc_bits s w'" for s
    using assms by (simp add: crc_bits_word crc_zeros_inj xor_left_cancel)
  then show ?thesis
    by (simp add: extend_def kernel_bits crc_bits_append crc_bits_inj xor_right_cancel)
qed

end

interpretation table_kernel: crc_kernel_law TableKernel
  by unfold_locales (rule TableKernel_bits)

interpretation slicing_kernel: crc_kernel_law SlicingKernel
  by unfold_locales (rule SlicingKernel_bits)

end
