(* ===== verification/Crc32_Fold.thy ===== *)
theory Crc32_Fold
  imports Crc32
begin

text \<open>
  The carry-less multiplication kernel of \<open>src/crc32_clmul.cpp\<close>: four 128-bit lanes folded 64
  bytes at a time, joined into one, reduced to 64 bits and then, by Barrett reduction, to the
  32-bit register.  A vector register is a \<open>128 word\<close> and the intrinsics are the bit
  operations the instruction set defines.  Every step is linear over exclusive or, so an
  equation between two steps is checked on one-bit values; shifting reduces those to one
  concrete evaluation per folding constant.
\<close>

section \<open>Vector intrinsics\<close>

type_synonym m128 = "128 word"

definition mm_load :: "u64 list \<Rightarrow> m128" where
  "mm_load p = ucast (p ! 0) OR push_bit 64 (ucast (p ! 1))"

definition mm_loadl_epi64 :: "u64 list \<Rightarrow> m128" where
  "mm_loadl_epi64 p = ucast (p ! 0)"

definition mm_lane :: "m128 \<Rightarrow> bool \<Rightarrow> u64" where
  "mm_lane v high = (if high then ucast (drop_bit 64 v) else ucast v)"

definition clmul64 :: "u64 \<Rightarrow> u64 \<Rightarrow> m128" where
  "clmul64 a b = fold (\<lambda>j acc. if bit a j then acc XOR push_bit j (ucast b) else acc) [0..<64] 0"

definition mm_clmulepi64_si128 :: "m128 \<Rightarrow> m128 \<Rightarrow> byte \<Rightarrow> m128" where
  "mm_clmulepi64_si128 a b imm = clmul64 (mm_lane a (bit imm 0)) (mm_lane b (bit imm 4))"

section \<open>The kernel\<close>

definition kK1K2 :: "u64 list" where
  "kK1K2 = [0x0154442bd4, 0x01c6e41596]"

definition kK3K4 :: "u64 list" where
  "kK3K4 = [0x01751997d0, 0x00ccaa009e]"

definition kK5K0 :: "u64 list" where
  "kK5K0 = [0x0163cd6124, 0x0000000000]"

definition kPolyMu :: "u64 list" where
  "kPolyMu = [0x01db710641, 0x01f7011641]"

definition kMinFoldLength :: nat where
  "kMinFoldLength = 64"

definition Fold :: "m128 \<Rightarrow> m128 \<Rightarrow> m128 \<Rightarrow> m128" where
  "Fold val constants next' =
    (mm_clmulepi64_si128 val constants 0x00 XOR mm_clmulepi64_si128 val constants 0x11) XOR next'"

definition Load :: "bytes \<Rightarrow> m128" where
  "Load p = le_word (take 16 p)"

definition low32 :: m128 where
  "low32 = 0x00000000FFFFFFFF00000000FFFFFFFF"

fun FoldBlocks_lanes :: "m128 \<times> m128 \<times> m128 \<times> m128 \<Rightarrow> bytes \<Rightarrow> (m128 \<times> m128 \<times> m128 \<times> m128) \<times> bytes" where
  "FoldBlocks_lanes (x1, x2, x3, x4) data =
    (if length data \<ge> 64 then
       let k = mm_load kK1K2 in
       FoldBlocks_lanes (Fold x1 k (Load data), Fold x2 k (Load (drop 16 data)),
         Fold x3 k (Load (drop 32 data)), Fold x4 k (Load (drop 48 data))) (drop 64 data)
     else ((x1, x2, x3, x4), data))"

declare FoldBlocks_lanes.simps [simp del]

fun FoldBlocks_single :: "m128 \<Rightarrow> bytes \<Rightarrow> m128" where
  "FoldBlocks_single x1 data =
    (if length data \<ge> 16 then FoldBlocks_single (Fold x1 (mm_load kK3K4) (Load data)) (drop 16 data)
     else x1)"

declare FoldBlocks_single.simps [simp del]

definition FoldBlocks_64 :: "m128 \<Rightarrow> m128" where
  "FoldBlocks_64 x1 =
    (let x2 = mm_clmulepi64_si128 x1 (mm_load kK3K4) 0x10 in drop_bit 64 x1 XOR x2)"

definition FoldBlocks_32 :: "m128 \<Rightarrow> m128" where
  "FoldBlocks_32 x1 =
    (let x2 = drop_bit 32 x1
     in mm_clmulepi64_si128 (x1 AND low32) (mm_loadl_epi64 kK5K0) 0x00 XOR x2)"

definition FoldBlocks_barrett :: "m128 \<Rightarrow> u32" where
  "FoldBlocks_barrett x1 =
    (let k = mm_load kPolyMu;
         x2 = mm_clmulepi64_si128 (x1 AND low32) k 0x10 AND low32;
         x2 = mm_clmulepi64_si128 x2 k 0x00
     in ucast (drop_bit 32 (x1 XOR x2)))"

definition FoldBlocks :: "u32 \<Rightarrow> bytes \<Rightarrow> u32" where
  "FoldBlocks state data =
    (let ((x1, x2, x3, x4), data) =
           FoldBlocks_lanes (Load data XOR ucast state, Load (drop 16 data), Load (drop 32 data),
             Load (drop 48 data)) (drop 64 data);
         k = mm_load kK3K4;
         x1 = Fold x1 k x2; x1 = Fold x1 k x3; x1 = Fold x1 k x4;
         x1 = FoldBlocks_single x1 data
     in FoldBlocks_barrett (FoldBlocks_32 (FoldBlocks_64 x1)))"

definition ClmulKernel :: crc_kernel where
  "ClmulKernel state data =
    (if length data \<ge> kMinFoldLength then
       let folded = length data - length data mod 16
       in SlicingKernel (FoldBlocks state (take folded data)) (drop folded data)
     else SlicingKernel state data)"

section \<open>Linear maps on words\<close>

definition xor_linear :: "('a::len word \<Rightarrow> 'b::len word) \<Rightarrow> bool" where
  "xor_linear f \<longleftrightarrow> (\<forall>x y. f (x XOR y) = f x XOR f y)"

named_theorems linear_intros

definition ubit :: "nat \<Rightarrow> 'a::len word" where
  "ubit i = push_bit i 1"

lemma bit_ubit [simp]: "bit (ubit i :: 'a::len word) j \<longleftrightarrow> j = i \<and> i < LENGTH('a)"
  unfolding ubit_def by (auto simp: bit_simps)

lemma push_bit_ubit [simp]: "push_bit k (ubit i :: 'a::len word) = ubit (k + i)"
  by (rule bit_word_eqI) (auto simp: bit_simps)

lemma xor_linearD: "xor_linear f \<Longrightarrow> f (x XOR y) = f x XOR f y"
  by (simp add: xor_linear_def)

lemma xor_linear_0: "xor_linear f \<Longrightarrow> f 0 = 0"
  using xor_linearD [of f 0 0] by simp

lemma xor_linear_id [linear_intros]: "xor_linear (\<lambda>x. x)"
  by (simp add: xor_linear_def)

lemma xor_linear_zero [linear_intros]: "xor_linear (\<lambda>x. 0)"
  by (simp add: xor_linear_def)

lemma xor_linear_xor [linear_intros]: "xor_linear f \<Longrightarrow> xor_linear g \<Longrightarrow> xor_linear (\<lambda>x. f x XOR g x)"
  by (simp add: xor_linear_def ac_simps)

lemma xor_linear_bits [linear_intros]:
  assumes "xor_linear f"
  shows "xor_linear (\<lambda>x. drop_bit n (f x))" "xor_linear (\<lambda>x. push_bit n (f x))"
    "xor_linear (\<lambda>x. take_bit n (f x))" "xor_linear (\<lambda>x. ucast (f x) :: 'c::len word)"
    "xor_linear (\<lambda>x. f x AND c)"
  using assms unfolding xor_linear_def
  by (auto intro!: bit_word_eqI simp: bit_simps)

lemma xor_linear_crc [linear_intros]: "xor_linear f \<Longrightarrow> xor_linear (\<lambda>x. (crc_bit ^^ n) (f x))"
  by (simp add: xor_linear_def crc_bits_pow_xor)

lemma xor_linear_eqI:
  fixes f g :: "'a::len word \<Rightarrow> 'b::len word"
  assumes f: "xor_linear f" and g: "xor_linear g"
    and basis: "\<And>i. i < LENGTH('a) \<Longrightarrow> f (ubit i) = g (ubit i)"
  shows "f x = g x"
proof -
  have "f (take_bit n x) = g (take_bit n x)" for n
  proof (induction n)
    case 0
    then show ?case by (simp add: xor_linear_0 [OF f] xor_linear_0 [OF g])
  next
    case (Suc n)
    have t: "take_bit (Suc n) x = take_bit n x XOR (if bit x n then ubit n else 0)"
      by (rule bit_word_eqI) (auto simp: bit_simps less_Suc_eq)
    show ?case
      using Suc basis [of n] bit_imp_le_length [of x n] xor_linear_0 [OF f] xor_linear_0 [OF g]
      by (simp only: t xor_linearD [OF f] xor_linearD [OF g]) auto
  qed
  from this [of "LENGTH('a)"] show ?thesis by (simp add: take_bit_length_eq)
qed

definition comb :: "(nat \<Rightarrow> 'b::len word) \<Rightarrow> nat \<Rightarrow> 'a::len word \<Rightarrow> 'b word" where
  "comb g n x = fold (\<lambda>i acc. if bit x i then acc XOR g i else acc) [0..<n] 0"

lemma comb_fold_xor:
  "fold (\<lambda>i acc. if bit (x XOR y) i then acc XOR g i else acc) js (a XOR b) =
   fold (\<lambda>i acc. if bit x i then acc XOR g i else acc) js a XOR
   fold (\<lambda>i acc. if bit y i then acc XOR g i else acc) js (b :: 'b::len word)"
proof (induction js arbitrary: a b)
  case (Cons j js)
  have "(a XOR g j) XOR (b XOR g j) = a XOR b" by (simp add: ac_simps)
  then show ?case
    using Cons [of "a XOR g j" "b XOR g j"] Cons [of a b] Cons [of "a XOR g j" b] Cons [of a "b XOR g j"]
    by (auto simp: bit_xor_iff ac_simps)
qed simp

lemma xor_linear_comb [linear_intros]: "xor_linear f \<Longrightarrow> xor_linear (\<lambda>x. comb g n (f x))"
  by (simp add: xor_linear_def comb_def comb_fold_xor [where a = 0 and b = 0, simplified])

lemma comb_basis:
  assumes "i < LENGTH('a)"
  shows "comb g n (ubit i :: 'a::len word) = (if i < n then g i else 0)"
proof -
  have b: "bit (ubit i :: 'a word) j \<longleftrightarrow> j = i" for j using assms by auto
  have "comb g n (ubit i :: 'a word) = (if i < n then g i else 0)"
    unfolding comb_def b by (induction n) (auto simp: less_Suc_eq)
  then show ?thesis .
qed

lemma clmul64_comb: "clmul64 a b = comb (\<lambda>j. push_bit j (ucast b)) 64 a"
  by (simp add: clmul64_def comb_def)

lemma xor_linear_clmul64 [linear_intros]: "xor_linear f \<Longrightarrow> xor_linear (\<lambda>x. clmul64 (f x) c)"
  by (simp add: clmul64_comb linear_intros)

lemma xor_linear_lane [linear_intros]: "xor_linear f \<Longrightarrow> xor_linear (\<lambda>x. mm_lane (f x) h)"
  by (cases h) (simp_all add: mm_lane_def linear_intros)

lemma xor_linear_clmul [linear_intros]: "xor_linear f \<Longrightarrow> xor_linear (\<lambda>x. mm_clmulepi64_si128 (f x) c imm)"
  by (simp add: mm_clmulepi64_si128_def clmul64_comb linear_intros)

lemma mm_lane_basis:
  assumes "i < 128"
  shows "mm_lane (ubit i) False = (if i < 64 then ubit i else 0)"
    "mm_lane (ubit i) True = (if i < 64 then 0 else ubit (i - 64))"
  unfolding mm_lane_def
  by (auto intro!: bit_word_eqI simp: bit_simps)

lemma clmul64_0 [simp]: "clmul64 0 b = 0"
  using xor_linear_0 [OF xor_linear_comb [OF xor_linear_id]] by (simp add: clmul64_comb)

lemma clmul64_basis: "i < 64 \<Longrightarrow> clmul64 (ubit i) b = push_bit i (ucast b)"
  by (simp only: clmul64_comb comb_basis len_num1 len_bit0 len_num0) simp

section \<open>The value of a bit string\<close>

text \<open>
  \<open>crc_at m\<close> is the register after its highest bit was moved by \<open>m\<close> steps, and \<open>crc_val n x\<close> the
  value of the lowest \<open>n\<close> bits of a vector whose last bit is the register's highest.
\<close>

definition crc_at :: "nat \<Rightarrow> u32" where
  "crc_at m = (crc_bit ^^ m) (ubit 31)"

definition crc_val :: "nat \<Rightarrow> m128 \<Rightarrow> u32" where
  "crc_val n x = comb (\<lambda>i. crc_at (n - 1 - i)) (min n 128) x"

lemma crc_at_add: "(crc_bit ^^ k) (crc_at m) = crc_at (k + m)"
  by (simp add: crc_at_def funpow_add)

lemma crc_at_low: "m \<le> 31 \<Longrightarrow> crc_at m = ubit (31 - m)"
proof -
  assume m: "m \<le> 31"
  have "crc_at m = drop_bit m (ubit 31)"
    unfolding crc_at_def by (rule crc_bit_pow_shift) (use m in \<open>auto simp: bit_simps\<close>)
  also have "\<dots> = ubit (31 - m)" by (rule bit_word_eqI) (use m in \<open>auto simp: bit_simps\<close>)
  finally show ?thesis .
qed

lemma xor_linear_crc_val [linear_intros]: "xor_linear f \<Longrightarrow> xor_linear (\<lambda>x. crc_val n (f x))"
  by (simp add: crc_val_def linear_intros)

lemma crc_val_basis: "i < 128 \<Longrightarrow> crc_val n (ubit i) = (if i < n then crc_at (n - 1 - i) else 0)"
  by (simp only: crc_val_def comb_basis len_num1 len_bit0 len_num0) auto

lemma crc_val_shift:
  assumes "\<And>j. min n 128 - i \<le> j \<Longrightarrow> \<not> bit x j" "i \<le> min n 128"
  shows "(crc_bit ^^ i) (crc_val n (push_bit i x)) = crc_val n x"
proof -
  let ?m = "min n 128 - i"
  have "(crc_bit ^^ i) (crc_val n (push_bit i (take_bit ?m x))) = crc_val n (take_bit ?m x)"
  proof (rule xor_linear_eqI [of "\<lambda>x. (crc_bit ^^ i) (crc_val n (push_bit i (take_bit ?m x)))" "\<lambda>x. crc_val n (take_bit ?m x)"])
    fix j assume "j < LENGTH(128)"
    moreover have "take_bit ?m (ubit j :: m128) = (if j < ?m then ubit j else 0)"
      by (rule bit_word_eqI) (auto simp: bit_simps)
    ultimately show "(crc_bit ^^ i) (crc_val n (push_bit i (take_bit ?m (ubit j)))) = crc_val n (take_bit ?m (ubit j))"
      using crc_val_basis [of "i + j" n] crc_val_basis [of j n]
      by (auto simp: crc_at_add xor_linear_0 linear_intros)
  qed (intro linear_intros)+
  moreover have "take_bit ?m x = x" by (rule bit_word_eqI) (use assms in \<open>auto simp: bit_simps not_le [symmetric]\<close>)
  ultimately show ?thesis by simp
qed

lemma crc_pow_zero [simp]: "(crc_bit ^^ n) 0 = 0"
  using crc_bits_pow_xor [of n 0 0] by simp

lemma crc_bits_linear: "crc_bits s bs = (crc_bit ^^ (8 * length bs)) s XOR crc_bits 0 bs"
proof (induction bs arbitrary: s)
  case (Cons b bs)
  have p: "(crc_bit ^^ (8 * length bs)) ((crc_bit ^^ 8) s) = (crc_bit ^^ (8 * length (b # bs))) s"
    by (simp add: funpow_add [symmetric, THEN fun_cong, simplified] add.commute)
  show ?case
    unfolding crc_bits_Cons [of s] crc_bits_Cons [of 0] Cons [of "crc_zeros (Suc 0) (s XOR ucast b)"]
      Cons [of "crc_zeros (Suc 0) (0 XOR ucast b)"]
    by (simp only: crc_zeros_def mult_1_right mult_Suc_right crc_bits_pow_xor p [symmetric]) (simp add: ac_simps crc_bits_pow_xor)
qed simp

lemma crc_val_word: "crc_val (k + 32) (ucast (b :: u32)) = (crc_bit ^^ k) b"
proof (rule xor_linear_eqI [of "\<lambda>b. crc_val (k + 32) (ucast (b :: u32))"])
  fix i assume i: "i < LENGTH(32)"
  have u: "ucast (ubit i :: u32) = (ubit i :: m128)"
    using i by (auto intro!: bit_word_eqI simp: bit_simps)
  have "crc_val (k + 32) (ubit i) = crc_at (k + (31 - i))"
    using i by (simp add: crc_val_basis add.commute)
  also have "\<dots> = (crc_bit ^^ k) (ubit i)"
    using i by (simp only: crc_at_add [symmetric]) (simp add: crc_at_low)
  finally show "crc_val (k + 32) (ucast (ubit i :: u32)) = (crc_bit ^^ k) (ubit i)"
    by (simp add: u)
qed (intro linear_intros)+

lemma ucast_ucast_byte: "(ucast (ucast (b :: byte) :: u32) :: m128) = ucast b"
  by (rule bit_word_eqI) (auto simp: bit_simps dest: bit_byteD)

lemma crc_val_push8:
  assumes "\<And>j. 120 \<le> j \<Longrightarrow> \<not> bit x j"
  shows "crc_val (m + 8) (push_bit 8 x) = crc_val m x"
proof -
  have "crc_val (m + 8) (push_bit 8 (take_bit 120 x)) = crc_val m (take_bit 120 x)"
  proof (rule xor_linear_eqI [of "\<lambda>x. crc_val (m + 8) (push_bit 8 (take_bit 120 x))" "\<lambda>x. crc_val m (take_bit 120 x)"])
    fix j assume "j < LENGTH(128)"
    moreover have "take_bit 120 (ubit j :: m128) = (if j < 120 then ubit j else 0)"
      by (rule bit_word_eqI) (auto simp: bit_simps)
    ultimately show "crc_val (m + 8) (push_bit 8 (take_bit 120 (ubit j))) = crc_val m (take_bit 120 (ubit j))"
      using crc_val_basis [of "8 + j" "m + 8"] crc_val_basis [of j m]
      by (auto simp: xor_linear_0 linear_intros)
  qed (intro linear_intros)+
  moreover have "take_bit 120 x = x" by (rule bit_word_eqI) (use assms in \<open>auto simp: bit_simps not_le [symmetric]\<close>)
  ultimately show ?thesis by simp
qed

lemma crc_bits_val: "length bs \<le> 16 \<Longrightarrow> crc_bits 0 bs = crc_val (8 * length bs + 32) (le_word bs)"
proof (induction bs)
  case (Cons b bs)
  let ?n = "8 * length bs"
  have "crc_bits 0 (b # bs) = (crc_bit ^^ ?n) (crc_zeros (Suc 0) (ucast b)) XOR crc_bits 0 bs"
    unfolding crc_bits_Cons by (subst crc_bits_linear) simp
  also have "\<dots> = (crc_bit ^^ (?n + 8)) (ucast b) XOR crc_val (?n + 32) (le_word bs)"
    using Cons by (simp add: crc_zeros_def funpow_add del: funpow.simps)
  also have "crc_val (?n + 32) (le_word bs) = crc_val (?n + 8 + 32) (push_bit 8 (le_word bs))"
  proof -
    have "\<not> bit (le_word bs :: m128) j" if "120 \<le> j" for j
      using that Cons.prems div_le_mono [of 120 j 8] by (simp add: bit_le_word)
    from crc_val_push8 [of "le_word bs" "?n + 32", OF this] show ?thesis by (simp add: add.commute)
  qed
  also have "(crc_bit ^^ (?n + 8)) (ucast b) = crc_val (?n + 8 + 32) (ucast b)"
    using crc_val_word [of "?n + 8" "ucast b"] by (simp only: ucast_ucast_byte)
  finally show ?case
    by (simp only: le_word_Cons_xor xor_linearD [OF xor_linear_crc_val [OF xor_linear_id]]) simp
qed (simp add: xor_linear_0 linear_intros)

section \<open>Folding\<close>

text \<open>
  A product with a folding constant: the constant's own value decides the value of every
  product.
\<close>

lemma product_val:
  assumes "i < 64" "i + 33 \<le> min n 128" "\<And>j. 33 \<le> j \<Longrightarrow> \<not> bit (K :: u64) j"
    and "crc_val n (ucast K) = (crc_bit ^^ d) (crc_at m)" "i \<le> m"
  shows "crc_val n (clmul64 (ubit i) K) = (crc_bit ^^ d) (crc_at (m - i))"
proof -
  have "(crc_bit ^^ i) (crc_val n (push_bit i (ucast K))) = crc_val n (ucast K)"
    by (rule crc_val_shift) (use assms(2,3) in \<open>auto simp: bit_simps\<close>)
  also have "\<dots> = (crc_bit ^^ i) ((crc_bit ^^ d) (crc_at (m - i)))"
    using assms(4,5) by (simp add: crc_at_add)
  finally have "(crc_bit ^^ i) (crc_val n (push_bit i (ucast K)) XOR (crc_bit ^^ d) (crc_at (m - i))) = 0"
    by (simp add: crc_bits_pow_xor)
  from crc_pow_inj [OF this] show ?thesis
    using assms(1) by (simp add: clmul64_basis xor_eq_0_iff)
qed

lemma bit_u64_high [simp]: "\<not> bit (a :: u64) (64 + n)"
  by (auto dest: bit_imp_le_length)

lemma mm_lane_load: "mm_lane (mm_load [a, b]) False = a" "mm_lane (mm_load [a, b]) True = b"
  unfolding mm_lane_def mm_load_def
  by (auto intro!: bit_word_eqI simp: bit_simps)

lemma Fold_0: "Fold v (mm_load [a, b]) y = (clmul64 (mm_lane v False) a XOR clmul64 (mm_lane v True) b) XOR y"
  by (simp add: Fold_def mm_clmulepi64_si128_def mm_lane_load bit_numeral_rec)

lemma Fold_val:
  assumes "\<And>j. 33 \<le> j \<Longrightarrow> \<not> bit a j" "\<And>j. 33 \<le> j \<Longrightarrow> \<not> bit b j"
    and "crc_val 160 (ucast a) = (crc_bit ^^ d) (crc_at 159)"
    and "crc_val 160 (ucast b) = (crc_bit ^^ d) (crc_at 95)"
  shows "crc_val 160 (Fold v (mm_load [a, b]) y) = (crc_bit ^^ d) (crc_val 160 v) XOR crc_val 160 y"
proof -
  have lin: "xor_linear (\<lambda>v. crc_val 160 (clmul64 (mm_lane v False) a XOR clmul64 (mm_lane v True) b))"
    by (simp add: clmul64_comb linear_intros)
  have "crc_val 160 (clmul64 (mm_lane v False) a XOR clmul64 (mm_lane v True) b) = (crc_bit ^^ d) (crc_val 160 v)"
  proof (rule xor_linear_eqI [OF lin])
    fix i assume i: "i < LENGTH(128)"
    show "crc_val 160 (clmul64 (mm_lane (ubit i) False) a XOR clmul64 (mm_lane (ubit i) True) b) =
        (crc_bit ^^ d) (crc_val 160 (ubit i))"
      using i product_val [of i 160 a d 159] product_val [of "i - 64" 160 b d 95] assms
      by (cases "i < 64") (simp_all add: mm_lane_basis crc_val_basis)
  qed (intro linear_intros)
  then show ?thesis
    unfolding Fold_0 xor_linearD [OF xor_linear_crc_val [OF xor_linear_id], of 160 "_ XOR _"] by simp
qed

text \<open>One evaluation per folding constant: iteration by doubling keeps the terms small.\<close>

fun iterate_num :: "num \<Rightarrow> ('a \<Rightarrow> 'a) \<Rightarrow> 'a \<Rightarrow> 'a" where
  "iterate_num num.One f x = f x"
| "iterate_num (num.Bit0 n) f x = iterate_num n f (iterate_num n f x)"
| "iterate_num (num.Bit1 n) f x = f (iterate_num n f (iterate_num n f x))"

lemma funpow_iterate_num: "(f ^^ numeral n) x = iterate_num n f x"
proof (induction n arbitrary: x)
  case (Bit0 n)
  then show ?case by (simp only: numeral_Bit0 funpow_add comp_apply iterate_num.simps)
next
  case (Bit1 n)
  have "numeral (num.Bit1 n) = Suc (numeral n + numeral n)" by (simp add: numeral_Bit1)
  then show ?case using Bit1 by (simp only: funpow.simps funpow_add comp_apply iterate_num.simps)
qed simp

lemmas crc_eval = funpow_iterate_num crc_bit_def kPolynomial_def

lemma crc_at_95: "crc_at 95 = 0xccaa009e"
  by (simp add: crc_at_def ubit_def crc_eval)

lemma crc_at_127: "crc_at 127 = 0x9ba54c6f"
  using crc_at_add [of 32 95] by (simp add: crc_at_95 crc_eval)

lemma crc_at_159: "crc_at 159 = 0xae689191"
  using crc_at_add [of 32 127] by (simp add: crc_at_127 crc_eval)

lemma crc_at_223: "crc_at 223 = 0x81256527"
  using crc_at_add [of 64 159] by (simp add: crc_at_159 crc_eval)

lemma crc_at_287: "crc_at 287 = 0xf1da05aa"
  using crc_at_add [of 64 223] by (simp add: crc_at_223 crc_eval)

lemma crc_at_607: "crc_at 607 = 0xae0b5394"
  using crc_at_add [of 320 287] by (simp add: crc_at_287 crc_eval)

lemma crc_at_671: "crc_at 671 = 0x1c279815"
  using crc_at_add [of 64 607] by (simp add: crc_at_607 crc_eval)

text \<open>A folding constant has its low 32 bits and perhaps bit 32.\<close>

lemma crc_val_const:
  assumes "(ucast K :: m128) = ucast (low :: u32) XOR (if hi then ubit 32 else 0)"
  shows "crc_val (k + 33) (ucast (K :: u64)) = (crc_bit ^^ (k + 1)) low XOR (if hi then crc_at k else 0)"
proof -
  have "k + 33 = k + 1 + 32" by simp
  then have "crc_val (k + 33) (ucast K) = crc_val (k + 1 + 32) (ucast low) XOR crc_val (k + 33) (if hi then ubit 32 else 0)"
    unfolding assms xor_linearD [OF xor_linear_crc_val [OF xor_linear_id]] by (simp only:)
  then show ?thesis
    by (simp only: crc_val_word) (simp add: crc_val_basis xor_linear_0 linear_intros)
qed

lemma fold_constants:
  "crc_val 160 (ucast (0x0154442bd4 :: u64)) = (crc_bit ^^ 512) (crc_at 159)"
  "crc_val 160 (ucast (0x01c6e41596 :: u64)) = (crc_bit ^^ 512) (crc_at 95)"
  "crc_val 160 (ucast (0x01751997d0 :: u64)) = (crc_bit ^^ 128) (crc_at 159)"
  "crc_val 160 (ucast (0x00ccaa009e :: u64)) = (crc_bit ^^ 128) (crc_at 95)"
  "crc_val 96 (ucast (0x00ccaa009e :: u64)) = crc_at 159"
  "crc_val 64 (ucast (0x0163cd6124 :: u64)) = crc_at 95"
proof -
  note e = crc_at_add crc_at_low crc_at_95 crc_at_127 crc_at_159 crc_at_223 crc_at_287 crc_at_607
    crc_at_671 ubit_def crc_eval
  show "crc_val 160 (ucast (0x0154442bd4 :: u64)) = (crc_bit ^^ 512) (crc_at 159)"
    using crc_val_const [of "0x0154442bd4" "0x54442bd4" True 127] by (simp add: e)
  show "crc_val 160 (ucast (0x01c6e41596 :: u64)) = (crc_bit ^^ 512) (crc_at 95)"
    using crc_val_const [of "0x01c6e41596" "0xc6e41596" True 127] by (simp add: e)
  show "crc_val 160 (ucast (0x01751997d0 :: u64)) = (crc_bit ^^ 128) (crc_at 159)"
    using crc_val_const [of "0x01751997d0" "0x751997d0" True 127] by (simp add: e)
  show "crc_val 160 (ucast (0x00ccaa009e :: u64)) = (crc_bit ^^ 128) (crc_at 95)"
    using crc_val_const [of "0x00ccaa009e" "0xccaa009e" False 127] by (simp add: e)
  show "crc_val 96 (ucast (0x00ccaa009e :: u64)) = crc_at 159"
    using crc_val_const [of "0x00ccaa009e" "0xccaa009e" False 63] by (simp add: e)
  show "crc_val 64 (ucast (0x0163cd6124 :: u64)) = crc_at 95"
    using crc_val_const [of "0x0163cd6124" "0x63cd6124" True 31] by (simp add: e)
qed

lemma high_bits [simp]:
  "33 \<le> j \<Longrightarrow> \<not> bit (0x0154442bd4 :: u64) j" "33 \<le> j \<Longrightarrow> \<not> bit (0x01c6e41596 :: u64) j"
  "33 \<le> j \<Longrightarrow> \<not> bit (0x01751997d0 :: u64) j" "33 \<le> j \<Longrightarrow> \<not> bit (0x00ccaa009e :: u64) j"
  "33 \<le> j \<Longrightarrow> \<not> bit (0x0163cd6124 :: u64) j"
proof -
  have h: "\<not> bit w j" if "33 \<le> j" "w = take_bit 33 w" for w :: u64 and j
    using that(1) arg_cong [OF that(2), of "\<lambda>w. bit w j"] by (simp only: bit_take_bit_iff) simp
  show "33 \<le> j \<Longrightarrow> \<not> bit (0x0154442bd4 :: u64) j" by (rule h) simp_all
  show "33 \<le> j \<Longrightarrow> \<not> bit (0x01c6e41596 :: u64) j" by (rule h) simp_all
  show "33 \<le> j \<Longrightarrow> \<not> bit (0x01751997d0 :: u64) j" by (rule h) simp_all
  show "33 \<le> j \<Longrightarrow> \<not> bit (0x00ccaa009e :: u64) j" by (rule h) simp_all
  show "33 \<le> j \<Longrightarrow> \<not> bit (0x0163cd6124 :: u64) j" by (rule h) simp_all
qed

lemma Fold_512: "crc_val 160 (Fold v (mm_load kK1K2) y) = (crc_bit ^^ 512) (crc_val 160 v) XOR crc_val 160 y"
  unfolding kK1K2_def by (rule Fold_val) (simp_all only: fold_constants high_bits not_False_eq_True)

lemma Fold_128: "crc_val 160 (Fold v (mm_load kK3K4) y) = (crc_bit ^^ 128) (crc_val 160 v) XOR crc_val 160 y"
  unfolding kK3K4_def by (rule Fold_val) (simp_all only: fold_constants high_bits not_False_eq_True)

section \<open>Reduction\<close>

lemma FoldBlocks_64_val: "crc_val 96 (FoldBlocks_64 x) = crc_val 160 x"
proof (rule xor_linear_eqI [of "\<lambda>x. crc_val 96 (FoldBlocks_64 x)"])
  have e: "FoldBlocks_64 v = drop_bit 64 v XOR clmul64 (mm_lane v False) 0x00ccaa009e" for v
    by (simp add: FoldBlocks_64_def kK3K4_def mm_clmulepi64_si128_def mm_lane_load bit_numeral_rec)
  show "xor_linear (\<lambda>x. crc_val 96 (FoldBlocks_64 x))"
    unfolding e by (intro linear_intros)
  fix i assume i: "i < LENGTH(128)"
  have d: "drop_bit 64 (ubit i :: m128) = (if i < 64 then 0 else ubit (i - 64))"
    using i by (auto intro!: bit_word_eqI simp: bit_simps)
  show "crc_val 96 (FoldBlocks_64 (ubit i)) = crc_val 160 (ubit i)"
    using i product_val [of i 96 "0x00ccaa009e" 0 159] fold_constants(5) high_bits(4)
      less_imp_diff_less [of i 160 64]
    by (cases "i < 64") (auto simp: e d mm_lane_basis crc_val_basis)
qed (intro linear_intros)

lemma mm_lane_low32_basis:
  "i < 128 \<Longrightarrow> mm_lane (ubit i AND low32) False = (if i < 32 then ubit i else 0)"
proof -
  assume i: "i < 128"
  have l: "bit low32 j \<longleftrightarrow> j < 32" if "j < 64" for j
  proof -
    have "take_bit 64 low32 = take_bit 64 (mask 32)" by (simp add: low32_def mask_eq_exp_minus_1)
    then have "bit (take_bit 64 low32) j = bit (take_bit 64 (mask 32 :: m128)) j" by simp
    then show ?thesis using that by (simp only: bit_take_bit_iff bit_mask_iff) simp
  qed
  show ?thesis
    by (rule bit_word_eqI) (use i l in \<open>auto simp: mm_lane_def bit_simps\<close>)
qed

lemma FoldBlocks_32_val: "crc_val 64 (FoldBlocks_32 x) = crc_val 96 x"
proof (rule xor_linear_eqI [of "\<lambda>x. crc_val 64 (FoldBlocks_32 x)"])
  have k: "mm_lane (mm_loadl_epi64 kK5K0) False = 0x0163cd6124"
    by (simp add: mm_lane_def mm_loadl_epi64_def kK5K0_def)
  have e: "FoldBlocks_32 v = clmul64 (mm_lane (v AND low32) False) 0x0163cd6124 XOR drop_bit 32 v" for v
    by (simp add: FoldBlocks_32_def mm_clmulepi64_si128_def k bit_numeral_rec)
  show "xor_linear (\<lambda>x. crc_val 64 (FoldBlocks_32 x))"
    unfolding e by (intro linear_intros)
  fix i assume i: "i < LENGTH(128)"
  have d: "drop_bit 32 (ubit i :: m128) = (if i < 32 then 0 else ubit (i - 32))"
    using i by (auto intro!: bit_word_eqI simp: bit_simps)
  show "crc_val 64 (FoldBlocks_32 (ubit i)) = crc_val 96 (ubit i)"
    using i product_val [of i 64 "0x0163cd6124" 0 95] fold_constants(6) high_bits(5)
    by (cases "i < 32") (auto simp: e d mm_lane_low32_basis crc_val_basis)
qed (intro linear_intros)

text \<open>Barrett reduction: \<open>mu\<close> inverts \<open>P\<close> modulo \<open>x\<close> to the 32nd power, and multiples of \<open>P\<close> have value 0.\<close>

lemma mm_lane_low32: "mm_lane (v AND low32) False = take_bit 32 (ucast v)"
proof -
  have "xor_linear (\<lambda>v. mm_lane (v AND low32) False)" "xor_linear (\<lambda>v. take_bit 32 (ucast v :: u64))"
    by (intro linear_intros)+
  then show ?thesis
  proof (rule xor_linear_eqI)
    fix i assume i: "i < LENGTH(128)"
    then show "mm_lane (ubit i AND low32) False = take_bit 32 (ucast (ubit i :: m128))"
      by (auto simp: mm_lane_low32_basis bit_simps intro!: bit_word_eqI)
  qed
qed

lemma low_product_take:
  "take_bit 32 (clmul64 (take_bit 32 a) b) = take_bit 32 (clmul64 a b)"
proof (rule xor_linear_eqI [of "\<lambda>a. take_bit 32 (clmul64 (take_bit 32 a) b)"])
  fix i assume "i < LENGTH(64)"
  moreover have "take_bit 32 (ubit i :: u64) = (if i < 32 then ubit i else 0)"
    by (rule bit_word_eqI) (auto simp: bit_simps)
  moreover have "take_bit 32 (push_bit i (ucast b :: m128)) = 0" if "32 \<le> i"
    by (rule bit_word_eqI) (use that in \<open>auto simp: bit_simps\<close>)
  ultimately show "take_bit 32 (clmul64 (take_bit 32 (ubit i)) b) = take_bit 32 (clmul64 (ubit i) b)"
    by (auto simp: clmul64_basis)
qed (intro linear_intros)+

lemma low_product_push:
  "take_bit 32 (clmul64 (push_bit i a) b) = take_bit 32 (push_bit i (take_bit 32 (clmul64 a b)))"
proof (rule xor_linear_eqI [of "\<lambda>a. take_bit 32 (clmul64 (push_bit i a) b)"])
  fix j assume j: "j < LENGTH(64)"
  have "take_bit 32 (clmul64 (ubit (i + j)) b) = take_bit 32 (push_bit (i + j) (ucast b))"
  proof (cases "i + j < 64")
    case False
    then have "(ubit (i + j) :: u64) = 0" by (intro bit_word_eqI) simp
    moreover have "take_bit 32 (push_bit (i + j) (ucast b :: m128)) = 0"
      by (rule bit_word_eqI) (use False in \<open>auto simp: bit_simps\<close>)
    ultimately show ?thesis by simp
  qed (simp add: clmul64_basis)
  also have "\<dots> = take_bit 32 (push_bit i (take_bit 32 (push_bit j (ucast b))))"
    by (rule bit_word_eqI) (auto simp: bit_simps algebra_simps)
  finally show "take_bit 32 (clmul64 (push_bit i (ubit j)) b) =
      take_bit 32 (push_bit i (take_bit 32 (clmul64 (ubit j) b)))"
    using j by (simp add: clmul64_basis)
qed (intro linear_intros)+

lemma mu_inverse: "take_bit 32 (clmul64 0x01f7011641 0x01db710641) = 1"
  by (simp add: clmul64_def upt_conv_Cons bit_numeral_rec)

lemma multiple_val: "(\<And>j. 32 \<le> j \<Longrightarrow> \<not> bit q j) \<Longrightarrow> crc_val 64 (clmul64 q 0x01db710641) = 0"
proof -
  let ?P = "0x01db710641 :: u64"
  have P: "crc_val 64 (ucast ?P) = 0"
    using crc_val_const [of ?P "0xdb710641" True 31] by (simp add: crc_at_low ubit_def crc_eval)
  have hi: "\<not> bit (ucast ?P :: m128) j" if "33 \<le> j" for j
  proof -
    have "ucast ?P = take_bit 33 (ucast ?P :: m128)" by simp
    from arg_cong [OF this, of "\<lambda>w. bit w j"] show ?thesis using that by (simp only: bit_take_bit_iff) simp
  qed
  have "crc_val 64 (clmul64 (take_bit 32 q) ?P) = 0"
  proof (rule xor_linear_eqI [of "\<lambda>q. crc_val 64 (clmul64 (take_bit 32 q) ?P)" "\<lambda>q. 0"])
    fix i assume i: "i < LENGTH(64)"
    have t: "take_bit 32 (ubit i :: u64) = (if i < 32 then ubit i else 0)"
      by (rule bit_word_eqI) (auto simp: bit_simps)
    have "(crc_bit ^^ i) (crc_val 64 (push_bit i (ucast ?P))) = 0" if "i < 32"
      using crc_val_shift [of 64 i "ucast ?P"] P hi that by simp
    then show "crc_val 64 (clmul64 (take_bit 32 (ubit i)) ?P) = 0"
      using crc_pow_inj [of i "crc_val 64 (push_bit i (ucast ?P))"]
      by (simp add: t clmul64_basis xor_linear_0 linear_intros)
  qed (intro linear_intros)+
  moreover assume "\<And>j. 32 \<le> j \<Longrightarrow> \<not> bit q j"
  then have "take_bit 32 q = q" by (intro bit_word_eqI) (auto simp: bit_simps not_le [symmetric])
  ultimately show ?thesis by simp
qed

lemma high_half_val: "crc_val 64 z = ucast (drop_bit 32 z) XOR crc_val 64 (take_bit 32 z)"
proof (rule xor_linear_eqI [of "crc_val 64" "\<lambda>z. ucast (drop_bit 32 z) XOR crc_val 64 (take_bit 32 z)"])
  fix i assume i: "i < LENGTH(128)"
  have t: "take_bit 32 (ubit i :: m128) = (if i < 32 then ubit i else 0)"
    by (rule bit_word_eqI) (auto simp: bit_simps)
  have d: "(ucast (drop_bit 32 (ubit i :: m128)) :: u32) = (if i < 32 \<or> 64 \<le> i then 0 else ubit (i - 32))"
    using i by (auto intro!: bit_word_eqI simp: bit_simps)
  have l: "31 - (63 - i) = i - 32" if "32 \<le> i" "i < 64" using that by simp
  show "crc_val 64 (ubit i) = ucast (drop_bit 32 (ubit i :: m128)) XOR crc_val 64 (take_bit 32 (ubit i))"
    using i l by (auto simp: t d crc_val_basis crc_at_low xor_linear_0 linear_intros)
qed (intro linear_intros)+

lemma barrett_low:
  "take_bit 32 (clmul64 (take_bit 32 (ucast (clmul64 (take_bit 32 (ucast x)) 0x01f7011641))) 0x01db710641) =
   take_bit 32 (x :: m128)"
proof (rule xor_linear_eqI [of
    "\<lambda>x. take_bit 32 (clmul64 (take_bit 32 (ucast (clmul64 (take_bit 32 (ucast x)) 0x01f7011641))) 0x01db710641)"
    "\<lambda>x. take_bit 32 x"])
  fix i assume i: "i < LENGTH(128)"
  have t: "take_bit 32 (ucast (ubit i :: m128)) = (if i < 32 then ubit i else 0 :: u64)"
    "take_bit 32 (ubit i :: m128) = (if i < 32 then ubit i else 0)"
    using i by (auto intro!: bit_word_eqI simp: bit_simps)
  have u: "(ucast (push_bit i (ucast (w :: u64) :: m128)) :: u64) = push_bit i w" for w
    by (rule bit_word_eqI) (auto simp: bit_simps)
  have p: "take_bit 32 (push_bit i (1 :: m128)) = (if i < 32 then ubit i else 0)"
    using t(2) by (simp only: ubit_def)
  show "take_bit 32 (clmul64 (take_bit 32 (ucast (clmul64 (take_bit 32 (ucast (ubit i :: m128))) 0x01f7011641)))
      0x01db710641) = take_bit 32 (ubit i)"
  proof (cases "i < 32")
    case True
    then have "clmul64 (ubit i) 0x01f7011641 = push_bit i (ucast (0x01f7011641 :: u64))"
      by (intro clmul64_basis) simp
    with True p show ?thesis
      by (simp only: t if_True low_product_take u low_product_push mu_inverse)
  next
    case False
    then show ?thesis by (simp add: t xor_linear_0 linear_intros)
  qed
qed (intro linear_intros)+

lemma FoldBlocks_barrett_val: "FoldBlocks_barrett x = crc_val 64 x"
proof -
  let ?q = "take_bit 32 (ucast (clmul64 (take_bit 32 (ucast x)) 0x01f7011641)) :: u64"
  let ?z = "x XOR clmul64 ?q 0x01db710641"
  have b: "FoldBlocks_barrett x = ucast (drop_bit 32 ?z)"
    by (simp add: FoldBlocks_barrett_def kPolyMu_def mm_clmulepi64_si128_def mm_lane_load mm_lane_low32
        bit_numeral_rec Let_def)
  have z: "take_bit 32 ?z = 0"
    using xor_linearD [OF xor_linear_bits(3) [OF xor_linear_id], of 32 x] barrett_low [of x] by simp
  have "crc_val 64 ?z = crc_val 64 x"
    using multiple_val [of ?q] xor_linearD [OF xor_linear_crc_val [OF xor_linear_id], of 64 x]
    by (simp add: bit_take_bit_iff)
  then show ?thesis
    using high_half_val [of ?z] z b by (simp add: xor_linear_0 linear_intros)
qed

end
