(* ===== verification/Crc32_Clmul.thy ===== *)
theory Crc32_Clmul
  imports Crc32_Fold
begin

text \<open>
  The carry-less multiplication kernel computes the register, and with it every implementation
  \<open>Crc32Extend\<close> can select computes the same checksum.
\<close>

section \<open>The kernel computes the register\<close>

lemma crc_bits_Load:
  assumes "16 \<le> length data"
  shows "crc_bits s data = crc_bits ((crc_bit ^^ 128) s XOR crc_val 160 (Load data)) (drop 16 data)"
proof -
  have "crc_bits s data = crc_bits (crc_bits s (take 16 data)) (drop 16 data)"
    by (simp add: crc_bits_append [symmetric])
  then show ?thesis
    using assms crc_bits_val [of "take 16 data"] crc_bits_linear [of s "take 16 data"]
    by (simp add: Load_def min_absorb2)
qed

lemma crc_pow_pow: "(crc_bit ^^ i) ((crc_bit ^^ j) s) = (crc_bit ^^ (i + j)) s"
  by (simp add: funpow_add)

definition lanes_val :: "m128 \<times> m128 \<times> m128 \<times> m128 \<Rightarrow> u32" where
  "lanes_val X = (case X of (x1, x2, x3, x4) \<Rightarrow>
    (crc_bit ^^ 128) ((crc_bit ^^ 128) ((crc_bit ^^ 128) (crc_val 160 x1) XOR crc_val 160 x2) XOR
      crc_val 160 x3) XOR crc_val 160 x4)"

lemma crc_bits_lanes:
  assumes "64 \<le> length data"
  shows "crc_bits s data = crc_bits ((crc_bit ^^ 512) s XOR
    lanes_val (Load data, Load (drop 16 data), Load (drop 32 data), Load (drop 48 data))) (drop 64 data)"
proof -
  define s1 where "s1 = (crc_bit ^^ 128) s XOR crc_val 160 (Load data)"
  define s2 where "s2 = (crc_bit ^^ 128) s1 XOR crc_val 160 (Load (drop 16 data))"
  define s3 where "s3 = (crc_bit ^^ 128) s2 XOR crc_val 160 (Load (drop 32 data))"
  have "crc_bits s data = crc_bits s1 (drop 16 data)"
    using assms crc_bits_Load [of data s] by (simp add: s1_def)
  also have "\<dots> = crc_bits s2 (drop 32 data)"
    using assms crc_bits_Load [of "drop 16 data" s1] by (simp add: s2_def)
  also have "\<dots> = crc_bits s3 (drop 48 data)"
    using assms crc_bits_Load [of "drop 32 data" s2] by (simp add: s3_def)
  also have "\<dots> = crc_bits ((crc_bit ^^ 128) s3 XOR crc_val 160 (Load (drop 48 data))) (drop 64 data)"
    using assms crc_bits_Load [of "drop 48 data" s3] by simp
  also have "(crc_bit ^^ 128) s3 XOR crc_val 160 (Load (drop 48 data)) = (crc_bit ^^ 512) s XOR
      lanes_val (Load data, Load (drop 16 data), Load (drop 32 data), Load (drop 48 data))"
    by (simp add: s1_def s2_def s3_def lanes_val_def crc_bits_pow_xor crc_pow_pow xor.assoc)
  finally show ?thesis .
qed

lemma lanes_val_Fold:
  "lanes_val (Fold x1 (mm_load kK1K2) y1, Fold x2 (mm_load kK1K2) y2, Fold x3 (mm_load kK1K2) y3,
     Fold x4 (mm_load kK1K2) y4) =
   (crc_bit ^^ 512) (lanes_val (x1, x2, x3, x4)) XOR lanes_val (y1, y2, y3, y4)"
  unfolding lanes_val_def case_prod_conv Fold_512 crc_bits_pow_xor crc_pow_pow
  by (simp only: xor.assoc xor.left_commute xor.commute numeral_plus_numeral add_num_simps)

lemma FoldBlocks_lanes_bits:
  "FoldBlocks_lanes X data = (X', rest) \<Longrightarrow>
    crc_bits (lanes_val X') rest = crc_bits (lanes_val X) data \<and> length rest mod 16 = length data mod 16"
proof (induction X data rule: FoldBlocks_lanes.induct)
  case (1 x1 x2 x3 x4 data)
  show ?case
  proof (cases "64 \<le> length data")
    case True
    have m: "(length data - 64) mod 16 = length data mod 16"
      using True mod_mult_self1 [of "length data - 64" 4 16] by simp
    show ?thesis
      using True 1 crc_bits_lanes [OF True, of "lanes_val (x1, x2, x3, x4)"]
      by (simp add: FoldBlocks_lanes.simps [of x1] Let_def lanes_val_Fold m)
  next
    case False
    then show ?thesis using 1 by (auto simp: FoldBlocks_lanes.simps [of x1])
  qed
qed

lemma FoldBlocks_single_bits:
  "length data mod 16 = 0 \<Longrightarrow> crc_val 160 (FoldBlocks_single x data) = crc_bits (crc_val 160 x) data"
proof (induction x data rule: FoldBlocks_single.induct)
  case (1 x data)
  show ?case
  proof (cases "16 \<le> length data")
    case True
    then show ?thesis
      using 1 crc_bits_Load [OF True, of "crc_val 160 x"]
      by (simp add: FoldBlocks_single.simps [of x] Fold_128 le_mod_geq)
  next
    case False
    then show ?thesis using 1 by (simp add: FoldBlocks_single.simps [of x])
  qed
qed

lemma FoldBlocks_bits:
  assumes "64 \<le> length data" "length data mod 16 = 0"
  shows "FoldBlocks state data = crc_bits state data"
proof -
  let ?X = "(Load data XOR ucast state, Load (drop 16 data), Load (drop 32 data), Load (drop 48 data))"
  obtain x1 x2 x3 x4 rest where L: "FoldBlocks_lanes ?X (drop 64 data) = ((x1, x2, x3, x4), rest)"
    by (metis surj_pair)
  let ?k = "mm_load kK3K4"
  let ?x = "Fold (Fold (Fold x1 ?k x2) ?k x3) ?k x4"
  have m: "(length data - 64) mod 16 = length data mod 16"
    using assms(1) mod_mult_self1 [of "length data - 64" 4 16] by simp
  have "FoldBlocks state data = crc_val 160 (FoldBlocks_single ?x rest)"
    by (simp add: FoldBlocks_def L FoldBlocks_barrett_val FoldBlocks_32_val FoldBlocks_64_val Let_def)
  also have "\<dots> = crc_bits (crc_val 160 ?x) rest"
    using FoldBlocks_lanes_bits [OF L] assms m by (intro FoldBlocks_single_bits) simp
  also have "crc_val 160 ?x = lanes_val (x1, x2, x3, x4)"
    by (simp only: Fold_128 lanes_val_def case_prod_conv)
  also have "crc_bits (lanes_val (x1, x2, x3, x4)) rest = crc_bits (lanes_val ?X) (drop 64 data)"
    using FoldBlocks_lanes_bits [OF L] by simp
  also have "lanes_val ?X = (crc_bit ^^ 512) state XOR
      lanes_val (Load data, Load (drop 16 data), Load (drop 32 data), Load (drop 48 data))"
    unfolding lanes_val_def case_prod_conv xor_linearD [OF xor_linear_crc_val [OF xor_linear_id]]
      crc_val_word [of 128 state, simplified] crc_bits_pow_xor crc_pow_pow
    by (simp only: xor.assoc xor.left_commute xor.commute numeral_plus_numeral add_num_simps)
  finally show ?thesis using crc_bits_lanes [OF assms(1)] by simp
qed

lemma ClmulKernel_bits: "ClmulKernel state data = crc_bits state data"
proof (cases "64 \<le> length data")
  case True
  let ?f = "length data - length data mod 16"
  have "64 \<le> ?f" using div_le_mono [OF True, of 16] by (simp add: minus_mod_eq_mult_div)
  moreover have "?f mod 16 = 0" by (simp add: minus_mod_eq_mult_div)
  ultimately have "FoldBlocks state (take ?f data) = crc_bits state (take ?f data)"
    by (intro FoldBlocks_bits) (simp_all add: min_absorb2)
  then show ?thesis
    using True by (simp add: ClmulKernel_def kMinFoldLength_def SlicingKernel_bits Let_def crc_bits_append [symmetric])
next
  case False
  then show ?thesis by (simp add: ClmulKernel_def kMinFoldLength_def SlicingKernel_bits)
qed

interpretation clmul_kernel: crc_kernel_law ClmulKernel
  by unfold_locales (rule ClmulKernel_bits)

section \<open>Properties\<close>

text \<open>
  A platform of the supported builds: the hardware kernels that are compiled in are the two of
  the source, the ARMv8 one over instructions that advance the register.
\<close>

definition source_platform :: "(u32 \<Rightarrow> byte \<Rightarrow> u32) \<Rightarrow> (u32 \<Rightarrow> u64 \<Rightarrow> u32) \<Rightarrow> nat \<Rightarrow> crc_platform \<Rightarrow> bool" where
  "source_platform crc32b crc32d addr pf \<longleftrightarrow>
    (case clmul pf of None \<Rightarrow> True | Some (k, _) \<Rightarrow> k = ClmulKernel) \<and>
    (case armv8 pf of None \<Rightarrow> True
       | Some (k, _) \<Rightarrow> k = Armv8Kernel crc32b crc32d addr \<and> crc32b_ok crc32b \<and> crc32d_ok crc32d)"

lemma KernelFor_bits: "source_platform f g addr pf \<Longrightarrow> KernelFor pf impl s data = crc_bits s data"
  by (cases impl) (auto simp: source_platform_def TableKernel_bits SlicingKernel_bits ClmulKernel_bits
      Armv8Kernel_bits split: option.splits prod.splits)

lemma Crc32_eq_extend: "Crc32 data = slicing_kernel.extend 0 data"
  by (simp add: Crc32_def Crc32Extend_def SelectCrc32Impl_def portable_def slicing_kernel.extend_def)

text \<open>
  Claim C10. Whatever implementation is requested and selected (byte tables, slicing by 16,
  carry-less multiplication or the ARMv8 instructions), the checksum is that of the bit-at-a-time
  register with polynomial \<open>kPolynomial\<close>, inverted before and after.
\<close>

theorem crc32_implementations_agree:
  assumes "source_platform crc32b crc32d addr pf"
  shows "Crc32Extend pf requested previous data =
      fold (\<lambda>b s. (crc_bit ^^ 8) (s XOR ucast b)) data (previous XOR 0xFFFFFFFF) XOR 0xFFFFFFFF \<and>
    Crc32ExtendWith pf impl previous data = Crc32Extend pf requested previous data"
  using KernelFor_bits [OF assms] by (simp add: Crc32Extend_def Crc32ExtendWith_def crc_bits_def)

theorem crc32_implementations_agree_witness:
  "let pf = \<lparr>clmul = Some (ClmulKernel, True),
        armv8 = Some (Armv8Kernel (\<lambda>s b. crc_bits s [b]) (\<lambda>s w. crc_bits s (le_bytes 8 w)) 3, False)\<rparr>
   in Crc32Extend pf None 0 (replicate 100 7) =
        fold (\<lambda>b s. (crc_bit ^^ 8) (s XOR ucast b)) (replicate 100 (7 :: byte)) (0 XOR 0xFFFFFFFF) XOR 0xFFFFFFFF \<and>
      Crc32ExtendWith pf kArmv8 0 (replicate 100 7) = Crc32Extend pf None 0 (replicate 100 7)"
proof -
  let ?f = "\<lambda>s b. crc_bits s [b]" and ?g = "\<lambda>s w. crc_bits s (le_bytes 8 (w :: u64))"
  let ?pf = "\<lparr>clmul = Some (ClmulKernel, True), armv8 = Some (Armv8Kernel ?f ?g 3, False)\<rparr>"
  have p: "source_platform ?f ?g 3 ?pf"
    by (simp add: source_platform_def crc32b_ok_def crc32d_ok_def crc_bits_def)
  show ?thesis
    unfolding Let_def using crc32_implementations_agree [OF p] by metis
qed

text \<open>
  Claim C18. A burst of errors within four consecutive bytes always changes the checksum.
\<close>

theorem crc32_detects_bursts:
  assumes "length w = length w'" "length w \<le> 4" "w \<noteq> w'"
  shows "Crc32 (before @ w @ after) \<noteq> Crc32 (before @ w' @ after)"
  unfolding Crc32_eq_extend by (rule slicing_kernel.extend_burst [OF assms])

theorem crc32_detects_bursts_witness:
  "length [1, 2, 3 :: byte] = length [1, 0, 7 :: byte] \<and>
   Crc32 ([9] @ [1, 2, 3] @ [8, 8]) \<noteq> Crc32 ([9] @ [1, 0, 7] @ [8, 8])"
  using crc32_detects_bursts [of "[1, 2, 3]" "[1, 0, 7]" "[9]" "[8, 8]"] by simp

text \<open>
  Claim C19. Extending the checksum of a prefix by a suffix gives the checksum of the whole, for
  every supported build.
\<close>

theorem crc32_extend_append:
  assumes "source_platform crc32b crc32d addr pf"
  shows "Crc32Extend pf requested (Crc32Extend pf requested previous a) b =
    Crc32Extend pf requested previous (a @ b)"
  using KernelFor_bits [OF assms] by (simp add: Crc32Extend_def crc_bits_append xor.assoc)

theorem crc32_extend_append_witness:
  "Crc32Extend portable None (Crc32Extend portable None 0 [1, 2]) [3] = Crc32Extend portable None 0 ([1, 2] @ [3])"
  by (rule crc32_extend_append [of "\<lambda>s b. s" "\<lambda>s w. s" 0]) (simp add: source_platform_def portable_def)

text \<open>
  Claim C20. The selected implementation is always available, and it is the requested one
  whenever the request names an available implementation.
\<close>

theorem SelectCrc32Impl_available:
  "Crc32ImplAvailable pf (SelectCrc32Impl pf requested) \<and>
   (requested = Some (Crc32ImplName impl) \<and> Crc32ImplAvailable pf impl \<longrightarrow>
      SelectCrc32Impl pf requested = impl)"
  by (cases impl) (auto simp: SelectCrc32Impl_def kAllCrc32Impls_def split: option.splits)

theorem SelectCrc32Impl_available_witness:
  "SelectCrc32Impl portable (Some ''table'') = kTable"
  using SelectCrc32Impl_available [of portable "Some ''table''" kTable] by simp

end
