(* ===== verification/Column_Types.thy ===== *)
theory Column_Types
  imports Le_Codec "HOL-Library.Char_ord"
begin

text \<open>
  Columns and their types, from \<open>include/chunkdb/schema.hpp\<close> and the first half of
  \<open>src/schema.cpp\<close>: kinds, sizes, flags and defaults, the rules one column obeys, and the UTF-8
  check.  Fields that the manifest stores are words of the width they have there.
\<close>

section \<open>Data\<close>

datatype ColumnKind = kUnsigned | kSigned | kBool | kFloat32 | kFloat64 | kBits | kText | kBytes

record ColumnType =
  kind :: ColumnKind
  csize :: u32

definition kMaxColumnsPerTable :: nat where "kMaxColumnsPerTable = 1024"
definition kMaxColumnNameBytes :: nat where "kMaxColumnNameBytes = 63"
definition kMaxFixedBitsPerBlock :: nat where "kMaxFixedBitsPerBlock = 65535"
definition kMaxVariableValueBytes :: nat where "kMaxVariableValueBytes = 16 * 1024 * 1024"
definition kMaxSchemaVersions :: nat where "kMaxSchemaVersions = 65535"

record Column =
  col_id :: u32
  col_name :: string
  ctype :: ColumnType
  nullable :: bool
  required :: bool
  has_default :: bool
  default_value :: bytes

section \<open>Rules for one column\<close>

definition IsFixedWidth :: "ColumnKind \<Rightarrow> bool" where
  "IsFixedWidth k \<longleftrightarrow> k \<noteq> kText \<and> k \<noteq> kBytes"

definition FixedWidthBits :: "ColumnType \<Rightarrow> nat" where
  "FixedWidthBits t = (if IsFixedWidth (kind t) then unat (csize t) else 0)"

definition lower_or_underscore :: "char \<Rightarrow> bool" where
  "lower_or_underscore c \<longleftrightarrow> (CHR ''a'' \<le> c \<and> c \<le> CHR ''z'') \<or> c = CHR ''_''"

definition IsValidName :: "string \<Rightarrow> bool" where
  "IsValidName name \<longleftrightarrow>
    (if name = [] \<or> length name > kMaxColumnNameBytes then False
     else if \<not> lower_or_underscore (hd name) then False
     else list_all (\<lambda>c. lower_or_underscore c \<or> (CHR ''0'' \<le> c \<and> c \<le> CHR ''9'')) name)"

definition ValidateColumnType :: "Column \<Rightarrow> unit res" where
  "ValidateColumnType column =
    (let size = unat (csize (ctype column)) in
     case kind (ctype column) of
       kUnsigned \<Rightarrow>
         if size < 1 \<or> size > 64 then Inl (InvalidArgument ''uN takes N from 1 to 64'') else Inr ()
     | kSigned \<Rightarrow>
         if size < 2 \<or> size > 64 then Inl (InvalidArgument ''iN takes N from 2 to 64'') else Inr ()
     | kBool \<Rightarrow> if size \<noteq> 1 then Inl (InvalidArgument ''bool is 1 bit'') else Inr ()
     | kFloat32 \<Rightarrow> if size \<noteq> 32 then Inl (InvalidArgument ''f32 is 32 bits'') else Inr ()
     | kFloat64 \<Rightarrow> if size \<noteq> 64 then Inl (InvalidArgument ''f64 is 64 bits'') else Inr ()
     | kBits \<Rightarrow>
         if size < 1 \<or> size > kMaxFixedBitsPerBlock
         then Inl (InvalidArgument ''bits(N) takes N from 1 to 65535'') else Inr ()
     | kText \<Rightarrow>
         if size < 1 \<or> size > kMaxVariableValueBytes
         then Inl (InvalidArgument ''text(max) takes max from 1 to 16777216'') else Inr ()
     | kBytes \<Rightarrow>
         if size < 1 \<or> size > kMaxVariableValueBytes
         then Inl (InvalidArgument ''bytes(max) takes max from 1 to 16777216'') else Inr ())"

section \<open>UTF-8\<close>

text \<open>One multi-byte character: its length and the bits its lead byte gives.\<close>

definition utf8_lead :: "byte \<Rightarrow> (nat \<times> u32) option" where
  "utf8_lead lead =
    (if lead \<ge> 0xC2 \<and> lead \<le> 0xDF then Some (2, ucast (lead AND 0x1F))
     else if lead \<ge> 0xE0 \<and> lead \<le> 0xEF then Some (3, ucast (lead AND 0x0F))
     else if lead \<ge> 0xF0 \<and> lead \<le> 0xF4 then Some (4, ucast (lead AND 0x07))
     else None)"

fun utf8_tail :: "bytes \<Rightarrow> u32 \<Rightarrow> u32 option" where
  "utf8_tail [] code = Some code"
| "utf8_tail (next' # rest) code =
    (if next' AND 0xC0 \<noteq> 0x80 then None
     else utf8_tail rest (push_bit 6 code OR ucast (next' AND 0x3F)))"

definition utf8_code_ok :: "nat \<Rightarrow> u32 \<Rightarrow> bool" where
  "utf8_code_ok len code \<longleftrightarrow>
    \<not> ((len = 3 \<and> (code < 0x800 \<or> (code \<ge> 0xD800 \<and> code \<le> 0xDFFF))) \<or>
       (len = 4 \<and> (code < 0x10000 \<or> code > 0x10FFFF)))"

function IsUtf8 :: "bytes \<Rightarrow> bool" where
  "IsUtf8 bs =
    (case bs of [] \<Rightarrow> True
     | lead # rest \<Rightarrow>
       (if lead < 0x80 then IsUtf8 rest
        else case utf8_lead lead of None \<Rightarrow> False
          | Some (len, code) \<Rightarrow>
            (if length bs < len then False
             else case utf8_tail (take (len - 1) rest) code of None \<Rightarrow> False
               | Some code \<Rightarrow> if utf8_code_ok len code then IsUtf8 (drop (len - 1) rest) else False)))"
  by pat_completeness auto
termination
  by (relation "measure length") (auto simp: utf8_lead_def split: if_splits)

declare IsUtf8.simps [simp del]

definition ValidateDefault :: "Column \<Rightarrow> unit res" where
  "ValidateDefault column =
    (if \<not> has_default column then
       (if default_value column \<noteq> [] then Inl (InvalidArgument ''a default value without DEFAULT'') else Inr ())
     else let v = default_value column in
       if IsFixedWidth (kind (ctype column)) then
         let bits = FixedWidthBits (ctype column) in
         if length v \<noteq> u32_add bits 7 div 8 then Inl (InvalidArgument ''a default of another size'')
         else if bits mod 8 \<noteq> 0 \<and> drop_bit (bits mod 8) (last v) \<noteq> 0
         then Inl (InvalidArgument ''the default has bits past the type's width'')
         else Inr ()
       else if length v > unat (csize (ctype column)) then Inl (InvalidArgument ''the default is longer than the type'')
       else if kind (ctype column) = kText \<and> \<not> IsUtf8 v then Inl (InvalidArgument ''the default is not UTF-8'')
       else Inr ())"

end
