(* ===== verification/Float_Bits.thy ===== *)
theory Float_Bits
  imports Chunkdb_Prelude
begin

text \<open>
  The IEEE 754 operations of C++ that the column code uses, on bit patterns: a \<open>float\<close> is a
  \<open>32 word\<close> and a \<open>double\<close> a \<open>64 word\<close>, as \<open>std::bit_cast\<close> shows them.  Conversions round
  to nearest, ties to even; a NaN stays a quiet NaN with the payload bits that fit.
\<close>

type_synonym f32 = u32
type_synonym f64 = u64

definition f32_of :: "nat \<Rightarrow> nat \<Rightarrow> nat \<Rightarrow> f32" where
  "f32_of s e f = of_nat (s * 2 ^ 31 + e * 2 ^ 23 + f)"

definition f64_of :: "nat \<Rightarrow> nat \<Rightarrow> nat \<Rightarrow> f64" where
  "f64_of s e f = of_nat (s * 2 ^ 63 + e * 2 ^ 52 + f)"

definition f32_sign :: "f32 \<Rightarrow> nat" where "f32_sign x = unat x div 2 ^ 31"
definition f32_exp :: "f32 \<Rightarrow> nat" where "f32_exp x = unat x div 2 ^ 23 mod 2 ^ 8"
definition f32_frac :: "f32 \<Rightarrow> nat" where "f32_frac x = unat x mod 2 ^ 23"
definition f64_sign :: "f64 \<Rightarrow> nat" where "f64_sign x = unat x div 2 ^ 63"
definition f64_exp :: "f64 \<Rightarrow> nat" where "f64_exp x = unat x div 2 ^ 52 mod 2 ^ 11"
definition f64_frac :: "f64 \<Rightarrow> nat" where "f64_frac x = unat x mod 2 ^ 52"

definition f32_isnan :: "f32 \<Rightarrow> bool" where
  "f32_isnan x \<longleftrightarrow> f32_exp x = 255 \<and> f32_frac x \<noteq> 0"

definition f64_isnan :: "f64 \<Rightarrow> bool" where
  "f64_isnan x \<longleftrightarrow> f64_exp x = 2047 \<and> f64_frac x \<noteq> 0"

definition f64_isfinite :: "f64 \<Rightarrow> bool" where
  "f64_isfinite x \<longleftrightarrow> f64_exp x \<noteq> 2047"

text \<open>The magnitude of a bit pattern: finite values of one sign compare as their magnitudes do.\<close>

definition f64_mag :: "f64 \<Rightarrow> nat" where
  "f64_mag x = unat x mod 2 ^ 63"

definition f64_less :: "f64 \<Rightarrow> f64 \<Rightarrow> bool" where
  "f64_less x y \<longleftrightarrow> \<not> f64_isnan x \<and> \<not> f64_isnan y \<and>
    (if f64_sign x = 0 then f64_sign y = 0 \<and> f64_mag x < f64_mag y
     else if f64_sign y = 0 then 0 < f64_mag x \<or> 0 < f64_mag y
     else f64_mag y < f64_mag x)"

fun floor_log2 :: "nat \<Rightarrow> nat" where
  "floor_log2 n = (if n < 2 then 0 else Suc (floor_log2 (n div 2)))"

declare floor_log2.simps [simp del]

definition f32_to_f64 :: "f32 \<Rightarrow> f64" where
  "f32_to_f64 x =
    (let s = f32_sign x; e = f32_exp x; f = f32_frac x
     in if e = 255 then
          (if f = 0 then f64_of s 2047 0
           else f64_of s 2047 (if f < 2 ^ 22 then (f + 2 ^ 22) * 2 ^ 29 else f * 2 ^ 29))
        else if e = 0 then
          (if f = 0 then f64_of s 0 0
           else let p = floor_log2 f in f64_of s (p + 874) ((f - 2 ^ p) * 2 ^ (52 - p)))
        else f64_of s (e + 896) (f * 2 ^ 29))"

definition round_half_even :: "nat \<Rightarrow> nat \<Rightarrow> nat" where
  "round_half_even m k =
    (let q = m div 2 ^ k; r = m mod 2 ^ k
     in if 2 * r > 2 ^ k \<or> (2 * r = 2 ^ k \<and> odd q) then q + 1 else q)"

definition f64_to_f32 :: "f64 \<Rightarrow> f32" where
  "f64_to_f32 x =
    (let s = f64_sign x; e = f64_exp x; f = f64_frac x
     in if e = 2047 then
          (if f = 0 then f32_of s 255 0
           else let g = f div 2 ^ 29 in f32_of s 255 (if g < 2 ^ 22 then g + 2 ^ 22 else g))
        else if e \<ge> 1151 then f32_of s 255 0
        else if e \<ge> 897 then f32_of s (e - 897) (round_half_even (2 ^ 52 + f) 29)
        else f32_of s 0 (round_half_even ((if e = 0 then 0 else 2 ^ 52) + f) (29 + (897 - max e 1))))"

definition FLT_MAX :: f32 where
  "FLT_MAX = 0x7F7FFFFF"

section \<open>Fields\<close>

lemma floor_log2_bounds: "0 < n \<Longrightarrow> 2 ^ floor_log2 n \<le> n \<and> n < 2 ^ Suc (floor_log2 n)"
proof (induction n rule: floor_log2.induct)
  case (1 n)
  show ?case
  proof (cases "n < 2")
    case True
    then show ?thesis using 1 by (simp add: floor_log2.simps [of n])
  next
    case False
    then have "2 ^ floor_log2 (n div 2) \<le> n div 2 \<and> n div 2 < 2 ^ Suc (floor_log2 (n div 2))"
      using 1 by simp
    then show ?thesis using False by (auto simp: floor_log2.simps [of n])
  qed
qed

lemma f64_of_unat:
  assumes "s < 2" "e < 2048" "f < 2 ^ 52"
  shows "unat (f64_of s e f) = s * 2 ^ 63 + e * 2 ^ 52 + f"
proof -
  have "s * 2 ^ 63 + e * 2 ^ 52 + f < 2 ^ 64" using assms by simp
  then show ?thesis unfolding f64_of_def by (subst unat_of_nat_small) simp_all
qed

lemma f64_fields:
  assumes "s < 2" "e < 2048" "f < 2 ^ 52"
  shows "f64_sign (f64_of s e f) = s" "f64_exp (f64_of s e f) = e" "f64_frac (f64_of s e f) = f"
proof -
  have f: "f < 4503599627370496" using assms by simp
  show "f64_sign (f64_of s e f) = s"
    using assms f by (simp add: f64_sign_def f64_of_unat [OF assms])
  have "(s * 2 ^ 63 + e * 2 ^ 52 + f) div 2 ^ 52 = s * 2 ^ 11 + e" using f by simp
  then show "f64_exp (f64_of s e f) = e"
    using assms by (simp add: f64_exp_def f64_of_unat [OF assms])
  show "f64_frac (f64_of s e f) = f"
  proof -
    have "s * 2 ^ 63 + e * 2 ^ 52 + f = f + (s * 2 ^ 11 + e) * 2 ^ 52" by simp
    then show ?thesis using assms(3)
      by (simp only: f64_frac_def f64_of_unat [OF assms] mod_mult_self1) simp
  qed
qed

lemma f32_fields_bounds: "f32_sign x < 2" "f32_exp x < 256" "f32_frac x < 2 ^ 23"
proof -
  have "unat x < 2 ^ LENGTH(32)" by (rule unsigned_less)
  then have "unat x < 2 * 2 ^ 31" by simp
  then show "f32_sign x < 2" unfolding f32_sign_def by (rule less_mult_imp_div_less)
qed (simp_all add: f32_exp_def f32_frac_def)

lemma f32_of_fields: "f32_of (f32_sign x) (f32_exp x) (f32_frac x) = x"
proof -
  let ?n = "unat x"
  define a where "a = ?n div 2 ^ 23"
  have "?n div 2 ^ 31 = a div 2 ^ 8" unfolding a_def div_mult2_eq [symmetric] by simp
  moreover have "a * 2 ^ 23 + ?n mod 2 ^ 23 = ?n" unfolding a_def by (rule div_mult_mod_eq)
  moreover have "b * 2 ^ 31 + c * 2 ^ 23 = (b * 2 ^ 8 + c) * 2 ^ 23" for b c :: nat by simp
  then have "a div 2 ^ 8 * 2 ^ 31 + a mod 2 ^ 8 * 2 ^ 23 = a * 2 ^ 23" by (simp only: div_mult_mod_eq)
  ultimately have "?n div 2 ^ 31 * 2 ^ 31 + ?n div 2 ^ 23 mod 2 ^ 8 * 2 ^ 23 + ?n mod 2 ^ 23 = ?n"
    unfolding a_def [symmetric] by (simp only:)
  then show ?thesis by (simp only: f32_of_def f32_sign_def f32_exp_def f32_frac_def) simp
qed

section \<open>Widening is exact\<close>

lemma round_half_even_exact: "round_half_even (m * 2 ^ k) k = m"
  by (simp add: round_half_even_def)

lemma subnormal_fields:
  assumes "0 < f" "f < 2 ^ 23"
  shows "floor_log2 f < 23" "(f - 2 ^ floor_log2 f) * 2 ^ (52 - floor_log2 f) < 2 ^ 52"
    "2 ^ 52 + (f - 2 ^ floor_log2 f) * 2 ^ (52 - floor_log2 f) = f * 2 ^ (52 - floor_log2 f)"
proof -
  let ?p = "floor_log2 f"
  have b: "2 ^ ?p \<le> f" "f < 2 ^ Suc ?p" using floor_log2_bounds [OF assms(1)] by auto
  have "(2 :: nat) ^ ?p < 2 ^ 23" using b assms(2) by linarith
  then show p: "?p < 23" by (rule power_less_imp_less_exp [rotated]) simp
  then have e52: "(2 :: nat) ^ ?p * 2 ^ (52 - ?p) = 2 ^ 52" by (simp flip: power_add)
  have "(f - 2 ^ ?p) * 2 ^ (52 - ?p) < 2 ^ ?p * 2 ^ (52 - ?p)"
    by (rule mult_strict_right_mono) (use b in auto)
  then show "(f - 2 ^ ?p) * 2 ^ (52 - ?p) < 2 ^ 52" by (simp only: e52)
  show "2 ^ 52 + (f - 2 ^ ?p) * 2 ^ (52 - ?p) = f * 2 ^ (52 - ?p)"
    using b by (simp only: e52 [symmetric]) (simp add: diff_mult_distrib)
qed

lemma f64_to_f32_normal:
  assumes "s < 2" "1 \<le> e" "e < 255" "f < 2 ^ 23"
  shows "f64_to_f32 (f64_of s (e + 896) (f * 2 ^ 29)) = f32_of s e f"
proof -
  have f: "f * 2 ^ 29 < 2 ^ 52" using assms(4) by simp
  have "2 ^ 52 + f * 2 ^ 29 = (2 ^ 23 + f) * 2 ^ 29" by simp
  then have r: "round_half_even (2 ^ 52 + f * 2 ^ 29) 29 = 2 ^ 23 + f"
    by (simp only: round_half_even_exact)
  have "f64_to_f32 (f64_of s (e + 896) (f * 2 ^ 29)) = f32_of s (e - 1) (2 ^ 23 + f)"
    using assms f64_fields [OF assms(1) _ f, of "e + 896"] r by (simp add: f64_to_f32_def Let_def)
  also have "\<dots> = f32_of s e f"
  proof -
    have "(e - 1) * 2 ^ 23 + (2 ^ 23 + f) = e * 2 ^ 23 + f" using assms(2) by (cases e) simp_all
    then show ?thesis unfolding f32_of_def by (simp only: add.assoc)
  qed
  finally show ?thesis .
qed

lemma f64_to_f32_subnormal:
  assumes "s < 2" "0 < f" "f < 2 ^ 23"
  shows "f64_to_f32 (f64_of s (floor_log2 f + 874) ((f - 2 ^ floor_log2 f) * 2 ^ (52 - floor_log2 f))) = f32_of s 0 f"
proof -
  let ?p = "floor_log2 f"
  note f = subnormal_fields [OF assms(2,3)]
  have r: "round_half_even (2 ^ 52 + (f - 2 ^ ?p) * 2 ^ (52 - ?p)) (52 - ?p) = f"
    unfolding f(3) by (rule round_half_even_exact)
  have k: "29 + (897 - max (?p + 874) 1) = 52 - ?p" using f(1) by simp
  show ?thesis
    unfolding f64_to_f32_def f64_fields [OF assms(1) _ f(2), of "?p + 874"]
    using f(1) r k f64_fields [OF assms(1) _ f(2), of "?p + 874"] by (simp add: Let_def del: power_Suc)
qed

lemma f32_round_trip: "\<not> f32_isnan x \<Longrightarrow> f64_to_f32 (f32_to_f64 x) = x"
proof -
  assume nan: "\<not> f32_isnan x"
  note b = f32_fields_bounds [of x]
  consider (inf) "f32_exp x = 255" "f32_frac x = 0" | (zero) "f32_exp x = 0" "f32_frac x = 0"
    | (sub) "f32_exp x = 0" "0 < f32_frac x" | (normal) "1 \<le> f32_exp x" "f32_exp x < 255"
    using nan b(2) unfolding f32_isnan_def by linarith
  then have "f64_to_f32 (f32_to_f64 x) = f32_of (f32_sign x) (f32_exp x) (f32_frac x)"
  proof cases
    case inf
    then show ?thesis
      using f64_fields [OF b(1), of 2047 0] by (simp add: f32_to_f64_def f64_to_f32_def Let_def)
  next
    case zero
    then show ?thesis
      using f64_fields [OF b(1), of 0 0]
      by (simp add: f32_to_f64_def f64_to_f32_def Let_def round_half_even_def)
  next
    case sub
    then show ?thesis
      using f64_to_f32_subnormal [OF b(1) sub(2) b(3)] by (simp add: f32_to_f64_def Let_def)
  next
    case normal
    then show ?thesis
      using f64_to_f32_normal [OF b(1) normal b(3)] by (simp add: f32_to_f64_def Let_def)
  qed
  then show ?thesis by (simp add: f32_of_fields)
qed

text \<open>Every finite \<open>float\<close> has at most the magnitude of \<open>FLT_MAX\<close>.\<close>

lemma f64_mag_of: "s < 2 \<Longrightarrow> e < 2048 \<Longrightarrow> f < 2 ^ 52 \<Longrightarrow> f64_mag (f64_of s e f) = e * 2 ^ 52 + f"
proof -
  assume a: "s < 2" "e < 2048" "f < 2 ^ 52"
  then have "e * 2 ^ 52 + f < 2 ^ 63" by simp
  moreover have "s * 2 ^ 63 + e * 2 ^ 52 + f = (e * 2 ^ 52 + f) + s * 2 ^ 63" by simp
  ultimately show ?thesis by (simp only: f64_mag_def f64_of_unat [OF a] mod_mult_self1) simp
qed

lemma FLT_MAX_mag: "f64_mag (f32_to_f64 FLT_MAX) = 1150 * 2 ^ 52 + (2 ^ 23 - 1) * 2 ^ 29"
proof -
  have "f32_sign FLT_MAX = 0" "f32_exp FLT_MAX = 254" "f32_frac FLT_MAX = 2 ^ 23 - 1"
    by (simp_all add: FLT_MAX_def f32_sign_def f32_exp_def f32_frac_def)
  then show ?thesis using f64_mag_of [of 0 1150 "(2 ^ 23 - 1) * 2 ^ 29"] by (simp add: f32_to_f64_def)
qed

lemma f32_finite_mag:
  assumes "f64_isfinite (f32_to_f64 x)"
  shows "f64_mag (f32_to_f64 x) \<le> f64_mag (f32_to_f64 FLT_MAX)"
proof -
  note b = f32_fields_bounds [of x]
  let ?e = "f32_exp x" and ?f = "f32_frac x" and ?s = "f32_sign x"
  have e255: "?e \<noteq> 255"
  proof
    assume e: "?e = 255"
    have "(?f + 2 ^ 22) * 2 ^ 29 < 2 ^ 52" if "?f < 2 ^ 22" using that by simp
    moreover have "?f * 2 ^ 29 < 2 ^ 52" using b(3) by simp
    ultimately show False
      using assms e f64_fields(2) [OF b(1), of 2047] by (auto simp: f64_isfinite_def f32_to_f64_def Let_def split: if_splits)
  qed
  consider (zero) "?e = 0" "?f = 0" | (sub) "?e = 0" "0 < ?f" | (normal) "1 \<le> ?e" "?e < 255"
    using b(2) e255 by linarith
  then show ?thesis
  proof cases
    case zero
    then show ?thesis using f64_mag_of [OF b(1), of 0 0] by (simp add: f32_to_f64_def [of x] FLT_MAX_mag)
  next
    case normal
    have "?f * 2 ^ 29 < 2 ^ 52" using b(3) by simp
    then show ?thesis
      using normal b(3) f64_mag_of [OF b(1), of "?e + 896" "?f * 2 ^ 29"]
      by (simp add: f32_to_f64_def [of x] Let_def FLT_MAX_mag)
  next
    case sub
    let ?p = "floor_log2 ?f"
    note p = subnormal_fields [OF sub(2) b(3)]
    have "f64_mag (f32_to_f64 x) < (?p + 874) * 2 ^ 52 + 2 ^ 52"
      using sub p f64_mag_of [OF b(1), of "?p + 874" "(?f - 2 ^ ?p) * 2 ^ (52 - ?p)"]
      by (simp add: f32_to_f64_def Let_def)
    also have "\<dots> \<le> 1150 * 2 ^ 52" using p(1) by simp
    finally show ?thesis by (simp add: FLT_MAX_mag)
  qed
qed

section \<open>The number a pattern stands for\<close>

text \<open>A finite number is its sign and its magnitude in units of \<open>2\<^sup>-\<^sup>1\<^sup>0\<^sup>7\<^sup>4\<close>, the least positive \<open>double\<close>.\<close>

datatype float_number = NotANumber | Infinite nat | Finite nat nat

definition f32_number :: "f32 \<Rightarrow> float_number" where
  "f32_number x =
    (if f32_exp x = 255 then (if f32_frac x = 0 then Infinite (f32_sign x) else NotANumber)
     else Finite (f32_sign x)
       ((if f32_exp x = 0 then f32_frac x else (2 ^ 23 + f32_frac x) * 2 ^ (f32_exp x - 1)) * 2 ^ 925))"

definition f64_number :: "f64 \<Rightarrow> float_number" where
  "f64_number x =
    (if f64_exp x = 2047 then (if f64_frac x = 0 then Infinite (f64_sign x) else NotANumber)
     else Finite (f64_sign x) (if f64_exp x = 0 then f64_frac x else (2 ^ 52 + f64_frac x) * 2 ^ (f64_exp x - 1)))"

lemma f64_number_of:
  assumes "s < 2" "e < 2048" "f < 2 ^ 52"
  shows "f64_number (f64_of s e f) =
    (if e = 2047 then (if f = 0 then Infinite s else NotANumber)
     else Finite s (if e = 0 then f else (2 ^ 52 + f) * 2 ^ (e - 1)))"
  by (simp only: f64_number_def f64_fields [OF assms])

lemma f32_to_f64_number: "f64_number (f32_to_f64 x) = f32_number x"
proof -
  let ?s = "f32_sign x" and ?e = "f32_exp x" and ?f = "f32_frac x"
  note b = f32_fields_bounds [of x]
  consider (special) "?e = 255" | (zero) "?e = 0" "?f = 0" | (sub) "?e = 0" "0 < ?f" | (normal) "1 \<le> ?e" "?e < 255"
    using b(2) by linarith
  then show ?thesis
  proof cases
    case special
    have "?f * 2 ^ 29 < 2 ^ 52" "?f < 2 ^ 22 \<Longrightarrow> (?f + 2 ^ 22) * 2 ^ 29 < 2 ^ 52" using b(3) by simp_all
    then show ?thesis using special b(1) by (auto simp: f32_to_f64_def Let_def f32_number_def f64_number_of)
  next
    case zero
    then show ?thesis using b(1) by (simp add: f32_to_f64_def f32_number_def f64_number_of)
  next
    case sub
    let ?p = "floor_log2 ?f"
    note f = subnormal_fields [OF sub(2) b(3)]
    have "f64_number (f32_to_f64 x) = Finite ?s (?f * 2 ^ (52 - ?p) * 2 ^ (?p + 874 - 1))"
      using sub f(1) f64_number_of [OF b(1) _ f(2), of "?p + 874"] f(3) by (simp add: f32_to_f64_def Let_def)
    also have "?f * 2 ^ (52 - ?p) * 2 ^ (?p + 874 - 1) = ?f * 2 ^ 925"
      using f(1) by (simp add: mult.assoc flip: power_add)
    finally show ?thesis using sub by (simp add: f32_number_def)
  next
    case normal
    have "?f * 2 ^ 29 < 2 ^ 52" using b(3) by simp
    then have "f64_number (f32_to_f64 x) = Finite ?s ((2 ^ 52 + ?f * 2 ^ 29) * 2 ^ (?e + 896 - 1))"
      using normal f64_number_of [OF b(1), of "?e + 896" "?f * 2 ^ 29"] by (simp add: f32_to_f64_def Let_def)
    also have "(2 ^ 52 + ?f * 2 ^ 29) * 2 ^ (?e + 896 - 1) = (2 ^ 23 + ?f) * (2 ^ 29 * 2 ^ (?e + 896 - 1))"
      by (simp add: algebra_simps)
    also have "(2 :: nat) ^ 29 * 2 ^ (?e + 896 - 1) = 2 ^ (?e - 1) * 2 ^ 925"
      using normal(1) by (cases ?e) (simp_all add: power_add)
    finally show ?thesis using normal by (simp add: f32_number_def mult.assoc)
  qed
qed

lemma f32_fields:
  assumes "s < 2" "e < 256" "f < 2 ^ 23"
  shows "f32_exp (f32_of s e f) = e" "f32_frac (f32_of s e f) = f"
proof -
  have "s * 2 ^ 31 + e * 2 ^ 23 + f < 2 ^ 32" using assms by simp
  then have u: "unat (f32_of s e f) = s * 2 ^ 31 + e * 2 ^ 23 + f"
    unfolding f32_of_def by (subst unat_of_nat_small) simp_all
  have "(s * 2 ^ 31 + e * 2 ^ 23 + f) div 2 ^ 23 = s * 2 ^ 8 + e" using assms(3) by simp
  then show "f32_exp (f32_of s e f) = e" using assms by (simp add: f32_exp_def u)
  have "s * 2 ^ 31 + e * 2 ^ 23 + f = f + (s * 2 ^ 8 + e) * 2 ^ 23" by simp
  then show "f32_frac (f32_of s e f) = f" using assms(3) by (simp only: f32_frac_def u mod_mult_self1) simp
qed

lemma f32_rewrite_number: "f32_number (f64_to_f32 (f32_to_f64 x)) = f32_number x"
proof (cases "f32_isnan x")
  case True
  let ?s = "f32_sign x" and ?f = "f32_frac x"
  let ?g = "if ?f < 2 ^ 22 then ?f + 2 ^ 22 else ?f"
  note b = f32_fields_bounds [of x]
  have g: "?g < 2 ^ 23" "2 ^ 22 \<le> ?g" using b(3) by auto
  then have l: "?g * 2 ^ 29 < 2 ^ 52" by simp
  have "f32_to_f64 x = f64_of ?s 2047 (?g * 2 ^ 29)" using True by (simp add: f32_isnan_def f32_to_f64_def Let_def)
  then have "f64_to_f32 (f32_to_f64 x) = f32_of ?s 255 ?g"
    using g f64_fields [OF b(1) _ l, of 2047] by (simp add: f64_to_f32_def Let_def)
  moreover have "?g \<noteq> 0" using g(2) by (auto split: if_splits)
  ultimately show ?thesis using True f32_fields [OF b(1) _ g(1), of 255] by (simp add: f32_number_def f32_isnan_def)
qed (simp add: f32_round_trip)

end
