(* ===== verification/Column_Values.thy ===== *)
theory Column_Values
  imports Column_Types Float_Bits Bit_Codec
begin

text \<open>
  The values of columns, from the second half of \<open>src/schema.cpp\<close>: encoding and decoding of
  fixed-width and variable values, and their conversion when a column changes its type.  The
  variant \<open>ColumnValue\<close> is a datatype; \<open>std::get\<close> on another alternative is
  \<open>BadVariantAccess\<close>.  Text is its bytes and floats are their bit patterns.
\<close>

section \<open>Values\<close>

datatype ColumnValue =
    NullV
  | UIntV u64
  | SIntV u64
  | BoolV bool
  | FloatV f32
  | DoubleV f64
  | BitsV string
  | TextV bytes
  | BytesV bytes

definition type_mismatch :: exn where
  "type_mismatch = InvalidArgument ''the value is of another type''"

fun ValueOf_uint :: "ColumnValue \<Rightarrow> u64 res" where
  "ValueOf_uint (UIntV u) = Inr u"
| "ValueOf_uint _ = Inl type_mismatch"

fun ValueOf_sint :: "ColumnValue \<Rightarrow> u64 res" where
  "ValueOf_sint (SIntV s) = Inr s"
| "ValueOf_sint _ = Inl type_mismatch"

fun ValueOf_bool :: "ColumnValue \<Rightarrow> bool res" where
  "ValueOf_bool (BoolV b) = Inr b"
| "ValueOf_bool _ = Inl type_mismatch"

fun ValueOf_float :: "ColumnValue \<Rightarrow> f32 res" where
  "ValueOf_float (FloatV f) = Inr f"
| "ValueOf_float _ = Inl type_mismatch"

fun ValueOf_double :: "ColumnValue \<Rightarrow> f64 res" where
  "ValueOf_double (DoubleV f) = Inr f"
| "ValueOf_double _ = Inl type_mismatch"

fun ValueOf_bits :: "ColumnValue \<Rightarrow> string res" where
  "ValueOf_bits (BitsV s) = Inr s"
| "ValueOf_bits _ = Inl type_mismatch"

fun ValueOf_text :: "ColumnValue \<Rightarrow> bytes res" where
  "ValueOf_text (TextV s) = Inr s"
| "ValueOf_text _ = Inl type_mismatch"

fun ValueOf_bytes :: "ColumnValue \<Rightarrow> bytes res" where
  "ValueOf_bytes (BytesV s) = Inr s"
| "ValueOf_bytes _ = Inl type_mismatch"

section \<open>Fixed-width encoding\<close>

definition EncodeBits_step :: "string \<Rightarrow> nat \<Rightarrow> bytes \<Rightarrow> bytes res" where
  "EncodeBits_step digits i bs =
    (if digits ! i \<noteq> CHR ''0'' \<and> digits ! i \<noteq> CHR ''1''
     then Inl (InvalidArgument ''a bits value holds only 0 and 1'')
     else if digits ! i = CHR ''1''
     then rbind (at_index bs (i div 8)) (\<lambda>b. put_index bs (i div 8) (b OR push_bit (i mod 8) 1))
     else Inr bs)"

definition EncodeRaw :: "Column \<Rightarrow> nat \<Rightarrow> ColumnValue \<Rightarrow> u64 res" where
  "EncodeRaw column width v =
    (case kind (ctype column) of
       kUnsigned \<Rightarrow> rbind (ValueOf_uint v) (\<lambda>raw.
         if width < 64 \<and> drop_bit width raw \<noteq> 0 then Inl (InvalidArgument ''out of range'') else Inr raw)
     | kSigned \<Rightarrow> rbind (ValueOf_sint v) (\<lambda>s.
         let mx = 2 ^ (width - 1) - 1; mn = - mx - 1
         in if width < 64 \<and> (sint s < mn \<or> sint s > mx) then Inl (InvalidArgument ''out of range'') else Inr s)
     | kBool \<Rightarrow> rbind (ValueOf_bool v) (\<lambda>b. Inr (if b then 1 else 0))
     | kFloat32 \<Rightarrow> rbind (ValueOf_float v) (\<lambda>f. Inr (ucast f))
     | kFloat64 \<Rightarrow> rbind (ValueOf_double v) Inr
     | _ \<Rightarrow> Inr 0)"

definition EncodeColumnValue_into :: "Column \<Rightarrow> ColumnValue \<Rightarrow> bytes res" where
  "EncodeColumnValue_into column v =
    (let width = FixedWidthBits (ctype column); n = (width + 7) div 8 in
     if width = 0 then Inl (InvalidArgument ''text and bytes columns are not supported yet'')
     else if v = NullV then Inl (InvalidArgument ''cannot be NULL'')
     else if kind (ctype column) = kBits then
       rbind (ValueOf_bits v) (\<lambda>digits.
         if length digits \<noteq> width then Inl type_mismatch
         else rfold (EncodeBits_step digits) [0..<length digits] (replicate n 0))
     else rbind (EncodeRaw column width v) (\<lambda>raw.
       let raw = (if width < 64 then raw AND (push_bit width 1 - 1) else raw);
           raw_bytes = min n 8
       in Inr (map (\<lambda>i. if i < raw_bytes then ucast (drop_bit (8 * i) raw) else 0) [0..<n])))"

definition EncodeColumnValue :: "Column \<Rightarrow> ColumnValue \<Rightarrow> bytes res" where
  "EncodeColumnValue column v =
    rbind (ValidateColumnType column) (\<lambda>_. EncodeColumnValue_into column v)"

definition DecodeColumnValue :: "Column \<Rightarrow> bytes \<Rightarrow> ColumnValue res" where
  "DecodeColumnValue column bs =
    (let width = FixedWidthBits (ctype column); n = (width + 7) div 8 in
     if length bs < n then Inl (Undefined ''read past the value'')
     else if kind (ctype column) = kBits then
       Inr (BitsV (map (\<lambda>i. if drop_bit (i mod 8) (bs ! (i div 8)) AND 1 \<noteq> 0 then CHR ''1'' else CHR ''0'') [0..<width]))
     else let raw = fold (\<lambda>i raw. raw OR push_bit (8 * i) (ucast (bs ! i))) [0..<min n 8] (0 :: u64) in
       case kind (ctype column) of
         kUnsigned \<Rightarrow> Inr (UIntV raw)
       | kSigned \<Rightarrow> Inr (SIntV
           (if width < 64 \<and> drop_bit (width - 1) raw AND 1 \<noteq> 0 then raw OR NOT (push_bit width 1 - 1) else raw))
       | kBool \<Rightarrow> Inr (BoolV (raw \<noteq> 0))
       | kFloat32 \<Rightarrow> Inr (FloatV (ucast raw))
       | kFloat64 \<Rightarrow> Inr (DoubleV raw)
       | _ \<Rightarrow> Inl (InvalidArgument ''text and bytes columns are not supported yet''))"

section \<open>Variable values\<close>

definition EncodeVarValue :: "Column \<Rightarrow> ColumnValue \<Rightarrow> bytes res" where
  "EncodeVarValue column v =
    (if v = NullV then Inl (InvalidArgument ''cannot be NULL'')
     else rbind
       (case kind (ctype column) of
          kText \<Rightarrow> rbind (ValueOf_text v) (\<lambda>bs.
            if \<not> IsUtf8 bs then Inl (InvalidArgument ''the text is not UTF-8'') else Inr bs)
        | kBytes \<Rightarrow> ValueOf_bytes v
        | _ \<Rightarrow> Inl (InvalidArgument ''not text or bytes''))
       (\<lambda>bs. if length bs > unat (csize (ctype column)) then Inl (InvalidArgument ''too long'') else Inr bs))"

definition DecodeVarValue :: "Column \<Rightarrow> bytes \<Rightarrow> ColumnValue" where
  "DecodeVarValue column bs = (if kind (ctype column) = kText then TextV bs else BytesV bs)"

section \<open>Conversion\<close>

datatype Family = FInteger | FFloat | FBool | FBits | FText | FBytes

fun FamilyOf :: "ColumnKind \<Rightarrow> Family" where
  "FamilyOf kUnsigned = FInteger"
| "FamilyOf kSigned = FInteger"
| "FamilyOf kFloat32 = FFloat"
| "FamilyOf kFloat64 = FFloat"
| "FamilyOf kBool = FBool"
| "FamilyOf kBits = FBits"
| "FamilyOf kText = FText"
| "FamilyOf kBytes = FBytes"

definition Widens :: "ColumnType \<Rightarrow> ColumnType \<Rightarrow> bool" where
  "Widens from to =
    (if kind from = kUnsigned \<and> kind to = kSigned then csize to > csize from
     else if kind from = kSigned \<and> kind to = kUnsigned then False
     else if kind from = kFloat32 \<or> kind from = kFloat64 then kind to = kFloat64 \<or> kind from = kFloat32
     else csize to \<ge> csize from)"

fun IntegerOf :: "ColumnValue \<Rightarrow> int res" where
  "IntegerOf (UIntV u) = Inr (uint u)"
| "IntegerOf (SIntV s) = Inr (sint s)"
| "IntegerOf _ = Inl BadVariantAccess"

definition RangeOf :: "ColumnType \<Rightarrow> (int \<times> int) res" where
  "RangeOf t =
    (let size = unat (csize t) in
     if kind t = kUnsigned then
       (if size > 126 then Inl (Undefined ''shift'') else Inr (0, 2 ^ size - 1))
     else if size = 0 \<or> size > 127 then Inl (Undefined ''shift'')
     else let half = 2 ^ (size - 1) in Inr (- half, half - 1))"

definition IntegerValue :: "ColumnType \<Rightarrow> int \<Rightarrow> ColumnValue" where
  "IntegerValue t number = (if kind t = kUnsigned then UIntV (word_of_int number) else SIntV (word_of_int number))"

fun FloatOf :: "ColumnValue \<Rightarrow> f64 res" where
  "FloatOf (FloatV f) = Inr (f32_to_f64 f)"
| "FloatOf (DoubleV d) = Inr d"
| "FloatOf _ = Inl BadVariantAccess"

definition FloatValue :: "ColumnType \<Rightarrow> f64 \<Rightarrow> ColumnValue" where
  "FloatValue t number = (if kind t = kFloat32 then FloatV (f64_to_f32 number) else DoubleV number)"

fun BytesOf :: "ColumnValue \<Rightarrow> bytes res" where
  "BytesOf (TextV bs) = Inr bs"
| "BytesOf (BytesV bs) = Inr bs"
| "BytesOf _ = Inl BadVariantAccess"

fun BitsOf :: "ColumnValue \<Rightarrow> string res" where
  "BitsOf (BitsV s) = Inr s"
| "BitsOf _ = Inl BadVariantAccess"

definition VarValue :: "ColumnType \<Rightarrow> bytes \<Rightarrow> ColumnValue" where
  "VarValue t bs = (if kind t = kText then TextV bs else BytesV bs)"

definition resize_to :: "'a list \<Rightarrow> nat \<Rightarrow> 'a \<Rightarrow> 'a list" where
  "resize_to xs n fill = take n xs @ replicate (n - length xs) fill"

definition Fit :: "ColumnType \<Rightarrow> ColumnValue \<Rightarrow> ColumnValue option res" where
  "Fit to v =
    (case FamilyOf (kind to) of
       FInteger \<Rightarrow> rbind (IntegerOf v) (\<lambda>number. rbind (RangeOf to) (\<lambda>(low, high).
         Inr (if number < low \<or> number > high then None else Some (IntegerValue to number))))
     | FFloat \<Rightarrow> rbind (FloatOf v) (\<lambda>number.
         Inr (if kind to = kFloat32 \<and> f64_isfinite number \<and> f64_mag number > f64_mag (f32_to_f64 FLT_MAX)
              then None else Some (FloatValue to number)))
     | FBool \<Rightarrow> Inr (Some v)
     | FBits \<Rightarrow> rbind (BitsOf v) (\<lambda>digits.
         let n = unat (csize to) in
         Inr (if length digits \<le> n then Some (BitsV (resize_to digits n CHR ''0''))
              else if CHR ''1'' \<in> set (drop n digits) then None
              else Some (BitsV (resize_to digits n (CHR 0x00)))))
     | _ \<Rightarrow> rbind (BytesOf v) (\<lambda>bs.
         Inr (if length bs > unat (csize to) then None else Some (VarValue to bs))))"

definition FallbackOf :: "Column \<Rightarrow> ColumnValue res" where
  "FallbackOf column =
    (if has_default column then
       (if IsFixedWidth (kind (ctype column)) then DecodeColumnValue column (default_value column)
        else Inr (DecodeVarValue column (default_value column)))
     else if nullable column then Inr NullV
     else Inr (case FamilyOf (kind (ctype column)) of
         FInteger \<Rightarrow> IntegerValue (ctype column) 0
       | FFloat \<Rightarrow> FloatValue (ctype column) 0
       | FBool \<Rightarrow> BoolV False
       | FBits \<Rightarrow> BitsV (replicate (unat (csize (ctype column))) CHR ''0'')
       | _ \<Rightarrow> VarValue (ctype column) []))"

definition Clamp :: "ColumnType \<Rightarrow> ColumnValue \<Rightarrow> ColumnValue res" where
  "Clamp to v =
    (if FamilyOf (kind to) = FInteger then
       rbind (RangeOf to) (\<lambda>(low, high). rbind (IntegerOf v) (\<lambda>number.
         Inr (IntegerValue to (if number < low then low else if high < number then high else number))))
     else let limit = f32_to_f64 FLT_MAX; neg = limit OR push_bit 63 1 in
       rbind (FloatOf v) (\<lambda>number.
         Inr (FloatValue to (if f64_less number neg then neg else if f64_less limit number then limit else number))))"

text \<open>Back from \<open>keep\<close> to the start of a character.\<close>

fun Truncate_keep :: "bytes \<Rightarrow> nat \<Rightarrow> nat res" where
  "Truncate_keep bs 0 = Inr 0"
| "Truncate_keep bs (Suc k) =
    rbind (at_index bs (Suc k)) (\<lambda>b. if b AND 0xC0 = 0x80 then Truncate_keep bs k else Inr (Suc k))"

definition Truncate :: "ColumnType \<Rightarrow> ColumnValue \<Rightarrow> ColumnValue res" where
  "Truncate to v =
    (let n = unat (csize to) in
     if kind to = kBits then
       rbind (BitsOf v) (\<lambda>digits. Inr (BitsV (resize_to digits n (CHR 0x00))))
     else rbind (BytesOf v) (\<lambda>bs.
       rbind (if kind to = kText then Truncate_keep bs n else Inr n) (\<lambda>keep.
         Inr (VarValue to (resize_to bs keep 0)))))"

datatype Conversion = kExact | kClamp | kDefault | kTruncate

fun TakesConversion :: "Family \<Rightarrow> Conversion \<Rightarrow> bool" where
  "TakesConversion family kExact = True"
| "TakesConversion family kDefault = True"
| "TakesConversion family kClamp = (family = FInteger \<or> family = FFloat)"
| "TakesConversion family kTruncate = (family = FText \<or> family = FBytes \<or> family = FBits)"

definition HoldsEveryValue :: "ColumnType \<Rightarrow> ColumnType \<Rightarrow> bool" where
  "HoldsEveryValue from to \<longleftrightarrow> FamilyOf (kind from) = FamilyOf (kind to) \<and> Widens from to"

definition ConvertValue :: "Column \<Rightarrow> Column \<Rightarrow> Conversion \<Rightarrow> ColumnValue \<Rightarrow> ColumnValue res" where
  "ConvertValue from to conversion v =
    (if v = NullV then Inr v
     else rbind (Fit (ctype to) v) (\<lambda>fitted.
       case fitted of Some f \<Rightarrow> Inr f
       | None \<Rightarrow> (case conversion of
           kExact \<Rightarrow> Inl (LogicError ''a value does not fit'')
         | kClamp \<Rightarrow> Clamp (ctype to) v
         | kDefault \<Rightarrow> FallbackOf to
         | kTruncate \<Rightarrow> Truncate (ctype to) v)))"

definition ValueFits :: "ColumnType \<Rightarrow> ColumnValue \<Rightarrow> bool res" where
  "ValueFits t v = (if v = NullV then Inr True else rbind (Fit t v) (\<lambda>f. Inr (f \<noteq> None)))"

end
