(* ===== verification/Column_Laws.thy ===== *)
theory Column_Laws
  imports Column_Values
begin

text \<open>
  What the column operations promise: the values a type holds (\<open>holds_value\<close>), that encoding
  and decoding are inverse on them, that a widening type fits every value unchanged, and that
  every conversion ends in a value of the new type.
\<close>

section \<open>The values a type holds\<close>

definition type_ok :: "ColumnType \<Rightarrow> bool" where
  "type_ok t \<longleftrightarrow> (let n = unat (csize t) in case kind t of
      kUnsigned \<Rightarrow> 1 \<le> n \<and> n \<le> 64 | kSigned \<Rightarrow> 2 \<le> n \<and> n \<le> 64 | kBool \<Rightarrow> n = 1
    | kFloat32 \<Rightarrow> n = 32 | kFloat64 \<Rightarrow> n = 64 | kBits \<Rightarrow> 1 \<le> n \<and> n \<le> kMaxFixedBitsPerBlock
    | _ \<Rightarrow> 1 \<le> n \<and> n \<le> kMaxVariableValueBytes)"

fun holds_value :: "ColumnType \<Rightarrow> ColumnValue \<Rightarrow> bool" where
  "holds_value t (UIntV u) = (kind t = kUnsigned \<and> uint u < 2 ^ unat (csize t))"
| "holds_value t (SIntV s) =
    (kind t = kSigned \<and> - (2 ^ (unat (csize t) - 1)) \<le> sint s \<and> sint s < 2 ^ (unat (csize t) - 1))"
| "holds_value t (BoolV b) = (kind t = kBool)"
| "holds_value t (FloatV f) = (kind t = kFloat32)"
| "holds_value t (DoubleV d) = (kind t = kFloat64)"
| "holds_value t (BitsV s) = (kind t = kBits \<and> length s = unat (csize t) \<and> IsBitString s)"
| "holds_value t (TextV bs) = (kind t = kText \<and> length bs \<le> unat (csize t) \<and> IsUtf8 bs)"
| "holds_value t (BytesV bs) = (kind t = kBytes \<and> length bs \<le> unat (csize t))"
| "holds_value t NullV = False"

lemma ValidateColumnType_ok: "ValidateColumnType c = Inr () \<longleftrightarrow> type_ok (ctype c)"
  by (auto simp: ValidateColumnType_def type_ok_def Let_def split: ColumnKind.splits)

lemma ValidateColumnType_error:
  "\<not> type_ok (ctype c) \<Longrightarrow> \<exists>m. ValidateColumnType c = Inl (InvalidArgument m)"
  by (auto simp: ValidateColumnType_def type_ok_def Let_def split: ColumnKind.splits)

lemma type_ok_width:
  "type_ok t \<Longrightarrow> IsFixedWidth (kind t) \<Longrightarrow> kind t \<noteq> kBits \<Longrightarrow>
    0 < FixedWidthBits t \<and> FixedWidthBits t \<le> 64"
  by (auto simp: type_ok_def FixedWidthBits_def Let_def IsFixedWidth_def split: ColumnKind.splits)

section \<open>Raw integers\<close>

lemma le_word_fold:
  "n \<le> length bs \<Longrightarrow>
    fold (\<lambda>i raw. raw OR push_bit (8 * i) (ucast (bs ! i))) [0..<n] (0 :: u64) = le_word (take n bs)"
proof (induction n)
  case (Suc n)
  then show ?case using le_word_take_Suc [of 0 n bs, where ?'a = 64] by simp
qed simp

lemma le_word_le_bytes_low:
  assumes "\<And>k. 8 * n \<le> k \<Longrightarrow> \<not> bit w k"
  shows "le_word (le_bytes n w) = (w :: 'a::len word)"
proof (rule bit_word_eqI)
  fix k assume k: "k < LENGTH('a)"
  show "bit (le_word (le_bytes n w) :: 'a word) k = bit w k"
    using k assms [of k] by (cases "k div 8 < n") (auto simp: bit_le_word bit_le_bytes)
qed

lemma low_mask: "w < 64 \<Longrightarrow> (raw :: u64) AND (push_bit w 1 - 1) = take_bit w raw"
  by (simp add: take_bit_eq_mask mask_eq_exp_minus_1)

lemma signed_range_bits:
  assumes "1 \<le> w" "w \<le> 64"
  shows "(- (2 ^ (w - 1)) \<le> sint (s :: u64) \<and> sint s < 2 ^ (w - 1)) \<longleftrightarrow>
    (\<forall>k. w - 1 \<le> k \<and> k < 64 \<longrightarrow> bit s k = bit s (w - 1))"
proof -
  have b: "bit (sint s) k = bit s (min k 63)" for k
    by (cases "k < 63") (auto simp: bit_sint_iff min_def not_less le_less dest: bit_imp_le_length)
  have "(- (2 ^ (w - 1)) \<le> sint s \<and> sint s < 2 ^ (w - 1)) \<longleftrightarrow> signed_take_bit (w - 1) (sint s) = sint s"
    by (simp add: signed_take_bit_int_eq_self_iff)
  also have "\<dots> \<longleftrightarrow> (\<forall>k. bit (sint s) (min (w - 1) k) = bit (sint s) k)"
    by (simp add: bit_eq_iff bit_signed_take_bit_iff)
  also have "\<dots> \<longleftrightarrow> (\<forall>k. w - 1 \<le> k \<and> k < 64 \<longrightarrow> bit s k = bit s (w - 1))"
  proof (rule iffI; intro allI impI)
    fix k assume h: "\<forall>k. bit (sint s) (min (w - 1) k) = bit (sint s) k" and k: "w - 1 \<le> k \<and> k < 64"
    then show "bit s k = bit s (w - 1)" using spec [OF h, of k] assms by (simp add: b min_def)
  next
    fix k assume h: "\<forall>k. w - 1 \<le> k \<and> k < 64 \<longrightarrow> bit s k = bit s (w - 1)"
    show "bit (sint s) (min (w - 1) k) = bit (sint s) k"
      using spec [OF h, of "min k 63"] assms by (auto simp: b min_def split: if_splits)
  qed
  finally show ?thesis .
qed

text \<open>
  A raw integer of \<open>w\<close> bits and the value it stands for.  \<open>EncodeRaw\<close> followed by the mask is
  \<open>raw_code\<close>; \<open>DecodeColumnValue\<close> after reading the bytes is \<open>raw_value\<close>.
\<close>

fun raw_code :: "nat \<Rightarrow> ColumnValue \<Rightarrow> u64" where
  "raw_code w (UIntV u) = u"
| "raw_code w (SIntV s) = take_bit w s"
| "raw_code w (BoolV b) = (if b then 1 else 0)"
| "raw_code w (FloatV f) = ucast f"
| "raw_code w (DoubleV d) = d"
| "raw_code w _ = 0"

definition raw_value :: "ColumnKind \<Rightarrow> nat \<Rightarrow> u64 \<Rightarrow> ColumnValue" where
  "raw_value k w raw = (case k of
      kUnsigned \<Rightarrow> UIntV raw
    | kSigned \<Rightarrow> SIntV (if w < 64 \<and> drop_bit (w - 1) raw AND 1 \<noteq> 0 then raw OR NOT (push_bit w 1 - 1) else raw)
    | kBool \<Rightarrow> BoolV (raw \<noteq> 0)
    | kFloat32 \<Rightarrow> FloatV (ucast raw)
    | _ \<Rightarrow> DoubleV raw)"

definition low_bits :: "nat \<Rightarrow> u64 \<Rightarrow> bool" where
  "low_bits w raw \<longleftrightarrow> (\<forall>k. w \<le> k \<longrightarrow> \<not> bit raw k)"

lemma low_bits_take: "low_bits w raw \<longleftrightarrow> take_bit w raw = raw"
proof
  assume "low_bits w raw"
  then show "take_bit w raw = raw"
    by (intro bit_word_eqI) (auto simp: low_bits_def bit_take_bit_iff not_le [symmetric])
next
  assume e: "take_bit w raw = raw"
  have "\<not> bit (take_bit w raw) k" if "w \<le> k" for k using that by (simp add: bit_take_bit_iff)
  then show "low_bits w raw" by (simp add: low_bits_def e)
qed

lemma uint_less_low_bits: "w \<le> 64 \<Longrightarrow> uint (u :: u64) < 2 ^ w \<longleftrightarrow> low_bits w u"
proof -
  have "uint u < 2 ^ w \<longleftrightarrow> take_bit w (uint u) = uint u"
    by (simp add: take_bit_int_eq_self_iff)
  also have "\<dots> \<longleftrightarrow> uint (take_bit w u) = uint u" by (simp add: unsigned_take_bit_eq)
  also have "\<dots> \<longleftrightarrow> low_bits w u" unfolding low_bits_take by (auto intro: unsigned_word_eqI)
  finally show ?thesis .
qed

lemma take_bit_full [simp]:
  "take_bit 64 (x :: u64) = x" "take_bit 32 (ucast (y :: u32) :: u64) = ucast y"
  by (rule bit_word_eqI, auto simp: bit_simps dest: bit_imp_le_length)+

lemma sign_test: "drop_bit (w - 1) raw AND 1 \<noteq> 0 \<longleftrightarrow> bit (raw :: u64) (w - 1)"
  by (simp add: and_one_eq bit_iff_odd_drop_bit odd_iff_mod_2_eq_one)

lemma bit_sign_extend:
  assumes "w < 64" "k < 64"
  shows "bit (raw OR NOT (push_bit w 1 - 1) :: u64) k \<longleftrightarrow> bit raw k \<or> w \<le> k"
proof -
  have "(push_bit w 1 - 1 :: u64) = mask w" by (simp add: mask_eq_exp_minus_1)
  then show ?thesis using assms by (auto simp: bit_simps)
qed

lemma raw_code_low:
  assumes "type_ok t" "holds_value t v" "IsFixedWidth (kind t)" "kind t \<noteq> kBits"
  shows "low_bits (FixedWidthBits t) (raw_code (FixedWidthBits t) v)"
  using assms
  by (cases v) (auto simp: FixedWidthBits_def type_ok_def Let_def uint_less_low_bits low_bits_take
      split: ColumnKind.splits)

lemma signed_decode:
  assumes "1 \<le> w" "w \<le> 64" "\<forall>k. w - 1 \<le> k \<and> k < 64 \<longrightarrow> bit s k = bit s (w - 1)"
  shows "raw_value kSigned w (take_bit w s) = SIntV s"
proof -
  let ?r = "take_bit w s"
  have sg: "bit ?r (w - 1) = bit s (w - 1)" using assms(1) by (simp add: bit_take_bit_iff)
  have "(if w < 64 \<and> bit ?r (w - 1) then ?r OR NOT (push_bit w 1 - 1) else ?r) = s"
  proof (rule bit_word_eqI)
    fix k assume k: "k < LENGTH(64)"
    show "bit (if w < 64 \<and> bit ?r (w - 1) then ?r OR NOT (push_bit w 1 - 1) else ?r) k = bit s k"
    proof (cases "k < w")
      case True
      then show ?thesis using k bit_sign_extend [of w k ?r] by (simp add: bit_take_bit_iff)
    next
      case False
      then have "w < 64" "bit s k = bit s (w - 1)" "\<not> bit ?r k"
        using k spec [OF assms(3), of k] by (simp_all add: bit_take_bit_iff)
      then show ?thesis using k False sg bit_sign_extend [of w k ?r] by simp
    qed
  qed
  then show ?thesis by (simp only: raw_value_def sign_test ColumnKind.case)
qed

lemma raw_value_code:
  assumes "type_ok t" "holds_value t v" "IsFixedWidth (kind t)" "kind t \<noteq> kBits"
  shows "raw_value (kind t) (FixedWidthBits t) (raw_code (FixedWidthBits t) v) = v"
proof (cases v)
  case (SIntV s)
  then have k: "kind t = kSigned" using assms by simp
  then have w: "1 \<le> FixedWidthBits t" "FixedWidthBits t \<le> 64" "FixedWidthBits t = unat (csize t)"
    using assms type_ok_width [of t] by (auto simp: FixedWidthBits_def)
  have "- (2 ^ (FixedWidthBits t - 1)) \<le> sint s \<and> sint s < 2 ^ (FixedWidthBits t - 1)"
    using SIntV k w assms(2) by simp
  then have "raw_value kSigned (FixedWidthBits t) (take_bit (FixedWidthBits t) s) = SIntV s"
    unfolding signed_range_bits [OF w(1,2)] by (rule signed_decode [OF w(1,2)])
  then show ?thesis using SIntV k by (simp only: raw_code.simps)
next
  case (FloatV f)
  have "ucast (ucast f :: u64) = f" by (rule bit_word_eqI) (auto simp: bit_simps)
  then show ?thesis using FloatV assms by (simp add: raw_value_def)
qed (use assms in \<open>auto simp: raw_value_def IsFixedWidth_def\<close>)

lemma raw_code_value:
  assumes "type_ok t" "IsFixedWidth (kind t)" "kind t \<noteq> kBits" "low_bits (FixedWidthBits t) raw"
  shows "holds_value t (raw_value (kind t) (FixedWidthBits t) raw) \<and>
    raw_code (FixedWidthBits t) (raw_value (kind t) (FixedWidthBits t) raw) = raw"
proof -
  have w: "1 \<le> FixedWidthBits t" "FixedWidthBits t \<le> 64" "FixedWidthBits t = unat (csize t)"
    using assms type_ok_width [of t] by (auto simp: FixedWidthBits_def)
  consider (u) "kind t = kUnsigned" | (s) "kind t = kSigned" | (b) "kind t = kBool"
    | (f) "kind t = kFloat32" | (d) "kind t = kFloat64"
    using assms(2,3) by (cases "kind t") (auto simp: IsFixedWidth_def)
  then show ?thesis
  proof cases
    case u
    then show ?thesis using assms(4) w uint_less_low_bits [OF w(2), of raw] by (simp add: raw_value_def)
  next
    case s
    let ?w = "FixedWidthBits t"
    let ?s = "if ?w < 64 \<and> bit raw (?w - 1) then raw OR NOT (push_bit ?w 1 - 1) else raw"
    have v: "raw_value (kind t) ?w raw = SIntV ?s" using s by (simp only: raw_value_def sign_test ColumnKind.case)
    have lo: "\<not> bit raw k" if "?w \<le> k" for k using assms(4) that by (simp add: low_bits_def)
    have bs: "bit ?s k = (if k < ?w then bit raw k else bit raw (?w - 1))" if "k < 64" for k
      using that lo [of k] w bit_sign_extend [of ?w k raw] by auto
    have r: "\<forall>k. ?w - 1 \<le> k \<and> k < 64 \<longrightarrow> bit ?s k = bit ?s (?w - 1)"
    proof (intro allI impI)
      fix k assume k: "?w - 1 \<le> k \<and> k < 64"
      have "bit ?s (?w - 1) = bit raw (?w - 1)" using bs [of "?w - 1"] w by simp
      moreover have "bit ?s k = bit raw (?w - 1)"
        using bs [of k] k w(1) by (cases "k = ?w - 1") auto
      ultimately show "bit ?s k = bit ?s (?w - 1)" by simp
    qed
    have "take_bit ?w ?s = raw"
    proof (rule bit_word_eqI)
      fix k assume "k < LENGTH(64)"
      then show "bit (take_bit ?w ?s) k = bit raw k"
        using bs [of k] lo [of k] by (auto simp: bit_take_bit_iff not_less)
    qed
    moreover have "holds_value t (SIntV ?s)"
      using r s unfolding signed_range_bits [OF w(1,2), symmetric] by (simp only: holds_value.simps w(3))
    ultimately show ?thesis by (simp only: v raw_code.simps)
  next
    case b
    then have "FixedWidthBits t = 1" using assms(1) w by (simp add: type_ok_def)
    then have l: "take_bit 1 raw = raw" using assms(4) by (simp add: low_bits_take)
    then have "of_bool (odd raw) = raw" by (simp add: mod_2_eq_odd)
    then have "raw = 0 \<or> raw = 1" by (cases "odd raw") auto
    then show ?thesis using b by (auto simp: raw_value_def)
  next
    case f
    then have "take_bit 32 raw = raw" using assms(1,4) w by (simp add: type_ok_def low_bits_take)
    moreover have "ucast (ucast raw :: u32) = take_bit 32 raw" by (rule bit_word_eqI) (auto simp: bit_simps)
    ultimately show ?thesis using f by (simp add: raw_value_def)
  next
    case d
    then show ?thesis by (simp add: raw_value_def)
  qed
qed

section \<open>Encoding and decoding are inverse\<close>

text \<open>The byte strings that encode a value of \<open>t\<close>: the right length, and no bit past the width.\<close>

definition canonical :: "ColumnType \<Rightarrow> bytes \<Rightarrow> bool" where
  "canonical t bs \<longleftrightarrow> length bs = (FixedWidthBits t + 7) div 8 \<and>
    (\<forall>k. FixedWidthBits t \<le> k \<and> k < 8 * length bs \<longrightarrow> \<not> byte_bit bs k)"

lemma EncodeRaw_ok:
  assumes "type_ok (ctype c)" "holds_value (ctype c) v" "IsFixedWidth (kind (ctype c))" "kind (ctype c) \<noteq> kBits"
  shows "\<exists>raw. EncodeRaw c (FixedWidthBits (ctype c)) v = Inr raw \<and>
    take_bit (FixedWidthBits (ctype c)) raw = raw_code (FixedWidthBits (ctype c)) v"
proof -
  note low = raw_code_low [OF assms, unfolded low_bits_take]
  show ?thesis
  proof (cases v)
    case (UIntV u)
    have "drop_bit (FixedWidthBits (ctype c)) u = 0"
      using low UIntV by (metis drop_bit_take_bit raw_code.simps(1) diff_self_eq_0 take_bit_0)
    then show ?thesis using UIntV low assms by (simp add: EncodeRaw_def)
  next
    case (SIntV s)
    then show ?thesis using assms by (auto simp: EncodeRaw_def Let_def FixedWidthBits_def)
  qed (use assms low in \<open>auto simp: EncodeRaw_def IsFixedWidth_def\<close>)
qed

lemma EncodeRaw_refused:
  assumes "type_ok (ctype c)" "\<not> holds_value (ctype c) v" "IsFixedWidth (kind (ctype c))"
    "kind (ctype c) \<noteq> kBits" "v \<noteq> NullV"
  shows "\<exists>m. EncodeRaw c (FixedWidthBits (ctype c)) v = Inl (InvalidArgument m)"
proof (cases v)
  case (UIntV u)
  let ?w = "FixedWidthBits (ctype c)"
  show ?thesis
  proof (cases "kind (ctype c) = kUnsigned")
    case True
    then have w: "?w = unat (csize (ctype c))" "?w \<le> 64"
      using assms type_ok_width [of "ctype c"] by (auto simp: FixedWidthBits_def)
    have n: "\<not> low_bits ?w u" using True UIntV assms(2) w uint_less_low_bits [of ?w u] by simp
    then have "?w < 64" using w by (cases "?w = 64") (auto simp: low_bits_take)
    moreover have "drop_bit ?w u \<noteq> 0"
    proof
      assume z: "drop_bit ?w u = 0"
      have "bit u (?w + k) = bit (drop_bit ?w u) k" for k by (simp add: bit_drop_bit_eq)
      then show False using n z by (auto simp: low_bits_def le_iff_add)
    qed
    ultimately show ?thesis using UIntV True by (simp add: EncodeRaw_def)
  qed (use UIntV assms in \<open>auto simp: EncodeRaw_def type_mismatch_def IsFixedWidth_def split: ColumnKind.splits\<close>)
next
  case (SIntV s)
  show ?thesis
  proof (cases "kind (ctype c) = kSigned")
    case True
    let ?n = "unat (csize (ctype c))"
    have "\<not> (- (2 ^ (?n - 1)) \<le> sint s \<and> sint s < 2 ^ (?n - 1))" using True SIntV assms(2) by simp
    moreover have "?n \<noteq> 64"
      using calculation sint_greater_eq [of s] sint_less [of s] by auto
    ultimately show ?thesis
      using True SIntV assms(1) by (auto simp: EncodeRaw_def Let_def FixedWidthBits_def IsFixedWidth_def type_ok_def)
  qed (use SIntV assms in \<open>auto simp: EncodeRaw_def type_mismatch_def IsFixedWidth_def split: ColumnKind.splits\<close>)
qed (use assms in \<open>auto simp: EncodeRaw_def type_mismatch_def IsFixedWidth_def split: ColumnKind.splits\<close>)

lemma EncodeColumnValue_raw:
  assumes "type_ok (ctype c)" "holds_value (ctype c) v" "IsFixedWidth (kind (ctype c))" "kind (ctype c) \<noteq> kBits"
  shows "EncodeColumnValue c v =
    Inr (le_bytes ((FixedWidthBits (ctype c) + 7) div 8) (raw_code (FixedWidthBits (ctype c)) v))"
proof -
  let ?w = "FixedWidthBits (ctype c)"
  obtain raw where raw: "EncodeRaw c ?w v = Inr raw" "take_bit ?w raw = raw_code ?w v"
    using EncodeRaw_ok [OF assms] by blast
  have w: "0 < ?w" "?w \<le> 64" using type_ok_width [OF assms(1,3,4)] by auto
  have m: "(if ?w < 64 then raw AND (push_bit ?w 1 - 1) else raw) = raw_code ?w v"
    using raw(2) w low_mask [of ?w raw] by (cases "?w = 64") auto
  have n: "min ((?w + 7) div 8) 8 = (?w + 7) div 8" using w by simp
  have "v \<noteq> NullV" using assms(2) by auto
  then show ?thesis
    using assms w raw(1) ValidateColumnType_ok [of c]
    by (simp add: EncodeColumnValue_def EncodeColumnValue_into_def Let_def m n le_bytes_def
        del: push_bit_of_1)
qed

lemma DecodeColumnValue_raw:
  assumes "type_ok (ctype c)" "IsFixedWidth (kind (ctype c))" "kind (ctype c) \<noteq> kBits"
    "length bs = (FixedWidthBits (ctype c) + 7) div 8"
  shows "DecodeColumnValue c bs = Inr (raw_value (kind (ctype c)) (FixedWidthBits (ctype c)) (le_word bs))"
proof -
  have w: "FixedWidthBits (ctype c) \<le> 64" using type_ok_width [OF assms(1,2,3)] by simp
  have n: "min (length bs) 8 = length bs" using w assms(4) by simp
  show ?thesis
    using assms n le_word_fold [of "length bs" bs]
    by (cases "kind (ctype c)")
       (simp_all add: DecodeColumnValue_def Let_def raw_value_def IsFixedWidth_def del: push_bit_of_1)
qed

lemma raw_round_trip:
  assumes "type_ok (ctype c)" "holds_value (ctype c) v" "IsFixedWidth (kind (ctype c))" "kind (ctype c) \<noteq> kBits"
  shows "\<exists>bs. EncodeColumnValue c v = Inr bs \<and> canonical (ctype c) bs \<and> DecodeColumnValue c bs = Inr v"
proof -
  let ?w = "FixedWidthBits (ctype c)"
  let ?n = "(?w + 7) div 8" and ?r = "raw_code ?w v"
  have low: "\<not> bit ?r k" if "?w \<le> k" for k
    using raw_code_low [OF assms] that by (simp add: low_bits_def)
  then have "le_word (le_bytes ?n ?r) = ?r" by (intro le_word_le_bytes_low) simp
  then have d: "DecodeColumnValue c (le_bytes ?n ?r) = Inr v"
    using DecodeColumnValue_raw [OF assms(1,3,4), of "le_bytes ?n ?r"] raw_value_code [OF assms] by simp
  have "canonical (ctype c) (le_bytes ?n ?r)"
    using low by (auto simp: canonical_def byte_bit_def bit_le_bytes)
  then show ?thesis using d EncodeColumnValue_raw [OF assms] by blast
qed

text \<open>Bit strings.\<close>

lemma EncodeBits_step_eq:
  assumes "i < 8 * length bs" "digits ! i = CHR ''0'' \<or> digits ! i = CHR ''1''"
  shows "EncodeBits_step digits i bs = Inr (if digits ! i = CHR ''1'' then put_bit bs i True else bs)"
proof -
  have "i div 8 < length bs" using assms(1) by auto
  then show ?thesis
    using assms(2) by (cases "digits ! i = CHR ''1''") (simp_all add: EncodeBits_step_def put_bit_def set_bit_eq_or)
qed

lemma EncodeBits_loop:
  assumes "\<forall>i < n. digits ! i = CHR ''0'' \<or> digits ! i = CHR ''1''" "n \<le> 8 * m"
  shows "\<exists>bs. rfold (EncodeBits_step digits) [0..<n] (replicate m 0) = Inr bs \<and> length bs = m \<and>
    (\<forall>k < 8 * m. byte_bit bs k \<longleftrightarrow> k < n \<and> digits ! k = CHR ''1'')"
  using assms
proof (induction n)
  case 0
  then show ?case by (auto simp: byte_bit_def)
next
  case (Suc n)
  have p: "\<forall>i < n. digits ! i = CHR ''0'' \<or> digits ! i = CHR ''1''" "n \<le> 8 * m"
    using Suc.prems by auto
  obtain bs where bs: "rfold (EncodeBits_step digits) [0..<n] (replicate m 0) = Inr bs" "length bs = m"
    "\<forall>k < 8 * m. byte_bit bs k \<longleftrightarrow> k < n \<and> digits ! k = CHR ''1''"
    using Suc.IH [OF p] by (elim exE conjE) (rule that)
  let ?b = "if digits ! n = CHR ''1'' then put_bit bs n True else bs"
  have "rfold (EncodeBits_step digits) [0..<Suc n] (replicate m 0) = Inr ?b"
    using bs Suc.prems EncodeBits_step_eq [of n bs digits] by (simp add: rfold_append)
  moreover have "\<forall>k < 8 * m. byte_bit ?b k \<longleftrightarrow> k < Suc n \<and> digits ! k = CHR ''1''"
    using bs Suc.prems by (auto simp: byte_bit_put_bit less_Suc_eq)
  ultimately show ?case using bs(2) by (intro exI [of _ ?b]) simp
qed

lemma EncodeBits_bad:
  assumes "\<not> IsBitString digits" "length digits \<le> 8 * m"
  shows "\<exists>e. rfold (EncodeBits_step digits) [0..<length digits] (replicate m 0) = Inl (InvalidArgument e)"
proof -
  define bad where "bad i \<longleftrightarrow> i < length digits \<and> digits ! i \<noteq> CHR ''0'' \<and> digits ! i \<noteq> CHR ''1''" for i
  have ex: "\<exists>i. bad i" using assms(1) by (auto simp: bad_def IsBitString_def list_all_length)
  define n where "n = (LEAST i. bad i)"
  have n: "bad n" unfolding n_def using ex by (metis LeastI_ex)
  have before: "digits ! i = CHR ''0'' \<or> digits ! i = CHR ''1''" if "i < n" for i
    using not_less_Least [of i bad] that n unfolding n_def bad_def by auto
  obtain bs where bs: "rfold (EncodeBits_step digits) [0..<n] (replicate m 0) = Inr bs"
    using EncodeBits_loop [of n digits m] before n assms(2) by (auto simp: bad_def)
  have "[0..<length digits] = [0..<n] @ n # [Suc n..<length digits]"
    using n upt_add_eq_append [of 0 n "length digits - n"] by (simp add: bad_def upt_conv_Cons)
  then show ?thesis using bs n by (simp add: rfold_append EncodeBits_step_def bad_def)
qed

lemma DecodeColumnValue_bits:
  assumes "kind (ctype c) = kBits" "length bs = (FixedWidthBits (ctype c) + 7) div 8"
  shows "DecodeColumnValue c bs = Inr (BitsV (map (\<lambda>i. if byte_bit bs i then CHR ''1'' else CHR ''0'') [0..<FixedWidthBits (ctype c)]))"
proof -
  have "drop_bit j b AND 1 \<noteq> 0 \<longleftrightarrow> bit b j" for b :: byte and j
    by (simp add: and_one_eq bit_iff_odd_drop_bit odd_iff_mod_2_eq_one)
  then show ?thesis using assms by (simp add: DecodeColumnValue_def Let_def byte_bit_def)
qed

lemma bits_round_trip:
  assumes "type_ok (ctype c)" "kind (ctype c) = kBits" "holds_value (ctype c) v"
  shows "\<exists>bs. EncodeColumnValue c v = Inr bs \<and> canonical (ctype c) bs \<and> DecodeColumnValue c bs = Inr v"
proof -
  let ?w = "FixedWidthBits (ctype c)"
  obtain d where d: "v = BitsV d" "length d = ?w" "IsBitString d"
    using assms(2,3) by (cases v) (auto simp: FixedWidthBits_def IsFixedWidth_def)
  have w: "0 < ?w" using assms(1,2) by (simp add: type_ok_def FixedWidthBits_def IsFixedWidth_def Let_def)
  have dig: "\<forall>i < ?w. d ! i = CHR ''0'' \<or> d ! i = CHR ''1''" using d IsBitString_nth by auto
  have le: "?w \<le> 8 * ((?w + 7) div 8)" by linarith
  obtain bs where bs: "rfold (EncodeBits_step d) [0..<?w] (replicate ((?w + 7) div 8) 0) = Inr bs"
    "length bs = (?w + 7) div 8" "\<forall>k < 8 * ((?w + 7) div 8). byte_bit bs k \<longleftrightarrow> k < ?w \<and> d ! k = CHR ''1''"
    using EncodeBits_loop [OF dig le] by (elim exE conjE) (rule that)
  have e: "EncodeColumnValue c v = Inr bs"
    using assms(1,2) d w bs(1) ValidateColumnType_ok [of c]
    by (simp add: EncodeColumnValue_def EncodeColumnValue_into_def Let_def)
  have "map (\<lambda>i. if byte_bit bs i then CHR ''1'' else CHR ''0'') [0..<?w] = d"
    by (rule nth_equalityI) (use d dig bs(3) in auto)
  then have "DecodeColumnValue c bs = Inr v"
    using DecodeColumnValue_bits [OF assms(2) bs(2)] d(1) by simp
  then show ?thesis using e bs by (auto simp: canonical_def)
qed

lemma bits_decode_encode:
  assumes "type_ok (ctype c)" "kind (ctype c) = kBits" "canonical (ctype c) bs"
  shows "\<exists>v. DecodeColumnValue c bs = Inr v \<and> holds_value (ctype c) v \<and> EncodeColumnValue c v = Inr bs"
proof -
  let ?w = "FixedWidthBits (ctype c)"
  let ?d = "map (\<lambda>i. if byte_bit bs i then CHR ''1'' else CHR ''0'') [0..<?w]"
  have l: "length bs = (?w + 7) div 8" using assms(3) by (simp add: canonical_def)
  have h: "holds_value (ctype c) (BitsV ?d)"
    using assms(2) by (auto simp: FixedWidthBits_def IsFixedWidth_def IsBitString_def list_all_iff)
  obtain bs' where bs': "EncodeColumnValue c (BitsV ?d) = Inr bs'" "canonical (ctype c) bs'"
    "DecodeColumnValue c bs' = Inr (BitsV ?d)"
    using bits_round_trip [OF assms(1,2) h] by (elim exE conjE) (rule that)
  have l': "length bs' = (?w + 7) div 8" using bs'(2) by (simp add: canonical_def)
  have m: "map (\<lambda>i. if byte_bit bs' i then CHR ''1'' else CHR ''0'') [0..<?w] = ?d"
    using bs'(3) DecodeColumnValue_bits [OF assms(2) l'] by simp
  have "byte_bit bs' k = byte_bit bs k" if k: "k < 8 * length bs" for k
  proof (cases "k < ?w")
    case True
    then have "(if byte_bit bs' k then CHR ''1'' else CHR ''0'') = (if byte_bit bs k then CHR ''1'' else CHR ''0'')"
      using arg_cong [OF m, of "\<lambda>x. x ! k"] by simp
    then show ?thesis by (simp split: if_splits)
  next
    case False
    then show ?thesis using k l l' bs'(2) assms(3) by (simp add: canonical_def)
  qed
  then have "bs' = bs" using l l' by (intro bytes_eqI) auto
  then show ?thesis using bs'(1) h DecodeColumnValue_bits [OF assms(2) l] by blast
qed

text \<open>The converse for raw integers, and the two cases together.\<close>

lemma raw_decode_encode:
  assumes "type_ok (ctype c)" "IsFixedWidth (kind (ctype c))" "kind (ctype c) \<noteq> kBits" "canonical (ctype c) bs"
  shows "\<exists>v. DecodeColumnValue c bs = Inr v \<and> holds_value (ctype c) v \<and> EncodeColumnValue c v = Inr bs"
proof -
  let ?w = "FixedWidthBits (ctype c)"
  let ?raw = "le_word bs :: u64"
  let ?v = "raw_value (kind (ctype c)) ?w ?raw"
  have l: "length bs = (?w + 7) div 8" using assms(4) by (simp add: canonical_def)
  have w: "?w \<le> 64" using type_ok_width [OF assms(1,2,3)] by simp
  have "low_bits ?w ?raw"
    unfolding low_bits_def
  proof (intro allI impI)
    fix k assume "?w \<le> k"
    then show "\<not> bit ?raw k"
      using assms(4) by (cases "k < 8 * length bs") (auto simp: canonical_def bit_le_word byte_bit_def)
  qed
  from raw_code_value [OF assms(1,2,3) this]
  have h: "holds_value (ctype c) ?v" "raw_code ?w ?v = ?raw" by auto
  have "le_bytes (length bs) ?raw = bs" using w l by (intro le_bytes_le_word) simp
  then have "EncodeColumnValue c ?v = Inr bs"
    using EncodeColumnValue_raw [OF assms(1) h(1) assms(2,3)] h(2) l by simp
  then show ?thesis using h(1) DecodeColumnValue_raw [OF assms(1,2,3) l] by blast
qed

lemma encode_decode:
  assumes "type_ok (ctype c)" "IsFixedWidth (kind (ctype c))" "holds_value (ctype c) v"
  shows "\<exists>bs. EncodeColumnValue c v = Inr bs \<and> canonical (ctype c) bs \<and> DecodeColumnValue c bs = Inr v"
  using raw_round_trip [OF assms(1,3,2)] bits_round_trip [OF assms(1) _ assms(3)]
  by (cases "kind (ctype c) = kBits") auto

lemma decode_encode:
  assumes "type_ok (ctype c)" "IsFixedWidth (kind (ctype c))" "canonical (ctype c) bs"
  shows "\<exists>v. DecodeColumnValue c bs = Inr v \<and> holds_value (ctype c) v \<and> EncodeColumnValue c v = Inr bs"
  using raw_decode_encode [OF assms(1,2) _ assms(3)] bits_decode_encode [OF assms(1) _ assms(3)]
  by (cases "kind (ctype c) = kBits") auto

lemma encode_refused:
  assumes "\<not> (type_ok (ctype c) \<and> holds_value (ctype c) v)" "IsFixedWidth (kind (ctype c))"
  shows "\<exists>m. EncodeColumnValue c v = Inl (InvalidArgument m)"
proof (cases "type_ok (ctype c)")
  case False
  then show ?thesis using ValidateColumnType_error [of c] by (auto simp: EncodeColumnValue_def)
next
  case True
  let ?w = "FixedWidthBits (ctype c)"
  have ok: "ValidateColumnType c = Inr ()" using True ValidateColumnType_ok by blast
  have nh: "\<not> holds_value (ctype c) v" using True assms(1) by simp
  show ?thesis
  proof (cases "kind (ctype c) = kBits")
    case False
    then show ?thesis
      using ok EncodeRaw_refused [OF True nh assms(2)]
      by (cases "v = NullV") (auto simp: EncodeColumnValue_def EncodeColumnValue_into_def Let_def)
  next
    case bits: True
    have le: "?w \<le> 8 * ((?w + 7) div 8)" by linarith
    show ?thesis
    proof (cases v)
      case (BitsV d)
      then show ?thesis
        using ok bits nh le EncodeBits_bad [of d "(?w + 7) div 8"]
        by (auto simp: EncodeColumnValue_def EncodeColumnValue_into_def Let_def FixedWidthBits_def
            IsFixedWidth_def type_mismatch_def)
    qed (use ok bits in \<open>auto simp: EncodeColumnValue_def EncodeColumnValue_into_def Let_def type_mismatch_def\<close>)
  qed
qed

end
