(* ===== verification/Column_Conversion.thy ===== *)
theory Column_Conversion
  imports Column_Laws
begin

text \<open>
  Conversion of values when a column changes its type: what \<open>Fit\<close>, \<open>Clamp\<close>, \<open>Truncate\<close> and
  \<open>FallbackOf\<close> give for each family of types, and what \<open>ConvertValue\<close> promises with them.
\<close>

section \<open>Integers\<close>

lemma uint_word_of_int: "0 \<le> n \<Longrightarrow> n < 2 ^ 64 \<Longrightarrow> uint (word_of_int n :: u64) = n"
  by (simp add: uint_word_of_int_eq take_bit_int_eq_self)

lemma sint_word_of_int: "- (2 ^ 63) \<le> n \<Longrightarrow> n < 2 ^ 63 \<Longrightarrow> sint (word_of_int n :: u64) = n"
  by (simp add: signed_of_int signed_take_bit_int_eq_self)

lemma int_range:
  assumes "FamilyOf (kind t) = FInteger" "type_ok t"
  obtains lo hi where "RangeOf t = Inr (lo, hi)" "lo \<le> 0" "0 \<le> hi"
    "\<And>n. lo \<le> n \<Longrightarrow> n \<le> hi \<Longrightarrow> holds_value t (IntegerValue t n) \<and> IntegerOf (IntegerValue t n) = Inr n"
    "\<And>v. holds_value t v \<Longrightarrow> \<exists>n. IntegerOf v = Inr n \<and> lo \<le> n \<and> n \<le> hi \<and> IntegerValue t n = v"
    "lo = (if kind t = kUnsigned then 0 else - (2 ^ (unat (csize t) - 1)))"
    "hi = (if kind t = kUnsigned then 2 ^ unat (csize t) - 1 else 2 ^ (unat (csize t) - 1) - 1)"
proof (cases "kind t = kUnsigned")
  case True
  let ?n = "unat (csize t)"
  have n: "1 \<le> ?n" "?n \<le> 64" using True assms(2) by (auto simp: type_ok_def Let_def)
  have p: "(2 :: int) ^ ?n \<le> 2 ^ 64" using n by (intro power_increasing) auto
  show thesis
  proof (rule that [of 0 "2 ^ ?n - 1"])
    show "RangeOf t = Inr (0, 2 ^ ?n - 1)" using True n by (simp add: RangeOf_def)
    fix m :: int assume "0 \<le> m" "m \<le> 2 ^ ?n - 1"
    then show "holds_value t (IntegerValue t m) \<and> IntegerOf (IntegerValue t m) = Inr m"
      using True p uint_word_of_int [of m] by (simp add: IntegerValue_def)
  next
    fix v assume "holds_value t v"
    then show "\<exists>n. IntegerOf v = Inr n \<and> 0 \<le> n \<and> n \<le> 2 ^ ?n - 1 \<and> IntegerValue t n = v"
      using True by (cases v) (auto simp: IntegerValue_def)
  qed (use True in auto)
next
  case False
  then have k: "kind t = kSigned" using assms(1) by (cases "kind t") auto
  let ?n = "unat (csize t)"
  have n: "2 \<le> ?n" "?n \<le> 64" using k assms(2) by (auto simp: type_ok_def Let_def)
  have p: "(2 :: int) ^ (?n - 1) \<le> 2 ^ 63" using n by (intro power_increasing) auto
  show thesis
  proof (rule that [of "- (2 ^ (?n - 1))" "2 ^ (?n - 1) - 1"])
    show "RangeOf t = Inr (- (2 ^ (?n - 1)), 2 ^ (?n - 1) - 1)" using k n by (simp add: RangeOf_def Let_def)
    fix m :: int assume "- (2 ^ (?n - 1)) \<le> m" "m \<le> 2 ^ (?n - 1) - 1"
    then show "holds_value t (IntegerValue t m) \<and> IntegerOf (IntegerValue t m) = Inr m"
      using k p sint_word_of_int [of m] by (simp add: IntegerValue_def)
  next
    fix v assume "holds_value t v"
    then show "\<exists>n. IntegerOf v = Inr n \<and> - (2 ^ (?n - 1)) \<le> n \<and> n \<le> 2 ^ (?n - 1) - 1 \<and> IntegerValue t n = v"
      using k by (cases v) (auto simp: IntegerValue_def)
  qed (use k in auto)
qed

lemma widens_range:
  assumes "FamilyOf (kind t) = FInteger" "FamilyOf (kind u) = FInteger" "type_ok t" "type_ok u" "Widens t u"
    and "RangeOf t = Inr (lo, hi)" "RangeOf u = Inr (lo', hi')"
  shows "lo' \<le> lo \<and> hi \<le> hi'"
proof -
  have le: "csize t \<le> csize u \<Longrightarrow> unat (csize t) \<le> unat (csize u)" by (simp add: word_le_nat_alt)
  have lt: "csize t < csize u \<Longrightarrow> unat (csize t) < unat (csize u)" by (simp add: word_less_nat_alt)
  have p: "(2 :: int) ^ i - 1 < 2 ^ j" if "i \<le> j" for i j :: nat
    using power_increasing [OF that, of "2 :: int"] by linarith
  have u: "kind t = kUnsigned \<or> kind t = kSigned" "kind u = kUnsigned \<or> kind u = kSigned"
    using assms(1,2) by (cases "kind t"; cases "kind u"; simp)+
  show ?thesis
    using u assms(5,6,7) le lt by (auto simp: RangeOf_def Let_def Widens_def intro!: p split: if_splits)
qed

section \<open>Text\<close>

lemma IsUtf8_Nil [simp]: "IsUtf8 []"
  by (simp add: IsUtf8.simps)

lemma utf8_tail_continuation:
  "utf8_tail bs code = Some c \<Longrightarrow> i < length bs \<Longrightarrow> bs ! i AND 0xC0 = 0x80"
  by (induction bs code arbitrary: i rule: utf8_tail.induct) (auto simp: nth_Cons' split: if_splits)

lemma utf8_lead_len: "utf8_lead b = Some (len, code) \<Longrightarrow> 2 \<le> len"
  by (auto simp: utf8_lead_def split: if_splits)

lemma IsUtf8_boundary:
  "IsUtf8 bs \<Longrightarrow> k < length bs \<Longrightarrow> bs ! k AND 0xC0 \<noteq> 0x80 \<Longrightarrow> IsUtf8 (take k bs)"
proof (induction bs arbitrary: k rule: IsUtf8.induct)
  case (1 bs)
  show ?case
  proof (cases bs)
    case (Cons lead rest)
    show ?thesis
    proof (cases "k = 0 \<or> lead < 0x80")
      case True
      show ?thesis
      proof (cases k)
        case (Suc j)
        then have a: "lead < 0x80" using True by simp
        then have "IsUtf8 rest" using "1.prems"(1) Cons by (simp add: IsUtf8.simps [of "lead # rest"])
        then have "IsUtf8 (take j rest)" using "1.IH"(1) [OF Cons a, of j] "1.prems" Cons Suc by simp
        then show ?thesis using a Cons Suc by (simp add: IsUtf8.simps [of "lead # take j rest"])
      qed simp
    next
      case False
      then have hi: "\<not> lead < 0x80" and k: "0 < k" by auto
      obtain len code where l: "utf8_lead lead = Some (len, code)"
        using "1.prems"(1) hi Cons by (auto simp: IsUtf8.simps [of "lead # rest"] split: option.splits)
      obtain code' where t: "len \<le> length bs" "utf8_tail (take (len - 1) rest) code = Some code'"
        "utf8_code_ok len code'" "IsUtf8 (drop (len - 1) rest)"
        using "1.prems"(1) hi Cons l
        by (auto simp: IsUtf8.simps [of "lead # rest"] split: option.splits if_splits)
      have two: "2 \<le> len" by (rule utf8_lead_len [OF l])
      have len: "len \<le> k"
      proof (rule ccontr)
        assume "\<not> len \<le> k"
        then have "k - 1 < length (take (len - 1) rest)" using k t(1) Cons by simp
        from utf8_tail_continuation [OF t(2) this] show False
          using "1.prems"(3) k Cons \<open>\<not> len \<le> k\<close> by (simp add: nth_Cons')
      qed
      have "drop (len - 1) rest ! (k - len) = bs ! k"
        using len k two "1.prems"(2) Cons by (simp add: nth_Cons')
      moreover have "k - len < length (drop (len - 1) rest)" using len "1.prems"(2) Cons two by simp
      ultimately have r: "IsUtf8 (take (k - len) (drop (len - 1) rest))"
        using "1.IH"(2) [OF Cons hi l refl _ t(2) t(3), of "k - len"] t(1,4) "1.prems"(3) by simp
      have "take (len - 1) (take (k - 1) rest) = take (len - 1) rest" using len by (simp add: min_absorb1)
      moreover have "drop (len - 1) (take (k - 1) rest) = take (k - len) (drop (len - 1) rest)"
        using len two by (simp add: drop_take)
      moreover have "take k bs = lead # take (k - 1) rest" using k Cons by (cases k) auto
      ultimately show ?thesis
        using hi l t r len "1.prems"(2) Cons by (simp add: IsUtf8.simps [of "lead # take (k - Suc 0) rest"])
    qed
  qed simp
qed

lemma Truncate_keep_spec:
  "n < length bs \<Longrightarrow> \<exists>k \<le> n. Truncate_keep bs n = Inr k \<and> (k = 0 \<or> bs ! k AND 0xC0 \<noteq> 0x80) \<and>
    (\<forall>j. k < j \<and> j \<le> n \<longrightarrow> bs ! j AND 0xC0 = 0x80)"
proof (induction n)
  case (Suc n)
  show ?case
  proof (cases "bs ! Suc n AND 0xC0 = 0x80")
    case True
    obtain k where "k \<le> n" "Truncate_keep bs n = Inr k" "k = 0 \<or> bs ! k AND 0xC0 \<noteq> 0x80"
      "\<forall>j. k < j \<and> j \<le> n \<longrightarrow> bs ! j AND 0xC0 = 0x80"
      using Suc.IH Suc.prems by (auto elim!: exE)
    then show ?thesis using True Suc.prems by (intro exI [of _ k]) (auto simp: le_Suc_eq)
  next
    case False
    then show ?thesis using Suc.prems by (intro exI [of _ "Suc n"]) auto
  qed
qed simp

section \<open>Fitting\<close>

definition same_family :: "ColumnType \<Rightarrow> ColumnType \<Rightarrow> bool" where
  "same_family t u \<longleftrightarrow> FamilyOf (kind t) = FamilyOf (kind u)"

lemma FamilyOf_kinds:
  "FamilyOf k = FBool \<longleftrightarrow> k = kBool" "FamilyOf k = FBits \<longleftrightarrow> k = kBits"
  "FamilyOf k = FText \<longleftrightarrow> k = kText" "FamilyOf k = FBytes \<longleftrightarrow> k = kBytes"
  "FamilyOf k = FInteger \<longleftrightarrow> k = kUnsigned \<or> k = kSigned"
  "FamilyOf k = FFloat \<longleftrightarrow> k = kFloat32 \<or> k = kFloat64"
  by (cases k; simp)+

text \<open>
  What a fitted value keeps of the original: the integer, the number of a float (a NaN stays a NaN),
  the bytes, the truth value, and the digits up to trailing zeros.
\<close>

fun number_of :: "ColumnValue \<Rightarrow> float_number option" where
  "number_of (FloatV x) = Some (f32_number x)"
| "number_of (DoubleV x) = Some (f64_number x)"
| "number_of _ = None"

definition keeps_value :: "ColumnValue \<Rightarrow> ColumnValue \<Rightarrow> bool" where
  "keeps_value v f \<longleftrightarrow> IntegerOf f = IntegerOf v \<and> number_of f = number_of v \<and> BytesOf f = BytesOf v \<and>
    (\<forall>d. BitsOf v = Inr d \<longrightarrow> (\<exists>n d'. BitsOf f = Inr d' \<and> n \<le> length d \<and> take n d' = take n d \<and>
       CHR ''1'' \<notin> set (drop n d) \<and> CHR ''1'' \<notin> set (drop n d'))) \<and>
    (\<forall>b. v = BoolV b \<longrightarrow> f = BoolV b)"

lemma Fit_integer:
  assumes "type_ok t" "type_ok u" "FamilyOf (kind t) = FInteger" "FamilyOf (kind u) = FInteger" "holds_value t v"
  shows "\<exists>r. Fit u v = Inr r \<and> (\<forall>f. r = Some f \<longrightarrow> holds_value u f \<and> (Widens t u \<longrightarrow> keeps_value v f)) \<and>
    (Widens t u \<longrightarrow> r \<noteq> None)"
proof -
  obtain lo hi where R: "RangeOf t = Inr (lo, hi)" "\<exists>n. IntegerOf v = Inr n \<and> lo \<le> n \<and> n \<le> hi \<and> IntegerValue t n = v"
    using int_range [OF assms(3,1)] assms(5) by metis
  obtain lo' hi' where R': "RangeOf u = Inr (lo', hi')"
    "\<And>n. lo' \<le> n \<Longrightarrow> n \<le> hi' \<Longrightarrow> holds_value u (IntegerValue u n) \<and> IntegerOf (IntegerValue u n) = Inr n"
    using int_range [OF assms(4,2)] by metis
  obtain n where n: "IntegerOf v = Inr n" "lo \<le> n" "n \<le> hi" using R(2) by blast
  have f: "Fit u v = Inr (if n < lo' \<or> n > hi' then None else Some (IntegerValue u n))"
    using assms(4) n(1) R'(1) by (simp add: Fit_def)
  have "keeps_value v (IntegerValue u n)" if "lo' \<le> n" "n \<le> hi'"
    using R'(2) [OF that] n(1) by (cases v) (auto simp: keeps_value_def IntegerValue_def)
  then show ?thesis
    using f R'(2) [of n] n widens_range [OF assms(3,4,1,2) _ R(1) R'(1)] by auto
qed

lemma Fit_float:
  assumes "type_ok t" "type_ok u" "FamilyOf (kind t) = FFloat" "FamilyOf (kind u) = FFloat" "holds_value t v"
  shows "\<exists>r. Fit u v = Inr r \<and> (\<forall>f. r = Some f \<longrightarrow> holds_value u f \<and> (Widens t u \<longrightarrow> keeps_value v f)) \<and>
    (Widens t u \<longrightarrow> r \<noteq> None)"
proof -
  obtain x where x: "FloatOf v = Inr x" "kind t = kFloat32 \<Longrightarrow> \<exists>y. x = f32_to_f64 y"
    using assms(3,5) by (cases v) (auto simp: FamilyOf_kinds)
  have "holds_value u (FloatValue u x)"
    using assms(3,4,5) by (cases v) (auto simp: FloatValue_def FamilyOf_kinds)
  moreover have "keeps_value v (FloatValue u x)" if "Widens t u"
    using that x(1) assms(3,4,5)
    by (cases v) (auto simp: FloatValue_def FamilyOf_kinds keeps_value_def Widens_def f32_to_f64_number f32_rewrite_number)
  moreover have "f64_mag x \<le> f64_mag (f32_to_f64 FLT_MAX)" if "f64_isfinite x" "kind t = kFloat32"
    using x(2) [OF that(2)] that(1) f32_finite_mag by blast
  ultimately show ?thesis
    using x(1) assms(3,4) by (auto simp: Fit_def Widens_def FamilyOf_kinds)
qed

lemma IsBitString_take: "IsBitString d \<Longrightarrow> IsBitString (take n d)"
  by (simp add: IsBitString_def list_all_length)

lemma IsBitString_append: "IsBitString (a @ b) \<longleftrightarrow> IsBitString a \<and> IsBitString b"
  by (simp add: IsBitString_def)

lemma IsBitString_zeros: "IsBitString (replicate n CHR ''0'')"
  by (simp add: IsBitString_def list_all_length)

lemma Fit_bits:
  assumes "kind t = kBits" "kind u = kBits" "holds_value t v"
  shows "\<exists>r. Fit u v = Inr r \<and> (\<forall>f. r = Some f \<longrightarrow> holds_value u f \<and> (Widens t u \<longrightarrow> keeps_value v f)) \<and>
    (Widens t u \<longrightarrow> r \<noteq> None)"
proof -
  let ?n = "unat (csize u)"
  obtain d where d: "v = BitsV d" "length d = unat (csize t)" "IsBitString d"
    using assms by (cases v) auto
  have pad: "holds_value u (BitsV (resize_to d ?n CHR ''0'')) \<and> keeps_value v (BitsV (resize_to d ?n CHR ''0''))"
    if "length d \<le> ?n"
  proof -
    have r: "resize_to d ?n CHR ''0'' = d @ replicate (?n - length d) CHR ''0''"
      using that by (simp add: resize_to_def)
    have "keeps_value v (BitsV (d @ replicate (?n - length d) CHR ''0''))"
      unfolding keeps_value_def d(1) by (simp, rule exI [of _ "length d"]) simp
    then show ?thesis using r that d(3) assms(2) by (simp add: IsBitString_append IsBitString_zeros)
  qed
  have cut: "holds_value u (BitsV (resize_to d ?n (CHR 0x00))) \<and> keeps_value v (BitsV (resize_to d ?n (CHR 0x00)))"
    if "\<not> length d \<le> ?n" "CHR ''1'' \<notin> set (drop ?n d)"
  proof -
    have r: "resize_to d ?n (CHR 0x00) = take ?n d" using that by (simp add: resize_to_def)
    have "keeps_value v (BitsV (take ?n d))"
      unfolding keeps_value_def d(1) using that by (simp, intro exI [of _ "?n"]) simp
    then show ?thesis using r that d(3) assms(2) by (simp add: IsBitString_take)
  qed
  have F: "Fit u v = Inr (if length d \<le> ?n then Some (BitsV (resize_to d ?n CHR ''0''))
      else if CHR ''1'' \<in> set (drop ?n d) then None else Some (BitsV (resize_to d ?n (CHR 0x00))))"
    using assms(2) d(1) by (simp add: Fit_def Let_def)
  have "length d \<le> ?n" if "Widens t u" using that assms(1,2) d(2) by (simp add: Widens_def word_le_nat_alt)
  then show ?thesis using F pad cut by (cases "length d \<le> ?n"; cases "CHR ''1'' \<in> set (drop ?n d)") auto
qed

lemma Fit_var:
  assumes "kind u = kind t" "kind t = kText \<or> kind t = kBytes" "holds_value t v"
  shows "\<exists>r. Fit u v = Inr r \<and> (\<forall>f. r = Some f \<longrightarrow> holds_value u f \<and> (Widens t u \<longrightarrow> keeps_value v f)) \<and>
    (Widens t u \<longrightarrow> r \<noteq> None)"
  using assms by (cases v) (auto simp: Fit_def VarValue_def Widens_def word_le_nat_alt keeps_value_def)

lemma Fit_spec:
  assumes "type_ok t" "type_ok u" "same_family t u" "holds_value t v"
  shows "\<exists>r. Fit u v = Inr r \<and> (\<forall>f. r = Some f \<longrightarrow> holds_value u f \<and> (Widens t u \<longrightarrow> keeps_value v f)) \<and>
    (Widens t u \<longrightarrow> r \<noteq> None)"
proof -
  consider (i) "FamilyOf (kind t) = FInteger" | (f) "FamilyOf (kind t) = FFloat" | (b) "kind t = kBool"
    | (bits) "kind t = kBits" | (var) "kind t = kText \<or> kind t = kBytes"
    by (cases "kind t") auto
  then show ?thesis
  proof cases
    case i then show ?thesis using assms Fit_integer by (simp add: same_family_def)
  next
    case f then show ?thesis using assms Fit_float by (simp add: same_family_def)
  next
    case b
    then have "kind u = kBool" using assms(3) FamilyOf_kinds(1) [of "kind u"] by (simp add: same_family_def)
    then show ?thesis using b assms(4) by (cases v) (auto simp: Fit_def keeps_value_def)
  next
    case bits
    then have "kind u = kBits" using assms(3) FamilyOf_kinds(2) [of "kind u"] by (simp add: same_family_def)
    then show ?thesis using bits assms(4) Fit_bits by blast
  next
    case var
    then have "kind u = kind t"
      using assms(3) FamilyOf_kinds(3,4) [of "kind u"] by (auto simp: same_family_def)
    then show ?thesis using var assms(4) Fit_var by blast
  qed
qed

section \<open>Values that do not fit\<close>

lemma Clamp_spec:
  assumes "type_ok u" "FamilyOf (kind u) = FInteger \<or> FamilyOf (kind u) = FFloat"
    "type_ok t" "same_family t u" "holds_value t v"
  shows "\<exists>f. Clamp u v = Inr f \<and> holds_value u f"
proof (cases "FamilyOf (kind u) = FInteger")
  case True
  obtain lo' hi' where R': "RangeOf u = Inr (lo', hi')" "lo' \<le> 0" "0 \<le> hi'"
    "\<And>n. lo' \<le> n \<Longrightarrow> n \<le> hi' \<Longrightarrow> holds_value u (IntegerValue u n) \<and> IntegerOf (IntegerValue u n) = Inr n"
    using int_range [OF True assms(1)] by metis
  obtain n where n: "IntegerOf v = Inr n"
    using True assms(4,5) by (cases v) (auto simp: same_family_def FamilyOf_kinds)
  let ?c = "if n < lo' then lo' else if hi' < n then hi' else n"
  have "Clamp u v = Inr (IntegerValue u ?c)" using True R'(1) n by (simp add: Clamp_def)
  moreover have "lo' \<le> ?c" "?c \<le> hi'" using R'(2,3) by auto
  ultimately show ?thesis using R'(4) by blast
next
  case False
  then have f: "FamilyOf (kind u) = FFloat" using assms(2) by simp
  then obtain x where "FloatOf v = Inr x"
    using assms(4,5) by (cases v) (auto simp: same_family_def FamilyOf_kinds)
  then show ?thesis using f by (auto simp: Clamp_def Let_def FloatValue_def FamilyOf_kinds)
qed

lemma Truncate_spec:
  assumes "kind t = kind u" "kind u = kBits \<or> kind u = kText \<or> kind u = kBytes" "holds_value t v"
    "Fit u v = Inr None"
  shows "\<exists>f. Truncate u v = Inr f \<and> holds_value u f"
proof -
  let ?n = "unat (csize u)"
  consider (bits) d where "v = BitsV d" | (txtv) b where "v = TextV b" | (bytes) b where "v = BytesV b"
    using assms(1,2,3) by (cases v) auto
  then show ?thesis
  proof cases
    case bits
    then have k: "kind u = kBits" "IsBitString d" using assms(1,3) by auto
    then have "?n < length d" using assms(4) bits by (auto simp: Fit_def Let_def split: if_splits)
    then show ?thesis using bits k by (simp add: Truncate_def Let_def resize_to_def IsBitString_take)
  next
    case txtv
    then have k: "kind u = kText" "IsUtf8 b" using assms(1,3) by auto
    then have l: "?n < length b" using assms(4) txtv by (auto simp: Fit_def split: if_splits)
    obtain keep where keep: "keep \<le> ?n" "Truncate_keep b ?n = Inr keep" "keep = 0 \<or> b ! keep AND 0xC0 \<noteq> 0x80"
      using Truncate_keep_spec [OF l] by (elim exE conjE) (rule that)
    have "IsUtf8 (take keep b)"
      using IsUtf8_boundary [OF k(2), of keep] keep l by (cases "keep = 0") auto
    moreover have "resize_to b keep 0 = take keep b" using keep l by (simp add: resize_to_def)
    ultimately show ?thesis using txtv k keep l by (simp add: Truncate_def Let_def VarValue_def)
  next
    case bytes
    then have k: "kind u = kBytes" using assms(1,3) by auto
    then have l: "?n < length b" using assms(4) bytes by (auto simp: Fit_def split: if_splits)
    then show ?thesis using bytes k by (simp add: Truncate_def Let_def VarValue_def resize_to_def)
  qed
qed

lemma ValidateDefault_canonical:
  assumes "ValidateDefault c = Inr ()" "has_default c" "IsFixedWidth (kind (ctype c))" "type_ok (ctype c)"
  shows "canonical (ctype c) (default_value c)"
proof -
  let ?w = "FixedWidthBits (ctype c)" and ?b = "default_value c"
  have "?w \<le> 65535" using assms(3,4)
    by (auto simp: FixedWidthBits_def type_ok_def Let_def IsFixedWidth_def kMaxFixedBitsPerBlock_def split: ColumnKind.splits)
  then have l: "length ?b = (?w + 7) div 8" and
    m: "?w mod 8 \<noteq> 0 \<Longrightarrow> drop_bit (?w mod 8) (last ?b) = 0"
    using assms(1,2,3) by (auto simp: ValidateDefault_def Let_def split: if_splits)
  have "\<not> byte_bit ?b k" if k: "?w \<le> k" "k < 8 * length ?b" for k
  proof -
    define q r where "q = ?w div 8" and "r = ?w mod 8"
    have w: "?w = 8 * q + r" "r < 8" by (simp_all add: q_def r_def)
    have r0: "r \<noteq> 0" using k l w by (cases "r = 0") simp_all
    then have len: "length ?b = Suc q" using l w by simp
    define j where "j = k - 8 * q"
    have j: "k = 8 * q + j" "r \<le> j" "j < 8" using k w len by (auto simp: j_def)
    have "bit (last ?b) j = bit (drop_bit r (last ?b)) (j - r)" using j(2) by (simp add: bit_drop_bit_eq)
    also have "\<not> \<dots>" using m r0 by (simp add: r_def)
    finally have "\<not> bit (last ?b) j" .
    moreover have "last ?b = ?b ! q" using len by (simp add: last_conv_nth flip: length_greater_0_conv)
    ultimately show ?thesis using j by (simp add: byte_bit_def)
  qed
  then show ?thesis using l by (simp add: canonical_def)
qed

lemma FallbackOf_spec:
  assumes "ValidateDefault c = Inr ()" "type_ok (ctype c)"
  shows "\<exists>f. FallbackOf c = Inr f \<and> (f = NullV \<and> nullable c \<or> holds_value (ctype c) f)"
proof (cases "has_default c")
  case True
  show ?thesis
  proof (cases "IsFixedWidth (kind (ctype c))")
    case fixed: True
    from decode_encode [OF assms(2) fixed ValidateDefault_canonical [OF assms(1) True fixed assms(2)]]
    show ?thesis using True fixed by (auto simp: FallbackOf_def)
  next
    case False
    then show ?thesis
      using True assms(1)
      by (auto simp: FallbackOf_def DecodeVarValue_def ValidateDefault_def Let_def IsFixedWidth_def split: if_splits)
  qed
next
  case False
  let ?t = "ctype c"
  have "holds_value ?t (case FamilyOf (kind ?t) of
         FInteger \<Rightarrow> IntegerValue ?t 0 | FFloat \<Rightarrow> FloatValue ?t 0 | FBool \<Rightarrow> BoolV False
       | FBits \<Rightarrow> BitsV (replicate (unat (csize ?t)) CHR ''0'') | _ \<Rightarrow> VarValue ?t [])"
    by (cases "kind ?t") (auto simp: IntegerValue_def FloatValue_def VarValue_def IsBitString_zeros)
  then show ?thesis using False by (auto simp: FallbackOf_def)
qed

lemma convert_outcome:
  assumes "type_ok (ctype c)" "type_ok (ctype d)" "ValidateDefault d = Inr ()" "same_family (ctype c) (ctype d)"
    "TakesConversion (FamilyOf (kind (ctype c))) conversion" "holds_value (ctype c) v"
  shows "(\<exists>f. ConvertValue c d conversion v = Inr f \<and> (f = NullV \<and> nullable d \<or> holds_value (ctype d) f)) \<or>
    (conversion = kExact \<and> \<not> Widens (ctype c) (ctype d) \<and> Fit (ctype d) v = Inr None \<and>
     (\<exists>m. ConvertValue c d conversion v = Inl (LogicError m)))"
proof -
  have nn: "v \<noteq> NullV" using assms(6) by auto
  obtain r where r: "Fit (ctype d) v = Inr r" "\<forall>f. r = Some f \<longrightarrow> holds_value (ctype d) f \<and> (Widens (ctype c) (ctype d) \<longrightarrow> keeps_value v f)"
    "Widens (ctype c) (ctype d) \<longrightarrow> r \<noteq> None"
    using Fit_spec [OF assms(1,2,4,6)] by (elim exE conjE) (rule that)
  show ?thesis
  proof (cases r)
    case (Some f)
    then show ?thesis using r nn by (simp add: ConvertValue_def)
  next
    case None
    have k: "kind (ctype c) = kind (ctype d)" "kind (ctype d) = kBits \<or> kind (ctype d) = kText \<or> kind (ctype d) = kBytes"
      if "conversion = kTruncate"
      using that assms(4,5) by (cases "kind (ctype c)"; cases "kind (ctype d)"; simp add: same_family_def)+
    show ?thesis
    proof (cases conversion)
      case kExact
      then show ?thesis using r None nn by (simp add: ConvertValue_def)
    next
      case kClamp
      then show ?thesis
        using Clamp_spec [OF assms(2) _ assms(1,4,6)] assms(4,5) r None nn
        by (auto simp: ConvertValue_def same_family_def)
    next
      case kDefault
      then show ?thesis using FallbackOf_spec [OF assms(3,2)] r None nn by (simp add: ConvertValue_def)
    next
      case kTruncate
      then show ?thesis
        using Truncate_spec [OF k(1) k(2) assms(6)] r None nn by (auto simp: ConvertValue_def)
    qed
  qed
qed

section \<open>Properties\<close>

text \<open>
  Claim C12. For a fixed-width column of a valid type, the values the type holds and the canonical
  byte strings correspond one to one: encoding a value the type holds gives a canonical string
  that decodes to it, every other value is refused, and every canonical string decodes to a
  value that encodes to the same string.
\<close>

theorem column_value_codec:
  assumes "ValidateColumnType c = Inr ()" "IsFixedWidth (kind (ctype c))" "canonical (ctype c) data"
  shows "((\<exists>bs. EncodeColumnValue c v = Inr bs \<and> holds_value (ctype c) v \<and> canonical (ctype c) bs \<and>
        DecodeColumnValue c bs = Inr v) \<or>
      (\<exists>m. EncodeColumnValue c v = Inl (InvalidArgument m) \<and> holds_value (ctype c) v = False)) \<and>
    (\<exists>w. DecodeColumnValue c data = Inr w \<and> holds_value (ctype c) w \<and> EncodeColumnValue c w = Inr data)"
proof -
  have ok: "type_ok (ctype c)" using assms(1) ValidateColumnType_ok by blast
  show ?thesis
  proof (rule conjI)
    show "(\<exists>bs. EncodeColumnValue c v = Inr bs \<and> holds_value (ctype c) v \<and> canonical (ctype c) bs \<and>
          DecodeColumnValue c bs = Inr v) \<or>
        (\<exists>m. EncodeColumnValue c v = Inl (InvalidArgument m) \<and> holds_value (ctype c) v = False)"
      using encode_decode [OF ok assms(2)] encode_refused [OF _ assms(2)] ok
      by (cases "holds_value (ctype c) v") auto
  qed (rule decode_encode [OF ok assms(2,3)])
qed

definition example_column :: "ColumnKind \<Rightarrow> u32 \<Rightarrow> Column" where
  "example_column k n = \<lparr>col_id = 1, col_name = ''height'', ctype = \<lparr>kind = k, csize = n\<rparr>,
    nullable = False, required = False, has_default = False, default_value = []\<rparr>"

theorem column_value_codec_witness:
  "((\<exists>bs. EncodeColumnValue (example_column kSigned 8) (SIntV (- 3)) = Inr bs \<and>
        holds_value (ctype (example_column kSigned 8)) (SIntV (- 3)) \<and> canonical (ctype (example_column kSigned 8)) bs \<and>
        DecodeColumnValue (example_column kSigned 8) bs = Inr (SIntV (- 3))) \<or>
      (\<exists>m. EncodeColumnValue (example_column kSigned 8) (SIntV (- 3)) = Inl (InvalidArgument m) \<and>
        holds_value (ctype (example_column kSigned 8)) (SIntV (- 3)) = False)) \<and>
    (\<exists>w. DecodeColumnValue (example_column kSigned 8) [0xFD] = Inr w \<and>
      holds_value (ctype (example_column kSigned 8)) w \<and> EncodeColumnValue (example_column kSigned 8) w = Inr [0xFD])"
  by (rule column_value_codec)
     (auto simp: example_column_def ValidateColumnType_def IsFixedWidth_def canonical_def FixedWidthBits_def)

text \<open>
  Claim C14. A type that \<open>HoldsEveryValue\<close> of another really does: every value of the narrower type
  converts, under any conversion, to a value of the wider one with the same integer, the same number of
  a float (sign, zero and infinity included; a NaN stays a NaN), the same bytes or the same bits up to
  trailing zeros, so an exact change of a column's type never loses or refuses a stored value.
\<close>

theorem HoldsEveryValue_converts:
  assumes "ValidateColumnType c = Inr ()" "ValidateColumnType d = Inr ()"
    "HoldsEveryValue (ctype c) (ctype d)" "holds_value (ctype c) v"
  shows "\<exists>f. ConvertValue c d conversion v = Inr f \<and> holds_value (ctype d) f \<and> keeps_value v f \<and>
    ValueFits (ctype d) v = Inr True"
proof -
  have s: "same_family (ctype c) (ctype d)" "Widens (ctype c) (ctype d)"
    using assms(3) by (simp_all add: HoldsEveryValue_def same_family_def)
  have ok: "type_ok (ctype c)" "type_ok (ctype d)" using assms(1,2) ValidateColumnType_ok by blast+
  obtain r where r: "Fit (ctype d) v = Inr r" "\<forall>f. r = Some f \<longrightarrow> holds_value (ctype d) f \<and> keeps_value v f" "r \<noteq> None"
    using Fit_spec [OF ok s(1) assms(4)] s(2) by (elim exE conjE) (rule that, auto)
  have "v \<noteq> NullV" using assms(4) by auto
  then show ?thesis using r by (auto simp: ConvertValue_def ValueFits_def)
qed

theorem HoldsEveryValue_converts_witness:
  "\<exists>f. ConvertValue (example_column kFloat32 32) (example_column kFloat64 64) kExact (FloatV 0x3FC00000) = Inr f \<and>
    holds_value (ctype (example_column kFloat64 64)) f \<and> keeps_value (FloatV 0x3FC00000) f \<and>
    ValueFits (ctype (example_column kFloat64 64)) (FloatV 0x3FC00000) = Inr True"
  by (rule HoldsEveryValue_converts [of "example_column kFloat32 32"])
     (simp_all add: example_column_def ValidateColumnType_def HoldsEveryValue_def Widens_def)

text \<open>
  Claim C13. Converting a value of a column to a new type of its family, by any conversion the
  family takes, gives NULL (only in a nullable column) or a value the new type holds; text cut
  by \<open>kTruncate\<close> in particular stays UTF-8.  Only \<open>kExact\<close> can fail, with a
  \<open>std::logic_error\<close>, and only for a value that does not fit.
\<close>

theorem ConvertValue_in_type:
  assumes "ValidateColumnType c = Inr ()" "ValidateColumnType d = Inr ()" "ValidateDefault d = Inr ()"
    "FamilyOf (kind (ctype c)) = FamilyOf (kind (ctype d))"
    "TakesConversion (FamilyOf (kind (ctype c))) conversion" "holds_value (ctype c) v"
  shows "(\<exists>f. ConvertValue c d conversion v = Inr f \<and> (f = NullV \<and> nullable d \<or> holds_value (ctype d) f)) \<or>
    (conversion = kExact \<and> Fit (ctype d) v = Inr None \<and>
     (\<exists>m. ConvertValue c d conversion v = Inl (LogicError m)))"
proof -
  have ok: "type_ok (ctype c)" "type_ok (ctype d)" using assms(1,2) ValidateColumnType_ok by blast+
  show ?thesis
    using convert_outcome [OF ok assms(3) _ assms(5,6)] assms(4) by (auto simp: same_family_def)
qed

theorem ConvertValue_in_type_witness:
  "(\<exists>f. ConvertValue (example_column kText 9) (example_column kText 2) kTruncate (TextV [0x61, 0xC3, 0xA9]) = Inr f \<and>
      (f = NullV \<and> nullable (example_column kText 2) \<or> holds_value (ctype (example_column kText 2)) f)) \<or>
    (kTruncate = kExact \<and> Fit (ctype (example_column kText 2)) (TextV [0x61, 0xC3, 0xA9]) = Inr None \<and>
     (\<exists>m. ConvertValue (example_column kText 9) (example_column kText 2) kTruncate (TextV [0x61, 0xC3, 0xA9]) = Inl (LogicError m)))"
  by (rule ConvertValue_in_type)
     (simp_all add: example_column_def ValidateColumnType_def ValidateDefault_def kMaxVariableValueBytes_def
       IsUtf8.simps utf8_lead_def utf8_code_ok_def)

end
