(* ===== verification/Schema.thy ===== *)
theory Schema
  imports Column_Conversion
begin

text \<open>
  Table schemas, from \<open>src/schema.cpp\<close>: the rules of a schema, its history of changes, the
  schema at an earlier version by undoing steps, and the operations that make the next version:
  adding, dropping and renaming a column, changing its type, and the narrowing check.
\<close>

section \<open>Data\<close>

datatype ChangeKind = kAddColumn | kDropColumn | kRenameColumn | kChangeType

record SchemaChange =
  ch_kind :: ChangeKind
  position :: u32
  ch_column :: Column
  old_name :: string
  previous :: Column
  conversion :: Conversion

record SchemaStep =
  step_version :: u64
  changes :: "SchemaChange list"

record PendingNarrowing =
  pn_column_id :: u32
  pn_type :: ColumnType

record TableSchema =
  version :: u64
  next_column_id :: u32
  columns :: "Column list"
  history :: "SchemaStep list"
  pending :: "PendingNarrowing option"

text \<open>\<open>Column{}\<close>, for the fields a change leaves alone.\<close>

definition empty_column :: Column where
  "empty_column = \<lparr>col_id = 0, col_name = [], ctype = \<lparr>kind = kBits, csize = 0\<rparr>, nullable = False,
    required = False, has_default = False, default_value = []\<rparr>"

definition SingleBitsColumnSchema :: "u32 \<Rightarrow> TableSchema" where
  "SingleBitsColumnSchema block_bits = \<lparr>version = 1, next_column_id = 2,
    columns = [\<lparr>col_id = 1, col_name = ''bits'', ctype = \<lparr>kind = kBits, csize = block_bits\<rparr>,
      nullable = False, required = False, has_default = False, default_value = []\<rparr>],
    history = [], pending = None\<rparr>"

definition fixed_bits :: "Column list \<Rightarrow> nat" where
  "fixed_bits cols = sum_list (map (\<lambda>c. FixedWidthBits (ctype c)) cols)"

definition FixedBitsPerBlock :: "TableSchema \<Rightarrow> nat" where
  "FixedBitsPerBlock schema = (let total = fixed_bits (columns schema) in if total > 0xFFFFFFFF then 0xFFFFFFFF else total)"

definition UnsupportedSchemaReason :: "TableSchema \<Rightarrow> string" where
  "UnsupportedSchemaReason schema =
    (if FixedBitsPerBlock schema = 0 then ''a table needs at least one fixed-width column'' else '''')"

section \<open>Validation\<close>

definition ValidateColumns_step :: "u32 \<Rightarrow> Column \<Rightarrow> string list \<times> u32 list \<Rightarrow> (string list \<times> u32 list) res" where
  "ValidateColumns_step next_id column seen =
    (let (names, ids) = seen in
     if \<not> IsValidName (col_name column) then Inl (InvalidArgument ''column name'')
     else if col_name column \<in> set names then Inl (InvalidArgument ''column appears twice'')
     else if col_id column = 0 \<or> col_id column \<ge> next_id \<or> col_id column \<in> set ids
     then Inl (InvalidArgument ''column has an invalid id'')
     else rbind (ValidateColumnType column) (\<lambda>_.
       if nullable column \<and> required column then Inl (InvalidArgument ''cannot be both NULL and REQUIRED'')
       else rbind (ValidateDefault column) (\<lambda>_.
         Inr (col_name column # names, col_id column # ids))))"

definition ValidateColumns :: "TableSchema \<Rightarrow> unit res" where
  "ValidateColumns schema =
    (if columns schema = [] then Inl (InvalidArgument ''a table needs at least one column'')
     else if length (columns schema) > kMaxColumnsPerTable then Inl (InvalidArgument ''too many columns'')
     else rbind (rfold (ValidateColumns_step (next_column_id schema)) (columns schema) ([], [])) (\<lambda>_.
       if fixed_bits (columns schema) > kMaxFixedBitsPerBlock
       then Inl (InvalidArgument ''the fixed-width columns of a block take too many bits'') else Inr ()))"

definition history_mismatch :: exn where
  "history_mismatch = InvalidArgument ''schema history does not match its columns''"

definition UndoChange :: "SchemaChange \<Rightarrow> Column list \<times> u32 \<Rightarrow> (Column list \<times> u32) res" where
  "UndoChange change state =
    (let (cols, next_id) = state; at = unat (position change) in
     case ch_kind change of
       kAddColumn \<Rightarrow>
         if at \<ge> length cols \<or> cols ! at \<noteq> ch_column change then Inl history_mismatch
         else Inr (take at cols @ drop (Suc at) cols, col_id (ch_column change))
     | kDropColumn \<Rightarrow>
         if at > length cols then Inl history_mismatch
         else Inr (take at cols @ ch_column change # drop at cols, next_id)
     | kRenameColumn \<Rightarrow>
         if at \<ge> length cols \<or> cols ! at \<noteq> ch_column change then Inl history_mismatch
         else Inr (cols[at := (cols ! at)\<lparr>col_name := old_name change\<rparr>], next_id)
     | kChangeType \<Rightarrow>
         if at \<ge> length cols \<or> cols ! at \<noteq> ch_column change \<or>
            col_id (previous change) \<noteq> col_id (ch_column change) then Inl history_mismatch
         else Inr (cols[at := previous change], next_id))"

definition UndoLastStep :: "TableSchema \<Rightarrow> TableSchema res" where
  "UndoLastStep schema =
    (if history schema = [] then Inl (Undefined ''back of an empty history'')
     else let step = last (history schema) in
       rbind (rfold UndoChange (rev (changes step)) (columns schema, next_column_id schema)) (\<lambda>(cols, next_id).
         Inr (schema\<lparr>version := step_version step - 1, next_column_id := next_id, columns := cols,
           history := butlast (history schema), pending := None\<rparr>)))"

definition ValidatePending :: "TableSchema \<Rightarrow> unit res" where
  "ValidatePending schema =
    (case pending schema of None \<Rightarrow> Inr ()
     | Some p \<Rightarrow> (case find (\<lambda>c. col_id c = pn_column_id p) (columns schema) of
         None \<Rightarrow> Inl (InvalidArgument ''the narrowing in progress names no column of the table'')
       | Some column \<Rightarrow>
         if FamilyOf (kind (pn_type p)) \<noteq> FamilyOf (kind (ctype column)) \<or> pn_type p = ctype column \<or>
            Widens (ctype column) (pn_type p)
         then Inl (InvalidArgument ''cannot be narrowed'')
         else rbind (ValidateColumnType (column\<lparr>ctype := pn_type p, has_default := False, default_value := []\<rparr>)) (\<lambda>_.
           if has_default column then
             rbind (if IsFixedWidth (kind (ctype column)) then DecodeColumnValue column (default_value column)
                    else Inr (DecodeVarValue column (default_value column))) (\<lambda>v.
             rbind (Fit (pn_type p) v) (\<lambda>fitted.
               if fitted = None then Inl (InvalidArgument ''its DEFAULT does not fit'') else Inr ()))
           else Inr ())))"

lemma UndoLastStep_shorter:
  "UndoLastStep s = Inr e \<Longrightarrow> length (history e) < length (history s)"
  by (auto simp: UndoLastStep_def Let_def split: if_splits)

text \<open>Every earlier version is a valid schema too.\<close>

function ValidateHistory :: "TableSchema \<Rightarrow> unit res" where
  "ValidateHistory earlier =
    (if history earlier = [] then Inr ()
     else let step = last (history earlier) in
       if step_version step \<noteq> version earlier \<or> changes step = []
       then Inl (InvalidArgument ''schema history step is malformed'')
       else rbind (UndoLastStep earlier) (\<lambda>e. rbind (ValidateColumns e) (\<lambda>_. ValidateHistory e)))"
  by pat_completeness auto
termination
  by (relation "measure (\<lambda>s. length (history s))") (auto dest: UndoLastStep_shorter)

declare ValidateHistory.simps [simp del]

definition ValidateTableSchema :: "TableSchema \<Rightarrow> unit res" where
  "ValidateTableSchema schema =
    (if version schema = 0 then Inl (InvalidArgument ''schema version must be at least 1'')
     else rbind (ValidateColumns schema) (\<lambda>_.
       if unat (version schema - 1) > kMaxSchemaVersions then Inl (InvalidArgument ''too many schema versions'')
       else if length (history schema) \<noteq> unat (version schema - 1)
       then Inl (InvalidArgument ''schema history has another number of steps'')
       else rbind (ValidateHistory schema) (\<lambda>_. ValidatePending schema)))"

function SchemaAtVersion_loop :: "TableSchema \<Rightarrow> u64 \<Rightarrow> TableSchema res" where
  "SchemaAtVersion_loop earlier v =
    (if version earlier > v then rbind (UndoLastStep earlier) (\<lambda>e. SchemaAtVersion_loop e v) else Inr earlier)"
  by pat_completeness auto
termination
  by (relation "measure (\<lambda>(s, _). length (history s))") (auto dest: UndoLastStep_shorter)

declare SchemaAtVersion_loop.simps [simp del]

definition SchemaAtVersion :: "TableSchema \<Rightarrow> u64 \<Rightarrow> TableSchema res" where
  "SchemaAtVersion schema v =
    (if v = 0 \<or> v > version schema then Inl (InvalidArgument ''the table has no such schema version'')
     else SchemaAtVersion_loop schema v)"

section \<open>The next version\<close>

fun ColumnIndex_from :: "Column list \<Rightarrow> string \<Rightarrow> nat \<Rightarrow> nat res" where
  "ColumnIndex_from [] name i = Inl (InvalidArgument ''the table has no such column'')"
| "ColumnIndex_from (c # cs) name i = (if col_name c = name then Inr i else ColumnIndex_from cs name (Suc i))"

definition ColumnIndex :: "TableSchema \<Rightarrow> string \<Rightarrow> nat res" where
  "ColumnIndex schema name = ColumnIndex_from (columns schema) name 0"

definition NextVersion :: "TableSchema \<Rightarrow> SchemaChange \<Rightarrow> TableSchema \<Rightarrow> TableSchema res" where
  "NextVersion schema change next_schema =
    (if pending schema \<noteq> None then Inl (InvalidArgument ''a narrowing of this table is in progress'')
     else let v = version schema + 1;
              result = next_schema\<lparr>version := v,
                history := history next_schema @ [\<lparr>step_version = v, changes = [change]\<rparr>]\<rparr>
       in rbind (ValidateTableSchema result) (\<lambda>_. Inr result))"

definition AddColumn :: "TableSchema \<Rightarrow> Column \<Rightarrow> bool \<Rightarrow> TableSchema res" where
  "AddColumn schema column allow_required_without_default =
    (if required column \<and> \<not> has_default column \<and> \<not> allow_required_without_default
     then Inl (InvalidArgument ''a REQUIRED column added to a table needs a DEFAULT for the blocks it has'')
     else let column = column\<lparr>col_id := next_column_id schema\<rparr>;
              next_schema = schema\<lparr>next_column_id := next_column_id schema + 1, columns := columns schema @ [column]\<rparr>;
              change = \<lparr>ch_kind = kAddColumn, position = of_nat (length (columns next_schema) - 1),
                ch_column = column, old_name = [], previous = empty_column, conversion = kExact\<rparr>
       in NextVersion schema change next_schema)"

definition DropColumn :: "TableSchema \<Rightarrow> string \<Rightarrow> TableSchema res" where
  "DropColumn schema name =
    rbind (ColumnIndex schema name) (\<lambda>at.
      let dropped = columns schema ! at;
          next_schema = schema\<lparr>columns := take at (columns schema) @ drop (Suc at) (columns schema)\<rparr>
      in if FixedBitsPerBlock next_schema = 0
         then Inl (InvalidArgument ''the last fixed-width column; a table needs one'')
         else NextVersion schema
           \<lparr>ch_kind = kDropColumn, position = of_nat at, ch_column = dropped, old_name = [],
            previous = empty_column, conversion = kExact\<rparr> next_schema)"

definition RenameColumn :: "TableSchema \<Rightarrow> string \<Rightarrow> string \<Rightarrow> TableSchema res" where
  "RenameColumn schema name new_name =
    rbind (ColumnIndex schema name) (\<lambda>at.
      let renamed = (columns schema ! at)\<lparr>col_name := new_name\<rparr>;
          next_schema = schema\<lparr>columns := (columns schema)[at := renamed]\<rparr>
      in NextVersion schema
           \<lparr>ch_kind = kRenameColumn, position = of_nat at, ch_column = renamed, old_name = name,
            previous = empty_column, conversion = kExact\<rparr> next_schema)"

definition ChangedDefault :: "Column \<Rightarrow> Column \<Rightarrow> ColumnType \<Rightarrow> Conversion \<Rightarrow> bytes res" where
  "ChangedDefault before after type conv =
    rbind (if IsFixedWidth (kind (ctype before)) then DecodeColumnValue before (default_value before)
           else Inr (DecodeVarValue before (default_value before))) (\<lambda>v.
    rbind (Fit type v) (\<lambda>fitted.
    rbind (case fitted of Some f \<Rightarrow> Inr f
           | None \<Rightarrow> if conv = kDefault \<or> conv = kExact
                     then Inl (InvalidArgument ''its DEFAULT does not fit; change it first'')
                     else if conv = kClamp then Clamp type v else Truncate type v) (\<lambda>f.
    if IsFixedWidth (kind type) then EncodeColumnValue after f else EncodeVarValue after f)))"

definition ChangeTypeAt :: "TableSchema \<Rightarrow> nat \<Rightarrow> ColumnType \<Rightarrow> Conversion \<Rightarrow> TableSchema res" where
  "ChangeTypeAt schema at type conv =
    (let before = columns schema ! at; after = before\<lparr>ctype := type\<rparr> in
     rbind (ValidateColumnType after) (\<lambda>_.
     rbind (if has_default before
            then rbind (ChangedDefault before after type conv) (\<lambda>d. Inr (after\<lparr>default_value := d\<rparr>))
            else Inr after) (\<lambda>after.
     NextVersion schema
       \<lparr>ch_kind = kChangeType, position = of_nat at, ch_column = after, old_name = [],
        previous = before, conversion = conv\<rparr>
       (schema\<lparr>columns := (columns schema)[at := after]\<rparr>))))"

definition ChangeColumnType :: "TableSchema \<Rightarrow> string \<Rightarrow> ColumnType \<Rightarrow> Conversion \<Rightarrow> TableSchema res" where
  "ChangeColumnType schema name type conv =
    rbind (ColumnIndex schema name) (\<lambda>at.
      let before = columns schema ! at; family = FamilyOf (kind (ctype before)) in
      if FamilyOf (kind type) \<noteq> family then Inl (InvalidArgument ''cannot change to another family'')
      else if ctype before = type then Inl (InvalidArgument ''is already of this type'')
      else if conv = kExact \<and> \<not> Widens (ctype before) type
      then Inl (InvalidArgument ''does not hold every value'')
      else if \<not> TakesConversion family conv then Inl (InvalidArgument ''values cannot be converted so'')
      else ChangeTypeAt schema at type conv)"

section \<open>Narrowing\<close>

definition WithPendingNarrowing :: "TableSchema \<Rightarrow> string \<Rightarrow> ColumnType \<Rightarrow> TableSchema res" where
  "WithPendingNarrowing schema name type =
    (if pending schema \<noteq> None then Inl (InvalidArgument ''another narrowing of this table is in progress'')
     else rbind (ColumnIndex schema name) (\<lambda>at.
       let next_schema = schema\<lparr>pending := Some \<lparr>pn_column_id = col_id (columns schema ! at), pn_type = type\<rparr>\<rparr>
       in rbind (ValidateTableSchema next_schema) (\<lambda>_. Inr next_schema)))"

definition WithoutPendingNarrowing :: "TableSchema \<Rightarrow> TableSchema" where
  "WithoutPendingNarrowing schema = schema\<lparr>pending := None\<rparr>"

definition NarrowColumnType :: "TableSchema \<Rightarrow> string \<Rightarrow> ColumnType \<Rightarrow> TableSchema res" where
  "NarrowColumnType schema name type =
    rbind (ColumnIndex schema name) (\<lambda>at.
      case pending schema of
        None \<Rightarrow> Inl (InvalidArgument ''has no narrowing in progress'')
      | Some p \<Rightarrow>
        if pn_column_id p \<noteq> col_id (columns schema ! at) \<or> pn_type p \<noteq> type
        then Inl (InvalidArgument ''has no narrowing in progress'')
        else ChangeTypeAt (WithoutPendingNarrowing schema) at type kExact)"

end
