(* ===== verification/Schema_Laws.thy ===== *)
theory Schema_Laws
  imports Schema
begin

text \<open>
  The contract of the schema operations: each step makes a valid schema one version newer whose
  last step undoes to the schema it came from, so every earlier version of a table stays
  available; column ids are never reused; a table keeps a fixed-width column.
\<close>

section \<open>What validation gives\<close>

lemma ValidateColumns_stepD:
  "ValidateColumns_step n c st = Inr st' \<Longrightarrow>
    IsValidName (col_name c) \<and> col_id c \<noteq> 0 \<and> col_id c < n \<and> ValidateColumnType c = Inr () \<and>
    ValidateDefault c = Inr () \<and> \<not> (nullable c \<and> required c)"
  by (auto simp: ValidateColumns_step_def Let_def not_le split: prod.splits)

lemma ValidateColumns_steps:
  assumes "rfold (ValidateColumns_step n) cols st0 = Inr seen" "c \<in> set cols"
  shows "IsValidName (col_name c) \<and> col_id c \<noteq> 0 \<and> col_id c < n \<and> ValidateColumnType c = Inr () \<and>
    ValidateDefault c = Inr () \<and> \<not> (nullable c \<and> required c)"
  using assms
proof (induction cols arbitrary: st0)
  case (Cons d cols)
  obtain st where st: "ValidateColumns_step n d st0 = Inr st" "rfold (ValidateColumns_step n) cols st = Inr seen"
    using Cons.prems(1) by auto
  show ?case
    using ValidateColumns_stepD [OF st(1)] Cons.IH [OF st(2)] Cons.prems(2) by (cases "c = d") simp_all
qed simp

lemma ValidateColumns_column:
  assumes "ValidateColumns s = Inr ()" "c \<in> set (columns s)"
  shows "IsValidName (col_name c) \<and> col_id c \<noteq> 0 \<and> col_id c < next_column_id s \<and>
    ValidateColumnType c = Inr () \<and> ValidateDefault c = Inr ()"
  using assms ValidateColumns_steps [of "next_column_id s" "columns s" "([], [])"]
  by (auto simp: ValidateColumns_def)

lemma ValidateColumns_rfold_distinct:
  "rfold (ValidateColumns_step n) cols (names, ids) = Inr seen \<Longrightarrow>
    distinct (map col_id cols) \<and> distinct (map col_name cols) \<and>
    set (map col_id cols) \<inter> set ids = {} \<and> set (map col_name cols) \<inter> set names = {}"
proof (induction cols arbitrary: names ids)
  case (Cons c cols)
  obtain st where st: "ValidateColumns_step n c (names, ids) = Inr st" "rfold (ValidateColumns_step n) cols st = Inr seen"
    using Cons.prems by auto
  have "st = (col_name c # names, col_id c # ids)" "col_name c \<notin> set names" "col_id c \<notin> set ids"
    using st(1) by (auto simp: ValidateColumns_step_def Let_def)
  then show ?case using Cons.IH [of "col_name c # names" "col_id c # ids"] st(2) by auto
qed simp

lemma ValidateColumns_distinct:
  "ValidateColumns s = Inr () \<Longrightarrow> distinct (map col_id (columns s)) \<and> distinct (map col_name (columns s))"
  using ValidateColumns_rfold_distinct [of "next_column_id s" "columns s" "[]" "[]"]
  by (auto simp: ValidateColumns_def)

lemma ValidateColumns_length:
  "ValidateColumns s = Inr () \<Longrightarrow> 0 < length (columns s) \<and> length (columns s) \<le> 1024"
  by (auto simp: ValidateColumns_def kMaxColumnsPerTable_def)

lemma ValidateTableSchemaD:
  assumes "ValidateTableSchema s = Inr ()"
  shows "version s \<noteq> 0" "ValidateColumns s = Inr ()" "unat (version s - 1) \<le> 65535"
    "length (history s) = unat (version s - 1)" "ValidateHistory s = Inr ()" "ValidatePending s = Inr ()"
  using assms by (auto simp: ValidateTableSchema_def kMaxSchemaVersions_def)

lemma valid_version: "ValidateTableSchema s = Inr () \<Longrightarrow> unat (version s) = Suc (length (history s))"
proof -
  assume v: "ValidateTableSchema s = Inr ()"
  have "version s \<noteq> 0" "length (history s) = unat (version s - 1)" using ValidateTableSchemaD [OF v] by auto
  then show ?thesis by (simp add: unat_minus_one unat_gt_0)
qed

lemma ColumnIndex_from_spec:
  "ColumnIndex_from cols name i = Inr at \<Longrightarrow> i \<le> at \<and> at - i < length cols \<and> col_name (cols ! (at - i)) = name"
proof (induction cols name i rule: ColumnIndex_from.induct)
  case (2 c cs name i)
  show ?case
  proof (cases "col_name c = name")
    case False
    then have "Suc i \<le> at \<and> at - Suc i < length cs \<and> col_name (cs ! (at - Suc i)) = name"
      using 2 by simp
    then show ?thesis by (auto simp: nth_Cons' le_Suc_eq Suc_diff_le)
  qed (use 2 in auto)
qed simp

lemma ColumnIndex_spec:
  "ColumnIndex s name = Inr at \<Longrightarrow> at < length (columns s) \<and> col_name (columns s ! at) = name"
  using ColumnIndex_from_spec [of "columns s" name 0 at] by (simp add: ColumnIndex_def)

section \<open>The last step undoes\<close>

text \<open>\<open>newer s s'\<close>: \<open>s'\<close> is valid, one version newer, and undoing its last step gives \<open>s\<close> back.\<close>

definition newer :: "TableSchema \<Rightarrow> TableSchema \<Rightarrow> bool" where
  "newer s s' \<longleftrightarrow> ValidateTableSchema s' = Inr () \<and> version s' = version s + 1 \<and> pending s' = None \<and>
    UndoLastStep s' = Inr (s\<lparr>pending := None\<rparr>)"

lemma NextVersion_newer:
  assumes "NextVersion s change n = Inr s'" "history n = history s" "pending n = pending s"
    and "UndoChange change (columns n, next_column_id n) = Inr (columns s, next_column_id s)"
  shows "newer s s' \<and> pending s = None"
proof -
  have p: "pending s = None" using assms(1) by (auto simp: NextVersion_def Let_def split: if_splits)
  let ?r = "n\<lparr>version := version s + 1, history := history n @ [\<lparr>step_version = version s + 1, changes = [change]\<rparr>]\<rparr>"
  have s': "s' = ?r" "ValidateTableSchema ?r = Inr ()"
    using assms(1) p by (auto simp: NextVersion_def Let_def)
  have "UndoLastStep ?r = Inr (s\<lparr>pending := None\<rparr>)"
    using assms(2,4) by (cases n; cases s) (simp add: UndoLastStep_def Let_def)
  then show ?thesis using s' p assms(3) by (simp add: newer_def)
qed

lemma NextVersion_columns:
  "NextVersion s change n = Inr s' \<Longrightarrow> columns s' = columns n \<and> ValidateTableSchema s' = Inr ()"
  by (auto simp: NextVersion_def Let_def split: if_splits)

lemma unat_position: "n \<le> 1024 \<Longrightarrow> unat (of_nat n :: u32) = n"
  by (rule unat_of_nat_small) simp

lemma valid_length: "ValidateTableSchema s = Inr () \<Longrightarrow> length (columns s) \<le> 1024"
  using ValidateTableSchemaD(2) ValidateColumns_length by blast

lemma AddColumn_newer:
  assumes "AddColumn s c allow = Inr s'"
  shows "newer s s' \<and> pending s = None \<and> columns s' = columns s @ [c\<lparr>col_id := next_column_id s\<rparr>] \<and>
    next_column_id s' = next_column_id s + 1"
proof -
  let ?c = "c\<lparr>col_id := next_column_id s\<rparr>"
  let ?n = "s\<lparr>next_column_id := next_column_id s + 1, columns := columns s @ [?c]\<rparr>"
  let ?ch = "\<lparr>ch_kind = kAddColumn, position = of_nat (length (columns s)), ch_column = ?c, old_name = [],
    previous = empty_column, conversion = kExact\<rparr>"
  have nv: "NextVersion s ?ch ?n = Inr s'" using assms by (auto simp: AddColumn_def Let_def split: if_splits)
  then have "length (columns s) \<le> 1024"
    using NextVersion_columns [OF nv] valid_length [of s'] by simp
  then have "UndoChange ?ch (columns ?n, next_column_id ?n) = Inr (columns s, next_column_id s)"
    by (simp add: UndoChange_def unat_position)
  from NextVersion_newer [OF nv _ _ this] show ?thesis
    using nv by (auto simp: NextVersion_def Let_def split: if_splits)
qed

lemma DropColumn_newer:
  assumes "DropColumn s name = Inr s'" "ValidateTableSchema s = Inr ()"
  shows "newer s s' \<and> pending s = None \<and> next_column_id s' = next_column_id s \<and> FixedBitsPerBlock s' \<noteq> 0"
proof -
  obtain at where at: "ColumnIndex s name = Inr at" using assms(1) by (auto simp: DropColumn_def)
  let ?n = "s\<lparr>columns := take at (columns s) @ drop (Suc at) (columns s)\<rparr>"
  let ?ch = "\<lparr>ch_kind = kDropColumn, position = of_nat at, ch_column = columns s ! at, old_name = [],
    previous = empty_column, conversion = kExact\<rparr>"
  have nv: "NextVersion s ?ch ?n = Inr s'" and f: "FixedBitsPerBlock ?n \<noteq> 0"
    using assms(1) at by (auto simp: DropColumn_def Let_def split: if_splits)
  have l: "at < length (columns s)" "length (columns s) \<le> 1024"
    using ColumnIndex_spec [OF at] valid_length [OF assms(2)] by auto
  then have "UndoChange ?ch (columns ?n, next_column_id ?n) = Inr (columns s, next_column_id s)"
    by (simp add: UndoChange_def unat_position min_absorb2 id_take_nth_drop [symmetric])
  from NextVersion_newer [OF nv _ _ this] show ?thesis
    using nv f by (auto simp: NextVersion_def Let_def FixedBitsPerBlock_def split: if_splits)
qed

lemma RenameColumn_newer:
  assumes "RenameColumn s name new_name = Inr s'" "ValidateTableSchema s = Inr ()"
  shows "newer s s' \<and> pending s = None \<and> next_column_id s' = next_column_id s \<and>
    fixed_bits (columns s') = fixed_bits (columns s)"
proof -
  obtain at where at: "ColumnIndex s name = Inr at" using assms(1) by (auto simp: RenameColumn_def)
  let ?c = "(columns s ! at)\<lparr>col_name := new_name\<rparr>"
  let ?n = "s\<lparr>columns := (columns s)[at := ?c]\<rparr>"
  let ?ch = "\<lparr>ch_kind = kRenameColumn, position = of_nat at, ch_column = ?c, old_name = name,
    previous = empty_column, conversion = kExact\<rparr>"
  have nv: "NextVersion s ?ch ?n = Inr s'" using assms(1) at by (auto simp: RenameColumn_def Let_def)
  have l: "at < length (columns s)" "length (columns s) \<le> 1024" "col_name (columns s ! at) = name"
    using ColumnIndex_spec [OF at] valid_length [OF assms(2)] by auto
  have e: "(columns s ! at)\<lparr>col_name := name\<rparr> = columns s ! at" using l(3) by (cases "columns s ! at") simp
  have "UndoChange ?ch (columns ?n, next_column_id ?n) = Inr ((columns s)[at := (columns s ! at)\<lparr>col_name := name\<rparr>], next_column_id s)"
    using l by (simp add: UndoChange_def unat_position)
  then have "UndoChange ?ch (columns ?n, next_column_id ?n) = Inr (columns s, next_column_id s)"
    by (simp only: e list_update_id)
  moreover have "map (\<lambda>c. FixedWidthBits (ctype c)) ((columns s)[at := ?c]) = map (\<lambda>c. FixedWidthBits (ctype c)) (columns s)"
    by (rule nth_equalityI) (use l in \<open>auto simp: nth_list_update\<close>)
  ultimately show ?thesis
    using NextVersion_newer [OF nv] NextVersion_columns [OF nv] nv
    by (auto simp: NextVersion_def Let_def fixed_bits_def split: if_splits)
qed

lemma ChangeTypeAt_newer:
  assumes "ChangeTypeAt s at type conv = Inr s'" "at < length (columns s)" "ValidateTableSchema s = Inr ()"
  shows "newer s s' \<and> pending s = None \<and> next_column_id s' = next_column_id s \<and>
    (\<exists>after. columns s' = (columns s)[at := after] \<and> ctype after = type)"
proof -
  let ?b = "columns s ! at"
  obtain after where nv: "NextVersion s \<lparr>ch_kind = kChangeType, position = of_nat at, ch_column = after,
      old_name = [], previous = ?b, conversion = conv\<rparr> (s\<lparr>columns := (columns s)[at := after]\<rparr>) = Inr s'"
    and a: "ctype after = type" "col_id after = col_id ?b"
    using assms(1) by (auto simp: ChangeTypeAt_def Let_def split: if_splits)
  have "length (columns s) \<le> 1024" using valid_length [OF assms(3)] .
  then have "UndoChange \<lparr>ch_kind = kChangeType, position = of_nat at, ch_column = after,
      old_name = [], previous = ?b, conversion = conv\<rparr> ((columns s)[at := after], next_column_id s) =
      Inr (columns s, next_column_id s)"
    using assms(2) a(2) by (simp add: UndoChange_def unat_position)
  then show ?thesis
    using NextVersion_newer [OF nv] NextVersion_columns [OF nv] nv a(1)
    by (auto simp: NextVersion_def Let_def split: if_splits)
qed

lemma ChangeColumnType_newer:
  assumes "ChangeColumnType s name type conv = Inr s'" "ValidateTableSchema s = Inr ()"
  shows "newer s s' \<and> pending s = None \<and> next_column_id s' = next_column_id s \<and>
    (\<exists>at after. at < length (columns s) \<and> columns s' = (columns s)[at := after] \<and>
      FamilyOf (kind (ctype after)) = FamilyOf (kind (ctype (columns s ! at))))"
proof -
  obtain at where at: "ColumnIndex s name = Inr at" "ChangeTypeAt s at type conv = Inr s'"
    "FamilyOf (kind type) = FamilyOf (kind (ctype (columns s ! at)))"
    using assms(1) by (auto simp: ChangeColumnType_def Let_def split: if_splits)
  have "at < length (columns s)" using ColumnIndex_spec [OF at(1)] by simp
  then show ?thesis using ChangeTypeAt_newer [OF at(2) _ assms(2)] at(3) by blast
qed

section \<open>Reachable schemas\<close>

text \<open>One step of a table's schema: an operation that succeeded.\<close>

inductive schema_step :: "TableSchema \<Rightarrow> TableSchema \<Rightarrow> bool" where
  add: "AddColumn s c allow = Inr s' \<Longrightarrow> schema_step s s'"
| drop: "DropColumn s name = Inr s' \<Longrightarrow> schema_step s s'"
| rename: "RenameColumn s name new_name = Inr s' \<Longrightarrow> schema_step s s'"
| change: "ChangeColumnType s name type conv = Inr s' \<Longrightarrow> schema_step s s'"
| start: "WithPendingNarrowing s name type = Inr s' \<Longrightarrow> schema_step s s'"
| narrow: "NarrowColumnType s name type = Inr s' \<Longrightarrow> schema_step s s'"
| stop: "schema_step s (WithoutPendingNarrowing s)"

text \<open>The schemas of a table: created at version 1, then any steps.\<close>

inductive table_schema :: "TableSchema \<Rightarrow> bool" where
  create: "ValidateTableSchema s = Inr () \<Longrightarrow> version s = 1 \<Longrightarrow> pending s = None \<Longrightarrow>
    UnsupportedSchemaReason s = [] \<Longrightarrow> table_schema s"
| step: "table_schema s \<Longrightarrow> schema_step s s' \<Longrightarrow> table_schema s'"

lemma ValidateHistory_pending: "ValidateHistory (s\<lparr>pending := p\<rparr>) = ValidateHistory s"
  by (simp add: ValidateHistory.simps [of s] ValidateHistory.simps [of "s\<lparr>pending := p\<rparr>"] UndoLastStep_def Let_def)

lemma ValidateColumns_pending: "ValidateColumns (s\<lparr>pending := p\<rparr>) = ValidateColumns s"
  by (simp add: ValidateColumns_def)

lemma valid_without_pending:
  "ValidateTableSchema s = Inr () \<Longrightarrow> ValidateTableSchema (s\<lparr>pending := None\<rparr>) = Inr ()"
  by (auto simp: ValidateTableSchema_def ValidateHistory_pending ValidateColumns_pending ValidatePending_def)

text \<open>A step keeps the columns or makes the next version.\<close>

lemma schema_step_newer:
  assumes "schema_step s s'" "ValidateTableSchema s = Inr ()"
  shows "(newer s s' \<and> next_column_id s \<le> next_column_id s') \<or> (\<exists>p. s' = s\<lparr>pending := p\<rparr> \<and> ValidateTableSchema s' = Inr ())"
  using assms(1)
proof cases
  case (add c allow)
  have n: "newer s s'" "columns s' = columns s @ [c\<lparr>col_id := next_column_id s\<rparr>]" "next_column_id s' = next_column_id s + 1"
    using AddColumn_newer [OF add] by auto
  then have "next_column_id s < next_column_id s'"
    using ValidateColumns_column [of s' "c\<lparr>col_id := next_column_id s\<rparr>"] ValidateTableSchemaD(2) [of s']
    by (simp add: newer_def)
  then show ?thesis using n(1) by (simp add: order.strict_implies_order)
next
  case (narrow name type)
  obtain at where at: "ColumnIndex s name = Inr at" "ChangeTypeAt (s\<lparr>pending := None\<rparr>) at type kExact = Inr s'"
    using narrow by (auto simp: NarrowColumnType_def WithoutPendingNarrowing_def split: option.splits if_splits)
  have "newer (s\<lparr>pending := None\<rparr>) s' \<and> next_column_id s' = next_column_id s"
    using ChangeTypeAt_newer [OF at(2) _ valid_without_pending [OF assms(2)]] ColumnIndex_spec [OF at(1)] by simp
  then show ?thesis by (simp add: newer_def)
next
  case (start name type)
  then show ?thesis by (auto simp: WithPendingNarrowing_def Let_def split: if_splits)
next
  case stop
  then show ?thesis using valid_without_pending [OF assms(2)] by (auto simp: WithoutPendingNarrowing_def)
qed (use assms(2) DropColumn_newer RenameColumn_newer ChangeColumnType_newer in auto)

section \<open>Earlier versions\<close>

lemma UndoLastStep_pending: "UndoLastStep (s\<lparr>pending := p\<rparr>) = UndoLastStep s"
  by (simp add: UndoLastStep_def Let_def)

lemma SchemaAtVersion_current: "v \<noteq> 0 \<Longrightarrow> v = version s \<Longrightarrow> SchemaAtVersion s v = Inr s"
  by (simp add: SchemaAtVersion_def SchemaAtVersion_loop.simps [of s])

lemma SchemaAtVersion_pending:
  "v < version s \<Longrightarrow> SchemaAtVersion (s\<lparr>pending := p\<rparr>) v = SchemaAtVersion s v"
  by (simp add: SchemaAtVersion_def SchemaAtVersion_loop.simps [of s] UndoLastStep_pending
      SchemaAtVersion_loop.simps [of "s\<lparr>pending := p\<rparr>"])

lemma newer_version:
  assumes "newer s s'" "ValidateTableSchema s = Inr ()"
  shows "version s < version s'"
proof -
  have "length (history s) < length (history s')"
    using assms(1) UndoLastStep_shorter [of s' "s\<lparr>pending := None\<rparr>"] by (simp add: newer_def)
  then show ?thesis
    using assms valid_version [of s] valid_version [of s'] by (simp add: newer_def word_less_nat_alt)
qed

lemma SchemaAtVersion_newer:
  assumes "newer s s'" "ValidateTableSchema s = Inr ()" "v \<noteq> 0" "v \<le> version s"
  shows "SchemaAtVersion s' v = (if v = version s then Inr (s\<lparr>pending := None\<rparr>) else SchemaAtVersion s v)"
proof -
  have lt: "version s < version s'" by (rule newer_version [OF assms(1,2)])
  then have g: "v < version s'" using assms(4) by simp
  have "SchemaAtVersion s' v = SchemaAtVersion_loop s' v"
    using less_imp_not_less [OF g] assms(3) by (simp add: SchemaAtVersion_def)
  also have "\<dots> = SchemaAtVersion_loop (s\<lparr>pending := None\<rparr>) v"
    using g assms(1) by (simp add: SchemaAtVersion_loop.simps [of s'] newer_def)
  also have "\<dots> = SchemaAtVersion (s\<lparr>pending := None\<rparr>) v"
    using assms(3,4) by (auto simp: SchemaAtVersion_def not_le [symmetric])
  also have "\<dots> = (if v = version s then Inr (s\<lparr>pending := None\<rparr>) else SchemaAtVersion s v)"
    using assms(3,4) SchemaAtVersion_current [of v "s\<lparr>pending := None\<rparr>"] SchemaAtVersion_pending [of v s None]
    by (cases "v = version s") simp_all
  finally show ?thesis .
qed

section \<open>A fixed-width column remains\<close>

lemma fixed_bits_pos: "fixed_bits cols \<noteq> 0 \<longleftrightarrow> (\<exists>c \<in> set cols. FixedWidthBits (ctype c) \<noteq> 0)"
  by (induction cols) (auto simp: fixed_bits_def)

lemma FixedBitsPerBlock_pos: "FixedBitsPerBlock s \<noteq> 0 \<longleftrightarrow> fixed_bits (columns s) \<noteq> 0"
  by (simp add: FixedBitsPerBlock_def Let_def)

lemma valid_fixed_width:
  assumes "ValidateColumnType c = Inr ()"
  shows "FixedWidthBits (ctype c) \<noteq> 0 \<longleftrightarrow> FamilyOf (kind (ctype c)) \<notin> {FText, FBytes}"
proof -
  have "type_ok (ctype c)" using assms ValidateColumnType_ok by blast
  then show ?thesis
    by (cases "kind (ctype c)") (auto simp: FixedWidthBits_def IsFixedWidth_def type_ok_def Let_def)
qed

lemma replaced_fixed_bits:
  assumes "ValidateColumns s = Inr ()" "ValidateColumns s' = Inr ()" "at < length (columns s)"
    "columns s' = (columns s)[at := after]" "FamilyOf (kind (ctype after)) = FamilyOf (kind (ctype (columns s ! at)))"
    "fixed_bits (columns s) \<noteq> 0"
  shows "fixed_bits (columns s') \<noteq> 0"
proof -
  obtain i where i: "i < length (columns s)" "FixedWidthBits (ctype (columns s ! i)) \<noteq> 0"
    using assms(6) unfolding fixed_bits_pos Bex_def in_set_conv_nth by blast
  have v: "ValidateColumnType (columns s ! i) = Inr ()" "ValidateColumnType (columns s' ! i) = Inr ()"
    using ValidateColumns_column [OF assms(1), of "columns s ! i"]
      ValidateColumns_column [OF assms(2), of "columns s' ! i"] i(1) assms(4) by simp_all
  have "FamilyOf (kind (ctype (columns s' ! i))) = FamilyOf (kind (ctype (columns s ! i)))"
    using assms(3,4,5) i(1) by (cases "i = at") simp_all
  then have "FixedWidthBits (ctype (columns s' ! i)) \<noteq> 0"
    using i(2) valid_fixed_width [OF v(1)] valid_fixed_width [OF v(2)] by simp
  moreover have "columns s' ! i \<in> set (columns s')" using i(1) assms(4) by simp
  ultimately show ?thesis unfolding fixed_bits_pos by blast
qed

lemma pending_column:
  assumes "ValidateTableSchema s = Inr ()" "pending s = Some p" "at < length (columns s)"
    "col_id (columns s ! at) = pn_column_id p"
  shows "FamilyOf (kind (pn_type p)) = FamilyOf (kind (ctype (columns s ! at)))"
proof -
  have d: "distinct (map col_id (columns s))"
    using ValidateColumns_distinct ValidateTableSchemaD(2) [OF assms(1)] by blast
  obtain c where c: "find (\<lambda>c. col_id c = pn_column_id p) (columns s) = Some c"
    using assms(3,4) nth_mem by (cases "find (\<lambda>c. col_id c = pn_column_id p) (columns s)") (auto simp: find_None_iff)
  then obtain i where i: "i < length (columns s)" "c = columns s ! i" "col_id c = pn_column_id p"
    by (auto simp: find_Some_iff)
  then have "i = at" using nth_eq_iff_index_eq [OF d, of i at] assms(3,4) by simp
  then show ?thesis
    using ValidateTableSchemaD(6) [OF assms(1)] assms(2) c i(2)
    by (auto simp: ValidatePending_def split: if_splits)
qed

lemma schema_step_fixed_bits:
  assumes "schema_step s s'" "ValidateTableSchema s = Inr ()" "fixed_bits (columns s) \<noteq> 0"
  shows "fixed_bits (columns s') \<noteq> 0"
  using assms(1)
proof cases
  case (add c allow)
  then show ?thesis using AddColumn_newer [OF add] assms(3) by (auto simp: fixed_bits_def)
next
  case (drop name)
  then show ?thesis using DropColumn_newer [OF drop assms(2)] FixedBitsPerBlock_pos [of s'] by simp
next
  case (rename name new_name)
  then show ?thesis using RenameColumn_newer [OF rename assms(2)] assms(3) by simp
next
  case (change name type conv)
  obtain at after where a: "newer s s'" "at < length (columns s)" "columns s' = (columns s)[at := after]"
      "FamilyOf (kind (ctype after)) = FamilyOf (kind (ctype (columns s ! at)))"
    using ChangeColumnType_newer [OF change assms(2)] by (elim exE conjE) (rule that)
  then show ?thesis
    using replaced_fixed_bits [of s s' at after] assms(2,3) ValidateTableSchemaD(2) by (simp add: newer_def)
next
  case (narrow name type)
  obtain at p where at: "ColumnIndex s name = Inr at" "ChangeTypeAt (s\<lparr>pending := None\<rparr>) at type kExact = Inr s'"
    "pending s = Some p" "pn_column_id p = col_id (columns s ! at)" "pn_type p = type"
    using narrow by (auto simp: NarrowColumnType_def WithoutPendingNarrowing_def split: option.splits if_splits)
  have l: "at < length (columns s)" using ColumnIndex_spec [OF at(1)] by simp
  have "newer (s\<lparr>pending := None\<rparr>) s' \<and> (\<exists>after. columns s' = (columns s)[at := after] \<and> ctype after = type)"
    using ChangeTypeAt_newer [OF at(2) _ valid_without_pending [OF assms(2)]] l by simp
  then obtain after where a: "ValidateTableSchema s' = Inr ()" "columns s' = (columns s)[at := after]" "ctype after = type"
    by (auto simp: newer_def)
  have "FamilyOf (kind type) = FamilyOf (kind (ctype (columns s ! at)))"
    using pending_column [OF assms(2) at(3)] at(4,5) l by simp
  then show ?thesis
    using replaced_fixed_bits [OF _ _ l a(2)] a assms(2,3) ValidateTableSchemaD(2) by simp
next
  case (start name type)
  then show ?thesis using assms(3) by (auto simp: WithPendingNarrowing_def Let_def split: if_splits)
next
  case stop
  then show ?thesis using assms(3) by (simp add: WithoutPendingNarrowing_def)
qed

section \<open>The invariant of a table's schema\<close>

definition schema_inv :: "TableSchema \<Rightarrow> bool" where
  "schema_inv s \<longleftrightarrow> ValidateTableSchema s = Inr () \<and> fixed_bits (columns s) \<noteq> 0 \<and>
    (\<forall>v. v \<noteq> 0 \<and> v \<le> version s \<longrightarrow> (\<exists>e. SchemaAtVersion s v = Inr e \<and> version e = v \<and>
      ValidateTableSchema e = Inr () \<and> next_column_id e \<le> next_column_id s))"

lemma schema_inv_current:
  "ValidateTableSchema s = Inr () \<Longrightarrow> version s \<noteq> 0 \<and> SchemaAtVersion s (version s) = Inr s"
  using ValidateTableSchemaD(1) SchemaAtVersion_current by blast

lemma newer_le:
  assumes "newer s s'" "ValidateTableSchema s = Inr ()" "v \<le> version s'" "v \<noteq> version s'"
  shows "v \<le> version s"
proof -
  have "history s' \<noteq> []" "butlast (history s') = history s"
    using assms(1) by (auto simp: newer_def UndoLastStep_def Let_def split: if_splits dest!: arg_cong [of _ _ history])
  then have "length (history s') = Suc (length (history s))"
    by (metis append_butlast_last_id length_append_singleton)
  then have "unat (version s') = Suc (unat (version s))"
    using assms(1,2) valid_version [of s] valid_version [of s'] by (simp add: newer_def)
  moreover have "unat v \<noteq> unat (version s')" using assms(4) by (simp add: word_unat_eq_iff)
  ultimately show ?thesis using assms(3) by (simp add: word_le_nat_alt)
qed

lemma schema_inv_step:
  assumes "schema_inv s" "schema_step s s'"
  shows "schema_inv s'"
proof -
  have v: "ValidateTableSchema s = Inr ()" "fixed_bits (columns s) \<noteq> 0"
    and e: "\<And>u. u \<noteq> 0 \<Longrightarrow> u \<le> version s \<Longrightarrow> \<exists>e. SchemaAtVersion s u = Inr e \<and> version e = u \<and>
      ValidateTableSchema e = Inr () \<and> next_column_id e \<le> next_column_id s"
    using assms(1) by (auto simp: schema_inv_def)
  have f: "fixed_bits (columns s') \<noteq> 0" by (rule schema_step_fixed_bits [OF assms(2) v])
  from schema_step_newer [OF assms(2) v(1)] show ?thesis
  proof (elim disjE exE conjE)
    assume n: "newer s s'" "next_column_id s \<le> next_column_id s'"
    have v': "ValidateTableSchema s' = Inr ()" using n(1) by (simp add: newer_def)
    have "\<exists>e. SchemaAtVersion s' u = Inr e \<and> version e = u \<and>
        ValidateTableSchema e = Inr () \<and> next_column_id e \<le> next_column_id s'"
      if u: "u \<noteq> 0" "u \<le> version s'" for u
    proof (cases "u = version s'")
      case True
      then show ?thesis using schema_inv_current [OF v'] v' by simp
    next
      case False
      then have le: "u \<le> version s" using newer_le [OF n(1) v(1) u(2)] by simp
      show ?thesis
        using e [OF u(1) le] SchemaAtVersion_newer [OF n(1) v(1) u(1) le] valid_without_pending [OF v(1)] n(2)
        by (cases "u = version s") (auto intro: order_trans)
    qed
    then show ?thesis using v' f by (simp add: schema_inv_def)
  next
    fix p assume p: "s' = s\<lparr>pending := p\<rparr>" and v': "ValidateTableSchema s' = Inr ()"
    have "\<exists>e. SchemaAtVersion s' u = Inr e \<and> version e = u \<and>
        ValidateTableSchema e = Inr () \<and> next_column_id e \<le> next_column_id s'"
      if u: "u \<noteq> 0" "u \<le> version s'" for u
    proof (cases "u = version s'")
      case True
      then show ?thesis using schema_inv_current [OF v'] v' by simp
    next
      case False
      then have "u < version s" using u p by simp
      then show ?thesis using e [of u] u SchemaAtVersion_pending [of u s p] p by auto
    qed
    then show ?thesis using v' f by (simp add: schema_inv_def)
  qed
qed

lemma table_schema_inv: "table_schema s \<Longrightarrow> schema_inv s"
proof (induction rule: table_schema.induct)
  case (create s)
  have "\<exists>e. SchemaAtVersion s v = Inr e \<and> version e = v \<and> ValidateTableSchema e = Inr () \<and>
      next_column_id e \<le> next_column_id s" if "v \<noteq> 0" "v \<le> version s" for v
  proof -
    have "unat v \<le> 1" using that(2) create(2) by (simp add: word_le_nat_alt)
    moreover have "0 < unat v" using that(1) by (simp add: unat_gt_0)
    ultimately have "v = version s" using create(2) by (simp add: word_unat_eq_iff)
    then show ?thesis using schema_inv_current [OF create(1)] create(1) by simp
  qed
  then show ?case
    using create FixedBitsPerBlock_pos [of s]
    by (simp add: schema_inv_def UnsupportedSchemaReason_def split: if_splits)
qed (rule schema_inv_step)

section \<open>Properties\<close>

definition example_schema :: TableSchema where
  "example_schema = SingleBitsColumnSchema 8"

definition example_added :: Column where
  "example_added = \<lparr>col_id = 0, col_name = ''lit'', ctype = \<lparr>kind = kBits, csize = 4\<rparr>, nullable = True,
     required = False, has_default = False, default_value = []\<rparr>"

definition extended_schema :: TableSchema where
  "extended_schema = (case AddColumn example_schema example_added False of Inr s \<Rightarrow> s | Inl _ \<Rightarrow> example_schema)"

lemmas schema_eval = SingleBitsColumnSchema_def ValidateTableSchema_def ValidateColumns_def
  ValidateColumns_step_def ValidateColumnType_def ValidateDefault_def IsValidName_def lower_or_underscore_def
  fixed_bits_def FixedWidthBits_def IsFixedWidth_def ValidatePending_def UnsupportedSchemaReason_def
  FixedBitsPerBlock_def kMaxColumnsPerTable_def kMaxFixedBitsPerBlock_def kMaxSchemaVersions_def
  kMaxColumnNameBytes_def UndoLastStep_def UndoChange_def Let_def word_le_nat_alt

lemma example_schema_valid: "ValidateTableSchema example_schema = Inr ()"
  by (simp add: example_schema_def schema_eval ValidateHistory.simps)

lemma example_schema_table: "table_schema example_schema"
  by (rule table_schema.create [OF example_schema_valid]) (simp_all add: example_schema_def schema_eval)

lemma extended_schema_add: "AddColumn example_schema example_added False = Inr extended_schema"
  by (simp add: extended_schema_def example_added_def AddColumn_def NextVersion_def
      example_schema_def schema_eval ValidateHistory.simps)

lemma extended_schema_table: "table_schema extended_schema"
  by (rule table_schema.step [OF example_schema_table schema_step.add [OF extended_schema_add]])

lemma example_schema_values: "version example_schema = 1" "next_column_id example_schema = 2"
  by (simp_all add: example_schema_def SingleBitsColumnSchema_def)

lemma extended_schema_version: "version extended_schema = 2"
  using AddColumn_newer [OF extended_schema_add] by (simp add: newer_def example_schema_values)

lemma table_schema_earlier:
  assumes "table_schema s" "v \<noteq> 0" "v \<le> version s"
  obtains e where "SchemaAtVersion s v = Inr e" "version e = v" "ValidateTableSchema e = Inr ()"
    "next_column_id e \<le> next_column_id s"
  using table_schema_inv [OF assms(1)] assms(2,3) unfolding schema_inv_def by blast

lemma table_schema_valid: "table_schema s \<Longrightarrow> ValidateTableSchema s = Inr ()"
  using table_schema_inv by (auto simp: schema_inv_def)

text \<open>
  Claim C11. Whatever operations a table's schema went through, it is valid and every version from
  1 to the current one can be recovered by undoing steps, as a valid schema of that version: the
  undo never meets a history that does not match the columns.
\<close>

theorem table_schema_every_version:
  assumes "table_schema s" "v \<noteq> 0" "v \<le> version s"
  shows "ValidateTableSchema s = Inr () \<and>
    (\<exists>e. SchemaAtVersion s v = Inr e \<and> version e = v \<and> ValidateTableSchema e = Inr ())"
  using table_schema_valid [OF assms(1)] table_schema_earlier [OF assms] by blast

theorem table_schema_every_version_witness:
  "ValidateTableSchema extended_schema = Inr () \<and>
    (\<exists>e. SchemaAtVersion extended_schema 1 = Inr e \<and> version e = 1 \<and> ValidateTableSchema e = Inr ())"
  by (rule table_schema_every_version [OF extended_schema_table])
     (simp_all add: extended_schema_version word_le_nat_alt)

text \<open>
  Claim C15. No operation changes the past: after any successful step each version the table
  already had is recovered exactly as before (only a narrowing check in progress, which is not
  part of a version, may differ).
\<close>

theorem schema_step_keeps_versions:
  assumes "table_schema s" "schema_step s s'" "v \<noteq> 0" "v \<le> version s"
  shows "\<exists>e e'. SchemaAtVersion s v = Inr e \<and> SchemaAtVersion s' v = Inr e' \<and>
    WithoutPendingNarrowing e' = WithoutPendingNarrowing e"
proof -
  obtain e where e: "SchemaAtVersion s v = Inr e" by (rule table_schema_earlier [OF assms(1,3,4)])
  have v: "ValidateTableSchema s = Inr ()" by (rule table_schema_valid [OF assms(1)])
  have cur: "v = version s \<Longrightarrow> e = s" using e SchemaAtVersion_current [OF assms(3), of s] by auto
  from schema_step_newer [OF assms(2) v] show ?thesis
  proof (elim disjE exE conjE)
    assume "newer s s'"
    from SchemaAtVersion_newer [OF this v assms(3,4)] show ?thesis
      using e cur by (cases "v = version s") (simp_all add: WithoutPendingNarrowing_def)
  next
    fix p assume p: "s' = s\<lparr>pending := p\<rparr>"
    show ?thesis
    proof (cases "v = version s")
      case True
      then show ?thesis
        using e cur p SchemaAtVersion_current [OF assms(3), of s'] by (simp add: WithoutPendingNarrowing_def)
    next
      case False
      then have "v < version s" using assms(4) by simp
      from SchemaAtVersion_pending [OF this] show ?thesis using e p by simp
    qed
  qed
qed

theorem schema_step_keeps_versions_witness:
  "\<exists>e e'. SchemaAtVersion example_schema 1 = Inr e \<and> SchemaAtVersion extended_schema 1 = Inr e' \<and>
    WithoutPendingNarrowing e' = WithoutPendingNarrowing e"
  by (rule schema_step_keeps_versions [OF example_schema_table schema_step.add [OF extended_schema_add]])
     (simp_all add: example_schema_values)

text \<open>
  Claim C16. A column id is never reused: the id of an added column is larger than that of every
  column of every version the table has had, dropped ones included, so the stored values of a
  dropped column can never be read as those of a new one.
\<close>

theorem AddColumn_id_fresh:
  assumes "table_schema s" "AddColumn s c allow = Inr s'" "v \<noteq> 0" "v \<le> version s"
    "SchemaAtVersion s v = Inr e" "d \<in> set (columns e)"
  shows "columns s' = columns s @ [c\<lparr>col_id := next_column_id s\<rparr>] \<and> col_id d < next_column_id s"
proof -
  have "ValidateTableSchema e = Inr ()" "next_column_id e \<le> next_column_id s"
    using table_schema_earlier [OF assms(1,3,4)] assms(5) by auto
  then have "col_id d < next_column_id s"
    using ValidateColumns_column [of e d] ValidateTableSchemaD(2) assms(6) by (auto intro: order.strict_trans2)
  then show ?thesis using AddColumn_newer [OF assms(2)] by simp
qed

theorem AddColumn_id_fresh_witness:
  "columns extended_schema = columns example_schema @ [example_added\<lparr>col_id := next_column_id example_schema\<rparr>] \<and>
    col_id (hd (columns example_schema)) < next_column_id example_schema"
  by (rule AddColumn_id_fresh [OF example_schema_table extended_schema_add, of 1 example_schema])
     (simp_all add: example_schema_values SchemaAtVersion_current, simp add: example_schema_def SingleBitsColumnSchema_def)

text \<open>
  Claim C17. The sizes of a reachable schema: at least one bit and at most
  \<open>kMaxFixedBitsPerBlock\<close> bits of fixed-width columns per block (so the saturation in
  \<open>FixedBitsPerBlock\<close> never happens), between 1 and \<open>kMaxColumnsPerTable\<close> columns with
  distinct ids and names, at most \<open>kMaxSchemaVersions\<close> steps of history.
\<close>

theorem table_schema_bounds:
  assumes "table_schema s"
  shows "0 < FixedBitsPerBlock s \<and> FixedBitsPerBlock s = fixed_bits (columns s) \<and>
    FixedBitsPerBlock s \<le> kMaxFixedBitsPerBlock \<and>
    0 < length (columns s) \<and> length (columns s) \<le> kMaxColumnsPerTable \<and>
    distinct (map col_id (columns s)) \<and> distinct (map col_name (columns s)) \<and>
    length (history s) \<le> kMaxSchemaVersions \<and> unat (version s) = Suc (length (history s))"
proof -
  have i: "ValidateTableSchema s = Inr ()" "fixed_bits (columns s) \<noteq> 0"
    using table_schema_inv [OF assms] by (auto simp: schema_inv_def)
  note d = ValidateTableSchemaD [OF i(1)]
  have "fixed_bits (columns s) \<le> kMaxFixedBitsPerBlock"
    using d(2) by (auto simp: ValidateColumns_def not_less split: if_splits)
  then have "FixedBitsPerBlock s = fixed_bits (columns s) \<and> FixedBitsPerBlock s \<le> kMaxFixedBitsPerBlock"
    by (auto simp: FixedBitsPerBlock_def Let_def kMaxFixedBitsPerBlock_def)
  then show ?thesis
    using i(2) d(3,4) ValidateColumns_distinct [OF d(2)] ValidateColumns_length [OF d(2)] valid_version [OF i(1)]
    by (simp add: kMaxColumnsPerTable_def kMaxSchemaVersions_def)
qed

theorem table_schema_bounds_witness:
  "0 < FixedBitsPerBlock extended_schema \<and> FixedBitsPerBlock extended_schema = fixed_bits (columns extended_schema) \<and>
    FixedBitsPerBlock extended_schema \<le> kMaxFixedBitsPerBlock \<and>
    0 < length (columns extended_schema) \<and> length (columns extended_schema) \<le> kMaxColumnsPerTable \<and>
    distinct (map col_id (columns extended_schema)) \<and> distinct (map col_name (columns extended_schema)) \<and>
    length (history extended_schema) \<le> kMaxSchemaVersions \<and>
    unat (version extended_schema) = Suc (length (history extended_schema))"
  by (rule table_schema_bounds [OF extended_schema_table])

end
