(* ===== verification/Byte_Reader.thy ===== *)
theory Byte_Reader
  imports Le_Codec
begin

text \<open>
  Sequential reading of a byte record: the state of a reader is the bytes it has not read yet, so
  a read returns an exception or a value and the rest. \<open>read_many\<close> is the counted loop that every
  record of the file formats has. The locale \<open>record_codec\<close> is the contract between the writer
  and the reader of a record: what is written is read back whatever follows it, and only what the
  writer writes is read.
\<close>

type_synonym 'a reader = "bytes \<Rightarrow> ('a \<times> bytes) res"

definition byte_of_char :: "char \<Rightarrow> byte" where
  "byte_of_char c = of_nat (of_char c)"

definition char_of_byte :: "byte \<Rightarrow> char" where
  "char_of_byte b = char_of (unat b)"

definition bytes_of_string :: "string \<Rightarrow> bytes" where
  "bytes_of_string s = map byte_of_char s"

definition string_of_bytes :: "bytes \<Rightarrow> string" where
  "string_of_bytes bs = map char_of_byte bs"

lemma char_of_byte_of_char [simp]: "char_of_byte (byte_of_char c) = c"
proof -
  have "of_char c < (256 :: nat)" by simp
  then show ?thesis by (simp add: char_of_byte_def byte_of_char_def unat_of_nat_small)
qed

lemma byte_of_char_of_byte [simp]: "byte_of_char (char_of_byte b) = b"
proof -
  have "unat b < 256" using unsigned_less [of b] by simp
  then have "of_char (char_of (unat b) :: char) = unat b" by (simp only: of_char_of mod_less)
  then show ?thesis by (simp add: char_of_byte_def byte_of_char_def)
qed

lemma string_of_bytes_of_string [simp]: "string_of_bytes (bytes_of_string s) = s"
  by (simp add: string_of_bytes_def bytes_of_string_def comp_def)

lemma bytes_of_string_of_bytes [simp]: "bytes_of_string (string_of_bytes bs) = bs"
  by (simp add: string_of_bytes_def bytes_of_string_def comp_def)

lemma length_bytes_of_string [simp]: "length (bytes_of_string s) = length s"
  by (simp add: bytes_of_string_def)

lemma length_string_of_bytes [simp]: "length (string_of_bytes s) = length s"
  by (simp add: string_of_bytes_def)

lemma bytes_of_string_eq_iff [simp]: "bytes_of_string s = bytes_of_string t \<longleftrightarrow> s = t"
  by (metis string_of_bytes_of_string)

fun read_many :: "nat \<Rightarrow> 'a reader \<Rightarrow> 'a list reader" where
  "read_many 0 rd bs = Inr ([], bs)"
| "read_many (Suc n) rd bs =
    rbind (rd bs) (\<lambda>(x, bs). rbind (read_many n rd bs) (\<lambda>(xs, bs). Inr (x # xs, bs)))"

lemma read_many_length: "read_many n rd bs = Inr (xs, rest) \<Longrightarrow> length xs = n"
proof (induction n arbitrary: bs xs)
  case (Suc n)
  from Suc.prems obtain x bs1 ys where "read_many n rd bs1 = Inr (ys, rest)" "xs = x # ys" by (auto split: prod.splits)
  then show ?case using Suc.IH [of bs1 ys] by simp
qed simp

text \<open>The value of a little-endian field as the loops of the readers build it.\<close>

lemma fold_le_word:
  "n \<le> length bs \<Longrightarrow>
    fold (\<lambda>i v. v OR push_bit (8 * i) (ucast (bs ! i))) [0..<n] 0 = (le_word (take n bs) :: 'a::len word)"
proof (induction n)
  case (Suc n)
  then have "n \<le> length bs" by simp
  from Suc.IH [OF this] show ?case
    using Suc.prems le_word_take_Suc [of 0 n bs, where 'a = 'a]
    by (simp only: upt_Suc_append le0 fold_append comp_apply fold.simps id_apply drop_0 add_0 Suc_le_eq)
qed simp

lemma le_word_byte: "le_word [b] = (ucast b :: 'a::len word)"
  by simp

lemma ucast_up_down:
  assumes "LENGTH('a) \<le> LENGTH('b)"
  shows "ucast (ucast (w :: 'a::len word) :: 'b::len word) = w"
  by (rule bit_word_eqI) (use assms in \<open>auto simp: bit_simps\<close>)

lemma unat_ucast_up:
  assumes "LENGTH('a) \<le> LENGTH('b)"
  shows "unat (ucast (w :: 'a::len word) :: 'b::len word) = unat w"
proof -
  have "unat w < 2 ^ LENGTH('b)"
    by (rule less_le_trans [OF unsigned_less power_increasing [OF assms]]) simp
  then show ?thesis by (simp add: unsigned_ucast_eq take_bit_nat_eq_self)
qed

lemma unat_ucast_u64 [simp]:
  "unat (ucast (b :: byte) :: u64) = unat b" "unat (ucast (h :: u16) :: u64) = unat h" "unat (ucast (w :: u32) :: u64) = unat w"
  by (rule unat_ucast_up; simp)+

lemma ucast_byte_u64 [simp]: "ucast (ucast (b :: byte) :: u64) = b"
  by (rule ucast_up_down) simp

lemma ucast_u16_u64 [simp]: "ucast (ucast (b :: u16) :: u64) = b"
  by (rule ucast_up_down) simp

lemma ucast_u32_u64 [simp]: "ucast (ucast (b :: u32) :: u64) = b"
  by (rule ucast_up_down) simp

lemma le_word_ucast:
  assumes "LENGTH('b) \<le> LENGTH('a)"
  shows "ucast (le_word bs :: 'a::len word) = (le_word bs :: 'b::len word)"
  by (rule bit_word_eqI) (use assms in \<open>auto simp: bit_unsigned_iff bit_le_word\<close>)

section \<open>Interface: the writer and the reader of a record\<close>

locale record_codec =
  fixes enc :: "'a \<Rightarrow> bytes" and dec :: "'a reader" and ok :: "'a \<Rightarrow> bool"
  assumes dec_enc: "ok x \<Longrightarrow> dec (enc x @ rest) = Inr (x, rest)"
    and enc_dec: "dec bs = Inr (x, rest) \<Longrightarrow> ok x \<and> bs = enc x @ rest"
begin

lemma many_enc:
  "\<forall>x \<in> set xs. ok x \<Longrightarrow> read_many (length xs) dec (concat (map enc xs) @ rest) = Inr (xs, rest)"
  by (induction xs) (simp_all add: dec_enc)

lemma many_dec:
  "read_many n dec bs = Inr (xs, rest) \<Longrightarrow>
    length xs = n \<and> (\<forall>x \<in> set xs. ok x) \<and> bs = concat (map enc xs) @ rest"
proof (induction n arbitrary: bs xs)
  case (Suc n)
  from Suc.prems obtain x bs1 ys where r: "dec bs = Inr (x, bs1)" "read_many n dec bs1 = Inr (ys, rest)" "xs = x # ys"
    by (auto split: prod.splits)
  show ?case using enc_dec [OF r(1)] Suc.IH [OF r(2)] r(3) by simp
qed simp

text \<open>A record is determined by its bytes, and no record is a proper prefix of another.\<close>

lemma enc_prefix_free:
  assumes "ok x" "ok y" "enc x @ r = enc y @ r'"
  shows "x = y \<and> r = r'"
proof -
  have "Inr (x, r) = (Inr (y, r') :: ('a \<times> bytes) res)"
    using dec_enc [OF assms(1), of r] dec_enc [OF assms(2), of r'] unfolding assms(3) by (rule box_equals [OF refl])
  then show ?thesis by simp
qed

end

end
