(* ===== verification/Schema_Codec.thy ===== *)
theory Schema_Codec
  imports Schema_Laws Byte_Reader
begin

text \<open>
  The byte record of a table schema, from \<open>src/schema.cpp\<close>: the bounds-checked \<open>Reader\<close>,
  \<open>EncodeColumn\<close> and \<open>DecodeColumn\<close>, \<open>EncodeTableSchema\<close> and \<open>DecodeTableSchema\<close>. The
  columns and the changes of a schema are record codecs; the record of every reachable schema
  reads back to that schema, and whatever is read writes back to the same bytes.
\<close>

section \<open>The reader\<close>

definition schema_truncated :: exn where
  "schema_truncated = RuntimeError ''schema area is truncated''"

definition Reader_Le :: "nat \<Rightarrow> u64 reader" where
  "Reader_Le n bs =
    (if length bs < n then Inl schema_truncated
     else Inr (fold (\<lambda>i v. v OR push_bit (8 * i) (ucast (bs ! i))) [0..<n] 0, drop n bs))"

definition Reader_Bytes :: "nat \<Rightarrow> bytes reader" where
  "Reader_Bytes count bs = (if length bs < count then Inl schema_truncated else Inr (take count bs, drop count bs))"

section \<open>Codes of the enumerations\<close>

fun kind_code :: "ColumnKind \<Rightarrow> byte" where
  "kind_code kUnsigned = 1" | "kind_code kSigned = 2" | "kind_code kBool = 3" | "kind_code kFloat32 = 4"
| "kind_code kFloat64 = 5" | "kind_code kBits = 6" | "kind_code kText = 7" | "kind_code kBytes = 8"

definition IsKnownKind :: "byte \<Rightarrow> bool" where
  "IsKnownKind k \<longleftrightarrow> k \<ge> kind_code kUnsigned \<and> k \<le> kind_code kBytes"

definition kind_of_code :: "byte \<Rightarrow> ColumnKind" where
  "kind_of_code k =
    (if k = 1 then kUnsigned else if k = 2 then kSigned else if k = 3 then kBool else if k = 4 then kFloat32
     else if k = 5 then kFloat64 else if k = 6 then kBits else if k = 7 then kText else kBytes)"

fun change_code :: "ChangeKind \<Rightarrow> byte" where
  "change_code kAddColumn = 1" | "change_code kDropColumn = 2" | "change_code kRenameColumn = 3"
| "change_code kChangeType = 4"

definition IsKnownChange :: "byte \<Rightarrow> bool" where
  "IsKnownChange k \<longleftrightarrow> k \<ge> change_code kAddColumn \<and> k \<le> change_code kChangeType"

definition change_of_code :: "byte \<Rightarrow> ChangeKind" where
  "change_of_code k =
    (if k = 1 then kAddColumn else if k = 2 then kDropColumn else if k = 3 then kRenameColumn else kChangeType)"

fun conversion_code :: "Conversion \<Rightarrow> byte" where
  "conversion_code kExact = 0" | "conversion_code kClamp = 1" | "conversion_code kDefault = 2"
| "conversion_code kTruncate = 3"

definition conversion_of_code :: "byte \<Rightarrow> Conversion" where
  "conversion_of_code k = (if k = 0 then kExact else if k = 1 then kClamp else if k = 2 then kDefault else kTruncate)"

section \<open>Columns\<close>

definition kFlagNullable :: byte where "kFlagNullable = 1"
definition kFlagRequired :: byte where "kFlagRequired = 2"
definition kFlagHasDefault :: byte where "kFlagHasDefault = 4"
definition kKnownFlags :: byte where "kKnownFlags = kFlagNullable OR kFlagRequired OR kFlagHasDefault"

definition EncodeColumn :: "Column \<Rightarrow> bytes" where
  "EncodeColumn column =
    WriteLe32 (col_id column) @ [kind_code (kind (ctype column))] @ WriteLe32 (csize (ctype column)) @
    [(if nullable column then kFlagNullable else 0) OR (if required column then kFlagRequired else 0) OR
     (if has_default column then kFlagHasDefault else 0)] @
    [of_nat (length (col_name column))] @ bytes_of_string (col_name column) @
    (if has_default column
     then WriteLe32 (of_nat (length (default_value column))) @ default_value column else [])"

definition DecodeColumn :: "Column reader" where
  "DecodeColumn bs =
    rbind (Reader_Le 4 bs) (\<lambda>(id, bs).
    rbind (Reader_Le 1 bs) (\<lambda>(k, bs).
    if \<not> IsKnownKind (ucast k) then Inl (RuntimeError ''unknown column type'') else
    rbind (Reader_Le 4 bs) (\<lambda>(sz, bs).
    rbind (Reader_Le 1 bs) (\<lambda>(fl, bs).
    let flags = ucast fl :: byte in
    if flags AND NOT kKnownFlags \<noteq> 0 then Inl (RuntimeError ''unknown column flags'') else
    rbind (Reader_Le 1 bs) (\<lambda>(name_length, bs).
    rbind (Reader_Bytes (unat name_length) bs) (\<lambda>(name, bs).
    let column = \<lparr>col_id = ucast id, col_name = string_of_bytes name,
      ctype = \<lparr>kind = kind_of_code (ucast k), csize = ucast sz\<rparr>,
      nullable = flags AND kFlagNullable \<noteq> 0, required = flags AND kFlagRequired \<noteq> 0,
      has_default = flags AND kFlagHasDefault \<noteq> 0, default_value = []\<rparr> in
    if has_default column then
      rbind (Reader_Le 4 bs) (\<lambda>(len, bs).
      if unat len > kMaxVariableValueBytes then Inl (RuntimeError ''column default is too long'') else
      rbind (Reader_Bytes (unat len) bs) (\<lambda>(d, bs). Inr (column\<lparr>default_value := d\<rparr>, bs)))
    else Inr (column, bs)))))))"

section \<open>Changes, steps and the schema\<close>

definition EncodeChange :: "SchemaChange \<Rightarrow> bytes" where
  "EncodeChange change =
    [change_code (ch_kind change)] @ WriteLe32 (position change) @ EncodeColumn (ch_column change) @
    (if ch_kind change = kRenameColumn
     then [of_nat (length (old_name change))] @ bytes_of_string (old_name change) else []) @
    (if ch_kind change = kChangeType
     then EncodeColumn (previous change) @ [conversion_code (conversion change)] else [])"

definition EncodeStep :: "SchemaStep \<Rightarrow> bytes" where
  "EncodeStep step = WriteLe32 (of_nat (length (changes step))) @ concat (map EncodeChange (changes step))"

definition EncodePending :: "PendingNarrowing \<Rightarrow> bytes" where
  "EncodePending p = [1] @ WriteLe32 (pn_column_id p) @ [kind_code (kind (pn_type p))] @ WriteLe32 (csize (pn_type p))"

definition EncodeTableSchema :: "TableSchema \<Rightarrow> bytes res" where
  "EncodeTableSchema schema =
    rbind (ValidateTableSchema schema) (\<lambda>_.
    Inr (WriteLe64 (version schema) @ WriteLe32 (next_column_id schema) @
      WriteLe32 (of_nat (length (columns schema))) @ concat (map EncodeColumn (columns schema)) @
      concat (map EncodeStep (history schema)) @
      (case pending schema of None \<Rightarrow> [] | Some p \<Rightarrow> EncodePending p)))"

definition DecodeChange :: "SchemaChange reader" where
  "DecodeChange bs =
    rbind (Reader_Le 1 bs) (\<lambda>(k, bs).
    if \<not> IsKnownChange (ucast k) then Inl (RuntimeError ''unknown schema change'') else
    let kind = change_of_code (ucast k) in
    rbind (Reader_Le 4 bs) (\<lambda>(pos, bs).
    rbind (DecodeColumn bs) (\<lambda>(column, bs).
    rbind (if kind = kRenameColumn then
             rbind (Reader_Le 1 bs) (\<lambda>(n, bs). rbind (Reader_Bytes (unat n) bs) (\<lambda>(name, bs). Inr (string_of_bytes name, bs)))
           else Inr ([], bs)) (\<lambda>(old, bs).
    rbind (if kind = kChangeType then
             rbind (DecodeColumn bs) (\<lambda>(prev, bs).
             rbind (Reader_Le 1 bs) (\<lambda>(c, bs).
             if (ucast c :: byte) > conversion_code kTruncate then Inl (RuntimeError ''unknown type conversion'')
             else Inr ((prev, conversion_of_code (ucast c)), bs)))
           else Inr ((empty_column, kExact), bs)) (\<lambda>((prev, conv), bs).
    Inr (\<lparr>ch_kind = kind, position = ucast pos, ch_column = column, old_name = old, previous = prev,
          conversion = conv\<rparr>, bs))))))"

text \<open>The loop over the versions above 1, with the number of versions still to read.\<close>

fun DecodeSteps :: "nat \<Rightarrow> u64 \<Rightarrow> SchemaStep list reader" where
  "DecodeSteps 0 v bs = Inr ([], bs)"
| "DecodeSteps (Suc n) v bs =
    rbind (Reader_Le 4 bs) (\<lambda>(count, bs).
    if (ucast count :: u32) = 0 \<or> unat (ucast count :: u32) > kMaxColumnsPerTable * 2
    then Inl (RuntimeError ''schema version has no or too many changes'') else
    rbind (read_many (unat (ucast count :: u32)) DecodeChange bs) (\<lambda>(chs, bs).
    rbind (DecodeSteps n (v + 1) bs) (\<lambda>(steps, bs).
    Inr (\<lparr>step_version = v, changes = chs\<rparr> # steps, bs))))"

definition DecodePending :: "PendingNarrowing option reader" where
  "DecodePending bs =
    (if bs = [] then Inr (None, bs) else
     rbind (Reader_Le 1 bs) (\<lambda>(tag, bs).
     if tag \<noteq> 1 then Inl (RuntimeError ''schema area has trailing bytes'') else
     rbind (Reader_Le 4 bs) (\<lambda>(id, bs).
     rbind (Reader_Le 1 bs) (\<lambda>(k, bs).
     if \<not> IsKnownKind (ucast k) then Inl (RuntimeError ''unknown column type'') else
     rbind (Reader_Le 4 bs) (\<lambda>(sz, bs).
     Inr (Some \<lparr>pn_column_id = ucast id, pn_type = \<lparr>kind = kind_of_code (ucast k), csize = ucast sz\<rparr>\<rparr>, bs))))))"

definition DecodeTableSchema :: "bytes \<Rightarrow> TableSchema res" where
  "DecodeTableSchema data =
    rbind (Reader_Le 8 data) (\<lambda>(v, bs).
    rbind (Reader_Le 4 bs) (\<lambda>(next_id, bs).
    rbind (Reader_Le 4 bs) (\<lambda>(c, bs).
    let count = unat (ucast c :: u32) in
    if count > kMaxColumnsPerTable then Inl (RuntimeError ''schema area declares too many columns'') else
    rbind (read_many count DecodeColumn bs) (\<lambda>(cols, bs).
    if v = 0 \<or> unat (v - 1) > kMaxSchemaVersions then Inl (RuntimeError ''schema version is out of range'') else
    rbind (DecodeSteps (unat (v - 1)) 2 bs) (\<lambda>(steps, bs).
    rbind (DecodePending bs) (\<lambda>(p, bs).
    if bs \<noteq> [] then Inl (RuntimeError ''schema area has trailing bytes'') else
    let schema = \<lparr>version = v, next_column_id = ucast next_id, columns = cols, history = steps, pending = p\<rparr> in
    rbind (ValidateTableSchema schema) (\<lambda>_. Inr schema)))))))"

section \<open>Reading what was written\<close>

lemma Reader_Le_le: "n \<le> length bs \<Longrightarrow> Reader_Le n bs = Inr (le_word (take n bs), drop n bs)"
  by (simp add: Reader_Le_def fold_le_word)

lemma ucast_le_word: "(ucast (le_word bs :: u64) :: u32) = le_word bs"
  by (rule le_word_ucast) simp

lemma ucast_le_bytes_4: "le_word (WriteLe32 v) = (ucast v :: u64)"
proof (rule bit_word_eqI)
  fix k :: nat
  have "k div 8 < 4 \<longleftrightarrow> k < 32" by auto
  then show "bit (le_word (WriteLe32 v) :: u64) k = bit (ucast v :: u64) k" if "k < LENGTH(64)"
    using that bit_imp_le_length [of v k] by (auto simp: bit_le_word WriteLe32_le bit_le_bytes bit_simps)
qed

lemma Reader_WriteLe [simp]:
  "Reader_Le 4 (WriteLe32 v @ rest) = Inr (ucast v, rest)"
  "Reader_Le 8 (WriteLe64 w @ rest) = Inr (w, rest)"
  "Reader_Le 1 (b # rest) = Inr (ucast b, rest)"
  by (simp_all add: Reader_Le_le ucast_le_bytes_4 WriteLe64_le le_word_le_bytes)

lemma Reader_Le_Suc_0 [simp]: "Reader_Le (Suc 0) (b # rest) = Inr (ucast b, rest)"
  using Reader_WriteLe(3) [of b rest] by simp

lemma Reader_Bytes_append [simp]: "length xs = n \<Longrightarrow> Reader_Bytes n (xs @ rest) = Inr (xs, rest)"
  by (auto simp: Reader_Bytes_def)

lemma Reader_Le4D:
  assumes "Reader_Le 4 bs = Inr (v, rest)"
  shows "bs = WriteLe32 (ucast v) @ rest \<and> v = ucast (ucast v :: u32)"
proof -
  have l: "4 \<le> length bs" "v = le_word (take 4 bs)" "rest = drop 4 bs"
    using assms Reader_Le_le [of 4 bs] by (auto simp: Reader_Le_def split: if_splits)
  have "length (take 4 bs) = 4" using l(1) by simp
  then have w: "WriteLe32 (ucast v) = take 4 bs"
    using le_bytes_le_word [of "take 4 bs", where 'a = 32] by (simp add: l(2) ucast_le_word WriteLe32_le)
  moreover have "v = ucast (ucast v :: u32)" using ucast_le_bytes_4 [of "ucast v"] unfolding w l(2) [symmetric] .
  ultimately show ?thesis using l(3) by (metis append_take_drop_id)
qed

lemma Reader_Le8D:
  assumes "Reader_Le 8 bs = Inr (v, rest)"
  shows "bs = WriteLe64 v @ rest"
proof -
  have l: "8 \<le> length bs" "v = le_word (take 8 bs)" "rest = drop 8 bs"
    using assms Reader_Le_le [of 8 bs] by (auto simp: Reader_Le_def split: if_splits)
  have "length (take 8 bs) = 8" using l(1) by simp
  then have "WriteLe64 v = take 8 bs"
    using le_bytes_le_word [of "take 8 bs", where 'a = 64] by (simp add: l(2) WriteLe64_le)
  then show ?thesis using l(3) by (metis append_take_drop_id)
qed

lemma Reader_Le1D:
  assumes "Reader_Le 1 bs = Inr (v, rest)"
  shows "bs = ucast v # rest \<and> v = ucast (ucast v :: byte)"
proof -
  obtain b r where "bs = b # r" using assms by (cases bs) (auto simp: Reader_Le_def)
  then show ?thesis using assms by (auto simp: One_nat_def [symmetric] simp del: One_nat_def)
qed

lemma Reader_BytesD: "Reader_Bytes n bs = Inr (xs, rest) \<Longrightarrow> bs = xs @ rest \<and> length xs = n"
  by (auto simp: Reader_Bytes_def split: if_splits)

lemma codes_read [simp]:
  "IsKnownKind (kind_code k)" "kind_of_code (kind_code k) = k"
  by (cases k; simp add: IsKnownKind_def kind_of_code_def)+

lemma change_codes_read [simp]:
  "IsKnownChange (change_code c)" "change_of_code (change_code c) = c"
  by (cases c; simp add: IsKnownChange_def change_of_code_def)+

lemma conversion_codes_read [simp]:
  "\<not> conversion_code kTruncate < conversion_code v" "conversion_of_code (conversion_code v) = v"
  by (cases v; simp add: conversion_of_code_def)+

lemma conversion_code_bound [simp]: "\<not> 3 < conversion_code v"
  by (cases v) simp_all

lemma byte_cases_le:
  assumes "k \<le> (8 :: byte)"
  shows "k \<in> {0, 1, 2, 3, 4, 5, 6, 7, 8}"
proof -
  have "unat k \<le> 8" using assms by (simp add: word_le_nat_alt)
  then have "unat k = 0 \<or> unat k = 1 \<or> unat k = 2 \<or> unat k = 3 \<or> unat k = 4 \<or> unat k = 5 \<or> unat k = 6 \<or>
    unat k = 7 \<or> unat k = 8" by arith
  then show ?thesis by (simp add: word_unat_eq_iff)
qed

lemma kind_code_of_code: "IsKnownKind k \<Longrightarrow> kind_code (kind_of_code k) = k"
  using byte_cases_le [of k] by (auto simp: IsKnownKind_def kind_of_code_def)

lemma byte_le_8: "k \<le> (3 :: byte) \<Longrightarrow> k \<le> 8" "k \<le> (4 :: byte) \<Longrightarrow> k \<le> 8" "k \<le> (7 :: byte) \<Longrightarrow> k \<le> 8"
  by (simp_all add: word_le_nat_alt)

lemma change_code_of_code: "IsKnownChange k \<Longrightarrow> change_code (change_of_code k) = k"
  using byte_cases_le [OF byte_le_8(2), of k] by (auto simp: IsKnownChange_def change_of_code_def)

lemma conversion_code_of_code: "k \<le> conversion_code kTruncate \<Longrightarrow> conversion_code (conversion_of_code k) = k"
  using byte_cases_le [OF byte_le_8(1), of k] by (auto simp: conversion_of_code_def)

lemmas flag_defs = kKnownFlags_def kFlagNullable_def kFlagRequired_def kFlagHasDefault_def

lemma flags_read:
  fixes a b c defines "flags \<equiv> (if a then kFlagNullable else 0) OR (if b then kFlagRequired else 0) OR
    (if c then kFlagHasDefault else 0)"
  shows "flags AND NOT kKnownFlags = 0" "flags AND kFlagNullable \<noteq> 0 \<longleftrightarrow> a"
    "flags AND kFlagRequired \<noteq> 0 \<longleftrightarrow> b" "flags AND kFlagHasDefault \<noteq> 0 \<longleftrightarrow> c"
  by (cases a; cases b; cases c; simp add: flags_def flag_defs)+

lemma flags_write:
  assumes "flags AND NOT kKnownFlags = (0 :: byte)"
  shows "(if flags AND kFlagNullable \<noteq> 0 then kFlagNullable else 0) OR
    (if flags AND kFlagRequired \<noteq> 0 then kFlagRequired else 0) OR
    (if flags AND kFlagHasDefault \<noteq> 0 then kFlagHasDefault else 0) = flags"
proof -
  have "flags = (flags AND kKnownFlags) OR (flags AND NOT kKnownFlags)"
    by (rule bit_word_eqI) (auto simp: bit_and_iff bit_or_iff bit_not_iff)
  then have "flags = flags AND kKnownFlags" using assms by simp
  then have "flags \<le> 7" using word_and_le1 [of flags kKnownFlags] by (simp add: flag_defs)
  from byte_cases_le [OF byte_le_8(3) [OF this]] this show ?thesis by (auto simp: flag_defs)
qed

section \<open>Columns and changes are record codecs\<close>

text \<open>What a column needs for its record to hold it; every valid column has it.\<close>

definition column_fits :: "Column \<Rightarrow> bool" where
  "column_fits c \<longleftrightarrow> length (col_name c) < 256 \<and> length (default_value c) \<le> kMaxVariableValueBytes \<and>
    (has_default c \<or> default_value c = [])"

lemma DecodeColumn_EncodeColumn:
  assumes "column_fits c"
  shows "DecodeColumn (EncodeColumn c @ rest) = Inr (c, rest)"
proof -
  have n: "unat (ucast (of_nat (length (col_name c)) :: byte) :: u64) = length (col_name c)"
    using assms by (simp add: column_fits_def unat_of_nat_small)
  have d: "unat (ucast (of_nat (length (default_value c)) :: u32) :: u64) = length (default_value c)"
    using assms by (simp add: column_fits_def kMaxVariableValueBytes_def unat_of_nat_small)
  show ?thesis
    using assms n d flags_read [of "nullable c" "required c" "has_default c"]
    by (cases c; cases "ctype c") (auto simp: EncodeColumn_def DecodeColumn_def column_fits_def Let_def)
qed

lemma reader_byte_length:
  assumes "(nl :: u64) = ucast (ucast nl :: byte)"
  shows "unat nl < 256 \<and> of_nat (unat nl) = (ucast nl :: byte)"
proof -
  have "unat nl = unat (ucast nl :: byte)" by (subst assms) simp
  then show ?thesis using unsigned_less [of "ucast nl :: byte"] by simp
qed

lemma Reader_byteD:
  assumes "Reader_Le (Suc 0) bs = Inr (v, rest)"
  shows "bs = ucast v # rest \<and> unat v < 256"
  using Reader_Le1D [of bs v rest] reader_byte_length [of v] assms by simp

lemma EncodeColumn_DecodeColumn:
  assumes "DecodeColumn bs = Inr (c, rest)"
  shows "column_fits c \<and> bs = EncodeColumn c @ rest"
proof -
  obtain id b1 k b2 sz b3 fl b4 nl b5 name b6 where
    r: "Reader_Le 4 bs = Inr (id, b1)" "Reader_Le 1 b1 = Inr (k, b2)" "IsKnownKind (ucast k)"
      "Reader_Le 4 b2 = Inr (sz, b3)" "Reader_Le 1 b3 = Inr (fl, b4)" "(ucast fl :: byte) AND NOT kKnownFlags = 0"
      "Reader_Le 1 b4 = Inr (nl, b5)" "Reader_Bytes (unat nl) b5 = Inr (name, b6)"
    and c: "if (ucast fl :: byte) AND kFlagHasDefault \<noteq> 0 then
        \<exists>len b7 d. Reader_Le 4 b6 = Inr (len, b7) \<and> unat len \<le> kMaxVariableValueBytes \<and>
          Reader_Bytes (unat len) b7 = Inr (d, rest) \<and>
          c = \<lparr>col_id = ucast id, col_name = string_of_bytes name, ctype = \<lparr>kind = kind_of_code (ucast k), csize = ucast sz\<rparr>,
            nullable = (ucast fl :: byte) AND kFlagNullable \<noteq> 0, required = (ucast fl :: byte) AND kFlagRequired \<noteq> 0,
            has_default = True, default_value = d\<rparr>
      else rest = b6 \<and> c = \<lparr>col_id = ucast id, col_name = string_of_bytes name, ctype = \<lparr>kind = kind_of_code (ucast k), csize = ucast sz\<rparr>,
            nullable = (ucast fl :: byte) AND kFlagNullable \<noteq> 0, required = (ucast fl :: byte) AND kFlagRequired \<noteq> 0,
            has_default = False, default_value = []\<rparr>"
    using assms by (auto simp: DecodeColumn_def Let_def split: if_splits)
  have b: "bs = WriteLe32 (ucast id) @ [ucast k] @ WriteLe32 (ucast sz) @ [ucast fl] @ [ucast nl] @ name @ b6"
    "length name = unat nl"
    using Reader_Le4D [OF r(1)] Reader_Le1D [OF r(2)] Reader_Le4D [OF r(4)] Reader_Le1D [OF r(5)]
      Reader_Le1D [OF r(7)] Reader_BytesD [OF r(8)] by simp_all
  note nl = reader_byte_length [OF conjunct2 [OF Reader_Le1D [OF r(7)]]]
  show ?thesis
  proof (cases "(ucast fl :: byte) AND kFlagHasDefault = 0")
    case True
    then show ?thesis
      using b c nl kind_code_of_code [OF r(3)] flags_write [OF r(6)]
      by (simp add: column_fits_def EncodeColumn_def)
  next
    case False
    then obtain len b7 d where d: "Reader_Le 4 b6 = Inr (len, b7)" "unat len \<le> kMaxVariableValueBytes"
        "Reader_Bytes (unat len) b7 = Inr (d, rest)" and c: "c = \<lparr>col_id = ucast id, col_name = string_of_bytes name,
          ctype = \<lparr>kind = kind_of_code (ucast k), csize = ucast sz\<rparr>,
            nullable = (ucast fl :: byte) AND kFlagNullable \<noteq> 0, required = (ucast fl :: byte) AND kFlagRequired \<noteq> 0,
            has_default = True, default_value = d\<rparr>"
      using c by auto
    have "unat len = unat (ucast len :: u32)" by (subst conjunct2 [OF Reader_Le4D [OF d(1)]]) simp
    then have "b6 = WriteLe32 (of_nat (length d)) @ d @ rest" "length d \<le> kMaxVariableValueBytes"
      using Reader_Le4D [OF d(1)] Reader_BytesD [OF d(3)] d(2) by simp_all
    then show ?thesis
      using False b c nl kind_code_of_code [OF r(3)] flags_write [OF r(6)]
      by (simp add: column_fits_def EncodeColumn_def)
  qed
qed

interpretation column_codec: record_codec EncodeColumn DecodeColumn column_fits
  by unfold_locales (use DecodeColumn_EncodeColumn EncodeColumn_DecodeColumn in auto)

definition change_fits :: "SchemaChange \<Rightarrow> bool" where
  "change_fits ch \<longleftrightarrow> column_fits (ch_column ch) \<and>
    (if ch_kind ch = kRenameColumn then length (old_name ch) < 256 else old_name ch = []) \<and>
    (if ch_kind ch = kChangeType then column_fits (previous ch) else previous ch = empty_column \<and> conversion ch = kExact)"

lemma DecodeChange_EncodeChange:
  assumes "change_fits ch"
  shows "DecodeChange (EncodeChange ch @ rest) = Inr (ch, rest)"
proof -
  have n: "length (old_name ch) < 256 \<Longrightarrow> unat (ucast (of_nat (length (old_name ch)) :: byte) :: u64) = length (old_name ch)"
    by (simp add: unat_of_nat_small)
  show ?thesis
    using assms n
    by (cases ch; cases "ch_kind ch") (auto simp: EncodeChange_def DecodeChange_def change_fits_def Let_def column_codec.dec_enc
      IsKnownChange_def change_of_code_def)
qed

lemma EncodeChange_DecodeChange:
  assumes "DecodeChange bs = Inr (ch, rest)"
  shows "change_fits ch \<and> bs = EncodeChange ch @ rest"
proof -
  obtain k b1 pos b2 col b3 old b4 prev conv where
    r: "Reader_Le 1 bs = Inr (k, b1)" "IsKnownChange (ucast k)" "Reader_Le 4 b1 = Inr (pos, b2)"
      "DecodeColumn b2 = Inr (col, b3)"
    and o: "(if change_of_code (ucast k) = kRenameColumn then
             rbind (Reader_Le 1 b3) (\<lambda>(n, bs). rbind (Reader_Bytes (unat n) bs) (\<lambda>(name, bs). Inr (string_of_bytes name, bs)))
           else Inr ([], b3)) = Inr (old, b4)"
    and p: "(if change_of_code (ucast k) = kChangeType then
             rbind (DecodeColumn b4) (\<lambda>(prev, bs).
             rbind (Reader_Le 1 bs) (\<lambda>(c, bs).
             if (ucast c :: byte) > conversion_code kTruncate then Inl (RuntimeError ''unknown type conversion'')
             else Inr ((prev, conversion_of_code (ucast c)), bs)))
           else Inr ((empty_column, kExact), b4)) = Inr ((prev, conv), rest)"
    and ch: "ch = \<lparr>ch_kind = change_of_code (ucast k), position = ucast pos, ch_column = col, old_name = old,
      previous = prev, conversion = conv\<rparr>"
    using assms unfolding DecodeChange_def Let_def by (elim rbind_InrE) (auto simp only: split_paired_all prod.case throw_eq_Inr not_not elim!: rbind_InrE)
  have b: "bs = [ucast k] @ WriteLe32 (ucast pos) @ EncodeColumn col @ b3" "column_fits col"
    using Reader_Le1D [OF r(1)] Reader_Le4D [OF r(3)] column_codec.enc_dec [OF r(4)] by simp_all
  have "b3 = (if change_of_code (ucast k) = kRenameColumn then [of_nat (length old)] @ bytes_of_string old else []) @ b4 \<and>
      (if change_of_code (ucast k) = kRenameColumn then length old < 256 else old = [])"
    using o by (auto split: if_splits dest!: Reader_byteD Reader_BytesD)
  moreover have "b4 = (if change_of_code (ucast k) = kChangeType then EncodeColumn prev @ [conversion_code conv] else []) @ rest \<and>
      (if change_of_code (ucast k) = kChangeType then column_fits prev else prev = empty_column \<and> conv = kExact)"
    using p by (auto split: if_splits dest!: Reader_byteD column_codec.enc_dec simp: not_less conversion_code_of_code)
  ultimately show ?thesis
    using b change_code_of_code [OF r(2)] by (simp add: ch change_fits_def EncodeChange_def)
qed

interpretation change_codec: record_codec EncodeChange DecodeChange change_fits
  by unfold_locales (use DecodeChange_EncodeChange EncodeChange_DecodeChange in auto)

section \<open>Steps and the narrowing in progress\<close>

fun history_fits :: "u64 \<Rightarrow> SchemaStep list \<Rightarrow> bool" where
  "history_fits v [] \<longleftrightarrow> True"
| "history_fits v (st # sts) \<longleftrightarrow> step_version st = v \<and> changes st \<noteq> [] \<and>
    length (changes st) \<le> kMaxColumnsPerTable * 2 \<and> (\<forall>ch \<in> set (changes st). change_fits ch) \<and> history_fits (v + 1) sts"

lemma history_fits_snoc:
  "history_fits v (sts @ [st]) \<longleftrightarrow> history_fits v sts \<and> history_fits (v + of_nat (length sts)) [st]"
  by (induction sts arbitrary: v) (auto simp: add_ac)

lemma DecodeSteps_EncodeStep:
  "history_fits v sts \<Longrightarrow> DecodeSteps (length sts) v (concat (map EncodeStep sts) @ rest) = Inr (sts, rest)"
proof (induction sts arbitrary: v)
  case (Cons st sts)
  then have c: "changes st \<noteq> []" "length (changes st) \<le> 2048" "\<forall>ch \<in> set (changes st). change_fits ch"
      "step_version st = v" "history_fits (v + 1) sts"
    by (auto simp: kMaxColumnsPerTable_def)
  have n: "unat (of_nat (length (changes st)) :: u32) = length (changes st)"
    using c(2) by (simp add: unat_of_nat_small)
  then have "(of_nat (length (changes st)) :: u32) \<noteq> 0" using c(1) by (metis length_0_conv unat_0)
  then show ?case
    using c n change_codec.many_enc [OF c(3)] Cons.IH [OF c(5)]
    by (cases st) (simp add: EncodeStep_def kMaxColumnsPerTable_def)
qed simp

lemma EncodeStep_DecodeSteps:
  "DecodeSteps n v bs = Inr (sts, rest) \<Longrightarrow>
    length sts = n \<and> history_fits v sts \<and> bs = concat (map EncodeStep sts) @ rest"
proof (induction n v bs arbitrary: sts rule: DecodeSteps.induct)
  case (2 n v bs)
  obtain count b1 chs b2 tl where r: "Reader_Le 4 bs = Inr (count, b1)" "(ucast count :: u32) \<noteq> 0"
      "unat (ucast count :: u32) \<le> kMaxColumnsPerTable * 2" "read_many (unat (ucast count :: u32)) DecodeChange b1 = Inr (chs, b2)"
      "DecodeSteps n (v + 1) b2 = Inr (tl, rest)" "sts = \<lparr>step_version = v, changes = chs\<rparr> # tl"
    using "2.prems" by (auto simp: not_less)
  have m: "length chs = unat (ucast count :: u32)" "\<forall>ch \<in> set chs. change_fits ch" "b1 = concat (map EncodeChange chs) @ b2"
    using change_codec.many_dec [OF r(4)] by auto
  have "length tl = n \<and> history_fits (v + 1) tl \<and> b2 = concat (map EncodeStep tl) @ rest"
    using "2.IH" [OF r(1) refl _ r(4) refl r(5)] r(2,3) by simp
  moreover have "chs \<noteq> []" using m(1) r(2) by (auto simp: unat_eq_0)
  moreover have "bs = EncodeStep \<lparr>step_version = v, changes = chs\<rparr> @ b2"
    using Reader_Le4D [OF r(1)] m by (simp add: EncodeStep_def)
  ultimately show ?case using m r(3,6) by simp
qed simp

lemma DecodePending_EncodePending:
  "DecodePending (case p of None \<Rightarrow> [] | Some q \<Rightarrow> EncodePending q) = Inr (p, [])"
proof (cases p)
  case (Some q)
  have r: "Reader_Le 4 (WriteLe32 v) = Inr (ucast v, [])" for v using Reader_WriteLe(1) [of v "[]"] by simp
  show ?thesis unfolding Some by (cases q; cases "pn_type q") (simp add: DecodePending_def EncodePending_def r)
qed (simp add: DecodePending_def)

lemma EncodePending_DecodePending:
  assumes "DecodePending bs = Inr (p, [])"
  shows "bs = (case p of None \<Rightarrow> [] | Some q \<Rightarrow> EncodePending q)"
proof (cases "bs = []")
  case False
  then obtain tag b1 id b2 k b3 sz where r: "Reader_Le 1 bs = Inr (tag, b1)" "tag = 1" "Reader_Le 4 b1 = Inr (id, b2)"
      "Reader_Le 1 b2 = Inr (k, b3)" "IsKnownKind (ucast k)" "Reader_Le 4 b3 = Inr (sz, [])"
      "p = Some \<lparr>pn_column_id = ucast id, pn_type = \<lparr>kind = kind_of_code (ucast k), csize = ucast sz\<rparr>\<rparr>"
    using assms by (auto simp: DecodePending_def)
  show ?thesis
    using Reader_Le1D [OF r(1)] Reader_Le4D [OF r(3)] Reader_Le1D [OF r(4)] Reader_Le4D [OF r(6)]
      kind_code_of_code [OF r(5)] r(2,7) by (simp add: EncodePending_def)
qed (use assms in \<open>auto simp: DecodePending_def\<close>)

section \<open>The schema record\<close>

definition schema_fits :: "TableSchema \<Rightarrow> bool" where
  "schema_fits s \<longleftrightarrow> ValidateTableSchema s = Inr () \<and> history_fits 2 (history s)"

lemma valid_column_fits:
  assumes "ValidateColumns s = Inr ()" "c \<in> set (columns s)"
  shows "column_fits c"
proof -
  have v: "IsValidName (col_name c)" "type_ok (ctype c)" "ValidateDefault c = Inr ()"
    using ValidateColumns_column [OF assms] ValidateColumnType_ok by auto
  have "length (default_value c) \<le> kMaxVariableValueBytes"
  proof (cases "has_default c \<and> IsFixedWidth (kind (ctype c))")
    case True
    then have "FixedWidthBits (ctype c) \<le> 65535"
      using v(2) by (auto simp: type_ok_def FixedWidthBits_def Let_def IsFixedWidth_def kMaxFixedBitsPerBlock_def split: ColumnKind.splits)
    moreover have "length (default_value c) = u32_add (FixedWidthBits (ctype c)) 7 div 8"
      using v(3) True by (auto simp: ValidateDefault_def Let_def split: if_splits)
    ultimately show ?thesis by (simp add: kMaxVariableValueBytes_def)
  next
    case False
    then show ?thesis
      using v(2,3) by (auto simp: ValidateDefault_def type_ok_def IsFixedWidth_def Let_def split: if_splits ColumnKind.splits)
  qed
  then show ?thesis
    using v(1,3) by (auto simp: column_fits_def IsValidName_def kMaxColumnNameBytes_def ValidateDefault_def split: if_splits)
qed

lemma schema_record:
  assumes "schema_fits s"
  shows "\<exists>bs. EncodeTableSchema s = Inr bs \<and> DecodeTableSchema bs = Inr s"
proof -
  have v: "ValidateTableSchema s = Inr ()" and h: "history_fits 2 (history s)" using assms by (auto simp: schema_fits_def)
  note d = ValidateTableSchemaD [OF v]
  have cols: "\<forall>c \<in> set (columns s). column_fits c" using valid_column_fits [OF d(2)] by blast
  have n: "unat (of_nat (length (columns s)) :: u32) = length (columns s)" using valid_length [OF v] by (rule unat_position)
  let ?tail = "case pending s of None \<Rightarrow> [] | Some p \<Rightarrow> EncodePending p"
  have e: "EncodeTableSchema s = Inr (WriteLe64 (version s) @ WriteLe32 (next_column_id s) @
      WriteLe32 (of_nat (length (columns s))) @ concat (map EncodeColumn (columns s)) @
      concat (map EncodeStep (history s)) @ ?tail)"
    by (simp add: EncodeTableSchema_def v)
  have "DecodeSteps (unat (version s - 1)) 2 (concat (map EncodeStep (history s)) @ ?tail) = Inr (history s, ?tail)"
    using DecodeSteps_EncodeStep [OF h, of ?tail] d(4) by simp
  moreover have eq: "\<lparr>version = version s, next_column_id = next_column_id s, columns = columns s, history = history s,
      pending = pending s\<rparr> = s" by (cases s) simp
  ultimately show ?thesis
    using v d(1,3) valid_length [OF v] n column_codec.many_enc [OF cols] DecodePending_EncodePending [of "pending s"]
    unfolding e by (simp add: DecodeTableSchema_def kMaxColumnsPerTable_def kMaxSchemaVersions_def Let_def eq)
qed

lemma record_schema:
  assumes "DecodeTableSchema bs = Inr s"
  shows "schema_fits s \<and> EncodeTableSchema s = Inr bs"
proof -
  obtain v b1 id b2 c b3 cols b4 steps b5 p where
    r: "Reader_Le 8 bs = Inr (v, b1)" "Reader_Le 4 b1 = Inr (id, b2)" "Reader_Le 4 b2 = Inr (c, b3)"
      "read_many (unat (ucast c :: u32)) DecodeColumn b3 = Inr (cols, b4)"
      "DecodeSteps (unat (v - 1)) 2 b4 = Inr (steps, b5)" "DecodePending b5 = Inr (p, [])"
    and s: "s = \<lparr>version = v, next_column_id = ucast id, columns = cols, history = steps, pending = p\<rparr>"
      "ValidateTableSchema s = Inr ()"
    using assms by (auto simp: DecodeTableSchema_def Let_def)
  have "length cols = unat (ucast c :: u32)" "b3 = concat (map EncodeColumn cols) @ b4"
    using column_codec.many_dec [OF r(4)] by auto
  moreover have "history_fits 2 steps" "b4 = concat (map EncodeStep steps) @ b5"
    using EncodeStep_DecodeSteps [OF r(5)] by auto
  ultimately show ?thesis
    using s Reader_Le8D [OF r(1)] Reader_Le4D [OF r(2)] Reader_Le4D [OF r(3)] EncodePending_DecodePending [OF r(6)]
    by (simp add: schema_fits_def EncodeTableSchema_def)
qed

lemma NextVersion_fits:
  assumes "NextVersion s ch n = Inr s'" "ValidateTableSchema s = Inr ()" "history_fits 2 (history s)"
    "history n = history s" "change_fits ch"
  shows "history_fits 2 (history s')"
proof -
  have "of_nat (unat (version s)) = (of_nat (Suc (length (history s))) :: u64)" using valid_version [OF assms(2)] by simp
  then have v: "version s + 1 = 2 + of_nat (length (history s))" by simp
  have "history s' = history s @ [\<lparr>step_version = version s + 1, changes = [ch]\<rparr>]"
    using assms(1,4) by (auto simp: NextVersion_def Let_def split: if_splits)
  then show ?thesis using assms(3,5) v by (simp add: history_fits_snoc kMaxColumnsPerTable_def)
qed

lemma ChangeTypeAt_fits:
  assumes "ChangeTypeAt s at type conv = Inr s'" "at < length (columns s)" "ValidateTableSchema s = Inr ()"
    "history_fits 2 (history s)"
  shows "history_fits 2 (history s')"
proof -
  obtain after where nv: "NextVersion s \<lparr>ch_kind = kChangeType, position = of_nat at, ch_column = after,
      old_name = [], previous = columns s ! at, conversion = conv\<rparr> (s\<lparr>columns := (columns s)[at := after]\<rparr>) = Inr s'"
    using assms(1) by (auto simp: ChangeTypeAt_def Let_def split: if_splits)
  have "after \<in> set (columns s')" using NextVersion_columns [OF nv] assms(2) by (simp add: set_update_memI)
  then have "column_fits after" using valid_column_fits ValidateTableSchemaD(2) NextVersion_columns [OF nv] by blast
  moreover have "column_fits (columns s ! at)"
    using valid_column_fits [OF ValidateTableSchemaD(2) [OF assms(3)]] assms(2) by simp
  ultimately show ?thesis using NextVersion_fits [OF nv assms(3,4)] by (simp add: change_fits_def)
qed

lemma schema_step_fits:
  assumes "schema_step s s'" "ValidateTableSchema s = Inr ()" "history_fits 2 (history s)"
  shows "history_fits 2 (history s')"
  using assms(1)
proof cases
  case (add c allow)
  then obtain ch n where nv: "NextVersion s ch n = Inr s'" "history n = history s" "ch_column ch = c\<lparr>col_id := next_column_id s\<rparr>"
      "ch_kind ch = kAddColumn" "old_name ch = []" "previous ch = empty_column" "conversion ch = kExact"
    by (auto simp: AddColumn_def Let_def split: if_splits)
  have "ch_column ch \<in> set (columns s')" using AddColumn_newer [OF add] nv(3) by simp
  then have "column_fits (ch_column ch)"
    using valid_column_fits ValidateTableSchemaD(2) NextVersion_columns [OF nv(1)] by blast
  then show ?thesis using NextVersion_fits [OF nv(1) assms(2,3) nv(2)] nv by (simp add: change_fits_def)
next
  case (drop name)
  then obtain at ch n where nv: "NextVersion s ch n = Inr s'" "history n = history s" "ch_column ch = columns s ! at"
      "ColumnIndex s name = Inr at"
      "ch_kind ch = kDropColumn" "old_name ch = []" "previous ch = empty_column" "conversion ch = kExact"
    by (auto simp: DropColumn_def Let_def split: if_splits)
  have "column_fits (ch_column ch)"
    using ColumnIndex_spec [OF nv(4)] nv(3) valid_column_fits [OF ValidateTableSchemaD(2) [OF assms(2)]] by simp
  then show ?thesis using NextVersion_fits [OF nv(1) assms(2,3) nv(2)] nv by (simp add: change_fits_def)
next
  case (rename name new_name)
  then obtain at where at: "ColumnIndex s name = Inr at"
    and nv: "NextVersion s \<lparr>ch_kind = kRenameColumn, position = of_nat at, ch_column = (columns s ! at)\<lparr>col_name := new_name\<rparr>,
      old_name = name, previous = empty_column, conversion = kExact\<rparr>
      (s\<lparr>columns := (columns s)[at := (columns s ! at)\<lparr>col_name := new_name\<rparr>]\<rparr>) = Inr s'"
    by (auto simp: RenameColumn_def Let_def)
  have l: "at < length (columns s)" "col_name (columns s ! at) = name" using ColumnIndex_spec [OF at] by auto
  have "(columns s ! at)\<lparr>col_name := new_name\<rparr> \<in> set (columns s')"
    using NextVersion_columns [OF nv] l(1) by (simp add: set_update_memI)
  then have "column_fits ((columns s ! at)\<lparr>col_name := new_name\<rparr>)"
    using valid_column_fits ValidateTableSchemaD(2) NextVersion_columns [OF nv] by blast
  moreover have "column_fits (columns s ! at)"
    using valid_column_fits [OF ValidateTableSchemaD(2) [OF assms(2)]] l(1) by simp
  ultimately show ?thesis using NextVersion_fits [OF nv assms(2,3)] l(2) by (simp add: change_fits_def column_fits_def)
next
  case (change name type conv)
  then obtain at where "ColumnIndex s name = Inr at" "ChangeTypeAt s at type conv = Inr s'"
    by (auto simp: ChangeColumnType_def Let_def split: if_splits)
  then show ?thesis using ChangeTypeAt_fits [OF _ _ assms(2,3)] ColumnIndex_spec by blast
next
  case (narrow name type)
  then obtain at where at: "ColumnIndex s name = Inr at" "ChangeTypeAt (s\<lparr>pending := None\<rparr>) at type kExact = Inr s'"
    by (auto simp: NarrowColumnType_def WithoutPendingNarrowing_def split: option.splits if_splits)
  then show ?thesis
    using ChangeTypeAt_fits [OF at(2) _ valid_without_pending [OF assms(2)]] ColumnIndex_spec [OF at(1)] assms(3) by simp
qed (use assms(3) in \<open>auto simp: WithPendingNarrowing_def WithoutPendingNarrowing_def Let_def\<close>)

lemma table_schema_fits: "table_schema s \<Longrightarrow> schema_fits s"
proof (induction rule: table_schema.induct)
  case (create s)
  then have "history s = []" using ValidateTableSchemaD(4) [OF create(1)] by simp
  then show ?case using create by (simp add: schema_fits_def)
next
  case (step s s')
  then have "table_schema s'" by (auto intro: table_schema.step)
  then show ?case
    using table_schema_valid schema_step_fits [OF step(2)] step(1,3) by (simp add: schema_fits_def)
qed

section \<open>Properties\<close>

text \<open>
  Claim C25. The record of a schema round-trips: whatever operations a table's schema went through
  (history, defaults and a narrowing in progress included), it can be encoded and decoding the
  bytes gives exactly the same schema.
\<close>

theorem schema_record_round_trip:
  assumes "table_schema s"
  shows "\<exists>bs. EncodeTableSchema s = Inr bs \<and> DecodeTableSchema bs = Inr s"
  by (rule schema_record [OF table_schema_fits [OF assms]])

theorem schema_record_round_trip_witness:
  "\<exists>bs. EncodeTableSchema extended_schema = Inr bs \<and> DecodeTableSchema bs = Inr extended_schema"
  by (rule schema_record_round_trip [OF extended_schema_table])

text \<open>
  Claim C26. Decoding accepts canonical records only: bytes that decode to a schema are the bytes
  that schema encodes to, so no flag, length, padding or trailing byte of the record is ignored, and
  the schema decoded is a valid one.
\<close>

theorem DecodeTableSchema_canonical:
  assumes "DecodeTableSchema bs = Inr s"
  shows "EncodeTableSchema s = Inr bs \<and> ValidateTableSchema s = Inr ()"
  using record_schema [OF assms] by (simp add: schema_fits_def)

lemma example_schema_bytes:
  "EncodeTableSchema example_schema = Inr [1, 0, 0, 0, 0, 0, 0, 0, 2, 0, 0, 0, 1, 0, 0, 0,
    1, 0, 0, 0, 6, 8, 0, 0, 0, 0, 4, 0x62, 0x69, 0x74, 0x73]"
  unfolding EncodeTableSchema_def example_schema_valid
  by (simp add: example_schema_def SingleBitsColumnSchema_def WriteLe64_def WriteLe32_def EncodeColumn_def
      bytes_of_string_def byte_of_char_def upt_rec)

theorem DecodeTableSchema_canonical_witness:
  "EncodeTableSchema example_schema = Inr [1, 0, 0, 0, 0, 0, 0, 0, 2, 0, 0, 0, 1, 0, 0, 0,
    1, 0, 0, 0, 6, 8, 0, 0, 0, 0, 4, 0x62, 0x69, 0x74, 0x73] \<and> ValidateTableSchema example_schema = Inr ()"
  by (rule DecodeTableSchema_canonical)
     (use schema_record [OF table_schema_fits [OF example_schema_table]] example_schema_bytes in auto)

end
