(* ===== verification/Chunk_Vars.thy ===== *)
theory Chunk_Vars
  imports Byte_Reader
begin

text \<open>
  The variable-length values of a chunk, from \<open>src/chunk_vars.cpp\<close> and
  \<open>include/chunkdb/chunk_vars.hpp\<close>: the encoded VARS section with one offset per entry, searched by
  \<open>std::lower_bound\<close>, changed in place (\<open>Assign\<close>, \<open>Remove\<close>), in one pass (\<open>Merge\<close>) or as an
  update that can be undone (\<open>ApplyVarUpdate\<close>, \<open>UndoVarUpdate\<close>), and parsed by \<open>Decode\<close>.
  Allocation (\<open>reserve\<close>) does not change a value and is left out.
\<close>

section \<open>Keys\<close>

datatype VarKey = VarKey (vk_column: u32) (vk_block: u32)

definition packed :: "VarKey \<Rightarrow> u64" where
  "packed key = push_bit 32 (ucast (vk_column key)) OR ucast (vk_block key)"

lemma packed_inj: "packed k = packed l \<Longrightarrow> k = l"
proof -
  assume e: "packed k = packed l"
  have "bit (packed k) (n + 32) = bit (vk_column k) n" "n < 32 \<Longrightarrow> bit (packed k) n = bit (vk_block k) n" if "n < 32" for k n
    using that by (auto simp: packed_def bit_simps dest: bit_imp_le_length)
  then have "bit (vk_column k) n = bit (vk_column l) n" "bit (vk_block k) n = bit (vk_block l) n" if "n < 32" for n
    using e that by metis+
  then have "vk_column k = vk_column l" "vk_block k = vk_block l" by (auto intro: bit_word_eqI)
  then show ?thesis by (cases k; cases l) simp
qed

instantiation VarKey :: linorder
begin

definition less_eq_VarKey :: "VarKey \<Rightarrow> VarKey \<Rightarrow> bool" where
  "less_eq_VarKey lhs rhs \<longleftrightarrow> packed lhs \<le> packed rhs"

definition less_VarKey :: "VarKey \<Rightarrow> VarKey \<Rightarrow> bool" where
  "less_VarKey lhs rhs \<longleftrightarrow> packed lhs < packed rhs"

instance
  by standard (auto simp: less_eq_VarKey_def less_VarKey_def intro: packed_inj order_trans)

end

section \<open>The section and its offsets\<close>

definition kVarEntryHeaderBytes :: nat where "kVarEntryHeaderBytes = 12"
definition kVarMaxChunkBytesLimit :: nat where "kVarMaxChunkBytesLimit = 64 * 1024 * 1024"
definition kDefaultVarMaxChunkBytes :: nat where "kDefaultVarMaxChunkBytes = 1024 * 1024"

definition RequireValidVarLimit :: "nat \<Rightarrow> unit res" where
  "RequireValidVarLimit max_chunk_bytes =
    (if max_chunk_bytes \<le> kVarEntryHeaderBytes \<or> max_chunk_bytes > kVarMaxChunkBytesLimit
     then Inl (InvalidArgument ''var_max_chunk_bytes is out of range'') else Inr ())"

record ChunkVars =
  vdata :: bytes
  voffsets :: "u32 list"

record VarChange =
  vc_key :: VarKey
  vc_value :: "bytes option"

definition ReadU32 :: "bytes \<Rightarrow> nat \<Rightarrow> u32" where
  "ReadU32 data at = ucast (data ! at) OR push_bit 8 (ucast (data ! (at + 1)))
     OR push_bit 16 (ucast (data ! (at + 2))) OR push_bit 24 (ucast (data ! (at + 3)))"

definition WriteU32At :: "u32 \<Rightarrow> bytes" where
  "WriteU32At v = map (\<lambda>i. ucast (drop_bit (8 * i) v AND 0xFF)) [0..<4]"

definition WriteHeader :: "VarKey \<Rightarrow> nat \<Rightarrow> bytes" where
  "WriteHeader key value_bytes = WriteU32At (vk_column key) @ WriteU32At (vk_block key) @ WriteU32At (of_nat value_bytes)"

definition KeyAt :: "ChunkVars \<Rightarrow> u32 \<Rightarrow> VarKey" where
  "KeyAt vars offset = VarKey (ReadU32 (vdata vars) (unat offset)) (ReadU32 (vdata vars) (unat offset + 4))"

definition EntryBytesAt :: "ChunkVars \<Rightarrow> u32 \<Rightarrow> nat" where
  "EntryBytesAt vars offset = kVarEntryHeaderBytes + unat (ReadU32 (vdata vars) (unat offset + 8))"

definition value_at :: "ChunkVars \<Rightarrow> u32 \<Rightarrow> bytes" where
  "value_at vars offset =
    take (unat (ReadU32 (vdata vars) (unat offset + 8))) (drop (unat offset + kVarEntryHeaderBytes) (vdata vars))"

text \<open>\<open>std::lower_bound\<close>: the binary search of the standard library, over the positions.\<close>

function lower_bound :: "(nat \<Rightarrow> bool) \<Rightarrow> nat \<Rightarrow> nat \<Rightarrow> nat" where
  "lower_bound below first count =
    (if count > 0 then
       let step = count div 2; it = first + step in
       if below it then lower_bound below (it + 1) (count - (step + 1)) else lower_bound below first step
     else first)"
  by pat_completeness auto
termination
  by (relation "measure (\<lambda>(_, _, count). count)") auto

declare lower_bound.simps [simp del]

definition LowerBound :: "ChunkVars \<Rightarrow> VarKey \<Rightarrow> nat" where
  "LowerBound vars key =
    lower_bound (\<lambda>i. KeyAt vars (voffsets vars ! i) < key) 0 (length (voffsets vars))"

definition entry :: "ChunkVars \<Rightarrow> nat \<Rightarrow> (VarKey \<times> bytes) res" where
  "entry vars index =
    (if index \<ge> length (voffsets vars) then Inl (OutOfRange ''vector::at'')
     else let offset = voffsets vars ! index in Inr (KeyAt vars offset, value_at vars offset))"

definition Find :: "ChunkVars \<Rightarrow> VarKey \<Rightarrow> bytes option" where
  "Find vars key =
    (let at = LowerBound vars key in
     if at = length (voffsets vars) \<or> KeyAt vars (voffsets vars ! at) \<noteq> key then None
     else Some (value_at vars (voffsets vars ! at)))"

definition Assign :: "ChunkVars \<Rightarrow> VarKey \<Rightarrow> bytes \<Rightarrow> ChunkVars res" where
  "Assign vars key v =
    (let new_bytes = kVarEntryHeaderBytes + length v;
         at = LowerBound vars key;
         exists = at < length (voffsets vars) \<and> KeyAt vars (voffsets vars ! at) = key;
         old_bytes = (if exists then EntryBytesAt vars (voffsets vars ! at) else 0);
         offset = (if at < length (voffsets vars) then unat (voffsets vars ! at) else length (vdata vars))
     in if length (vdata vars) - old_bytes + new_bytes > 0xFFFFFFFF
        then Inl (LengthError ''variable-length values of one chunk exceed 4 GiB'')
        else
          let offsets = (if exists then voffsets vars
                         else take at (voffsets vars) @ of_nat offset # drop at (voffsets vars));
              room = (if new_bytes > old_bytes
                      then take (offset + old_bytes) (vdata vars) @ replicate (new_bytes - old_bytes) 0 @
                           drop (offset + old_bytes) (vdata vars)
                      else take (offset + new_bytes) (vdata vars) @ drop (offset + old_bytes) (vdata vars));
              bytes = WriteHeader key (length v) @ v;
              shift = int new_bytes - int old_bytes
          in Inr \<lparr>vdata = take offset room @ bytes @ drop (offset + length bytes) room,
                  voffsets = take (at + 1) offsets @
                    map (\<lambda>o'. word_of_int (int (unat o') + shift)) (drop (at + 1) offsets)\<rparr>)"

definition Remove :: "ChunkVars \<Rightarrow> VarKey \<Rightarrow> ChunkVars \<times> bool" where
  "Remove vars key =
    (let at = LowerBound vars key in
     if at = length (voffsets vars) \<or> KeyAt vars (voffsets vars ! at) \<noteq> key then (vars, False)
     else let offset = unat (voffsets vars ! at); bytes = EntryBytesAt vars (voffsets vars ! at) in
       (\<lparr>vdata = take offset (vdata vars) @ drop (offset + bytes) (vdata vars),
         voffsets = take at (voffsets vars) @ map (\<lambda>o'. o' - of_nat bytes) (drop (at + 1) (voffsets vars))\<rparr>, True))"

section \<open>Merging changes\<close>

fun ascending :: "VarChange list \<Rightarrow> bool" where
  "ascending (c # d # cs) \<longleftrightarrow> \<not> vc_key d \<le> vc_key c \<and> ascending (d # cs)"
| "ascending _ \<longleftrightarrow> True"

definition empty_vars :: ChunkVars where
  "empty_vars = \<lparr>vdata = [], voffsets = []\<rparr>"

definition append_entry :: "ChunkVars \<Rightarrow> bytes \<Rightarrow> ChunkVars" where
  "append_entry merged e =
    \<lparr>vdata = vdata merged @ e, voffsets = voffsets merged @ [of_nat (length (vdata merged))]\<rparr>"

definition base_entry :: "ChunkVars \<Rightarrow> nat \<Rightarrow> bytes" where
  "base_entry base i =
    (let offset = voffsets base ! i in take (EntryBytesAt base offset) (drop (unat offset) (vdata base)))"

function Merge_before :: "ChunkVars \<Rightarrow> (VarKey \<Rightarrow> bool) \<Rightarrow> ChunkVars \<Rightarrow> nat \<Rightarrow> ChunkVars \<times> nat" where
  "Merge_before base stays merged i =
    (if i < length (voffsets base) \<and> stays (KeyAt base (voffsets base ! i))
     then Merge_before base stays (append_entry merged (base_entry base i)) (i + 1)
     else (merged, i))"
  by pat_completeness auto
termination
  by (relation "measure (\<lambda>(base, _, _, i). length (voffsets base) - i)") auto

declare Merge_before.simps [simp del]

definition Merge_change :: "ChunkVars \<Rightarrow> VarChange \<Rightarrow> ChunkVars \<times> nat \<Rightarrow> ChunkVars \<times> nat" where
  "Merge_change base change state =
    (let (merged, i) = Merge_before base (\<lambda>k. k < vc_key change) (fst state) (snd state);
         i = (if i < length (voffsets base) \<and> KeyAt base (voffsets base ! i) = vc_key change then i + 1 else i)
     in case vc_value change of
          Some v \<Rightarrow> (append_entry merged (WriteHeader (vc_key change) (length v) @ v), i)
        | None \<Rightarrow> (merged, i))"

definition Merge :: "ChunkVars \<Rightarrow> VarChange list \<Rightarrow> ChunkVars res" where
  "Merge base changes =
    (if \<not> ascending changes then Inl (LogicError ''value changes are not in strictly ascending key order'')
     else let (merged, i) = fold (Merge_change base) changes (empty_vars, 0);
              merged = fst (Merge_before base (\<lambda>_. True) merged i)
       in if length (vdata merged) > 0xFFFFFFFF
          then Inl (LengthError ''variable-length values of one chunk exceed 4 GiB'') else Inr merged)"

section \<open>Parsing a section\<close>

function Decode_loop :: "bytes \<Rightarrow> nat \<Rightarrow> nat \<Rightarrow> u32 list \<Rightarrow> ChunkVars res" where
  "Decode_loop data block_count at offsets =
    (let vars = \<lparr>vdata = data, voffsets = offsets\<rparr>; size = length data in
     if at < size then
       if size - at < kVarEntryHeaderBytes then Inl (InvalidArgument ''VARS entry header extends past the section'')
       else let key = VarKey (ReadU32 data at) (ReadU32 data (at + 4)); value_bytes = unat (ReadU32 data (at + 8)) in
       if unat (vk_block key) \<ge> block_count then Inl (InvalidArgument ''VARS entry past the chunk's blocks'')
       else if offsets \<noteq> [] \<and> key \<le> KeyAt vars (last offsets)
       then Inl (InvalidArgument ''VARS keys are not strictly ascending'')
       else if size - at - kVarEntryHeaderBytes < value_bytes
       then Inl (InvalidArgument ''VARS value extends past the section'')
       else Decode_loop data block_count (at + (kVarEntryHeaderBytes + value_bytes)) (offsets @ [of_nat at])
     else Inr vars)"
  by pat_completeness auto
termination
  by (relation "measure (\<lambda>(data, _, at, _). length data - at)") (auto simp: kVarEntryHeaderBytes_def)

declare Decode_loop.simps [simp del]

definition Decode :: "bytes \<Rightarrow> nat \<Rightarrow> ChunkVars res" where
  "Decode data block_count =
    (if length data > kVarMaxChunkBytesLimit then Inl (InvalidArgument ''VARS section is too long'')
     else Decode_loop data block_count 0 [])"

section \<open>Updates and their undo\<close>

record VarUpdate =
  vu_changes :: "VarChange list"
  vu_replace :: "ChunkVars option"

record VarUndo =
  vn_replaced :: bool
  vn_keys :: "VarKey list"
  vn_previous :: "ChunkVars option"
  vn_previous_values :: "VarChange list"

definition VarsSizeAfter :: "ChunkVars \<Rightarrow> VarUpdate \<Rightarrow> nat" where
  "VarsSizeAfter vars update =
    (case vu_replace update of Some r \<Rightarrow> length (vdata r)
     | None \<Rightarrow> fold (\<lambda>change size.
         let size = (case Find vars (vc_key change) of None \<Rightarrow> size | Some cur \<Rightarrow> size - (kVarEntryHeaderBytes + length cur))
         in case vc_value change of None \<Rightarrow> size | Some v \<Rightarrow> size + (kVarEntryHeaderBytes + length v))
         (vu_changes update) (length (vdata vars)))"

definition change_same :: "ChunkVars \<Rightarrow> VarChange \<Rightarrow> bool" where
  "change_same vars change =
    (case vc_value change of Some v \<Rightarrow> Find vars (vc_key change) = Some v | None \<Rightarrow> Find vars (vc_key change) = None)"

fun ApplyVarUpdate_check :: "ChunkVars \<Rightarrow> VarKey option \<Rightarrow> VarChange list \<Rightarrow> VarKey list res" where
  "ApplyVarUpdate_check vars prev [] = Inr []"
| "ApplyVarUpdate_check vars prev (change # rest) =
    (if (case prev of None \<Rightarrow> False | Some p \<Rightarrow> vc_key change \<le> p)
     then Inl (LogicError ''value changes are not in strictly ascending key order'')
     else if change_same vars change then Inl (LogicError ''a value change does not change anything'')
     else rbind (ApplyVarUpdate_check vars (Some (vc_key change)) rest) (\<lambda>keys. Inr (vc_key change # keys)))"

definition set_value :: "ChunkVars \<Rightarrow> VarChange \<Rightarrow> ChunkVars res" where
  "set_value vars change =
    (case vc_value change of Some v \<Rightarrow> Assign vars (vc_key change) v | None \<Rightarrow> Inr (fst (Remove vars (vc_key change))))"

definition ApplyVarUpdate :: "ChunkVars \<Rightarrow> VarUpdate \<Rightarrow> (ChunkVars \<times> VarUndo) res" where
  "ApplyVarUpdate vars update =
    (case vu_replace update of
       Some r \<Rightarrow>
         if vu_changes update \<noteq> [] then Inl (LogicError ''a value update has both changes and a replacement'')
         else Inr (r, \<lparr>vn_replaced = True, vn_keys = [], vn_previous = Some vars, vn_previous_values = []\<rparr>)
     | None \<Rightarrow>
         rbind (ApplyVarUpdate_check vars None (vu_changes update)) (\<lambda>keys.
         let undo = \<lparr>vn_replaced = False, vn_keys = keys, vn_previous = None, vn_previous_values = []\<rparr> in
         if length (vu_changes update) \<noteq> 1
         then rbind (Merge vars (vu_changes update)) (\<lambda>merged. Inr (merged, undo\<lparr>vn_previous := Some vars\<rparr>))
         else let change = hd (vu_changes update);
                  undo = undo\<lparr>vn_previous_values := [\<lparr>vc_key = vc_key change, vc_value = Find vars (vc_key change)\<rparr>]\<rparr>
              in rbind (set_value vars change) (\<lambda>vars. Inr (vars, undo))))"

definition UndoVarUpdate :: "ChunkVars \<Rightarrow> VarUndo \<Rightarrow> ChunkVars res" where
  "UndoVarUpdate vars undo =
    (case vn_previous undo of Some p \<Rightarrow> Inr p
     | None \<Rightarrow> rfold (\<lambda>change vars. set_value vars change) (vn_previous_values undo) vars)"

end
