(* ===== verification/Chunk_Vars_Laws.thy ===== *)
theory Chunk_Vars_Laws
  imports Chunk_Vars
begin

text \<open>
  The values of a chunk as a sorted list of entries, and as a map: every operation on the encoded
  section and its offsets refines the map operation of its name.
\<close>

type_synonym var_entries = "(VarKey \<times> bytes) list"

definition entry_bytes :: "VarKey \<times> bytes \<Rightarrow> bytes" where
  "entry_bytes e = WriteHeader (fst e) (length (snd e)) @ snd e"

definition section_bytes :: "var_entries \<Rightarrow> bytes" where
  "section_bytes es = concat (map entry_bytes es)"

fun entry_offsets :: "nat \<Rightarrow> var_entries \<Rightarrow> u32 list" where
  "entry_offsets a [] = []"
| "entry_offsets a (e # es) = of_nat a # entry_offsets (a + length (entry_bytes e)) es"

definition pack :: "var_entries \<Rightarrow> ChunkVars" where
  "pack es = \<lparr>vdata = section_bytes es, voffsets = entry_offsets 0 es\<rparr>"

definition entries_ok :: "var_entries \<Rightarrow> bool" where
  "entries_ok es \<longleftrightarrow> sorted_wrt (<) (map fst es) \<and> length (section_bytes es) \<le> 0xFFFFFFFF"

section \<open>Reading the section\<close>

lemma WriteU32At_le: "WriteU32At v = le_bytes 4 v"
  by (simp add: WriteU32At_def le_bytes_def ucast_and_FF)

lemma length_WriteU32At [simp]: "length (WriteU32At v) = 4"
  by (simp add: WriteU32At_le)

lemma length_WriteHeader [simp]: "length (WriteHeader k n) = 12"
  by (simp add: WriteHeader_def)

lemma length_entry_bytes: "length (entry_bytes e) = 12 + length (snd e)"
  by (simp add: entry_bytes_def)

lemma section_simps [simp]:
  "section_bytes [] = []" "section_bytes (e # es) = entry_bytes e @ section_bytes es"
  "section_bytes (xs @ ys) = section_bytes xs @ section_bytes ys"
  by (simp_all add: section_bytes_def)

lemma ReadU32_le: "at + 4 \<le> length data \<Longrightarrow> ReadU32 data at = le_word (take 4 (drop at data))"
  using ReadLe32_le [of at data] by (simp add: ReadU32_def ReadLe32_def)

lemma ReadU32_prefix:
  assumes "drop at data = WriteU32At v @ rest"
  shows "ReadU32 data at = v"
proof -
  have "length data - at = 4 + length rest" using arg_cong [OF assms, of length] by simp
  then show ?thesis using assms by (simp add: ReadU32_le WriteU32At_le le_word_le_bytes)
qed

lemma header_at:
  assumes "drop at data = WriteHeader k n @ rest" "n \<le> 0xFFFFFFFF"
  shows "VarKey (ReadU32 data at) (ReadU32 data (at + 4)) = k" "unat (ReadU32 data (at + 8)) = n"
proof -
  have d: "drop at data = WriteU32At (vk_column k) @ WriteU32At (vk_block k) @ WriteU32At (of_nat n) @ rest"
    using assms(1) by (simp add: WriteHeader_def)
  have "drop (at + 4) data = drop 4 (drop at data)" "drop (at + 8) data = drop 8 (drop at data)" by (simp_all add: add.commute)
  then have e: "drop (at + 4) data = WriteU32At (vk_block k) @ WriteU32At (of_nat n) @ rest"
    "drop (at + 8) data = WriteU32At (of_nat n) @ rest"
    unfolding d by simp_all
  show "VarKey (ReadU32 data at) (ReadU32 data (at + 4)) = k"
    using ReadU32_prefix [OF d] ReadU32_prefix [OF e(1)] by simp
  show "unat (ReadU32 data (at + 8)) = n"
    using ReadU32_prefix [OF e(2)] assms(2) by (simp add: unat_of_nat_small)
qed

lemma length_entry_offsets [simp]: "length (entry_offsets a es) = length es"
  by (induction es arbitrary: a) auto

lemma entry_offsets_append:
  "entry_offsets a (xs @ ys) = entry_offsets a xs @ entry_offsets (a + length (section_bytes xs)) ys"
  by (induction xs arbitrary: a) (simp_all add: add.assoc)

lemma entry_offsets_shift: "entry_offsets (a + n) es = map (\<lambda>o'. o' + of_nat n) (entry_offsets a es)"
  by (induction es arbitrary: a) (simp_all add: add_ac, metis add.assoc add.commute)

lemma entry_offsets_nth:
  "i < length es \<Longrightarrow> entry_offsets 0 es ! i = of_nat (length (section_bytes (take i es)))"
proof -
  assume i: "i < length es"
  then obtain e rest where d: "drop i es = e # rest" by (cases "drop i es") auto
  have "entry_offsets 0 es = entry_offsets 0 (take i es) @ entry_offsets (length (section_bytes (take i es))) (drop i es)"
    using entry_offsets_append [of 0 "take i es" "drop i es"] by simp
  then show ?thesis using i by (simp add: d nth_append)
qed

lemma section_split:
  "i \<le> length es \<Longrightarrow> section_bytes es = section_bytes (take i es) @ section_bytes (drop i es)"
  by (simp add: section_simps(3) [symmetric] del: section_simps)

text \<open>What the section holds at the offset of entry \<open>i\<close>.\<close>

lemma pack_at:
  assumes "length (section_bytes es) \<le> 0xFFFFFFFF" "i < length es"
  shows "unat (voffsets (pack es) ! i) = length (section_bytes (take i es))"
    "drop (unat (voffsets (pack es) ! i)) (vdata (pack es)) = entry_bytes (es ! i) @ section_bytes (drop (Suc i) es)"
proof -
  have s: "section_bytes es = section_bytes (take i es) @ section_bytes (drop i es)"
    using section_split [of i es] assms(2) by simp
  then have l: "length (section_bytes (take i es)) \<le> 0xFFFFFFFF" using assms(1) by simp
  show u: "unat (voffsets (pack es) ! i) = length (section_bytes (take i es))"
    unfolding pack_def ChunkVars.simps entry_offsets_nth [OF assms(2)] by (rule unat_of_nat_small) (use l in simp)
  have "drop i es = es ! i # drop (Suc i) es" using assms(2) by (simp add: Cons_nth_drop_Suc)
  then show "drop (unat (voffsets (pack es) ! i)) (vdata (pack es)) = entry_bytes (es ! i) @ section_bytes (drop (Suc i) es)"
    unfolding u using s by (simp add: pack_def)
qed

lemma entry_length_bound:
  assumes "length (section_bytes es) \<le> 0xFFFFFFFF" "i < length es"
  shows "length (snd (es ! i)) \<le> 0xFFFFFFFF"
proof -
  have "section_bytes es = section_bytes (take i es) @ entry_bytes (es ! i) @ section_bytes (drop (Suc i) es)"
    using section_split [of i es] assms(2) by (simp add: Cons_nth_drop_Suc [symmetric])
  then show ?thesis using assms(1) by (simp add: length_entry_bytes)
qed

lemma pack_entry:
  assumes "length (section_bytes es) \<le> 0xFFFFFFFF" "i < length es"
  shows "KeyAt (pack es) (voffsets (pack es) ! i) = fst (es ! i)"
    "value_at (pack es) (voffsets (pack es) ! i) = snd (es ! i)"
    "EntryBytesAt (pack es) (voffsets (pack es) ! i) = length (entry_bytes (es ! i))"
proof -
  note b = entry_length_bound [OF assms]
  have d: "drop (unat (voffsets (pack es) ! i)) (vdata (pack es)) =
      WriteHeader (fst (es ! i)) (length (snd (es ! i))) @ snd (es ! i) @ section_bytes (drop (Suc i) es)"
    using pack_at(2) [OF assms] by (simp add: entry_bytes_def)
  show "KeyAt (pack es) (voffsets (pack es) ! i) = fst (es ! i)"
    unfolding KeyAt_def by (rule header_at(1) [OF d b])
  have n: "unat (ReadU32 (vdata (pack es)) (unat (voffsets (pack es) ! i) + 8)) = length (snd (es ! i))"
    by (rule header_at(2) [OF d b])
  then show "EntryBytesAt (pack es) (voffsets (pack es) ! i) = length (entry_bytes (es ! i))"
    by (simp add: EntryBytesAt_def length_entry_bytes kVarEntryHeaderBytes_def)
  have "drop (unat (voffsets (pack es) ! i) + 12) (vdata (pack es)) = snd (es ! i) @ section_bytes (drop (Suc i) es)"
    unfolding drop_drop [symmetric] add.commute [of _ 12] d by simp
  then show "value_at (pack es) (voffsets (pack es) ! i) = snd (es ! i)"
    unfolding value_at_def n kVarEntryHeaderBytes_def by simp
qed

lemma length_pack [simp]: "length (voffsets (pack es)) = length es"
  by (simp add: pack_def)

section \<open>The binary search\<close>

lemma lower_bound_spec:
  assumes "\<And>i j. first \<le> i \<Longrightarrow> i \<le> j \<Longrightarrow> j < first + count \<Longrightarrow> below j \<Longrightarrow> below i"
  shows "first \<le> lower_bound below first count \<and> lower_bound below first count \<le> first + count \<and>
    (\<forall>i. first \<le> i \<and> i < lower_bound below first count \<longrightarrow> below i) \<and>
    (\<forall>i. lower_bound below first count \<le> i \<and> i < first + count \<longrightarrow> \<not> below i)"
  using assms
proof (induction below first count rule: lower_bound.induct)
  case (1 below first count)
  show ?case
  proof (cases "count > 0")
    case False
    then have "lower_bound below first count = first" by (subst lower_bound.simps) simp
    then show ?thesis using False by auto
  next
    case True
    define step it where "step = count div 2" and "it = first + step"
    have lt: "step < count" using True by (simp add: step_def)
    show ?thesis
    proof (cases "below it")
      case b: True
      have e: "first \<le> it" "it + 1 + (count - (step + 1)) = first + count" using lt by (simp_all add: it_def)
      have lo: "below i" if "first \<le> i" "i \<le> it" for i using "1.prems" [of i it] b lt that by (simp add: it_def)
      have eq: "lower_bound below first count = lower_bound below (it + 1) (count - (step + 1))"
        using True b by (subst lower_bound.simps) (simp add: Let_def step_def it_def)
      have mono: "below i" if "it + 1 \<le> i" "i \<le> j" "j < it + 1 + (count - (step + 1))" "below j" for i j
        using "1.prems" [of i j] e that by simp
      have IH: "it + 1 \<le> lower_bound below first count" "lower_bound below first count \<le> first + count"
        "\<And>i. it + 1 \<le> i \<Longrightarrow> i < lower_bound below first count \<Longrightarrow> below i"
        "\<And>i. lower_bound below first count \<le> i \<Longrightarrow> i < first + count \<Longrightarrow> \<not> below i"
        using "1.IH"(1) [OF True step_def it_def b mono] unfolding eq e(2) by auto
      have "below i" if "first \<le> i" "i < lower_bound below first count" for i
        using lo [OF that(1)] IH(3) [OF _ that(2)] by (cases "i \<le> it") simp_all
      then show ?thesis using IH(1,2,4) e(1) by auto
    next
      case b: False
      have hi: "\<not> below j" if "it \<le> j" "j < first + count" for j using "1.prems" [of it j] b that by (auto simp: it_def)
      have eq: "lower_bound below first count = lower_bound below first step"
        using True b by (subst lower_bound.simps) (simp add: Let_def step_def it_def)
      have mono: "below i" if "first \<le> i" "i \<le> j" "j < first + step" "below j" for i j
        using "1.prems" [of i j] lt that by simp
      have IH: "first \<le> lower_bound below first count" "lower_bound below first count \<le> it"
        "\<And>i. first \<le> i \<Longrightarrow> i < lower_bound below first count \<Longrightarrow> below i"
        "\<And>i. lower_bound below first count \<le> i \<Longrightarrow> i < it \<Longrightarrow> \<not> below i"
        using "1.IH"(2) [OF True step_def it_def b mono] unfolding eq it_def by auto
      have "\<not> below i" if "lower_bound below first count \<le> i" "i < first + count" for i
        using hi [OF _ that(2)] IH(4) [OF that(1)] by (cases "i < it") simp_all
      then show ?thesis using IH(1,2,3) lt by (auto simp: it_def)
    qed
  qed
qed

section \<open>Entries around a key\<close>

definition below_key :: "VarKey \<Rightarrow> var_entries \<Rightarrow> var_entries" where
  "below_key k es = filter (\<lambda>e. fst e < k) es"

definition above_key :: "VarKey \<Rightarrow> var_entries \<Rightarrow> var_entries" where
  "above_key k es = filter (\<lambda>e. k < fst e) es"

definition with_value :: "VarKey \<Rightarrow> bytes option \<Rightarrow> var_entries \<Rightarrow> var_entries" where
  "with_value k ov es = below_key k es @ (case ov of None \<Rightarrow> [] | Some v \<Rightarrow> [(k, v)]) @ above_key k es"



lemma split_at_key:
  "sorted_wrt (<) (map fst es) \<Longrightarrow> es = with_value k (map_of es k) es"
proof (induction es)
  case (Cons e es)
  obtain l v where e: "e = (l, v)" by (cases e)
  have s: "sorted_wrt (<) (map fst es)" "\<And>x. x \<in> set es \<Longrightarrow> l < fst x" using Cons.prems e by auto
  consider "l < k" | "l = k" | "k < l" by fastforce
  then show ?case
  proof cases
    case 1
    have "es = with_value k (map_of es k) es" by (rule Cons.IH [OF s(1)])
    then show ?thesis using 1 e by (auto simp: with_value_def below_key_def above_key_def)
  next
    case 2
    have "below_key k es = []" "above_key k es = es" using s(2) 2 by (auto simp: below_key_def above_key_def filter_empty_conv filter_id_conv dest: less_imp_not_less)
    then show ?thesis using 2 e by (simp add: with_value_def below_key_def above_key_def)
  next
    case 3
    have "below_key k es = []" "above_key k es = es" "map_of es k = None"
      using s(2) 3 by (fastforce simp: below_key_def above_key_def filter_empty_conv filter_id_conv map_of_eq_None_iff)+
    then show ?thesis using 3 e by (auto simp: with_value_def below_key_def above_key_def)
  qed
qed (simp add: with_value_def below_key_def above_key_def)

lemma LowerBound_pack:
  assumes "entries_ok es"
  shows "LowerBound (pack es) k = length (below_key k es)"
proof -
  have s: "sorted_wrt (<) (map fst es)" and l: "length (section_bytes es) \<le> 0xFFFFFFFF"
    using assms by (auto simp: entries_ok_def)
  define below where "below = (\<lambda>i. KeyAt (pack es) (voffsets (pack es) ! i) < k)"
  have b: "below i \<longleftrightarrow> fst (es ! i) < k" if "i < length es" for i
    by (simp add: below_def pack_entry(1) [OF l that])
  define r where "r = LowerBound (pack es) k"
  have r: "r = lower_bound below 0 (length es)" by (simp add: r_def LowerBound_def below_def)
  have mono: "below i" if "i \<le> j" "j < length es" "below j" for i j
  proof (cases "i = j")
    case False
    then have "fst (es ! i) < fst (es ! j)" using s that(1,2) by (auto simp: sorted_wrt_iff_nth_less)
    then show ?thesis using b that by auto
  qed (use that in simp)
  have lb: "r \<le> length es" "\<And>i. i < r \<Longrightarrow> below i" "\<And>i. r \<le> i \<Longrightarrow> i < length es \<Longrightarrow> \<not> below i"
    using lower_bound_spec [of 0 "length es" below] mono by (auto simp: r)
  have "fst x < k" if "x \<in> set (take r es)" for x
  proof -
    from that obtain i where "i < r" "x = es ! i" by (auto simp only: in_set_conv_nth length_take nth_take min_less_iff_conj)
    then show ?thesis using lb(1,2) b by simp
  qed
  moreover have "\<not> fst x < k" if "x \<in> set (drop r es)" for x
  proof -
    from that obtain i where "i < length es - r" "x = es ! (r + i)" using lb(1) by (auto simp only: in_set_conv_nth length_drop nth_drop)
    then show ?thesis using lb(3) [of "r + i"] b by simp
  qed
  ultimately have "below_key k (take r es) = take r es" "below_key k (drop r es) = []"
    unfolding below_key_def filter_id_conv filter_empty_conv by blast+
  then have "below_key k es = take r es"
    using append_take_drop_id [of r es] by (metis append_Nil2 below_key_def filter_append)
  then show ?thesis using lb(1) by (simp add: r_def)
qed

lemma nth_before:
  "es = with_value k (map_of es k) es \<Longrightarrow> map_of es k = Some v \<Longrightarrow> length (below_key k es) < length es \<and> es ! length (below_key k es) = (k, v)"
  by (metis with_value_def option.case(2) append_Cons nth_append_length length_append less_add_same_cancel1 length_Cons zero_less_Suc add_Suc_right length_greater_0_conv list.distinct(1) append_is_Nil_conv)

lemma nth_before_None:
  assumes "es = with_value k (map_of es k) es" "map_of es k = None" "length (below_key k es) < length es"
  shows "k < fst (es ! length (below_key k es))"
proof -
  have e: "es = below_key k es @ above_key k es" using assms(1,2) by (simp add: with_value_def)
  then have "above_key k es \<noteq> []" using assms(3) by (metis append_Nil2 less_irrefl)
  then have "es ! length (below_key k es) = hd (above_key k es)" by (subst e) (simp add: nth_append hd_conv_nth)
  moreover have "hd (above_key k es) \<in> set (above_key k es)" using \<open>above_key k es \<noteq> []\<close> by simp
  ultimately show ?thesis by (auto simp: above_key_def)
qed

lemma found_iff:
  assumes "entries_ok es"
  shows "length (below_key k es) = length es \<or> KeyAt (pack es) (voffsets (pack es) ! length (below_key k es)) \<noteq> k \<longleftrightarrow> map_of es k = None"
proof -
  have s: "es = with_value k (map_of es k) es" and l: "length (section_bytes es) \<le> 0xFFFFFFFF"
    using split_at_key assms by (auto simp: entries_ok_def)
  show ?thesis
  proof (cases "map_of es k")
    case None
    show ?thesis
    proof (cases "length (below_key k es) < length es")
      case True
      then show ?thesis using nth_before_None [OF s None True] None pack_entry(1) [OF l True] by auto
    next
      case False
      then have "length (below_key k es) = length es"
        using length_filter_le [of "\<lambda>e. fst e < k" es] by (simp add: below_key_def)
      then show ?thesis using None by simp
    qed
  next
    case (Some v)
    then show ?thesis using nth_before [OF s Some] pack_entry(1) [OF l] by simp
  qed
qed

lemma Find_pack: "entries_ok es \<Longrightarrow> Find (pack es) k = map_of es k"
proof -
  assume ok: "entries_ok es"
  show ?thesis
  proof (cases "map_of es k")
    case None
    then show ?thesis using found_iff [OF ok, of k] by (simp add: Find_def LowerBound_pack [OF ok] Let_def)
  next
    case (Some v)
    have "es = with_value k (map_of es k) es" using split_at_key ok by (auto simp: entries_ok_def)
    from nth_before [OF this Some] show ?thesis
      using Some found_iff [OF ok, of k] pack_entry(2) [of es "length (below_key k es)"] ok
      by (simp add: Find_def LowerBound_pack [OF ok] Let_def entries_ok_def)
  qed
qed

section \<open>Changing one value\<close>

lemma with_value_split:
  assumes "entries_ok es"
  obtains pre old suf where "es = pre @ old @ suf" "pre = below_key k es" "suf = above_key k es"
    "old = (case map_of es k of None \<Rightarrow> [] | Some w \<Rightarrow> [(k, w)])"
  using split_at_key [of es k] assms unfolding entries_ok_def with_value_def by blast

lemma shift_word: "word_of_int (int (unat o') + (int n - int m)) = (o' :: u32) + of_nat n - of_nat m"
  by simp

lemma entry_offsets_reshift:
  "map (\<lambda>o'. word_of_int (int (unat o') + (int n - int m))) (entry_offsets (a + m) es) = entry_offsets (a + n) es"
  unfolding shift_word entry_offsets_shift map_map comp_def by simp

text \<open>Position, offset and room of the entry with a key.\<close>

lemma pack_split:
  assumes "es = pre @ old @ suf" "length (section_bytes es) \<le> 0xFFFFFFFF"
  shows "vdata (pack es) = section_bytes pre @ section_bytes old @ section_bytes suf"
    "voffsets (pack es) = entry_offsets 0 pre @ entry_offsets (length (section_bytes pre)) old @
       entry_offsets (length (section_bytes pre) + length (section_bytes old)) suf"
    "(if length pre < length es then unat (voffsets (pack es) ! length pre) else length (vdata (pack es))) =
       length (section_bytes pre)"
proof -
  show "vdata (pack es) = section_bytes pre @ section_bytes old @ section_bytes suf"
    using assms(1) by (simp add: pack_def)
  show "voffsets (pack es) = entry_offsets 0 pre @ entry_offsets (length (section_bytes pre)) old @
       entry_offsets (length (section_bytes pre) + length (section_bytes old)) suf"
    using assms(1) by (simp add: pack_def entry_offsets_append)
  show "(if length pre < length es then unat (voffsets (pack es) ! length pre) else length (vdata (pack es))) =
       length (section_bytes pre)"
    using assms pack_at(1) [OF assms(2), of "length pre"] by (auto simp: pack_def)
qed

lemma write_entry:
  assumes "length n = nb" "length o' = ob"
  shows "(let room = (if nb > ob then take (length p + ob) (p @ o' @ s) @ replicate (nb - ob) 0 @ drop (length p + ob) (p @ o' @ s)
      else take (length p + nb) (p @ o' @ s) @ drop (length p + ob) (p @ o' @ s))
    in take (length p) room @ n @ drop (length p + length n) room) = p @ n @ s"
  using assms by (auto simp: Let_def)

lemma Assign_pack:
  assumes "entries_ok es"
  shows "Assign (pack es) k v =
    (if length (section_bytes (with_value k (Some v) es)) > 0xFFFFFFFF
     then Inl (LengthError ''variable-length values of one chunk exceed 4 GiB'')
     else Inr (pack (with_value k (Some v) es)))"
proof -
  have l: "length (section_bytes es) \<le> 0xFFFFFFFF" using assms by (simp add: entries_ok_def)
  obtain pre old suf where e: "es = pre @ old @ suf" "pre = below_key k es" "suf = above_key k es"
    "old = (case map_of es k of None \<Rightarrow> [] | Some w \<Rightarrow> [(k, w)])"
    by (rule with_value_split [OF assms])
  note p = pack_split [OF e(1) l]
  define P O' S N where "P = section_bytes pre" and "O' = section_bytes old" and "S = section_bytes suf"
    and "N = entry_bytes (k, v)"
  have N: "WriteHeader k (length v) @ v = N" "kVarEntryHeaderBytes + length v = length N"
    by (simp_all add: N_def entry_bytes_def kVarEntryHeaderBytes_def)
  have at: "LowerBound (pack es) k = length pre" by (simp add: LowerBound_pack [OF assms] e(2) [symmetric])
  have ex: "length pre < length es \<and> KeyAt (pack es) (voffsets (pack es) ! length pre) = k \<longleftrightarrow> old \<noteq> []"
  proof -
    have "length pre \<le> length es" unfolding e(2) by (simp add: below_key_def)
    moreover have "old = [] \<longleftrightarrow> map_of es k = None" using e(4) by (simp split: option.splits)
    ultimately show ?thesis using found_iff [OF assms, of k] unfolding e(2) [symmetric] by linarith
  qed
  have ob: "(if old \<noteq> [] then EntryBytesAt (pack es) (voffsets (pack es) ! length pre) else 0) = length O'"
  proof (cases "map_of es k")
    case (Some w)
    then have o': "old = [(k, w)]" using e(4) by simp
    then have "es = pre @ [(k, w)] @ suf" using e(1) by simp
    then have "length pre < length es" "es ! length pre = (k, w)" by (simp_all add: nth_append)
    then show ?thesis using o' pack_entry(3) [OF l, of "length pre"] by (simp add: O'_def)
  qed (use e(4) in \<open>simp add: O'_def\<close>)
  have d: "vdata (pack es) = P @ O' @ S" using p(1) by (simp add: P_def O'_def S_def)
  have off: "(if length pre < length es then unat (voffsets (pack es) ! length pre) else length (vdata (pack es))) = length P"
    using p(3) by (simp add: P_def)
  have ws: "with_value k (Some v) es = pre @ (k, v) # suf" using e(2,3) by (simp add: with_value_def)
  have wl: "length (section_bytes (with_value k (Some v) es)) = length P + length N + length S"
    by (simp add: ws P_def N_def S_def)
  have offs: "(if old \<noteq> [] then voffsets (pack es)
      else take (length pre) (voffsets (pack es)) @ of_nat (length P) # drop (length pre) (voffsets (pack es))) =
      entry_offsets 0 pre @ of_nat (length P) # entry_offsets (length P + length O') suf"
    unfolding p(2) P_def [symmetric] O'_def [symmetric] using e(4) by (auto simp: O'_def split: option.splits)
  have new: "voffsets (pack (with_value k (Some v) es)) =
      entry_offsets 0 pre @ of_nat (length P) # entry_offsets (length P + length N) suf"
    by (simp add: ws pack_def entry_offsets_append P_def N_def)
  let ?offs = "entry_offsets 0 pre @ of_nat (length P) # entry_offsets (length P + length O') suf"
  have "Assign (pack es) k v = (if length (P @ O' @ S) - length O' + length N > 0xFFFFFFFF
      then Inl (LengthError ''variable-length values of one chunk exceed 4 GiB'')
      else Inr \<lparr>vdata = P @ N @ S, voffsets = take (length pre + 1) ?offs @
        map (\<lambda>o'. word_of_int (int (unat o') + (int (length N) - int (length O')))) (drop (length pre + 1) ?offs)\<rparr>)"
    unfolding Assign_def Let_def length_pack at ex ob off offs N
    unfolding d write_entry [of N "length N" O' "length O'" P S, OF refl refl, unfolded Let_def] by (rule refl)
  moreover have "take (length pre + 1) ?offs @ map (\<lambda>o'. word_of_int (int (unat o') + (int (length N) - int (length O'))))
      (drop (length pre + 1) ?offs) = voffsets (pack (with_value k (Some v) es))"
    unfolding new by (simp only: take_append drop_append length_entry_offsets add_diff_cancel_left' diff_add_inverse
        take_all drop_all le_add1 take_Suc_Cons drop_Suc_Cons One_nat_def take_0 drop_0 append_Nil entry_offsets_reshift append_assoc append_Cons)
  moreover have "P @ N @ S = vdata (pack (with_value k (Some v) es))" by (simp add: pack_def ws P_def N_def S_def)
  ultimately show ?thesis by (simp add: wl)
qed

lemma Remove_pack:
  assumes "entries_ok es"
  shows "Remove (pack es) k = (pack (with_value k None es), map_of es k \<noteq> None)"
proof -
  have l: "length (section_bytes es) \<le> 0xFFFFFFFF" using assms by (simp add: entries_ok_def)
  obtain pre old suf where e: "es = pre @ old @ suf" "pre = below_key k es" "suf = above_key k es"
    "old = (case map_of es k of None \<Rightarrow> [] | Some w \<Rightarrow> [(k, w)])"
    by (rule with_value_split [OF assms])
  have at: "LowerBound (pack es) k = length pre" by (simp add: LowerBound_pack [OF assms] e(2) [symmetric])
  note f = found_iff [OF assms, of k, folded e(2)]
  have ws: "with_value k None es = pre @ suf" using e(2,3) by (simp add: with_value_def)
  show ?thesis
  proof (cases "map_of es k")
    case None
    then have "old = []" using e(4) by simp
    then have "es = pre @ suf" using e(1) by simp
    then have "with_value k None es = es" unfolding ws by (rule sym)
    then show ?thesis unfolding Remove_def Let_def at length_pack f using None by simp
  next
    case (Some w)
    then have "old = [(k, w)]" using e(4) by simp
    then have s: "es = pre @ [(k, w)] @ suf" using e(1) by simp
    then have i: "length pre < length es" "es ! length pre = (k, w)" by (simp_all add: nth_append)
    have n: "unat (voffsets (pack es) ! length pre) = length (section_bytes pre)"
      "EntryBytesAt (pack es) (voffsets (pack es) ! length pre) = length (entry_bytes (k, w))"
      using pack_at(1) [OF l i(1)] pack_entry(3) [OF l i(1)] i(2) s by simp_all
    have "Remove (pack es) k = (\<lparr>vdata = section_bytes pre @ section_bytes suf, voffsets = entry_offsets 0 pre @
        map (\<lambda>o'. o' - of_nat (length (entry_bytes (k, w)))) (entry_offsets (length (section_bytes pre) + length (entry_bytes (k, w))) suf)\<rparr>, True)"
      unfolding Remove_def Let_def at length_pack f n using Some
      by (simp add: pack_split(1,2) [OF s l])
    then show ?thesis using Some by (simp add: ws pack_def entry_offsets_append entry_offsets_shift comp_def)
  qed
qed

text \<open>The entries after a change, as a map and as a sorted list.\<close>

lemma sorted_with_value:
  assumes "sorted_wrt (<) (map fst es)"
  shows "sorted_wrt (<) (map fst (with_value k ov es))"
proof -
  have f: "sorted_wrt (<) (map fst (filter P es))" for P
    using assms by (induction es) (auto split: if_splits)
  show ?thesis
    using f by (auto simp: with_value_def below_key_def above_key_def sorted_wrt_append split: option.splits dest: less_trans)
qed

lemma map_of_with_value:
  "map_of (with_value k ov es) = (map_of es)(k := ov)"
proof
  fix x
  have f: "map_of (filter (\<lambda>e. P (fst e)) es) x = (if P x then map_of es x else None)" for P x
    by (induction es) auto
  show "map_of (with_value k ov es) x = ((map_of es)(k := ov)) x"
    by (auto simp: with_value_def below_key_def above_key_def map_add_def f [where P = "\<lambda>y. y < k"] f [where P = "\<lambda>y. k < y"]
        split: option.splits dest: less_imp_not_less)
qed

lemma sorted_entries_eq:
  assumes "sorted_wrt (<) (map fst es)" "sorted_wrt (<) (map fst fs)" "map_of es = map_of fs"
  shows "es = (fs :: var_entries)"
proof -
  have d: "distinct (map fst es)" "distinct (map fst fs)" using assms(1,2) strict_sorted_iff by blast+
  have "set es = set fs" using map_of_inject_set [OF d] assms(3) by simp
  moreover have "sorted (map fst es)" "sorted (map fst fs)" using assms(1,2) strict_sorted_iff by blast+
  moreover have "inj_on fst (set es \<union> set fs)" using d(1) calculation(1) by (simp add: distinct_map)
  ultimately show ?thesis using d by (intro map_sorted_distinct_set_unique)
qed

lemma with_value_restore:
  assumes "sorted_wrt (<) (map fst es)"
  shows "with_value k (map_of es k) (with_value k ov es) = es"
  by (rule sorted_entries_eq)
     (auto simp: assms sorted_with_value map_of_with_value simp del: fun_upd_apply)

section \<open>Merging\<close>

definition apply_changes :: "VarChange list \<Rightarrow> var_entries \<Rightarrow> var_entries" where
  "apply_changes cs es = fold (\<lambda>c. with_value (vc_key c) (vc_value c)) cs es"

lemma ascending_sorted: "ascending cs \<longleftrightarrow> sorted_wrt (<) (map vc_key cs)"
  by (induction cs rule: ascending.induct) (auto simp: not_le intro: less_trans)

lemma append_entry_pack: "append_entry (pack ms) (entry_bytes e) = pack (ms @ [e])"
  by (simp add: append_entry_def pack_def entry_offsets_append)

lemma base_entry_pack:
  assumes "entries_ok es" "i < length es"
  shows "base_entry (pack es) i = entry_bytes (es ! i)"
proof -
  have l: "length (section_bytes es) \<le> 0xFFFFFFFF" using assms by (simp add: entries_ok_def)
  show ?thesis unfolding base_entry_def Let_def pack_entry(3) [OF l assms(2)] pack_at(2) [OF l assms(2)] by simp
qed

lemma Merge_before_pack:
  assumes "entries_ok es"
  shows "i \<le> length es \<Longrightarrow> Merge_before (pack es) stays (pack ms) i =
    (pack (ms @ takeWhile (\<lambda>e. stays (fst e)) (drop i es)), i + length (takeWhile (\<lambda>e. stays (fst e)) (drop i es)))"
proof (induction "length es - i" arbitrary: i ms)
  case 0
  then show ?case by (simp add: Merge_before.simps [of _ _ _ i])
next
  case (Suc n)
  then have i: "i < length es" by simp
  have k: "KeyAt (pack es) (voffsets (pack es) ! i) = fst (es ! i)"
    by (rule pack_entry(1)) (use assms i in \<open>simp_all add: entries_ok_def\<close>)
  have d: "drop i es = es ! i # drop (Suc i) es" using i by (simp add: Cons_nth_drop_Suc)
  have m: "Merge_before (pack es) stays (pack ms) i = (if stays (fst (es ! i))
      then Merge_before (pack es) stays (pack (ms @ [es ! i])) (i + 1) else (pack ms, i))"
    by (subst Merge_before.simps) (simp add: i k base_entry_pack [OF assms i] append_entry_pack)
  show ?case
    unfolding m d using Suc.hyps(1) [of "i + 1" "ms @ [es ! i]"] Suc.hyps(2) i by simp
qed

lemma sorted_takeWhile:
  assumes "sorted_wrt (<) (map fst es)"
  shows "takeWhile (\<lambda>e. fst e < k) es = below_key k es"
    "(let dw = dropWhile (\<lambda>e. fst e < k) es in if dw \<noteq> [] \<and> fst (hd dw) = k then tl dw else dw) = above_key k es"
proof -
  show "takeWhile (\<lambda>e. fst e < k) es = below_key k es"
    using assms
  proof (induction es)
    case (Cons e es)
    have "filter (\<lambda>e. fst e < k) es = []" if "\<not> fst e < k"
      unfolding filter_empty_conv using Cons.prems that by (auto dest: less_trans)
    then show ?case using Cons by (simp add: below_key_def)
  qed (simp add: below_key_def)
  show "(let dw = dropWhile (\<lambda>e. fst e < k) es in if dw \<noteq> [] \<and> fst (hd dw) = k then tl dw else dw) = above_key k es"
    using assms
  proof (induction es)
    case (Cons e es)
    have "above_key k es = es" if "k \<le> fst e"
      unfolding above_key_def filter_id_conv using Cons.prems that by (auto intro: le_less_trans)
    then show ?case
    proof (cases "fst e < k")
      case True
      then have "\<not> k < fst e" by simp
      then show ?thesis using Cons.IH Cons.prems True by (simp add: above_key_def)
    qed (auto simp: above_key_def Let_def)
  qed (simp add: above_key_def)
qed

lemma Merge_change_pack:
  assumes "entries_ok es" "i \<le> length es"
  obtains j where "Merge_change (pack es) c (pack ms, i) =
      (pack (ms @ below_key (vc_key c) (drop i es) @ (case vc_value c of None \<Rightarrow> [] | Some v \<Rightarrow> [(vc_key c, v)])), j)"
    "j \<le> length es" "drop j es = above_key (vc_key c) (drop i es)"
proof -
  have s: "sorted_wrt (<) (map fst (drop i es))"
    using assms(1) by (simp add: entries_ok_def drop_map [symmetric] sorted_wrt_drop)
  have l: "length (section_bytes es) \<le> 0xFFFFFFFF" using assms by (simp add: entries_ok_def)
  define tw i1 where "tw = takeWhile (\<lambda>e. fst e < vc_key c) (drop i es)" and "i1 = i + length tw"
  define j where "j = (if i1 < length es \<and> KeyAt (pack es) (voffsets (pack es) ! i1) = vc_key c then i1 + 1 else i1)"
  have dw: "drop i1 es = dropWhile (\<lambda>e. fst e < vc_key c) (drop i es)"
    unfolding dropWhile_eq_drop drop_drop i1_def tw_def by (simp only: add.commute)
  have "length tw \<le> length (drop i es)" unfolding tw_def by (rule length_takeWhile_le)
  then have i1: "i1 \<le> length es" using assms(2) by (simp add: i1_def)
  have "i1 < length es \<and> KeyAt (pack es) (voffsets (pack es) ! i1) = vc_key c \<longleftrightarrow>
      drop i1 es \<noteq> [] \<and> fst (hd (drop i1 es)) = vc_key c"
    using pack_entry(1) [OF l, of i1] by (auto simp: hd_drop_conv_nth)
  then have "drop j es = (let d = drop i1 es in if d \<noteq> [] \<and> fst (hd d) = vc_key c then tl d else d)" "j \<le> length es"
    using i1 by (auto simp: j_def Let_def drop_Suc tl_drop)
  then have "drop j es = above_key (vc_key c) (drop i es)" using sorted_takeWhile(2) [OF s] unfolding dw by simp
  moreover have "Merge_change (pack es) c (pack ms, i) =
      (pack (ms @ below_key (vc_key c) (drop i es) @ (case vc_value c of None \<Rightarrow> [] | Some v \<Rightarrow> [(vc_key c, v)])), j)"
    using Merge_before_pack [OF assms, of "\<lambda>k. k < vc_key c" ms] sorted_takeWhile(1) [OF s, of "vc_key c"]
      append_entry_pack [of "ms @ tw" "(vc_key c, the (vc_value c))"]
    by (simp add: Merge_change_def Let_def j_def i1_def tw_def entry_bytes_def split: option.splits) fastforce
  ultimately show thesis using \<open>j \<le> length es\<close> by (intro that)
qed

lemma Merge_fold_pack:
  assumes "entries_ok es"
  shows "i \<le> length es \<Longrightarrow> sorted_wrt (<) (map vc_key cs) \<Longrightarrow> sorted_wrt (<) (map fst (ms @ drop i es)) \<Longrightarrow>
    (\<forall>c \<in> set cs. \<forall>e \<in> set ms. fst e < vc_key c) \<Longrightarrow>
    \<exists>ms' j. fold (Merge_change (pack es)) cs (pack ms, i) = (pack ms', j) \<and> j \<le> length es \<and>
      ms' @ drop j es = apply_changes cs (ms @ drop i es)"
proof (induction cs arbitrary: i ms)
  case (Cons c cs)
  let ?k = "vc_key c" let ?new = "case vc_value c of None \<Rightarrow> [] | Some v \<Rightarrow> [(vc_key c, v)]"
  obtain j where j: "Merge_change (pack es) c (pack ms, i) = (pack (ms @ below_key ?k (drop i es) @ ?new), j)"
      "j \<le> length es" "drop j es = above_key ?k (drop i es)"
    by (rule Merge_change_pack [OF assms Cons.prems(1)])
  have b: "below_key ?k ms = ms" "above_key ?k ms = []"
    using Cons.prems(4) by (auto simp: below_key_def above_key_def filter_id_conv filter_empty_conv dest: less_imp_not_less)
  have w: "(ms @ below_key ?k (drop i es) @ ?new) @ drop j es = with_value ?k (vc_value c) (ms @ drop i es)"
    using b unfolding j(3) by (simp add: with_value_def below_key_def above_key_def)
  have "sorted_wrt (<) (map fst ((ms @ below_key ?k (drop i es) @ ?new) @ drop j es))"
    unfolding w by (rule sorted_with_value [OF Cons.prems(3)])
  moreover have "\<forall>d \<in> set cs. \<forall>e \<in> set (ms @ below_key ?k (drop i es) @ ?new). fst e < vc_key d"
    using Cons.prems(2,4) by (fastforce simp: below_key_def split: option.splits intro: less_trans)
  moreover have "sorted_wrt (<) (map vc_key cs)" using Cons.prems(2) by simp
  ultimately have "\<exists>ms' j'. fold (Merge_change (pack es)) cs (pack (ms @ below_key ?k (drop i es) @ ?new), j) = (pack ms', j') \<and>
      j' \<le> length es \<and> ms' @ drop j' es = apply_changes cs ((ms @ below_key ?k (drop i es) @ ?new) @ drop j es)"
    by (intro Cons.IH [OF j(2)])
  then show ?case unfolding w by (simp add: j(1) apply_changes_def)
qed (simp add: apply_changes_def)

lemma sorted_apply_changes: "sorted_wrt (<) (map fst es) \<Longrightarrow> sorted_wrt (<) (map fst (apply_changes cs es))"
  unfolding apply_changes_def by (induction cs arbitrary: es) (simp_all add: sorted_with_value)

lemma Merge_pack:
  assumes "entries_ok es" "ascending cs"
  shows "Merge (pack es) cs = (if length (section_bytes (apply_changes cs es)) > 0xFFFFFFFF
    then Inl (LengthError ''variable-length values of one chunk exceed 4 GiB'') else Inr (pack (apply_changes cs es)))"
proof -
  have "empty_vars = pack []" by (simp add: empty_vars_def pack_def)
  moreover obtain ms' j where m: "fold (Merge_change (pack es)) cs (pack [], 0) = (pack ms', j)" "j \<le> length es"
      "ms' @ drop j es = apply_changes cs es"
    using Merge_fold_pack [OF assms(1), of 0 cs "[]"] assms by (auto simp: ascending_sorted entries_ok_def)
  moreover have "fst (Merge_before (pack es) (\<lambda>_. True) (pack ms') j) = pack (apply_changes cs es)"
  proof -
    have t: "takeWhile (\<lambda>e. True) (drop j es) = drop j es" by (simp add: takeWhile_eq_all_conv)
    show ?thesis by (simp only: Merge_before_pack [OF assms(1) m(2)] t m(3) fst_conv)
  qed
  moreover have "vdata (pack (apply_changes cs es)) = section_bytes (apply_changes cs es)" by (simp add: pack_def)
  ultimately show ?thesis using assms(2) by (simp add: Merge_def Let_def)
qed

section \<open>Parsing\<close>

lemma ReadU32_bytes:
  assumes "at + 4 \<le> length data"
  shows "drop at data = WriteU32At (ReadU32 data at) @ drop (at + 4) data"
proof -
  have "length (take 4 (drop at data)) = 4" using assms by simp
  then have "WriteU32At (ReadU32 data at) = take 4 (drop at data)"
    using le_bytes_le_word [of "take 4 (drop at data)", where 'a = 32] by (simp add: ReadU32_le assms WriteU32At_le)
  then show ?thesis using append_take_drop_id [of 4 "drop at data"] by (simp add: add.commute)
qed

lemma entry_at:
  assumes "at + 12 + unat (ReadU32 data (at + 8)) \<le> length data"
  shows "drop at data = entry_bytes (VarKey (ReadU32 data at) (ReadU32 data (at + 4)),
      take (unat (ReadU32 data (at + 8))) (drop (at + 12) data)) @ drop (at + 12 + unat (ReadU32 data (at + 8))) data"
proof -
  let ?n = "unat (ReadU32 data (at + 8))"
  have "drop at data = WriteHeader (VarKey (ReadU32 data at) (ReadU32 data (at + 4))) ?n @ drop (at + 12) data"
    using ReadU32_bytes [of at data] ReadU32_bytes [of "at + 4" data] ReadU32_bytes [of "at + 8" data] assms
    by (simp add: WriteHeader_def add.assoc)
  moreover have "drop (at + 12) data = take ?n (drop (at + 12) data) @ drop (at + 12 + ?n) data"
    using append_take_drop_id [of ?n "drop (at + 12) data"] by (simp add: add.commute)
  moreover have "length (take ?n (drop (at + 12) data)) = ?n" using assms by simp
  ultimately show ?thesis by (simp add: entry_bytes_def)
qed

lemma KeyAt_last:
  assumes "data = section_bytes es @ rest" "length data \<le> 0xFFFFFFFF" "es \<noteq> []"
  shows "KeyAt \<lparr>vdata = data, voffsets = offs\<rparr> (last (entry_offsets 0 es)) = fst (last es)"
proof -
  obtain fs e where es: "es = fs @ [e]" using assms(3) by (cases es rule: rev_cases) auto
  have o: "unat (last (entry_offsets 0 es)) = length (section_bytes fs)"
    using assms(1,2) by (simp add: es entry_offsets_append unat_of_nat_small)
  have "drop (length (section_bytes fs)) data = WriteHeader (fst e) (length (snd e)) @ snd e @ rest"
    using assms(1) by (simp add: es entry_bytes_def)
  moreover have "length (snd e) \<le> 0xFFFFFFFF" using assms(1,2) by (simp add: es length_entry_bytes)
  ultimately show ?thesis unfolding KeyAt_def o using header_at(1) by (simp add: es)
qed

lemma Decode_loop_sound:
  assumes "Decode_loop data n at offs = Inr vars" "length data \<le> 0xFFFFFFFF" "at = length (section_bytes es)"
    "data = section_bytes es @ drop at data" "offs = entry_offsets 0 es" "sorted_wrt (<) (map fst es)"
    "\<forall>e \<in> set es. unat (vk_block (fst e)) < n"
  shows "\<exists>fs. vars = pack fs \<and> entries_ok fs \<and> section_bytes fs = data \<and> (\<forall>e \<in> set fs. unat (vk_block (fst e)) < n)"
  using assms
proof (induction data n at offs arbitrary: es rule: Decode_loop.induct)
  case (1 data n at offs)
  show ?case
  proof (cases "at < length data")
    case False
    then have "vars = \<lparr>vdata = data, voffsets = offs\<rparr>" "data = section_bytes es"
      using "1.prems"(1,4) by (simp_all add: Decode_loop.simps [of data])
    then show ?thesis using "1.prems" by (intro exI [of _ es]) (simp add: pack_def entries_ok_def)
  next
    case True
    let ?k = "VarKey (ReadU32 data at) (ReadU32 data (at + 4))" and ?vb = "unat (ReadU32 data (at + 8))"
    let ?e = "(?k, take ?vb (drop (at + 12) data))"
    have g: "\<not> length data - at < kVarEntryHeaderBytes" "\<not> n \<le> unat (vk_block ?k)"
        "\<not> (offs \<noteq> [] \<and> ?k \<le> KeyAt \<lparr>vdata = data, voffsets = offs\<rparr> (last offs))"
        "\<not> length data - at - kVarEntryHeaderBytes < ?vb"
      and r: "Decode_loop data n (at + (kVarEntryHeaderBytes + ?vb)) (offs @ [of_nat at]) = Inr vars"
      using "1.prems"(1) True by (simp_all add: Decode_loop.simps [of data n at] Let_def split: if_splits)
    have len: "at + 12 + ?vb \<le> length data" using g(1,4) True by (simp add: kVarEntryHeaderBytes_def)
    note e = entry_at [OF len]
    have vl: "length (take ?vb (drop (at + 12) data)) = ?vb" using len by simp
    have key: "\<forall>f \<in> set es. fst f < ?k"
    proof (cases "es = []")
      case False
      then have "offs \<noteq> []" using "1.prems"(5) by (cases es) auto
      then have "fst (last es) < ?k"
        using g(3) KeyAt_last [OF "1.prems"(4,2) False] "1.prems"(5) by (simp add: not_le)
      moreover obtain gs f where es: "es = gs @ [f]" using False by (cases es rule: rev_cases) auto
      ultimately show ?thesis using "1.prems"(6) by (auto simp: sorted_wrt_append intro: less_trans)
    qed simp
    have "\<exists>fs. vars = pack fs \<and> entries_ok fs \<and> section_bytes fs = data \<and> (\<forall>e \<in> set fs. unat (vk_block (fst e)) < n)"
    proof (rule "1.IH" [OF refl refl True g(1) refl refl g(2,3,4) r "1.prems"(2), of "es @ [?e]"])
      show "at + (kVarEntryHeaderBytes + ?vb) = length (section_bytes (es @ [?e]))"
        using "1.prems"(3) vl by (simp add: length_entry_bytes kVarEntryHeaderBytes_def)
      show "data = section_bytes (es @ [?e]) @ drop (at + (kVarEntryHeaderBytes + ?vb)) data"
        using "1.prems"(4) e by (simp add: kVarEntryHeaderBytes_def add.assoc)
      show "offs @ [of_nat at] = entry_offsets 0 (es @ [?e])"
        using "1.prems"(3,5) by (simp add: entry_offsets_append)
      show "sorted_wrt (<) (map fst (es @ [?e]))" using "1.prems"(6) key by (simp add: sorted_wrt_append)
      show "\<forall>e \<in> set (es @ [?e]). unat (vk_block (fst e)) < n" using "1.prems"(7) g(2) by auto
    qed
    then show ?thesis .
  qed
qed

lemma Decode_loop_complete:
  assumes "entries_ok es" "es = done @ todo" "\<forall>e \<in> set es. unat (vk_block (fst e)) < n"
  shows "Decode_loop (section_bytes es) n (length (section_bytes done)) (entry_offsets 0 done) = Inr (pack es)"
  using assms(2)
proof (induction todo arbitrary: "done")
  case Nil
  then show ?case by (simp add: Decode_loop.simps [of "section_bytes _"] pack_def)
next
  case (Cons e todo)
  let ?data = "section_bytes es" and ?at = "length (section_bytes done)"
  have l: "length ?data \<le> 0xFFFFFFFF" and s: "sorted_wrt (<) (map fst es)" using assms(1) by (auto simp: entries_ok_def)
  have d: "drop ?at ?data = WriteHeader (fst e) (length (snd e)) @ snd e @ section_bytes todo"
    by (simp add: Cons.prems entry_bytes_def)
  have sz: "length ?data = ?at + (12 + length (snd e)) + length (section_bytes todo)"
    by (simp add: Cons.prems length_entry_bytes)
  then have b: "length (snd e) \<le> 0xFFFFFFFF" using l by simp
  note h = header_at [OF d b]
  have "\<not> (entry_offsets 0 done \<noteq> [] \<and> fst e \<le> KeyAt \<lparr>vdata = ?data, voffsets = entry_offsets 0 done\<rparr> (last (entry_offsets 0 done)))"
  proof (cases "done = []")
    case False
    have "fst (last done) < fst e" using s False by (auto simp: Cons.prems sorted_wrt_append)
    then show ?thesis using KeyAt_last [of ?data "done" "section_bytes (e # todo)"] False l by (simp add: Cons.prems not_le)
  qed simp
  moreover have "unat (vk_block (fst e)) < n" using assms(3) Cons.prems by simp
  ultimately have "Decode_loop ?data n ?at (entry_offsets 0 done) =
      Decode_loop ?data n (?at + (kVarEntryHeaderBytes + length (snd e))) (entry_offsets 0 done @ [of_nat ?at])"
    using sz by (subst Decode_loop.simps) (auto simp: Let_def h kVarEntryHeaderBytes_def)
  also have "\<dots> = Decode_loop ?data n (length (section_bytes (done @ [e]))) (entry_offsets 0 (done @ [e]))"
    by (simp add: length_entry_bytes entry_offsets_append kVarEntryHeaderBytes_def)
  also have "\<dots> = Inr (pack es)" by (rule Cons.IH) (simp add: Cons.prems)
  finally show ?case .
qed

section \<open>Interface: a canonical map with bounded storage\<close>

text \<open>
  The contract of the value store: \<open>find\<close> is the map, \<open>assign\<close> and \<open>remove\<close> update it, a
  store is determined by its map, and an assignment succeeds whenever its result can be stored.
\<close>

locale value_map =
  fixes find :: "'m \<Rightarrow> 'k \<Rightarrow> 'v option" and assign :: "'m \<Rightarrow> 'k \<Rightarrow> 'v \<Rightarrow> 'm res"
    and remove :: "'m \<Rightarrow> 'k \<Rightarrow> 'm" and inv :: "'m \<Rightarrow> bool"
  assumes assign_ok: "inv m \<Longrightarrow> assign m k v = Inr m' \<Longrightarrow> inv m' \<and> find m' = (find m)(k \<mapsto> v)"
    and assign_total: "inv m \<Longrightarrow> inv n \<Longrightarrow> find n = (find m)(k \<mapsto> v) \<Longrightarrow> assign m k v = Inr n"
    and remove_ok: "inv m \<Longrightarrow> inv (remove m k) \<and> find (remove m k) = (find m)(k := None)"
    and canonical_map: "inv m \<Longrightarrow> inv n \<Longrightarrow> find m = find n \<Longrightarrow> m = n"
begin

lemma put_ok:
  assumes "inv m" "(case ov of Some v \<Rightarrow> assign m k v | None \<Rightarrow> Inr (remove m k)) = Inr m'"
  shows "inv m' \<and> find m' = (find m)(k := ov)"
  using assms assign_ok remove_ok by (cases ov) auto

lemma put_total:
  assumes "inv m" "inv n" "find n = (find m)(k := ov)"
  shows "(case ov of Some v \<Rightarrow> assign m k v | None \<Rightarrow> Inr (remove m k)) = Inr n"
  using assms assign_total remove_ok canonical_map by (cases ov) auto

text \<open>Putting the previous value back restores the store itself.\<close>

lemma put_back:
  assumes "inv m" "(case ov of Some v \<Rightarrow> assign m k v | None \<Rightarrow> Inr (remove m k)) = Inr m'"
  shows "(case find m k of Some v \<Rightarrow> assign m' k v | None \<Rightarrow> Inr (remove m' k)) = Inr m"
  using put_ok [OF assms] assms(1) by (intro put_total) (auto simp: fun_eq_iff)

lemma put_commute:
  assumes "inv m" "k \<noteq> l" "(case ov of Some v \<Rightarrow> assign m k v | None \<Rightarrow> Inr (remove m k)) = Inr a"
    "(case ow of Some v \<Rightarrow> assign a l v | None \<Rightarrow> Inr (remove a l)) = Inr b"
    "(case ow of Some v \<Rightarrow> assign m l v | None \<Rightarrow> Inr (remove m l)) = Inr c"
  shows "(case ov of Some v \<Rightarrow> assign c k v | None \<Rightarrow> Inr (remove c k)) = Inr b"
proof (rule put_total)
  have a: "inv a" "find a = (find m)(k := ov)" using put_ok [OF assms(1,3)] by auto
  have b: "inv b" "find b = (find a)(l := ow)" using put_ok [OF a(1) assms(4)] by auto
  have c: "inv c" "find c = (find m)(l := ow)" using put_ok [OF assms(1,5)] by auto
  show "inv c" "inv b" by (fact c(1), fact b(1))
  show "find b = (find c)(k := ov)" using a(2) b(2) c(2) assms(2) by (simp add: fun_upd_twist)
qed

end

definition vars_ok :: "ChunkVars \<Rightarrow> bool" where
  "vars_ok vars \<longleftrightarrow> (\<exists>es. entries_ok es \<and> vars = pack es)"

lemma vars_okE:
  assumes "vars_ok vars"
  obtains es where "entries_ok es" "vars = pack es" "Find vars = map_of es" "vdata vars = section_bytes es"
  using assms Find_pack by (auto simp: vars_ok_def pack_def)

lemma entries_ok_unique: "entries_ok es \<Longrightarrow> entries_ok fs \<Longrightarrow> map_of es = map_of fs \<Longrightarrow> es = fs"
  using sorted_entries_eq by (auto simp: entries_ok_def)

lemma entries_ok_with_value:
  "entries_ok es \<Longrightarrow> \<not> length (section_bytes (with_value k ov es)) > 0xFFFFFFFF \<Longrightarrow> entries_ok (with_value k ov es)"
  using sorted_with_value by (auto simp: entries_ok_def)

lemma section_without: "length (section_bytes (with_value k None es)) \<le> length (section_bytes es)" if "entries_ok es"
proof -
  have "es = with_value k (map_of es k) es" using split_at_key that by (auto simp: entries_ok_def)
  then have "length (section_bytes es) = length (section_bytes (with_value k (map_of es k) es))" by simp
  then show ?thesis by (simp add: with_value_def)
qed

interpretation vars_map: value_map Find Assign "\<lambda>m k. fst (Remove m k)" vars_ok
proof
  fix m n m' k v assume "vars_ok m"
  then obtain es where es: "entries_ok es" "m = pack es" "Find m = map_of es" by (rule vars_okE)
  {
    assume a: "Assign m k v = Inr m'"
    then have "m' = pack (with_value k (Some v) es)" "\<not> length (section_bytes (with_value k (Some v) es)) > 0xFFFFFFFF"
      using Assign_pack [OF es(1), of k v] es(2) by (auto split: if_splits)
    then show "vars_ok m' \<and> Find m' = (Find m)(k \<mapsto> v)"
      using entries_ok_with_value [OF es(1), of k "Some v"] Find_pack es(3)
      by (auto simp: vars_ok_def map_of_with_value fun_eq_iff)
  next
    assume "vars_ok n" and n: "Find n = (Find m)(k \<mapsto> v)"
    then obtain fs where fs: "entries_ok fs" "n = pack fs" "Find n = map_of fs" by (elim vars_okE)
    have "fs = with_value k (Some v) es"
      by (rule sorted_entries_eq) (use es fs n in \<open>auto simp: entries_ok_def sorted_with_value map_of_with_value\<close>)
    then show "Assign m k v = Inr n" using Assign_pack [OF es(1), of k v] es(2) fs by (simp add: entries_ok_def)
  next
    have "entries_ok (with_value k None es)"
      using entries_ok_with_value [OF es(1)] section_without [OF es(1), of k] es(1) by (simp add: entries_ok_def)
    then show "vars_ok (fst (Remove m k)) \<and> Find (fst (Remove m k)) = (Find m)(k := None)"
      using Remove_pack [OF es(1), of k] Find_pack es(2,3) by (auto simp: vars_ok_def map_of_with_value fun_eq_iff)
  next
    assume "vars_ok n" "Find m = Find n"
    then obtain fs where "entries_ok fs" "n = pack fs" "Find n = map_of fs" by (elim vars_okE)
    then show "m = n" using es \<open>Find m = Find n\<close> entries_ok_unique by metis
  }
qed

section \<open>Updates\<close>

lemma set_value_put:
  "set_value vars c = (case vc_value c of Some v \<Rightarrow> Assign vars (vc_key c) v | None \<Rightarrow> Inr (fst (Remove vars (vc_key c))))"
  by (simp add: set_value_def)

lemma set_value_ok:
  "vars_ok vars \<Longrightarrow> set_value vars c = Inr vars' \<Longrightarrow> vars_ok vars' \<and> Find vars' = (Find vars)(vc_key c := vc_value c)"
  unfolding set_value_put by (rule vars_map.put_ok)

definition changed_map :: "VarChange list \<Rightarrow> (VarKey \<Rightarrow> bytes option) \<Rightarrow> VarKey \<Rightarrow> bytes option" where
  "changed_map cs m = fold (\<lambda>c m. m(vc_key c := vc_value c)) cs m"

lemma changed_map_Cons: "changed_map (c # cs) m = changed_map cs (m(vc_key c := vc_value c))"
  by (simp add: changed_map_def)

lemma map_of_apply_changes: "map_of (apply_changes cs es) = changed_map cs (map_of es)"
  unfolding apply_changes_def changed_map_def by (induction cs arbitrary: es) (simp_all add: map_of_with_value)

lemma Merge_ok:
  assumes "vars_ok vars" "Merge vars cs = Inr m"
  shows "vars_ok m \<and> Find m = changed_map cs (Find vars)"
proof -
  obtain es where es: "entries_ok es" "vars = pack es" "Find vars = map_of es" using assms(1) by (rule vars_okE)
  have a: "ascending cs" using assms(2) by (auto simp: Merge_def)
  then have m: "m = pack (apply_changes cs es)" "entries_ok (apply_changes cs es)"
    using Merge_pack [OF es(1) a] assms(2) es sorted_apply_changes by (auto simp: entries_ok_def split: if_splits)
  have "Find m = map_of (apply_changes cs es)" using Find_pack [OF m(2)] m(1) by (intro ext) simp
  then show ?thesis unfolding es(3) map_of_apply_changes using m by (auto simp: vars_ok_def)
qed

lemma Merge_total:
  assumes "vars_ok vars" "ascending cs" "vars_ok m" "Find m = changed_map cs (Find vars)"
  shows "Merge vars cs = Inr m"
proof -
  obtain es where es: "entries_ok es" "vars = pack es" "Find vars = map_of es" using assms(1) by (rule vars_okE)
  obtain fs where fs: "entries_ok fs" "m = pack fs" "Find m = map_of fs" using assms(3) by (rule vars_okE)
  have "fs = apply_changes cs es"
    by (rule sorted_entries_eq)
       (use es fs assms(4) sorted_apply_changes in \<open>auto simp: entries_ok_def map_of_apply_changes\<close>)
  then show ?thesis using Merge_pack [OF es(1) assms(2)] es fs by (simp add: entries_ok_def)
qed

lemma rfold_set_value:
  "vars_ok vars \<Longrightarrow> rfold (\<lambda>c vars. set_value vars c) cs vars = Inr m \<Longrightarrow> vars_ok m \<and> Find m = changed_map cs (Find vars)"
proof (induction cs arbitrary: vars)
  case (Cons c cs)
  from Cons.prems(2) obtain v1 where v1: "set_value vars c = Inr v1" "rfold (\<lambda>c vars. set_value vars c) cs v1 = Inr m" by auto
  note s = set_value_ok [OF Cons.prems(1) v1(1)]
  show ?case
    using Cons.IH [OF conjunct1 [OF s] v1(2)] by (simp only: conjunct2 [OF s] changed_map_Cons)
qed (simp add: changed_map_def)

lemma check_keys:
  "ApplyVarUpdate_check vars prev cs = Inr keys \<Longrightarrow>
    keys = map vc_key cs \<and> ascending cs \<and> (\<forall>c \<in> set cs. \<not> change_same vars c \<and> (\<forall>p. prev = Some p \<longrightarrow> p < vc_key c))"
proof (induction cs arbitrary: prev keys)
  case (Cons c cs)
  from Cons.prems obtain ks where k: "ApplyVarUpdate_check vars (Some (vc_key c)) cs = Inr ks" "keys = vc_key c # ks"
    "\<not> change_same vars c" "\<And>p. prev = Some p \<Longrightarrow> p < vc_key c"
    by (auto simp: not_le split: option.splits)
  have IH: "ks = map vc_key cs" "ascending cs" "\<forall>d \<in> set cs. \<not> change_same vars d \<and> vc_key c < vc_key d"
    using Cons.IH [OF k(1)] by auto
  have "ascending (c # cs)" using IH(2,3) by (simp add: ascending_sorted)
  then show ?case using IH k by (auto intro: less_trans)
qed simp

lemma ApplyVarUpdate_cases:
  assumes "ApplyVarUpdate vars update = Inr (vars', undo)"
  shows "(\<exists>r. vu_replace update = Some r \<and> vu_changes update = [] \<and> vars' = r \<and> vn_previous undo = Some vars \<and> vn_keys undo = []) \<or>
    (vu_replace update = None \<and> ascending (vu_changes update) \<and> vn_keys undo = map vc_key (vu_changes update) \<and>
      (\<forall>c \<in> set (vu_changes update). \<not> change_same vars c) \<and>
      ((Merge vars (vu_changes update) = Inr vars' \<and> vn_previous undo = Some vars) \<or>
       (\<exists>c. vu_changes update = [c] \<and> set_value vars c = Inr vars' \<and> vn_previous undo = None \<and>
         vn_previous_values undo = [\<lparr>vc_key = vc_key c, vc_value = Find vars (vc_key c)\<rparr>])))"
proof (cases "vu_replace update")
  case None
  then obtain keys where k: "ApplyVarUpdate_check vars None (vu_changes update) = Inr keys"
    using assms by (auto simp: ApplyVarUpdate_def)
  show ?thesis
  proof (cases "length (vu_changes update) = 1")
    case True
    then obtain c where "vu_changes update = [c]" by (cases "vu_changes update") auto
    then show ?thesis using None k check_keys [OF k] assms by (auto simp: ApplyVarUpdate_def Let_def)
  next
    case False
    then show ?thesis using None k check_keys [OF k] assms by (auto simp: ApplyVarUpdate_def Let_def)
  qed
qed (use assms in \<open>auto simp: ApplyVarUpdate_def split: if_splits\<close>)

lemma ApplyVarUpdate_ok:
  assumes "vars_ok vars" "vu_replace update = None" "ApplyVarUpdate vars update = Inr (vars', undo)"
  shows "vars_ok vars' \<and> Find vars' = changed_map (vu_changes update) (Find vars)"
  using ApplyVarUpdate_cases [OF assms(3)] assms(1,2) Merge_ok set_value_ok [OF assms(1)]
  by (auto simp: changed_map_def)

lemma changed_map_other: "k \<notin> vc_key ` set cs \<Longrightarrow> changed_map cs m k = m k"
  unfolding changed_map_def by (induction cs arbitrary: m) auto

lemma changed_map_at:
  "sorted_wrt (<) (map vc_key cs) \<Longrightarrow> c \<in> set cs \<Longrightarrow> changed_map cs m (vc_key c) = vc_value c"
proof (induction cs arbitrary: m)
  case (Cons d cs)
  show ?case
  proof (cases "c = d")
    case True
    then have "vc_key c \<notin> vc_key ` set cs" using Cons.prems by auto
    then show ?thesis using True changed_map_other [of "vc_key c" cs] by (simp add: changed_map_def)
  next
    case False
    then show ?thesis using Cons.IH [of "m(vc_key d := vc_value d)"] Cons.prems by (simp add: changed_map_Cons del: fun_upd_apply)
  qed
qed simp

lemma length_with_value:
  assumes "entries_ok es"
  shows "length (section_bytes (with_value k ov es)) + (case map_of es k of None \<Rightarrow> 0 | Some w \<Rightarrow> 12 + length w) =
    length (section_bytes es) + (case ov of None \<Rightarrow> 0 | Some v \<Rightarrow> 12 + length v)"
proof -
  have "es = with_value k (map_of es k) es" using split_at_key assms by (auto simp: entries_ok_def)
  then have "length (section_bytes es) = length (section_bytes (with_value k (map_of es k) es))" by simp
  then show ?thesis by (auto simp: with_value_def length_entry_bytes split: option.splits)
qed

lemma VarsSizeAfter_fold:
  assumes "entries_ok es" "sorted_wrt (<) (map vc_key cs)"
    "sorted_wrt (<) (map fst cur)" "\<forall>c \<in> set cs. map_of cur (vc_key c) = map_of es (vc_key c)"
  shows "fold (\<lambda>change size.
      let size = (case Find (pack es) (vc_key change) of None \<Rightarrow> size | Some w \<Rightarrow> size - (kVarEntryHeaderBytes + length w))
      in case vc_value change of None \<Rightarrow> size | Some v \<Rightarrow> size + (kVarEntryHeaderBytes + length v))
      cs (length (section_bytes cur)) = length (section_bytes (apply_changes cs cur))"
  using assms(2-)
proof (induction cs arbitrary: cur)
  case (Cons c cs)
  let ?w = "with_value (vc_key c) (vc_value c) cur"
  have "cur = with_value (vc_key c) (map_of cur (vc_key c)) cur" by (rule split_at_key [OF Cons.prems(2)])
  then have "length (section_bytes cur) = length (section_bytes (with_value (vc_key c) (map_of es (vc_key c)) cur))"
    using Cons.prems(3) by simp
  then have "(let size = (case Find (pack es) (vc_key c) of None \<Rightarrow> length (section_bytes cur)
        | Some w \<Rightarrow> length (section_bytes cur) - (kVarEntryHeaderBytes + length w))
      in case vc_value c of None \<Rightarrow> size | Some v \<Rightarrow> size + (kVarEntryHeaderBytes + length v)) = length (section_bytes ?w)"
    by (auto simp: Find_pack [OF assms(1)] with_value_def length_entry_bytes kVarEntryHeaderBytes_def split: option.splits)
  moreover have "\<forall>d \<in> set cs. map_of ?w (vc_key d) = map_of es (vc_key d)"
    using Cons.prems(1,3) by (auto simp: map_of_with_value)
  ultimately show ?case
    using Cons.IH [of ?w] Cons.prems(1,2) sorted_with_value by (simp add: apply_changes_def)
qed (simp add: apply_changes_def)

section \<open>Properties\<close>

text \<open>
  Claim C27. The encoded VARS section with its offsets is a map: \<open>Assign\<close> sets exactly one key,
  \<open>Remove\<close> clears exactly one and reports whether it was there, both keep the section
  well formed (entries in ascending key order, every offset at its entry), and \<open>Assign\<close> fails
  only with a \<open>std::length_error\<close>, when no section of at most 4 GiB holds the result.
\<close>

theorem chunk_vars_refine_map:
  assumes "vars_ok vars"
  shows "(case Assign vars k v of
        Inr vars' \<Rightarrow> vars_ok vars' \<and> Find vars' = (Find vars)(k \<mapsto> v)
      | Inl e \<Rightarrow> (\<exists>m. e = LengthError m) \<and> (\<nexists>n. vars_ok n \<and> Find n = (Find vars)(k \<mapsto> v))) \<and>
    vars_ok (fst (Remove vars k)) \<and> Find (fst (Remove vars k)) = (Find vars)(k := None) \<and>
    (snd (Remove vars k) \<longleftrightarrow> Find vars k \<noteq> None)"
proof -
  obtain es where es: "entries_ok es" "vars = pack es" "Find vars = map_of es" using assms by (rule vars_okE)
  have "(case Assign vars k v of
        Inr vars' \<Rightarrow> vars_ok vars' \<and> Find vars' = (Find vars)(k \<mapsto> v)
      | Inl e \<Rightarrow> (\<exists>m. e = LengthError m) \<and> (\<nexists>n. vars_ok n \<and> Find n = (Find vars)(k \<mapsto> v)))"
  proof (cases "Assign vars k v")
    case (Inl e)
    then have "\<exists>m. e = LengthError m" using Assign_pack [OF es(1), of k v] es(2) by (auto split: if_splits)
    then show ?thesis using Inl vars_map.assign_total [OF assms] by auto
  next
    case (Inr m)
    then show ?thesis using vars_map.assign_ok [OF assms Inr] by simp
  qed
  then show ?thesis
    using vars_map.remove_ok [OF assms, of k] Remove_pack [OF es(1), of k] es(2,3) by simp
qed

definition example_key :: "nat \<Rightarrow> VarKey" where
  "example_key b = VarKey 7 (of_nat b)"

definition example_vars :: ChunkVars where
  "example_vars = pack [(example_key 11, [0x61, 0x62]), (example_key 13, [])]"

lemma example_key_less: "example_key 11 < example_key 12" "example_key 12 < example_key 13" "example_key 11 < example_key 13"
  by (simp_all add: example_key_def less_VarKey_def packed_def)

lemmas example_key_not_less = example_key_less [THEN less_not_sym]

lemma example_vars_ok: "vars_ok example_vars"
  unfolding vars_ok_def example_vars_def
  by (intro exI [of _ "[(example_key 11, [0x61, 0x62]), (example_key 13, [])]"] conjI refl)
     (simp add: entries_ok_def example_key_less length_entry_bytes)

lemma example_vars_entries:
  "example_vars = pack [(example_key 11, [0x61, 0x62]), (example_key 13, [])]"
  "entries_ok [(example_key 11, [0x61, 0x62]), (example_key 13, [])]"
  by (simp_all add: example_vars_def entries_ok_def example_key_less length_entry_bytes)

definition example_change :: VarChange where
  "example_change = \<lparr>vc_key = example_key 12, vc_value = Some [1]\<rparr>"

definition example_after :: ChunkVars where
  "example_after = pack [(example_key 11, [0x61, 0x62]), (example_key 12, [1]), (example_key 13, [])]"

lemma example_set: "set_value example_vars example_change = Inr example_after"
  by (simp add: set_value_def example_change_def example_vars_entries(1) Assign_pack [OF example_vars_entries(2)]
      with_value_def below_key_def above_key_def example_key_less example_key_not_less length_entry_bytes example_after_def)

definition example_undo :: VarUndo where
  "example_undo = \<lparr>vn_replaced = False, vn_keys = [example_key 12], vn_previous = None,
    vn_previous_values = [\<lparr>vc_key = example_key 12, vc_value = None\<rparr>]\<rparr>"

lemma example_update:
  "ApplyVarUpdate example_vars \<lparr>vu_changes = [example_change], vu_replace = None\<rparr> = Inr (example_after, example_undo)"
proof -
  have "Find example_vars (example_key 12) = None"
    unfolding example_vars_entries(1) Find_pack [OF example_vars_entries(2)] using example_key_less by auto
  then show ?thesis
    using example_set by (simp add: ApplyVarUpdate_def Let_def change_same_def example_change_def example_undo_def)
qed

theorem chunk_vars_refine_map_witness:
  "(case Assign example_vars (example_key 12) [1] of
        Inr vars' \<Rightarrow> vars_ok vars' \<and> Find vars' = (Find example_vars)(example_key 12 \<mapsto> [1])
      | Inl e \<Rightarrow> (\<exists>m. e = LengthError m) \<and> (\<nexists>n. vars_ok n \<and> Find n = (Find example_vars)(example_key 12 \<mapsto> [1]))) \<and>
    vars_ok (fst (Remove example_vars (example_key 12))) \<and>
    Find (fst (Remove example_vars (example_key 12))) = (Find example_vars)(example_key 12 := None) \<and>
    (snd (Remove example_vars (example_key 12)) \<longleftrightarrow> Find example_vars (example_key 12) \<noteq> None)"
  by (rule chunk_vars_refine_map [OF example_vars_ok])

text \<open>
  Claim C28. The one-pass \<open>Merge\<close> agrees with setting the values one at a time: whenever the
  changes, in strictly ascending key order, can be made by \<open>Assign\<close> and \<open>Remove\<close>, \<open>Merge\<close>
  returns the very same section and offsets.
\<close>

theorem Merge_one_at_a_time:
  assumes "vars_ok vars" "ascending cs" "rfold (\<lambda>c vars. set_value vars c) cs vars = Inr m"
  shows "Merge vars cs = Inr m"
  using Merge_total [OF assms(1,2)] rfold_set_value [OF assms(1,3)] by blast

theorem Merge_one_at_a_time_witness: "Merge example_vars [example_change] = Inr example_after"
  by (rule Merge_one_at_a_time [OF example_vars_ok]) (simp_all add: example_set)

text \<open>
  Claim C29. An update can be taken back exactly: undoing what \<open>ApplyVarUpdate\<close> reports gives
  back the section it changed, byte for byte and offset for offset, and never fails.
\<close>

theorem UndoVarUpdate_restores:
  assumes "vars_ok vars" "ApplyVarUpdate vars update = Inr (vars', undo)"
  shows "UndoVarUpdate vars' undo = Inr vars"
  using ApplyVarUpdate_cases [OF assms(2)]
proof (elim disjE exE conjE)
  fix c assume c: "set_value vars c = Inr vars'" "vn_previous undo = None"
    "vn_previous_values undo = [\<lparr>vc_key = vc_key c, vc_value = Find vars (vc_key c)\<rparr>]"
  have "set_value vars' \<lparr>vc_key = vc_key c, vc_value = Find vars (vc_key c)\<rparr> = Inr vars"
    using vars_map.put_back [OF assms(1) c(1) [unfolded set_value_put]] by (simp add: set_value_put split: option.splits)
  then show ?thesis using c by (simp add: UndoVarUpdate_def)
qed (simp_all add: UndoVarUpdate_def)

theorem UndoVarUpdate_restores_witness: "UndoVarUpdate example_after example_undo = Inr example_vars"
  by (rule UndoVarUpdate_restores [OF example_vars_ok example_update])

lemma ApplyVarUpdate_changes:
  assumes "vars_ok vars" "vu_replace update = None" "ApplyVarUpdate vars update = Inr (vars', undo)"
  shows "vars_ok vars' \<and> set (vn_keys undo) = {k. Find vars' k \<noteq> Find vars k} \<and>
    (\<forall>c \<in> set (vu_changes update). Find vars' (vc_key c) = vc_value c) \<and>
    VarsSizeAfter vars update = length (vdata vars')"
proof -
  let ?cs = "vu_changes update"
  have a: "ascending ?cs" "vn_keys undo = map vc_key ?cs" "\<forall>c \<in> set ?cs. \<not> change_same vars c"
    using ApplyVarUpdate_cases [OF assms(3)] assms(2) by auto
  have s: "sorted_wrt (<) (map vc_key ?cs)" using a(1) by (simp add: ascending_sorted)
  have m: "vars_ok vars'" "Find vars' = changed_map ?cs (Find vars)" using ApplyVarUpdate_ok [OF assms] by auto
  have at: "Find vars' (vc_key c) = vc_value c" if "c \<in> set ?cs" for c
    using changed_map_at [OF s that] by (simp add: m(2))
  have "Find vars (vc_key c) \<noteq> vc_value c" if "c \<in> set ?cs" for c
    using a(3) that by (auto simp: change_same_def split: option.splits)
  then have keys: "set (vn_keys undo) = {k. Find vars' k \<noteq> Find vars k}"
    using at changed_map_other [of _ ?cs "Find vars"] unfolding a(2) by (fastforce simp: m(2))
  obtain es where es: "entries_ok es" "vars = pack es" "Find vars = map_of es" using assms(1) by (rule vars_okE)
  obtain fs where fs: "entries_ok fs" "Find vars' = map_of fs" "vdata vars' = section_bytes fs" using m(1) by (rule vars_okE)
  have "fs = apply_changes ?cs es"
    by (rule sorted_entries_eq)
       (use es fs m(2) sorted_apply_changes in \<open>auto simp: entries_ok_def map_of_apply_changes\<close>)
  then have "VarsSizeAfter vars update = length (vdata vars')"
    using VarsSizeAfter_fold [OF es(1) s, of es] es fs assms(2)
    by (simp add: VarsSizeAfter_def entries_ok_def pack_def)
  then show ?thesis using m(1) keys at by simp
qed

text \<open>
  Claim C30. An update accepted on a well-formed section, and with a well-formed replacement if it has
  one, does what its undo record says.  An update by changes reports exactly
  the keys whose value it changed, each now with the value the update gives.  An update by
  replacement, which carries no changes, puts the given section in place of the old one, and instead of keys reports that it
  replaced, with the old section kept for the undo.  In both cases the section after it is well formed, and the
  size check made beforehand is exact: \<open>VarsSizeAfter\<close> is the encoded size of the section after the
  update.
\<close>

theorem ApplyVarUpdate_exact:
  assumes "vars_ok vars" "\<forall>r. vu_replace update = Some r \<longrightarrow> vars_ok r" "ApplyVarUpdate vars update = Inr (vars', undo)"
  shows "vars_ok vars' \<and> VarsSizeAfter vars update = length (vdata vars') \<and>
    (case vu_replace update of
       None \<Rightarrow> \<not> vn_replaced undo \<and> set (vn_keys undo) = {k. Find vars' k \<noteq> Find vars k} \<and>
         (\<forall>c \<in> set (vu_changes update). Find vars' (vc_key c) = vc_value c)
     | Some r \<Rightarrow> vn_replaced undo \<and> vn_keys undo = [] \<and> vu_changes update = [] \<and> vars' = r \<and> vn_previous undo = Some vars)"
proof (cases "vu_replace update")
  case None
  then have "\<not> vn_replaced undo" using assms(3) by (auto simp: ApplyVarUpdate_def Let_def split: if_splits)
  then show ?thesis using None ApplyVarUpdate_changes [OF assms(1) None assms(3)] by simp
next
  case (Some r)
  then show ?thesis using assms by (auto simp: ApplyVarUpdate_def VarsSizeAfter_def split: if_splits)
qed

theorem ApplyVarUpdate_exact_witness:
  "vars_ok example_after \<and> \<not> vn_replaced example_undo \<and> set (vn_keys example_undo) = {k. Find example_after k \<noteq> Find example_vars k} \<and>
    Find example_after (vc_key example_change) = vc_value example_change \<and>
    VarsSizeAfter example_vars \<lparr>vu_changes = [example_change], vu_replace = None\<rparr> = length (vdata example_after)"
  using ApplyVarUpdate_exact [OF example_vars_ok _ example_update] by simp

lemma Decode_vars_ok:
  assumes "vars_ok vars" "\<forall>k. Find vars k \<noteq> None \<longrightarrow> unat (vk_block k) < block_count"
    "length (vdata vars) \<le> kVarMaxChunkBytesLimit"
  shows "Decode (vdata vars) block_count = Inr vars"
proof -
  obtain es where es: "entries_ok es" "vars = pack es" "Find vars = map_of es" "vdata vars = section_bytes es"
    using assms(1) by (auto elim: vars_okE)
  have "\<forall>e \<in> set es. unat (vk_block (fst e)) < block_count"
    using assms(2) es(3) by (metis not_None_eq weak_map_of_SomeI prod.collapse)
  then show ?thesis using Decode_loop_complete [OF es(1), of "[]" es] es assms(3) by (simp add: Decode_def)
qed

lemma Decode_sound:
  assumes "Decode data block_count = Inr vars"
  shows "vars_ok vars" "vdata vars = data" "\<forall>k. Find vars k \<noteq> None \<longrightarrow> unat (vk_block k) < block_count"
proof -
  have "length data \<le> 0xFFFFFFFF" using assms by (auto simp: Decode_def kVarMaxChunkBytesLimit_def split: if_splits)
  then obtain fs where f: "vars = pack fs" "entries_ok fs" "section_bytes fs = data" "\<forall>e \<in> set fs. unat (vk_block (fst e)) < block_count"
    using Decode_loop_sound [of data block_count 0 "[]" vars "[]"] assms by (auto simp: Decode_def split: if_splits)
  then show "vars_ok vars" "vdata vars = data" by (auto simp: vars_ok_def pack_def)
  show "\<forall>k. Find vars k \<noteq> None \<longrightarrow> unat (vk_block k) < block_count"
    using f Find_pack [OF f(2)] by (fastforce dest: map_of_SomeD)
qed

text \<open>
  Claim C31. Parsing a VARS section and the section itself are inverse: a section that parses is
  well formed, holds exactly the bytes parsed and only blocks of the chunk, and a well-formed
  section of a chunk within the size limit always parses, to itself.
\<close>

theorem vars_section_round_trip:
  "(Decode data block_count = Inr vars \<longrightarrow> vars_ok vars \<and> vdata vars = data \<and>
      (\<forall>k. Find vars k \<noteq> None \<longrightarrow> unat (vk_block k) < block_count)) \<and>
    (vars_ok vars \<and> (\<forall>k. Find vars k \<noteq> None \<longrightarrow> unat (vk_block k) < block_count) \<and>
      length (vdata vars) \<le> kVarMaxChunkBytesLimit \<longrightarrow> Decode (vdata vars) block_count = Inr vars)"
  using Decode_sound [of data block_count vars] Decode_vars_ok [of vars block_count] by blast

theorem vars_section_round_trip_witness:
  "Decode (vdata example_vars) 16 = Inr example_vars \<and> vars_ok example_vars"
proof -
  have "\<forall>k. Find example_vars k \<noteq> None \<longrightarrow> unat (vk_block k) < 16"
    unfolding example_vars_entries(1) Find_pack [OF example_vars_entries(2)] by (simp add: example_key_def)
  moreover have "length (vdata example_vars) \<le> kVarMaxChunkBytesLimit"
    by (simp add: example_vars_def pack_def length_entry_bytes kVarMaxChunkBytesLimit_def)
  ultimately show ?thesis
    using vars_section_round_trip [of "vdata example_vars" 16 example_vars] example_vars_ok by blast
qed

end
