(* ===== verification/Chunk_Layout.thy ===== *)
theory Chunk_Layout
  imports Schema_Laws Chunk_Vars_Laws
begin

text \<open>
  The layout of a chunk's payload, from \<open>src/chunk_layout.cpp\<close>: the place of every fixed-width
  column, the bit copies in and out of the payload, masking of padding and of empty values, and
  \<open>TranslateChunk\<close>, which turns a chunk of one schema version into the next.

  Sizes are natural numbers: a chunk has at most 1048576 blocks and a block at most 65535 bits
  (\<open>geometry.cpp\<close>), so no product of the source reaches 2^64. The pointer \<open>data + begin\<close> of the
  source is the bit offset \<open>8 * begin\<close> here.
\<close>

section \<open>Bits of a byte array\<close>

definition BytesForBits :: "nat \<Rightarrow> nat" where
  "BytesForBits bits = (bits + 7) div 8"

definition GetBit :: "bytes \<Rightarrow> nat \<Rightarrow> bool" where
  "GetBit data b = (drop_bit (b mod 8) (data ! (b div 8)) AND 1 \<noteq> 0)"

definition PutBit :: "bytes \<Rightarrow> nat \<Rightarrow> bool \<Rightarrow> bytes" where
  "PutBit data b v =
    (let mask = push_bit (b mod 8) 1 in
     data[b div 8 := (if v then data ! (b div 8) OR mask else data ! (b div 8) AND NOT mask)])"

definition ClearBits :: "bytes \<Rightarrow> nat \<Rightarrow> nat \<Rightarrow> bytes" where
  "ClearBits data bit_offset width =
    (if bit_offset mod 8 = 0 \<and> width mod 8 = 0
     then take (bit_offset div 8) data @ replicate (width div 8) 0 @ drop (bit_offset div 8 + width div 8) data
     else fold (\<lambda>i data. PutBit data (bit_offset + i) False) [0..<width] data)"

definition ClearTail :: "bytes \<Rightarrow> nat \<Rightarrow> nat \<Rightarrow> nat \<Rightarrow> bytes" where
  "ClearTail data begin bytes used_bits =
    fold (\<lambda>b data. PutBit data (8 * begin + b) False) [used_bits..<bytes * 8] data"

definition WriteValueBits :: "bytes \<Rightarrow> nat \<Rightarrow> bytes \<Rightarrow> nat \<Rightarrow> bytes" where
  "WriteValueBits payload bit_offset value width =
    (if bit_offset mod 8 = 0 \<and> width mod 8 = 0
     then take (bit_offset div 8) payload @ take (width div 8) value @ drop (bit_offset div 8 + width div 8) payload
     else fold (\<lambda>i payload. PutBit payload (bit_offset + i) (GetBit value i)) [0..<width] payload)"

definition ReadValueBits :: "bytes \<Rightarrow> nat \<Rightarrow> nat \<Rightarrow> bytes" where
  "ReadValueBits payload bit_offset width =
    (if bit_offset mod 8 = 0 \<and> width mod 8 = 0
     then take (width div 8) (drop (bit_offset div 8) payload)
     else fold (\<lambda>i value. if GetBit payload (bit_offset + i) then PutBit value i True else value)
       [0..<width] (replicate (BytesForBits width) 0))"

section \<open>The layout\<close>

record FixedColumn =
  fc_column :: nat
  fc_width :: nat
  fc_values :: nat
  fc_validity :: "nat option"

record ChunkLayout =
  cl_schema :: TableSchema
  block_count :: nat
  payload_bytes :: nat
  payload_bytes_limit :: nat
  fixed_columns :: "FixedColumn list"
  fixed_index :: "nat option list"
  by_name :: "string \<rightharpoonup> nat"
  var_by_id :: "u32 \<rightharpoonup> nat"
  by_id :: "u32 \<rightharpoonup> nat"
  bit_string_blocks :: bool

text \<open>\<open>emplace\<close> of an \<open>unordered_map\<close>: an existing key keeps its value.\<close>

definition emplace :: "'k \<Rightarrow> 'v \<Rightarrow> ('k \<rightharpoonup> 'v) \<Rightarrow> ('k \<rightharpoonup> 'v)" where
  "emplace k v m = (if m k = None then m(k \<mapsto> v) else m)"

definition ChunkLayout_column :: "nat \<Rightarrow> nat \<times> Column \<Rightarrow> ChunkLayout \<Rightarrow> ChunkLayout res" where
  "ChunkLayout_column max_payload_bytes ic l =
    (let (i, column) = ic;
         l = l\<lparr>by_name := emplace (col_name column) i (by_name l), by_id := emplace (col_id column) i (by_id l)\<rparr>;
         width = FixedWidthBits (ctype column)
     in if width = 0 then Inr (l\<lparr>var_by_id := emplace (col_id column) i (var_by_id l)\<rparr>)
        else
          let values_at = payload_bytes l;
              offset = values_at + BytesForBits (block_count l * width);
              valid_at = (if nullable column then Some offset else None);
              offset = (if nullable column then offset + BytesForBits (block_count l) else offset)
          in if offset > max_payload_bytes then Inl (InvalidArgument ''chunk payload is too large'')
             else Inr (l\<lparr>payload_bytes := offset,
                 fixed_index := (fixed_index l)[i := Some (length (fixed_columns l))],
                 fixed_columns := fixed_columns l @
                   [\<lparr>fc_column = i, fc_width = width, fc_values = values_at, fc_validity = valid_at\<rparr>]\<rparr>))"

definition MakeChunkLayout :: "TableSchema \<Rightarrow> nat \<Rightarrow> nat \<Rightarrow> ChunkLayout res" where
  "MakeChunkLayout schema count max_payload_bytes =
    rbind (ValidateTableSchema schema) (\<lambda>_.
    rbind (rfold (ChunkLayout_column max_payload_bytes) (enumerate 0 (columns schema))
      \<lparr>cl_schema = schema, block_count = count, payload_bytes = 0, payload_bytes_limit = max_payload_bytes,
       fixed_columns = [], fixed_index = replicate (length (columns schema)) None, by_name = Map.empty,
       var_by_id = Map.empty, by_id = Map.empty, bit_string_blocks = False\<rparr>) (\<lambda>l.
    Inr (l\<lparr>bit_string_blocks := length (columns schema) = 1 \<and> kind (ctype (hd (columns schema))) = kBits \<and>
      \<not> nullable (hd (columns schema))\<rparr>)))"

definition FixedColumnAt :: "ChunkLayout \<Rightarrow> nat \<Rightarrow> FixedColumn option" where
  "FixedColumnAt l index =
    (if index \<ge> length (fixed_index l) then None
     else case fixed_index l ! index of None \<Rightarrow> None | Some f \<Rightarrow> Some (fixed_columns l ! f))"

definition VarColumn :: "ChunkLayout \<Rightarrow> u32 \<Rightarrow> Column option" where
  "VarColumn l column_id = (case var_by_id l column_id of None \<Rightarrow> None | Some i \<Rightarrow> Some (columns (cl_schema l) ! i))"

definition IndexOfId :: "ChunkLayout \<Rightarrow> u32 \<Rightarrow> nat option" where
  "IndexOfId l column_id = by_id l column_id"

definition FindColumn :: "ChunkLayout \<Rightarrow> string \<Rightarrow> nat option" where
  "FindColumn l name = by_name l name"

definition vars_entries :: "ChunkVars \<Rightarrow> (VarKey \<times> bytes) list" where
  "vars_entries vars = map (\<lambda>o'. (KeyAt vars o', value_at vars o')) (voffsets vars)"

definition RequireValidVar :: "ChunkLayout \<Rightarrow> bytes \<Rightarrow> VarKey \<times> bytes \<Rightarrow> unit res" where
  "RequireValidVar l presence e =
    (case VarColumn l (vk_column (fst e)) of
       None \<Rightarrow> Inl (InvalidArgument ''no text or bytes column has this id'')
     | Some column \<Rightarrow>
       if unat (vk_block (fst e)) \<ge> block_count l \<or> \<not> GetBit presence (unat (vk_block (fst e)))
       then Inl (InvalidArgument ''a value of an absent block'')
       else if length (snd e) > unat (csize (ctype column)) then Inl (InvalidArgument ''longer than the type'')
       else if snd e = [] \<and> \<not> nullable column
       then Inl (InvalidArgument ''an empty value stored in a column that cannot be NULL'')
       else if kind (ctype column) = kText \<and> \<not> IsUtf8 (snd e) then Inl (InvalidArgument ''text that is not UTF-8'')
       else Inr ())"

definition RequireValidVars :: "ChunkLayout \<Rightarrow> ChunkVars \<Rightarrow> bytes \<Rightarrow> unit res" where
  "RequireValidVars l vars presence = rfold (\<lambda>e _. RequireValidVar l presence e) (vars_entries vars) ()"

definition MaskColumn :: "ChunkLayout \<Rightarrow> FixedColumn \<Rightarrow> bytes \<Rightarrow> bytes" where
  "MaskColumn l f payload =
    (let value_bits = block_count l * fc_width f;
         payload = ClearTail payload (fc_values f) (BytesForBits value_bits) value_bits
     in case fc_validity f of None \<Rightarrow> payload
        | Some v \<Rightarrow> ClearTail payload v (BytesForBits (block_count l)) (block_count l))"

definition MaskPadding :: "ChunkLayout \<Rightarrow> bytes \<Rightarrow> bytes res" where
  "MaskPadding l payload =
    (if length payload \<noteq> payload_bytes l then Inl (InvalidArgument ''payload size does not match the table's columns'')
     else Inr (fold (MaskColumn l) (fixed_columns l) payload))"

definition ClearGroup :: "ChunkLayout \<Rightarrow> bytes \<Rightarrow> FixedColumn \<Rightarrow> nat \<Rightarrow> bytes \<Rightarrow> bytes" where
  "ClearGroup l presence f grp data =
    (let kept = (case fc_validity f of None \<Rightarrow> presence ! grp | Some v \<Rightarrow> presence ! grp AND data ! (v + grp));
         data = (if kept \<noteq> 0xFF then
             fold (\<lambda>block data. if drop_bit (block mod 8) kept AND 1 = 0
                 then ClearBits data (fc_values f * 8 + block * fc_width f) (fc_width f) else data)
               [grp * 8..<min (block_count l) (grp * 8 + 8)] data
           else data)
     in case fc_validity f of None \<Rightarrow> data | Some v \<Rightarrow> data[v + grp := data ! (v + grp) AND presence ! grp])"

definition ClearEmptyValues :: "ChunkLayout \<Rightarrow> bytes \<Rightarrow> bytes \<Rightarrow> bytes res" where
  "ClearEmptyValues l presence payload =
    (if length payload \<noteq> payload_bytes l \<or> length presence \<noteq> BytesForBits (block_count l)
     then Inl (InvalidArgument ''chunk state size does not match the table's columns'')
     else Inr (fold (\<lambda>f data. fold (ClearGroup l presence f) [0..<BytesForBits (block_count l)] data) (fixed_columns l) payload))"

section \<open>Translating a chunk to the next version\<close>

definition ConversionOf :: "ChunkLayout \<Rightarrow> ChunkLayout \<Rightarrow> u32 \<Rightarrow> Conversion res" where
  "ConversionOf from to column_id =
    (if version (cl_schema to) \<noteq> version (cl_schema from) + 1 \<or> history (cl_schema to) = []
     then Inl (LogicError ''a type change is translated one version at a time'')
     else case find (\<lambda>ch. ch_kind ch = kChangeType \<and> col_id (ch_column ch) = column_id)
         (changes (last (history (cl_schema to)))) of
       Some ch \<Rightarrow> Inr (conversion ch)
     | None \<Rightarrow> Inl (LogicError ''a column changed its type without a recorded change''))"

definition ConvertVar :: "Column \<Rightarrow> Column \<Rightarrow> Conversion \<Rightarrow> VarKey \<times> bytes \<Rightarrow> VarChange list \<Rightarrow> VarChange list res" where
  "ConvertVar before after conv e var_changes =
    (if vk_column (fst e) \<noteq> col_id after then Inr var_changes else
     rbind (ConvertValue before after conv (DecodeVarValue before (snd e))) (\<lambda>v.
     rbind (if v = NullV then Inr None
            else rbind (EncodeVarValue after v) (\<lambda>bs. Inr (if bs = [] \<and> \<not> nullable after then None else Some bs))) (\<lambda>bs.
     Inr (if bs = Some (snd e) then var_changes else var_changes @ [\<lparr>vc_key = fst e, vc_value = bs\<rparr>]))))"

definition ConvertBlock :: "Column \<Rightarrow> Column \<Rightarrow> Conversion \<Rightarrow> FixedColumn \<Rightarrow> FixedColumn \<Rightarrow> bytes \<Rightarrow> bytes \<Rightarrow>
    nat \<Rightarrow> bytes \<Rightarrow> bytes res" where
  "ConvertBlock before after conv old_fixed new_fixed presence payload block nxt =
    (if \<not> GetBit presence block then Inr nxt else
     rbind (if (case fc_validity old_fixed of None \<Rightarrow> True | Some v \<Rightarrow> GetBit payload (8 * v + block))
            then DecodeColumnValue before
              (ReadValueBits payload (fc_values old_fixed * 8 + block * fc_width old_fixed) (fc_width old_fixed))
            else Inr NullV) (\<lambda>v.
     rbind (ConvertValue before after conv v) (\<lambda>v.
     if v = NullV then Inr nxt else
     rbind (EncodeColumnValue_into after v) (\<lambda>encoded.
     let nxt = WriteValueBits nxt (fc_values new_fixed * 8 + block * fc_width new_fixed) encoded (fc_width new_fixed)
     in Inr (case fc_validity new_fixed of None \<Rightarrow> nxt | Some v \<Rightarrow> PutBit nxt (8 * v + block) True)))))"

definition ConvertColumn :: "ChunkLayout \<Rightarrow> ChunkLayout \<Rightarrow> nat \<Rightarrow> nat \<Rightarrow> bytes \<Rightarrow> bytes \<Rightarrow> ChunkVars \<Rightarrow>
    bytes \<times> VarChange list \<Rightarrow> (bytes \<times> VarChange list) res" where
  "ConvertColumn from to from_index to_index presence payload vars state =
    (let before = columns (cl_schema from) ! from_index; after = columns (cl_schema to) ! to_index;
         (nxt, var_changes) = state in
     rbind (ConversionOf from to (col_id after)) (\<lambda>conv.
     case FixedColumnAt to to_index of
       None \<Rightarrow> rbind (rfold (ConvertVar before after conv) (vars_entries vars) var_changes) (\<lambda>var_changes.
         Inr (nxt, var_changes))
     | Some new_fixed \<Rightarrow> (case FixedColumnAt from from_index of
         None \<Rightarrow> Inl (Undefined ''null fixed column'')
       | Some old_fixed \<Rightarrow>
         rbind (rfold (ConvertBlock before after conv old_fixed new_fixed presence payload) [0..<block_count to] nxt) (\<lambda>nxt.
           Inr (nxt, var_changes)))))"

definition copy_array :: "bytes \<Rightarrow> nat \<Rightarrow> bytes \<Rightarrow> nat \<Rightarrow> nat \<Rightarrow> bytes" where
  "copy_array dst at src from n = take at dst @ take n (drop from src) @ drop (at + n) dst"

definition AddedBlock :: "Column \<Rightarrow> FixedColumn option \<Rightarrow> bytes \<Rightarrow> nat \<Rightarrow> bytes \<times> VarChange list \<Rightarrow> bytes \<times> VarChange list" where
  "AddedBlock column fixed presence block state =
    (let (nxt, var_changes) = state in
     if \<not> GetBit presence block then state
     else case fixed of
       None \<Rightarrow> (nxt, if has_default column \<and> (default_value column \<noteq> [] \<or> nullable column)
         then var_changes @ [\<lparr>vc_key = VarKey (col_id column) (of_nat block), vc_value = Some (default_value column)\<rparr>]
         else var_changes)
     | Some f \<Rightarrow>
       let nxt = (if has_default column
             then WriteValueBits nxt (fc_values f * 8 + block * fc_width f) (default_value column) (fc_width f) else nxt);
           nxt = (case fc_validity f of None \<Rightarrow> nxt
             | Some v \<Rightarrow> if has_default column \<or> \<not> nullable column then PutBit nxt (8 * v + block) True else nxt)
       in (nxt, var_changes))"

definition TranslateColumn :: "ChunkLayout \<Rightarrow> ChunkLayout \<Rightarrow> bytes \<Rightarrow> bytes \<Rightarrow> ChunkVars \<Rightarrow> nat \<Rightarrow>
    bytes \<times> VarChange list \<Rightarrow> (bytes \<times> VarChange list) res" where
  "TranslateColumn from to presence payload vars index state =
    (let column = columns (cl_schema to) ! index; fixed = FixedColumnAt to index; (nxt, var_changes) = state in
     case IndexOfId from (col_id column) of
       Some from_index \<Rightarrow>
         if ctype (columns (cl_schema from) ! from_index) \<noteq> ctype column
         then ConvertColumn from to from_index index presence payload vars state
         else (case fixed of None \<Rightarrow> Inr state
           | Some f \<Rightarrow> (case FixedColumnAt from from_index of None \<Rightarrow> Inl (Undefined ''null fixed column'')
             | Some old \<Rightarrow>
               let nxt = copy_array nxt (fc_values f) payload (fc_values old) (BytesForBits (block_count to * fc_width f))
               in (case fc_validity f of None \<Rightarrow> Inr (nxt, var_changes)
                 | Some v \<Rightarrow> (case fc_validity old of None \<Rightarrow> Inl (Undefined ''no validity bits to copy'')
                   | Some w \<Rightarrow> Inr (copy_array nxt v payload w (BytesForBits (block_count to)), var_changes)))))
     | None \<Rightarrow> Inr (fold (AddedBlock column fixed presence) [0..<block_count to] state))"

definition TranslateChunk :: "ChunkLayout \<Rightarrow> ChunkLayout \<Rightarrow> bytes \<Rightarrow> bytes \<times> ChunkVars \<Rightarrow> (bytes \<times> ChunkVars) res" where
  "TranslateChunk from to presence state =
    (let (payload, vars) = state in
     if block_count from \<noteq> block_count to \<or> length payload \<noteq> payload_bytes from \<or>
        length presence \<noteq> BytesForBits (block_count to)
     then Inl (InvalidArgument ''chunk state does not match the layout it is translated from'')
     else
       rbind (rfold (TranslateColumn from to presence payload vars) [0..<length (columns (cl_schema to))]
         (replicate (payload_bytes to) 0, [])) (\<lambda>(nxt, var_changes).
       let var_changes = var_changes @ map (\<lambda>e. \<lparr>vc_key = fst e, vc_value = None\<rparr>)
             (filter (\<lambda>e. VarColumn to (vk_column (fst e)) = None) (vars_entries vars))
       in if var_changes = [] then Inr (nxt, vars)
          else rbind (Merge vars (sort_key vc_key var_changes)) (\<lambda>vars. Inr (nxt, vars))))"

end
