(* ===== verification/Chunk_Layout_Laws.thy ===== *)
theory Chunk_Layout_Laws
  imports Chunk_Layout
begin

text \<open>
  The laws of the payload layout: the bit copies are a store of bit ranges, the arrays of a
  layout lie one after the other inside the payload, and a cell (a column of a block) is
  therefore independent of every other cell.
\<close>

section \<open>Bit by bit\<close>

lemma GetBit_byte_bit: "GetBit data k = byte_bit data k"
  by (simp add: GetBit_def byte_bit_def bit_iff_odd_drop_bit and_one_eq odd_iff_mod_2_eq_one)

lemma PutBit_put_bit: "PutBit data k v = put_bit data k v"
  by (simp add: PutBit_def put_bit_def Let_def set_bit_eq_or unset_bit_eq_and_not)

text \<open>\<open>written d d' off n g\<close>: \<open>d'\<close> is \<open>d\<close> with the \<open>n\<close> bits from \<open>off\<close> on set by \<open>g\<close>.\<close>

definition written :: "bytes \<Rightarrow> bytes \<Rightarrow> nat \<Rightarrow> nat \<Rightarrow> (nat \<Rightarrow> bool) \<Rightarrow> bool" where
  "written d d' off n g \<longleftrightarrow> length d' = length d \<and>
    (\<forall>k < 8 * length d. byte_bit d' k = (if off \<le> k \<and> k < off + n then g (k - off) else byte_bit d k))"

lemma fold_PutBit:
  assumes "off + n \<le> 8 * length d"
  shows "written d (fold (\<lambda>i d. PutBit d (off + i) (g i)) [0..<n] d) off n g"
  using assms
proof (induction n)
  case (Suc n)
  let ?e = "fold (\<lambda>i d. PutBit d (off + i) (g i)) [0..<n] d"
  have IH: "length ?e = length d"
    "\<And>k. k < 8 * length d \<Longrightarrow> byte_bit ?e k = (if off \<le> k \<and> k < off + n then g (k - off) else byte_bit d k)"
    using Suc by (auto simp: written_def)
  have "byte_bit (put_bit ?e (off + n) (g n)) k = (if off \<le> k \<and> k < off + Suc n then g (k - off) else byte_bit d k)"
    if "k < 8 * length d" for k
    using that Suc.prems IH by (subst byte_bit_put_bit) (auto simp: less_Suc_eq)
  then show ?case using IH(1) by (simp add: written_def PutBit_put_bit)
qed (auto simp: written_def)

lemma splice_bits:
  assumes "off mod 8 = 0" "n mod 8 = 0" "off + n \<le> 8 * length d" "length v = n div 8"
  shows "written d (take (off div 8) d @ v @ drop (off div 8 + n div 8) d) off n (byte_bit v)"
proof -
  let ?o = "off div 8" let ?n = "n div 8"
  have o: "off = 8 * ?o" "n = 8 * ?n" using assms(1,2) by auto
  then have l: "?o + ?n \<le> length d" using assms(3) by linarith
  have "byte_bit (take ?o d @ v @ drop (?o + ?n) d) k = (if off \<le> k \<and> k < off + n then byte_bit v (k - off) else byte_bit d k)"
    if k: "k < 8 * length d" for k
  proof -
    have "byte_bit d k = byte_bit (take ?o d @ take ?n (drop ?o d) @ drop (?o + ?n) d) k"
      by (metis append_take_drop_id drop_drop add.commute)
    moreover have "length (take ?o d) = ?o" "length (take ?n (drop ?o d)) = ?n" using l by auto
    ultimately show ?thesis
      using o assms(4) by (auto simp: byte_bit_append)
  qed
  then show ?thesis using l assms(4) by (simp add: written_def)
qed

lemma div8_less:
  assumes "k < n" "n mod 8 = (0 :: nat)"
  shows "k div 8 < n div 8"
proof (rule less_mult_imp_div_less)
  have "n div 8 * 8 = n" using div_mult_mod_eq [of n 8] assms(2) by simp
  then show "k < n div 8 * 8" using assms(1) by simp
qed

lemma zero_bits: "k < 8 * n \<Longrightarrow> \<not> byte_bit (replicate n 0) k"
  by (simp add: byte_bit_def less_mult_imp_div_less)

lemma ClearBits_written:
  assumes "off + n \<le> 8 * length d"
  shows "written d (ClearBits d off n) off n (\<lambda>_. False)"
proof (cases "off mod 8 = 0 \<and> n mod 8 = 0")
  case True
  have "byte_bit (replicate (n div 8) 0) k = False" if "k < n" for k
    using that True div8_less [of k n] by (simp add: byte_bit_def)
  then show ?thesis
    using True splice_bits [of off n d "replicate (n div 8) 0"] assms by (auto simp: ClearBits_def written_def)
next
  case False
  show ?thesis using fold_PutBit [OF assms, of "\<lambda>_. False"] by (simp only: ClearBits_def False if_False)
qed

lemma WriteValueBits_written:
  assumes "off + n \<le> 8 * length d" "n \<le> 8 * length v"
  shows "written d (WriteValueBits d off v n) off n (byte_bit v)"
proof (cases "off mod 8 = 0 \<and> n mod 8 = 0")
  case True
  have l: "length (take (n div 8) v) = n div 8" using assms(2) by auto
  have "byte_bit (take (n div 8) v) k = byte_bit v k" if "k < n" for k
    using that True div8_less [of k n] by (simp add: byte_bit_def)
  then show ?thesis
    using True splice_bits [OF _ _ assms(1) l] by (auto simp: WriteValueBits_def written_def)
next
  case False
  show ?thesis
    using fold_PutBit [OF assms(1), of "byte_bit v"] by (simp only: WriteValueBits_def GetBit_byte_bit False if_False)
qed

definition value_bytes :: "nat \<Rightarrow> bytes \<Rightarrow> bool" where
  "value_bytes n v \<longleftrightarrow> length v = BytesForBits n \<and> (\<forall>i. n \<le> i \<and> i < 8 * length v \<longrightarrow> \<not> byte_bit v i)"

lemma BytesForBits_le: "n \<le> 8 * BytesForBits n" "8 * BytesForBits n < n + 8"
  by (auto simp: BytesForBits_def)

lemma ReadValueBits_bits:
  assumes "off + n \<le> 8 * length d"
  shows "value_bytes n (ReadValueBits d off n) \<and> (\<forall>i < n. byte_bit (ReadValueBits d off n) i = byte_bit d (off + i))"
proof (cases "off mod 8 = 0 \<and> n mod 8 = 0")
  case True
  let ?o = "off div 8" let ?n = "n div 8"
  have o: "off = 8 * ?o" "n = 8 * ?n" using True by auto
  then have l: "length (take ?n (drop ?o d)) = ?n" "?o + ?n \<le> length d" using assms by auto
  have "byte_bit (take ?n (drop ?o d)) i = byte_bit d (off + i)" if "i < n" for i
  proof -
    have "i div 8 < ?n" using that o by auto
    moreover have "(off + i) div 8 = ?o + i div 8" "(off + i) mod 8 = i mod 8" using o(1) by (metis div_mult_self4 zero_neq_numeral, metis mod_mult_self4)
    ultimately show ?thesis using l(2) by (simp add: byte_bit_def)
  qed
  moreover have "BytesForBits n = ?n" unfolding BytesForBits_def by (subst o(2)) simp
  ultimately show ?thesis using True l(1) o(2) by (auto simp: ReadValueBits_def value_bytes_def)
next
  case False
  let ?z = "replicate (BytesForBits n) (0 :: byte)"
  have z: "byte_bit ?z i = False" if "i < 8 * BytesForBits n" for i
    using zero_bits [OF that] by simp
  have "length (fold (\<lambda>i v. if GetBit d (off + i) then PutBit v i True else v) [0..<m] ?z) = BytesForBits n \<and>
      (\<forall>k < 8 * BytesForBits n. byte_bit (fold (\<lambda>i v. if GetBit d (off + i) then PutBit v i True else v) [0..<m] ?z) k =
        (k < m \<and> byte_bit d (off + k)))" if "m \<le> n" for m
    using that
  proof (induction m)
    case (Suc m)
    then show ?case
      using BytesForBits_le(1) [of n] by (auto simp: GetBit_byte_bit PutBit_put_bit byte_bit_put_bit less_Suc_eq)
  qed (simp add: z)
  from this [of n] show ?thesis
    using BytesForBits_le(1) [of n] unfolding ReadValueBits_def value_bytes_def if_not_P [OF False] by auto
qed

interpretation value_bits: bit_range_store "\<lambda>d off n. Inr (ReadValueBits d off n)" "\<lambda>d off n v. Inr (WriteValueBits d off v n)"
  value_bytes byte_bit
proof
  fix d :: bytes and off n :: nat and v w :: bytes
  assume "off + n \<le> 8 * length d"
  then show "\<exists>v. Inr (ReadValueBits d off n) = Inr v \<and> value_bytes n v \<and> (\<forall>i<n. byte_bit v i = byte_bit d (off + i))"
    using ReadValueBits_bits by blast
  assume "value_bytes n v"
  then show "\<exists>d'. Inr (WriteValueBits d off v n) = Inr d' \<and> length d' = length d \<and>
      (\<forall>k < 8 * length d. byte_bit d' k = (if off \<le> k \<and> k < off + n then byte_bit v (k - off) else byte_bit d k))"
    using WriteValueBits_written [OF \<open>off + n \<le> 8 * length d\<close>, of v] BytesForBits_le(1) [of n]
    by (auto simp: value_bytes_def written_def)
next
  fix n v w assume "value_bytes n v" "value_bytes n w" "\<forall>i<n. byte_bit v i = byte_bit w i"
  then show "v = w" by (intro bytes_eqI) (simp add: value_bytes_def, metis not_less value_bytes_def)
qed

section \<open>The arrays of a layout\<close>

text \<open>The columns' arrays one after the other, from byte \<open>a\<close> to byte \<open>e\<close>.\<close>

fun placed :: "nat \<Rightarrow> nat \<Rightarrow> FixedColumn list \<Rightarrow> nat \<Rightarrow> bool" where
  "placed bc a [] e \<longleftrightarrow> a = e"
| "placed bc a (f # fs) e \<longleftrightarrow> fc_values f = a \<and>
    (case fc_validity f of
       None \<Rightarrow> placed bc (a + BytesForBits (bc * fc_width f)) fs e
     | Some v \<Rightarrow> v = a + BytesForBits (bc * fc_width f) \<and> placed bc (v + BytesForBits bc) fs e)"

definition in_arrays :: "nat \<Rightarrow> FixedColumn \<Rightarrow> nat \<Rightarrow> bool" where
  "in_arrays bc f k \<longleftrightarrow>
    (8 * fc_values f \<le> k \<and> k < 8 * (fc_values f + BytesForBits (bc * fc_width f))) \<or>
    (\<exists>v. fc_validity f = Some v \<and> 8 * v \<le> k \<and> k < 8 * (v + BytesForBits bc))"

lemma placed_snoc:
  "placed bc a (fs @ [f]) e \<longleftrightarrow> (\<exists>m. placed bc a fs m \<and> placed bc m [f] e)"
  by (induction fs arbitrary: a) (auto split: option.splits)

lemma placed_arrays:
  "placed bc a fs e \<Longrightarrow> a \<le> e \<and> (\<forall>f \<in> set fs. \<forall>k. in_arrays bc f k \<longrightarrow> 8 * a \<le> k \<and> k < 8 * e)"
proof (induction fs arbitrary: a)
  case (Cons f fs)
  let ?m = "case fc_validity f of None \<Rightarrow> a + BytesForBits (bc * fc_width f) | Some v \<Rightarrow> v + BytesForBits bc"
  have p: "fc_values f = a" "placed bc ?m fs e" "a \<le> ?m" "\<And>k. in_arrays bc f k \<Longrightarrow> 8 * a \<le> k \<and> k < 8 * ?m"
    using Cons.prems by (auto simp: in_arrays_def split: option.splits)
  show ?case using Cons.IH [OF p(2)] p by fastforce
qed simp

lemma placed_disjoint:
  assumes "placed bc a fs e" "i < length fs" "j < length fs" "i \<noteq> j" "in_arrays bc (fs ! i) k"
  shows "\<not> in_arrays bc (fs ! j) k"
  using assms
proof (induction fs arbitrary: a i j)
  case (Cons f fs)
  let ?m = "case fc_validity f of None \<Rightarrow> a + BytesForBits (bc * fc_width f) | Some v \<Rightarrow> v + BytesForBits bc"
  have p: "placed bc ?m fs e" "\<And>k. in_arrays bc f k \<Longrightarrow> k < 8 * ?m"
    using Cons.prems(1) by (auto simp: in_arrays_def split: option.splits)
  have later: "in_arrays bc g k \<Longrightarrow> 8 * ?m \<le> k" if "g \<in> set fs" for g k
    using placed_arrays [OF p(1)] that by blast
  show ?case
  proof (cases i)
    case 0
    then obtain j' where "j = Suc j'" "j' < length fs" using Cons.prems by (cases j) auto
    then show ?thesis using later [of "fs ! j'" k] p(2) [of k] Cons.prems(5) 0 by (auto simp: not_less [symmetric])
  next
    case i: (Suc i')
    show ?thesis
    proof (cases j)
      case 0
      then show ?thesis using later [of "fs ! i'" k] p(2) [of k] Cons.prems i by (auto simp: not_less [symmetric])
    next
      case (Suc j')
      then show ?thesis using Cons.IH [OF p(1), of i' j'] Cons.prems i by simp
    qed
  qed
qed simp

text \<open>Where the bits of a cell lie.\<close>

lemma cell_in_arrays:
  assumes "b < bc" "j < fc_width f"
  shows "in_arrays bc f (fc_values f * 8 + b * fc_width f + j)"
proof -
  have "b * fc_width f + j < Suc b * fc_width f" using assms(2) by simp
  also have "\<dots> \<le> bc * fc_width f" using assms(1) by (simp only: mult_le_mono1 Suc_leI)
  also have "\<dots> \<le> 8 * BytesForBits (bc * fc_width f)" by (rule BytesForBits_le)
  finally show ?thesis by (simp add: in_arrays_def)
qed

lemma cells_disjoint:
  assumes "b \<noteq> c"
  shows "b * w + w \<le> c * w \<or> c * w + w \<le> b * (w :: nat)"
proof (cases "b < c")
  case True
  then have "Suc b * w \<le> c * w" by (simp only: mult_le_mono1 Suc_leI)
  then show ?thesis by simp
next
  case False
  then have "Suc c * w \<le> b * w" using assms by (simp only: mult_le_mono1 Suc_leI not_less_iff_gr_or_eq) (metis Suc_leI mult_le_mono1)
  then show ?thesis by simp
qed

section \<open>What the constructor builds\<close>

text \<open>The place of column \<open>i\<close>, given its index entry.\<close>

definition column_placed :: "ChunkLayout \<Rightarrow> nat \<Rightarrow> Column \<Rightarrow> bool" where
  "column_placed l i c \<longleftrightarrow> (case fixed_index l ! i of
      None \<Rightarrow> FixedWidthBits (ctype c) = 0
    | Some m \<Rightarrow> m < length (fixed_columns l) \<and> fc_column (fixed_columns l ! m) = i \<and>
        fc_width (fixed_columns l ! m) = FixedWidthBits (ctype c) \<and> FixedWidthBits (ctype c) \<noteq> 0 \<and>
        (fc_validity (fixed_columns l ! m) = None \<longleftrightarrow> \<not> nullable c))"

definition layout_prefix :: "nat \<Rightarrow> Column list \<Rightarrow> ChunkLayout \<Rightarrow> bool" where
  "layout_prefix N cols l \<longleftrightarrow> length (fixed_index l) = N \<and>
    placed (block_count l) 0 (fixed_columns l) (payload_bytes l) \<and>
    (\<forall>i < length cols. column_placed l i (cols ! i)) \<and> (\<forall>i < N. length cols \<le> i \<longrightarrow> fixed_index l ! i = None) \<and>
    (\<forall>id i. by_id l id = Some i \<longleftrightarrow> i < length cols \<and> col_id (cols ! i) = id) \<and>
    (\<forall>name i. by_name l name = Some i \<longleftrightarrow> i < length cols \<and> col_name (cols ! i) = name) \<and>
    (\<forall>id i. var_by_id l id = Some i \<longleftrightarrow> i < length cols \<and> col_id (cols ! i) = id \<and> FixedWidthBits (ctype (cols ! i)) = 0)"

lemma emplace_new: "m k = None \<Longrightarrow> emplace k v m = m(k \<mapsto> v)"
  by (simp add: emplace_def)

lemma emplace_index:
  assumes "\<And>x i. m x = Some i \<longleftrightarrow> i < length cols \<and> P i \<and> f (cols ! i) = x" "f c \<notin> f ` set cols"
    "\<And>i. i < length cols \<Longrightarrow> Q i = P i" "Q (length cols)"
  shows "emplace (f c) (length cols) m x = Some i \<longleftrightarrow> i < Suc (length cols) \<and> Q i \<and> f ((cols @ [c]) ! i) = x"
proof -
  have ne: "f (cols ! i) \<noteq> f c" if "i < length cols" for i using assms(2) that by (metis image_eqI nth_mem)
  then have "m (f c) = None" using assms(1) [of "f c"] by (cases "m (f c)") auto
  then show ?thesis using assms(1,3,4) ne by (auto simp: emplace_new nth_append less_Suc_eq)
qed

lemma fc_snoc: "m < length fs \<Longrightarrow> (fs @ [f]) ! m = fs ! m"
  by (simp add: nth_append)

lemma ChunkLayout_column_frame:
  "ChunkLayout_column mx (i, c) l = Inr l' \<Longrightarrow> block_count l' = block_count l \<and> cl_schema l' = cl_schema l \<and>
    payload_bytes_limit l' = payload_bytes_limit l"
  by (auto simp: ChunkLayout_column_def Let_def split: if_splits)

lemma ChunkLayout_column_arrays:
  assumes "layout_prefix N cols l" "length cols < N" "ChunkLayout_column mx (length cols, c) l = Inr l'"
  shows "length (fixed_index l') = N \<and> placed (block_count l') 0 (fixed_columns l') (payload_bytes l') \<and>
    (\<forall>i < Suc (length cols). column_placed l' i ((cols @ [c]) ! i)) \<and>
    (\<forall>i < N. Suc (length cols) \<le> i \<longrightarrow> fixed_index l' ! i = None)"
proof (cases "FixedWidthBits (ctype c) = 0")
  case True
  then have l': "fixed_index l' = fixed_index l" "fixed_columns l' = fixed_columns l" "payload_bytes l' = payload_bytes l"
      "block_count l' = block_count l"
    using assms(3) by (auto simp: ChunkLayout_column_def Let_def)
  have "column_placed l' (length cols) c" using True assms(1,2) by (simp add: column_placed_def l' layout_prefix_def)
  moreover have "column_placed l' i (cols ! i)" if "i < length cols" for i
    using that assms(1) unfolding column_placed_def l' by (simp add: layout_prefix_def column_placed_def)
  ultimately show ?thesis using assms(1) by (auto simp: layout_prefix_def l' nth_append less_Suc_eq)
next
  case False
  let ?v = "payload_bytes l + BytesForBits (block_count l * FixedWidthBits (ctype c))"
  let ?f = "\<lparr>fc_column = length cols, fc_width = FixedWidthBits (ctype c), fc_values = payload_bytes l,
    fc_validity = if nullable c then Some ?v else None\<rparr>"
  have l': "fixed_index l' = (fixed_index l)[length cols := Some (length (fixed_columns l))]"
      "fixed_columns l' = fixed_columns l @ [?f]" "block_count l' = block_count l"
      "payload_bytes l' = (if nullable c then ?v + BytesForBits (block_count l) else ?v)"
    using assms(3) False by (auto simp: ChunkLayout_column_def Let_def split: if_splits)
  have "placed (block_count l') 0 (fixed_columns l') (payload_bytes l')"
    using assms(1) unfolding l' placed_snoc by (auto simp: layout_prefix_def)
  moreover have "column_placed l' (length cols) c"
    using False assms(1,2) by (auto simp: column_placed_def l' layout_prefix_def)
  moreover have "column_placed l' i (cols ! i)" if "i < length cols" for i
    using that assms(1) by (auto simp: column_placed_def l' layout_prefix_def fc_snoc split: option.splits)
  ultimately show ?thesis
    using assms(1) by (auto simp: layout_prefix_def nth_append less_Suc_eq l')
qed

lemma ChunkLayout_column_prefix:
  assumes "layout_prefix N cols l" "length cols < N" "ChunkLayout_column mx (length cols, c) l = Inr l'"
    "col_id c \<notin> col_id ` set cols" "col_name c \<notin> col_name ` set cols"
  shows "layout_prefix N (cols @ [c]) l'"
proof -
  have m: "by_id l' = emplace (col_id c) (length cols) (by_id l)" "by_name l' = emplace (col_name c) (length cols) (by_name l)"
    "var_by_id l' = (if FixedWidthBits (ctype c) = 0 then emplace (col_id c) (length cols) (var_by_id l) else var_by_id l)"
    using assms(3) by (auto simp: ChunkLayout_column_def Let_def split: if_splits)
  have p: "\<And>id i. by_id l id = Some i \<longleftrightarrow> i < length cols \<and> col_id (cols ! i) = id"
    "\<And>name i. by_name l name = Some i \<longleftrightarrow> i < length cols \<and> col_name (cols ! i) = name"
    "\<And>id i. var_by_id l id = Some i \<longleftrightarrow> i < length cols \<and> FixedWidthBits (ctype (cols ! i)) = 0 \<and> col_id (cols ! i) = id"
    using assms(1) by (auto simp: layout_prefix_def)
  have "by_id l' id = Some i \<longleftrightarrow> i < Suc (length cols) \<and> col_id ((cols @ [c]) ! i) = id" for id i
    using emplace_index [of "by_id l" cols "\<lambda>_. True" col_id c "\<lambda>_. True"] p(1) assms(4) by (simp add: m)
  moreover have "by_name l' name = Some i \<longleftrightarrow> i < Suc (length cols) \<and> col_name ((cols @ [c]) ! i) = name" for name i
    using emplace_index [of "by_name l" cols "\<lambda>_. True" col_name c "\<lambda>_. True"] p(2) assms(5) by (simp add: m)
  moreover have "var_by_id l' id = Some i \<longleftrightarrow> i < Suc (length cols) \<and> col_id ((cols @ [c]) ! i) = id \<and>
      FixedWidthBits (ctype ((cols @ [c]) ! i)) = 0" for id i
  proof (cases "FixedWidthBits (ctype c) = 0")
    case True
    then show ?thesis
      using emplace_index [of "var_by_id l" cols "\<lambda>i. FixedWidthBits (ctype (cols ! i)) = 0" col_id c
          "\<lambda>i. FixedWidthBits (ctype ((cols @ [c]) ! i)) = 0"] p(3) assms(4) by (auto simp: m nth_append)
  next
    case False
    then show ?thesis using p(3) by (auto simp: m nth_append less_Suc_eq)
  qed
  ultimately show ?thesis
    using ChunkLayout_column_arrays [OF assms(1-3)] by (simp add: layout_prefix_def)
qed

lemma rfold_layout:
  assumes "layout_prefix N [] l0" "rfold (ChunkLayout_column mx) (enumerate 0 cols) l0 = Inr l"
    "length cols \<le> N" "distinct (map col_id cols)" "distinct (map col_name cols)"
  shows "layout_prefix N cols l \<and> block_count l = block_count l0 \<and> cl_schema l = cl_schema l0 \<and>
    payload_bytes_limit l = payload_bytes_limit l0"
  using assms(2-)
proof (induction cols arbitrary: l rule: rev_induct)
  case Nil
  then show ?case using assms(1) by simp
next
  case (snoc c cols)
  obtain l1 where l1: "rfold (ChunkLayout_column mx) (enumerate 0 cols) l0 = Inr l1"
      "ChunkLayout_column mx (length cols, c) l1 = Inr l"
    using snoc.prems(1) by (auto simp: enumerate_append_eq rfold_append)
  have IH: "layout_prefix N cols l1" "block_count l1 = block_count l0" "cl_schema l1 = cl_schema l0"
      "payload_bytes_limit l1 = payload_bytes_limit l0"
    using snoc.IH [OF l1(1)] snoc.prems by auto
  show ?case
    using ChunkLayout_column_prefix [OF IH(1) _ l1(2)] ChunkLayout_column_frame [OF l1(2)] IH(2-) snoc.prems by simp
qed

definition layout_ok :: "ChunkLayout \<Rightarrow> bool" where
  "layout_ok l \<longleftrightarrow> ValidateTableSchema (cl_schema l) = Inr () \<and>
    layout_prefix (length (columns (cl_schema l))) (columns (cl_schema l)) l \<and> payload_bytes l \<le> payload_bytes_limit l"

lemma rfold_payload_limit:
  assumes "rfold (ChunkLayout_column mx) ics l0 = Inr l" "payload_bytes l0 \<le> mx"
  shows "payload_bytes l \<le> mx"
  by (rule rfold_invariant [OF assms(1), of "\<lambda>l. payload_bytes l \<le> mx"])
     (use assms(2) in \<open>auto simp: ChunkLayout_column_def Let_def split: if_splits prod.splits\<close>)

lemma MakeChunkLayout_ok:
  assumes "MakeChunkLayout schema count mx = Inr l"
  shows "layout_ok l \<and> cl_schema l = schema \<and> block_count l = count \<and> payload_bytes_limit l = mx"
proof -
  let ?l0 = "\<lparr>cl_schema = schema, block_count = count, payload_bytes = 0, payload_bytes_limit = mx,
       fixed_columns = [], fixed_index = replicate (length (columns schema)) None, by_name = Map.empty,
       var_by_id = Map.empty, by_id = Map.empty, bit_string_blocks = False\<rparr>"
  obtain l1 b where v: "ValidateTableSchema schema = Inr ()"
    and l1: "rfold (ChunkLayout_column mx) (enumerate 0 (columns schema)) ?l0 = Inr l1" "l = l1\<lparr>bit_string_blocks := b\<rparr>"
    using assms by (auto simp: MakeChunkLayout_def)
  have d: "distinct (map col_id (columns schema))" "distinct (map col_name (columns schema))"
    using ValidateColumns_distinct ValidateTableSchemaD(2) [OF v] by auto
  have "layout_prefix (length (columns schema)) [] ?l0" by (simp add: layout_prefix_def)
  from rfold_layout [OF this l1(1) order_refl d]
  have "layout_prefix (length (columns schema)) (columns schema) l1" "block_count l1 = count" "cl_schema l1 = schema"
      "payload_bytes_limit l1 = mx" by simp_all
  moreover have "payload_bytes l1 \<le> mx" by (rule rfold_payload_limit [OF l1(1)]) simp
  ultimately show ?thesis
    using v l1(2) by (simp add: layout_ok_def layout_prefix_def column_placed_def cong: option.case_cong)
qed

section \<open>Fixed columns of a layout\<close>

lemma layout_placed: "layout_ok l \<Longrightarrow> placed (block_count l) 0 (fixed_columns l) (payload_bytes l)"
  by (simp add: layout_ok_def layout_prefix_def)

lemma FixedColumnAt_spec:
  assumes "layout_ok l" "FixedColumnAt l i = Some f"
  shows "i < length (columns (cl_schema l)) \<and> fc_width f = FixedWidthBits (ctype (columns (cl_schema l) ! i)) \<and> fc_width f \<noteq> 0 \<and>
    (fc_validity f = None \<longleftrightarrow> \<not> nullable (columns (cl_schema l) ! i)) \<and> fc_column f = i \<and>
    (\<exists>m < length (fixed_columns l). fixed_columns l ! m = f)"
proof -
  have p: "length (fixed_index l) = length (columns (cl_schema l))"
    "\<And>i. i < length (columns (cl_schema l)) \<Longrightarrow> column_placed l i (columns (cl_schema l) ! i)"
    using assms(1) by (auto simp: layout_ok_def layout_prefix_def)
  obtain m where i: "i < length (columns (cl_schema l))" "fixed_index l ! i = Some m" "f = fixed_columns l ! m"
    using assms(2) p(1) by (auto simp: FixedColumnAt_def split: if_splits option.splits)
  then show ?thesis using p(2) [OF i(1)] by (auto simp: column_placed_def)
qed

lemma FixedColumnAt_None:
  assumes "layout_ok l" "i < length (columns (cl_schema l))"
  shows "FixedColumnAt l i = None \<longleftrightarrow> FixedWidthBits (ctype (columns (cl_schema l) ! i)) = 0"
proof -
  have p: "length (fixed_index l) = length (columns (cl_schema l))" "column_placed l i (columns (cl_schema l) ! i)"
    using assms by (auto simp: layout_ok_def layout_prefix_def)
  then show ?thesis using assms(2) by (auto simp: FixedColumnAt_def column_placed_def split: option.splits)
qed

lemma fixed_in_payload:
  assumes "layout_ok l" "FixedColumnAt l i = Some f" "in_arrays (block_count l) f k"
  shows "k < 8 * payload_bytes l"
  using FixedColumnAt_spec [OF assms(1,2)] placed_arrays [OF layout_placed [OF assms(1)]] assms(3) nth_mem by blast

lemma fixed_disjoint:
  assumes "layout_ok l" "FixedColumnAt l i = Some f" "FixedColumnAt l j = Some g" "i \<noteq> j" "in_arrays (block_count l) f k"
  shows "\<not> in_arrays (block_count l) g k"
proof -
  obtain m n where "m < length (fixed_columns l)" "fixed_columns l ! m = f" "n < length (fixed_columns l)" "fixed_columns l ! n = g"
    "fc_column f = i" "fc_column g = j"
    using FixedColumnAt_spec [OF assms(1,2)] FixedColumnAt_spec [OF assms(1,3)] by blast
  then show ?thesis using placed_disjoint [OF layout_placed [OF assms(1)], of m n k] assms(4,5) by auto
qed

lemma IndexOfId_spec:
  "layout_ok l \<Longrightarrow> IndexOfId l cid = Some i \<longleftrightarrow> i < length (columns (cl_schema l)) \<and> col_id (columns (cl_schema l) ! i) = cid"
  by (simp add: layout_ok_def layout_prefix_def IndexOfId_def)

lemma FindColumn_spec:
  "layout_ok l \<Longrightarrow> FindColumn l name = Some i \<longleftrightarrow> i < length (columns (cl_schema l)) \<and> col_name (columns (cl_schema l) ! i) = name"
  by (simp add: layout_ok_def layout_prefix_def FindColumn_def)

lemma VarColumn_spec:
  assumes "layout_ok l"
  shows "VarColumn l cid = Some c \<longleftrightarrow> c \<in> set (columns (cl_schema l)) \<and> col_id c = cid \<and> FixedWidthBits (ctype c) = 0"
proof -
  have v: "var_by_id l cid = Some i \<longleftrightarrow> i < length (columns (cl_schema l)) \<and> col_id (columns (cl_schema l) ! i) = cid \<and>
      FixedWidthBits (ctype (columns (cl_schema l) ! i)) = 0" for i
    using assms by (simp add: layout_ok_def layout_prefix_def)
  show ?thesis
  proof
    assume "VarColumn l cid = Some c"
    then obtain i where i: "var_by_id l cid = Some i" "c = columns (cl_schema l) ! i"
      by (auto simp: VarColumn_def split: option.splits)
    then show "c \<in> set (columns (cl_schema l)) \<and> col_id c = cid \<and> FixedWidthBits (ctype c) = 0"
      using iffD1 [OF v i(1)] by simp
  next
    assume c: "c \<in> set (columns (cl_schema l)) \<and> col_id c = cid \<and> FixedWidthBits (ctype c) = 0"
    then obtain i where i: "i < length (columns (cl_schema l))" "columns (cl_schema l) ! i = c" by (auto simp: in_set_conv_nth)
    then have "var_by_id l cid = Some i" using v c by auto
    then show "VarColumn l cid = Some c" using i by (simp add: VarColumn_def)
  qed
qed

section \<open>Cells\<close>

text \<open>
  A cell is a column's value in one block: bytes, or \<open>None\<close> where the validity bit is clear.
  \<open>put_cell\<close> is what every writer of the payload does: the value's bits, then the validity bit.
\<close>

definition cell_bits :: "FixedColumn \<Rightarrow> nat \<Rightarrow> nat \<Rightarrow> bool" where
  "cell_bits f b k \<longleftrightarrow> (fc_values f * 8 + b * fc_width f \<le> k \<and> k < fc_values f * 8 + b * fc_width f + fc_width f) \<or>
    (\<exists>v. fc_validity f = Some v \<and> k = 8 * v + b)"

definition cell_valid :: "FixedColumn \<Rightarrow> nat \<Rightarrow> bytes \<Rightarrow> bool" where
  "cell_valid f b payload = (case fc_validity f of None \<Rightarrow> True | Some v \<Rightarrow> GetBit payload (8 * v + b))"

definition raw_cell :: "FixedColumn \<Rightarrow> nat \<Rightarrow> bytes \<Rightarrow> bytes option" where
  "raw_cell f b payload = (if cell_valid f b payload
    then Some (ReadValueBits payload (fc_values f * 8 + b * fc_width f) (fc_width f)) else None)"

definition put_cell :: "FixedColumn \<Rightarrow> nat \<Rightarrow> bytes \<Rightarrow> bytes \<Rightarrow> bytes" where
  "put_cell f b bs payload =
    (let payload = WriteValueBits payload (fc_values f * 8 + b * fc_width f) bs (fc_width f)
     in case fc_validity f of None \<Rightarrow> payload | Some v \<Rightarrow> PutBit payload (8 * v + b) True)"

definition fixed_cell :: "ChunkLayout \<Rightarrow> nat \<Rightarrow> nat \<Rightarrow> bytes \<Rightarrow> ColumnValue res" where
  "fixed_cell l i b payload = (case FixedColumnAt l i of
      None \<Rightarrow> Inl (Undefined ''no fixed column'')
    | Some f \<Rightarrow> (case raw_cell f b payload of
        None \<Rightarrow> Inr NullV
      | Some bs \<Rightarrow> DecodeColumnValue (columns (cl_schema l) ! i) bs))"

lemma validity_place:
  "placed bc a fs e \<Longrightarrow> f \<in> set fs \<Longrightarrow> fc_validity f = Some v \<Longrightarrow> v = fc_values f + BytesForBits (bc * fc_width f)"
  by (induction fs arbitrary: a) (auto split: option.splits)

lemma fixed_validity:
  assumes "layout_ok l" "FixedColumnAt l i = Some f" "fc_validity f = Some v"
  shows "v = fc_values f + BytesForBits (block_count l * fc_width f)"
  using FixedColumnAt_spec [OF assms(1,2)] validity_place [OF layout_placed [OF assms(1)] _ assms(3)] nth_mem by blast

lemma cell_bits_in_arrays:
  assumes "b < bc" "cell_bits f b k"
  shows "in_arrays bc f k"
proof (cases "fc_values f * 8 + b * fc_width f \<le> k \<and> k < fc_values f * 8 + b * fc_width f + fc_width f")
  case True
  then obtain j where "k = fc_values f * 8 + b * fc_width f + j" using le_Suc_ex by blast
  with True show ?thesis using cell_in_arrays [OF assms(1), of j f] by simp
next
  case False
  then show ?thesis using assms BytesForBits_le(1) [of bc] by (auto simp: cell_bits_def in_arrays_def)
qed

lemma cell_end:
  "b < bc \<Longrightarrow> fc_values f * 8 + b * fc_width f + fc_width f \<le> 8 * (fc_values f + BytesForBits (bc * fc_width f))"
  using BytesForBits_le(1) [of "bc * fc_width f"] mult_le_mono1 [of "Suc b" bc "fc_width f"] by simp

lemma cell_bits_disjoint:
  assumes "layout_ok l" "FixedColumnAt l i = Some f" "b < block_count l" "c < block_count l" "b \<noteq> c" "cell_bits f b k"
  shows "\<not> cell_bits f c k"
  using assms(6) cells_disjoint [OF assms(5), of "fc_width f"] fixed_validity [OF assms(1,2)] assms(5)
    cell_end [OF assms(3), of f] cell_end [OF assms(4), of f]
  by (auto simp: cell_bits_def)

lemma raw_cell_cong:
  assumes "\<And>k. cell_bits f b k \<Longrightarrow> byte_bit d k = byte_bit d' k" "length d' = length d"
    "fc_values f * 8 + b * fc_width f + fc_width f \<le> 8 * length d"
  shows "raw_cell f b d = raw_cell f b d'"
proof -
  let ?o = "fc_values f * 8 + b * fc_width f"
  have "ReadValueBits d ?o (fc_width f) = ReadValueBits d' ?o (fc_width f)"
  proof (rule value_bits.valid_eq)
    show "value_bytes (fc_width f) (ReadValueBits d ?o (fc_width f))" "value_bytes (fc_width f) (ReadValueBits d' ?o (fc_width f))"
      using ReadValueBits_bits assms(2,3) by auto
    show "\<forall>i < fc_width f. byte_bit (ReadValueBits d ?o (fc_width f)) i = byte_bit (ReadValueBits d' ?o (fc_width f)) i"
      using ReadValueBits_bits [of ?o "fc_width f"] assms by (auto simp: cell_bits_def)
  qed
  moreover have "cell_valid f b d = cell_valid f b d'"
    using assms(1) by (auto simp: cell_valid_def cell_bits_def GetBit_byte_bit split: option.splits)
  ultimately show ?thesis by (simp add: raw_cell_def)
qed

lemma cell_fits:
  assumes "layout_ok l" "FixedColumnAt l i = Some f" "b < block_count l"
  shows "(\<forall>k. cell_bits f b k \<longrightarrow> k < 8 * payload_bytes l) \<and>
    fc_values f * 8 + b * fc_width f + fc_width f \<le> 8 * payload_bytes l"
proof -
  have fits: "k < 8 * payload_bytes l" if "cell_bits f b k" for k
    using fixed_in_payload [OF assms(1,2) cell_bits_in_arrays [OF assms(3) that]] .
  have "fc_width f \<noteq> 0" using FixedColumnAt_spec [OF assms(1,2)] by blast
  then obtain m where "fc_width f = Suc m" using not0_implies_Suc by blast
  then have "cell_bits f b (fc_values f * 8 + b * fc_width f + m)" by (simp add: cell_bits_def)
  from fits [OF this] show ?thesis using fits \<open>fc_width f = Suc m\<close> by (simp del: mult_Suc_right)
qed

lemma put_cell_bits:
  assumes "layout_ok l" "FixedColumnAt l i = Some f" "b < block_count l" "length d = payload_bytes l" "value_bytes (fc_width f) bs"
  shows "length (put_cell f b bs d) = length d \<and> raw_cell f b (put_cell f b bs d) = Some bs \<and>
    (\<forall>k. \<not> cell_bits f b k \<longrightarrow> k < 8 * length d \<longrightarrow> byte_bit (put_cell f b bs d) k = byte_bit d k)"
proof -
  let ?o = "fc_values f * 8 + b * fc_width f" let ?e = "WriteValueBits d ?o bs (fc_width f)" let ?r = "put_cell f b bs d"
  have fits: "k < 8 * length d" if "cell_bits f b k" for k
    using cell_fits [OF assms(1-3)] assms(4) that by simp
  have le: "?o + fc_width f \<le> 8 * length d" using cell_fits [OF assms(1-3)] assms(4) by simp
  have e: "length ?e = length d" "\<And>k. k < 8 * length d \<Longrightarrow>
      byte_bit ?e k = (if ?o \<le> k \<and> k < ?o + fc_width f then byte_bit bs (k - ?o) else byte_bit d k)"
    using WriteValueBits_written [OF le, of bs] assms(5) BytesForBits_le(1) [of "fc_width f"] by (auto simp: value_bytes_def written_def)
  have r: "length ?r = length d" "\<And>k. k < 8 * length d \<Longrightarrow>
      byte_bit ?r k = (if (\<exists>v. fc_validity f = Some v \<and> k = 8 * v + b) then True else byte_bit ?e k)"
    using e(1) fits unfolding put_cell_def Let_def
    by (cases "fc_validity f"; simp add: PutBit_put_bit byte_bit_put_bit cell_bits_def)+
  have dis: "?o + fc_width f \<le> 8 * v + b" if "fc_validity f = Some v" for v
    using fixed_validity [OF assms(1,2) that] cell_end [OF assms(3), of f] by simp
  have rd: "byte_bit ?r (?o + i) = byte_bit bs i" if "i < fc_width f" for i
  proof -
    have "?o + i < 8 * length d" "\<not> (\<exists>v. fc_validity f = Some v \<and> ?o + i = 8 * v + b)" using that le dis by fastforce+
    then show ?thesis using r(2) [of "?o + i"] e(2) [of "?o + i"] that by (simp only: if_False) simp
  qed
  have "ReadValueBits ?r ?o (fc_width f) = bs"
  proof (rule value_bits.valid_eq)
    show "value_bytes (fc_width f) (ReadValueBits ?r ?o (fc_width f))" using ReadValueBits_bits le r(1) by simp
    show "\<forall>i < fc_width f. byte_bit (ReadValueBits ?r ?o (fc_width f)) i = byte_bit bs i"
      using ReadValueBits_bits [of ?o "fc_width f" ?r] le r(1) rd by simp
  qed (rule assms(5))
  moreover have "cell_valid f b ?r"
    using r(2) fits by (auto simp: cell_valid_def GetBit_byte_bit cell_bits_def split: option.splits)
  ultimately show ?thesis using r e(2) by (auto simp: raw_cell_def cell_bits_def)
qed

lemma raw_cell_frame:
  assumes "layout_ok l" "FixedColumnAt l i = Some f" "b < block_count l" "length d = payload_bytes l" "length d' = length d"
    "\<And>k. k < 8 * length d \<Longrightarrow> cell_bits f b k \<Longrightarrow> byte_bit d' k = byte_bit d k"
  shows "raw_cell f b d' = raw_cell f b d"
proof (rule raw_cell_cong)
  show "byte_bit d' k = byte_bit d k" if "cell_bits f b k" for k
    using assms(4,6) that cell_fits [OF assms(1-3)] by simp
  show "fc_values f * 8 + b * fc_width f + fc_width f \<le> 8 * length d'"
    using cell_fits [OF assms(1-3)] assms(4,5) by simp
qed (use assms in simp)

lemma cells_apart:
  assumes "layout_ok l" "FixedColumnAt l i = Some f" "FixedColumnAt l j = Some g" "b < block_count l" "c < block_count l"
    "(i, b) \<noteq> (j, c)" "cell_bits g c k"
  shows "\<not> cell_bits f b k"
proof (cases "i = j")
  case True
  then show ?thesis using assms cell_bits_disjoint [of l i f b c k] by auto
next
  case False
  then show ?thesis using fixed_disjoint [OF assms(1-3)] cell_bits_in_arrays [OF assms(4)] cell_bits_in_arrays [OF assms(5,7)] by blast
qed

lemma put_cell_other:
  assumes "layout_ok l" "FixedColumnAt l i = Some f" "b < block_count l" "length d = payload_bytes l" "value_bytes (fc_width f) bs"
    "FixedColumnAt l j = Some g" "c < block_count l" "(i, b) \<noteq> (j, c)"
  shows "raw_cell g c (put_cell f b bs d) = raw_cell g c d"
  using put_cell_bits [OF assms(1-5)] cells_apart [OF assms(1,2,6,3,7,8)] assms(4)
  by (intro raw_cell_frame [OF assms(1,6,7)]) auto

end
