(* ===== verification/Chunk_Translate.thy ===== *)
theory Chunk_Translate
  imports Chunk_Layout_Laws
begin

text \<open>
  What \<open>TranslateChunk\<close> (\<open>src/chunk_layout.cpp\<close>) does to the cells of a chunk: a column kept with
  its type keeps its values, a column whose type changed has each value converted as the schema
  step says, and a column that was added has what a new block would get.
\<close>

section \<open>Columns of adjacent versions\<close>

lemma replaced_column:
  assumes "distinct (map col_id cols)" "at < length cols" "col_id after = col_id (cols ! at)"
    "c \<in> set cols" "d \<in> set (cols[at := after])" "col_id c = col_id d"
  shows "c = d \<or> (c = cols ! at \<and> d = after)"
proof -
  obtain i j where ij: "i < length cols" "cols ! i = c" "j < length cols" "cols[at := after] ! j = d"
    using assms(4,5) by (auto simp: in_set_conv_nth)
  have "col_id (cols ! i) = col_id (cols ! j)" using ij assms(3,6) by (cases "j = at") auto
  then have "i = j" using assms(1) ij(1,3) by (simp add: distinct_conv_nth) metis
  then show ?thesis using ij by (cases "j = at") auto
qed

lemma ChangeTypeAt_columns:
  assumes "ChangeTypeAt s at type conv = Inr s'"
  shows "\<exists>after ch. columns s' = (columns s)[at := after] \<and> ctype after = type \<and> col_id after = col_id (columns s ! at) \<and>
    nullable after = nullable (columns s ! at) \<and> version s' = version s + 1 \<and> history s' \<noteq> [] \<and>
    changes (last (history s')) = [ch] \<and> ch_kind ch = kChangeType \<and> col_id (ch_column ch) = col_id after \<and> conversion ch = conv"
proof -
  let ?after = "(columns s ! at)\<lparr>ctype := type\<rparr>"
  obtain after where a: "(if has_default (columns s ! at)
      then rbind (ChangedDefault (columns s ! at) ?after type conv) (\<lambda>d. Inr (?after\<lparr>default_value := d\<rparr>)) else Inr ?after) = Inr after"
    "NextVersion s \<lparr>ch_kind = kChangeType, position = of_nat at, ch_column = after, old_name = [],
        previous = columns s ! at, conversion = conv\<rparr> (s\<lparr>columns := (columns s)[at := after]\<rparr>) = Inr s'"
    using assms unfolding ChangeTypeAt_def Let_def by (elim rbind_InrE) blast
  have "ctype after = type" "col_id after = col_id (columns s ! at)" "nullable after = nullable (columns s ! at)"
    using a(1) by (auto split: if_splits)
  then show ?thesis using a(2) by (auto simp: NextVersion_def Let_def split: if_splits)
qed

text \<open>What a schema step may do to a column that both versions have.\<close>

definition column_kept :: "TableSchema \<Rightarrow> TableSchema \<Rightarrow> Column \<Rightarrow> Column \<Rightarrow> bool" where
  "column_kept s s' c d \<longleftrightarrow> nullable c = nullable d \<and> FamilyOf (kind (ctype c)) = FamilyOf (kind (ctype d)) \<and>
    (ctype c \<noteq> ctype d \<longrightarrow> version s' = version s + 1 \<and> history s' \<noteq> [] \<and>
      (\<exists>ch. changes (last (history s')) = [ch] \<and> ch_kind ch = kChangeType \<and> col_id (ch_column ch) = col_id d \<and>
        TakesConversion (FamilyOf (kind (ctype c))) (conversion ch)))"

lemma column_kept_refl: "nullable c = nullable d \<Longrightarrow> ctype c = ctype d \<Longrightarrow> column_kept s s' c d"
  by (simp add: column_kept_def)

lemma ChangeTypeAt_kept:
  assumes "ChangeTypeAt s at type conv = Inr s'" "distinct (map col_id (columns s))" "at < length (columns s)"
    "FamilyOf (kind type) = FamilyOf (kind (ctype (columns s ! at)))" "TakesConversion (FamilyOf (kind type)) conv"
    "c \<in> set (columns s)" "d \<in> set (columns s')" "col_id c = col_id d"
  shows "column_kept s s' c d"
proof -
  obtain after ch where a: "columns s' = (columns s)[at := after]" "ctype after = type" "col_id after = col_id (columns s ! at)"
    "nullable after = nullable (columns s ! at)" "version s' = version s + 1" "history s' \<noteq> []"
    "changes (last (history s')) = [ch]" "ch_kind ch = kChangeType" "col_id (ch_column ch) = col_id after" "conversion ch = conv"
    using ChangeTypeAt_columns [OF assms(1)] by blast
  consider "c = d" | "c = columns s ! at" "d = after"
    using replaced_column [OF assms(2,3) a(3) assms(6) _ assms(8)] assms(7) a(1) by auto
  then show ?thesis
  proof cases
    case 1
    then show ?thesis by (simp add: column_kept_refl)
  next
    case 2
    then show ?thesis using a assms(4,5) by (simp add: column_kept_def)
  qed
qed

lemma schema_step_kept:
  assumes "schema_step s s'" "ValidateTableSchema s = Inr ()" "c \<in> set (columns s)" "d \<in> set (columns s')" "col_id c = col_id d"
  shows "column_kept s s' c d"
proof -
  have dist: "distinct (map col_id (columns s))" using ValidateColumns_distinct ValidateTableSchemaD(2) [OF assms(2)] by auto
  then have same: "c = d" if "d \<in> set (columns s)"
    using that assms(3,5) by (meson distinct_map inj_onD)
  show ?thesis using assms(1)
  proof cases
    case (add e allow)
    have "col_id c < next_column_id s" using ValidateColumns_column ValidateTableSchemaD(2) [OF assms(2)] assms(3) by auto
    then have "d \<in> set (columns s)" using AddColumn_newer [OF add] assms(4,5) by auto
    then show ?thesis using same by (simp add: column_kept_refl)
  next
    case (drop name)
    then obtain at where "columns s' = take at (columns s) @ drop (Suc at) (columns s)"
      by (auto simp: DropColumn_def Let_def NextVersion_def split: if_splits)
    then have "d \<in> set (columns s)" using assms(4) by (metis Un_iff in_set_dropD in_set_takeD set_append)
    then show ?thesis using same by (simp add: column_kept_refl)
  next
    case (rename name new_name)
    then obtain at where at: "ColumnIndex s name = Inr at" "columns s' = (columns s)[at := (columns s ! at)\<lparr>col_name := new_name\<rparr>]"
      by (auto simp: RenameColumn_def Let_def NextVersion_def split: if_splits)
    then show ?thesis
      using replaced_column [OF dist _ _ assms(3) _ assms(5), of at "(columns s ! at)\<lparr>col_name := new_name\<rparr>"]
        ColumnIndex_spec [OF at(1)] assms(4) by (auto intro!: column_kept_refl)
  next
    case (change name type conv)
    then obtain at where "ColumnIndex s name = Inr at" "ChangeTypeAt s at type conv = Inr s'"
        "FamilyOf (kind type) = FamilyOf (kind (ctype (columns s ! at)))" "TakesConversion (FamilyOf (kind type)) conv"
      by (auto simp: ChangeColumnType_def Let_def split: if_splits)
    then show ?thesis using ChangeTypeAt_kept [OF _ dist] ColumnIndex_spec assms(3-5) by blast
  next
    case (start name type)
    then show ?thesis using assms(4) same by (auto simp: WithPendingNarrowing_def Let_def column_kept_refl split: if_splits)
  next
    case (narrow name type)
    obtain at p where at: "ColumnIndex s name = Inr at" "ChangeTypeAt (s\<lparr>pending := None\<rparr>) at type kExact = Inr s'"
      "pending s = Some p" "pn_column_id p = col_id (columns s ! at)" "pn_type p = type"
      using narrow by (auto simp: NarrowColumnType_def WithoutPendingNarrowing_def split: option.splits if_splits)
    have l: "at < length (columns s)" using ColumnIndex_spec [OF at(1)] by simp
    have "FamilyOf (kind type) = FamilyOf (kind (ctype (columns s ! at)))"
      using pending_column [OF assms(2) at(3)] at(4,5) l by simp
    then have "column_kept (s\<lparr>pending := None\<rparr>) s' c d"
      using ChangeTypeAt_kept [OF at(2)] dist l assms(3-5) by simp
    then show ?thesis by (auto simp: column_kept_def)
  next
    case stop
    then show ?thesis using assms(4) same by (simp add: WithoutPendingNarrowing_def column_kept_refl)
  qed
qed

section \<open>Values of cells\<close>

definition cell_value :: "Column \<Rightarrow> bytes option \<Rightarrow> ColumnValue res" where
  "cell_value c r = (case r of None \<Rightarrow> Inr NullV | Some bs \<Rightarrow> DecodeColumnValue c bs)"

definition empty_cell :: "FixedColumn \<Rightarrow> bytes option" where
  "empty_cell f = (if fc_validity f = None then Some (replicate (BytesForBits (fc_width f)) 0) else None)"

lemma fixed_cell_value: "FixedColumnAt l i = Some f \<Longrightarrow> fixed_cell l i b d = cell_value (columns (cl_schema l) ! i) (raw_cell f b d)"
  by (simp add: fixed_cell_def cell_value_def)

lemma DecodeColumnValue_ctype:
  assumes "ctype c = ctype d"
  shows "DecodeColumnValue c bs = DecodeColumnValue d bs"
  unfolding DecodeColumnValue_def assms ..

lemma cell_value_ctype:
  assumes "ctype c = ctype d"
  shows "cell_value c r = cell_value d r"
  unfolding cell_value_def DecodeColumnValue_ctype [OF assms] ..

lemma DecodeColumnValue_not_null: "DecodeColumnValue c bs \<noteq> Inr NullV"
  by (simp add: DecodeColumnValue_def Let_def split: ColumnKind.splits)

lemma FallbackOf_null: "FallbackOf c = Inr NullV \<Longrightarrow> nullable c"
  by (auto simp: FallbackOf_def DecodeColumnValue_not_null DecodeVarValue_def VarValue_def IntegerValue_def FloatValue_def
      split: if_splits Family.splits)

lemma not_null_values [simp]: "IntegerValue t n \<noteq> NullV" "FloatValue t x \<noteq> NullV" "VarValue t bs \<noteq> NullV"
  by (simp_all add: IntegerValue_def FloatValue_def VarValue_def)

lemma Fit_not_null: "v \<noteq> NullV \<Longrightarrow> Fit t v \<noteq> Inr (Some NullV)"
  by (auto simp: Fit_def Let_def split: Family.splits if_splits)

lemma Clamp_not_null: "Clamp t v \<noteq> Inr NullV"
  by (auto simp: Clamp_def Let_def)

lemma Truncate_not_null: "Truncate t v \<noteq> Inr NullV"
  by (auto simp: Truncate_def Let_def)

lemma ConvertValue_null:
  assumes "ConvertValue c d conv v = Inr NullV"
  shows "v = NullV \<or> nullable d"
proof (rule disjCI)
  assume n: "\<not> nullable d"
  have "ConvertValue c d conv v \<noteq> Inr NullV" if v: "v \<noteq> NullV"
  proof
    assume "ConvertValue c d conv v = Inr NullV"
    then obtain f where f: "Fit (ctype d) v = Inr f"
        "(case f of Some f \<Rightarrow> Inr f | None \<Rightarrow> (case conv of kExact \<Rightarrow> Inl (LogicError ''a value does not fit'')
         | kClamp \<Rightarrow> Clamp (ctype d) v | kDefault \<Rightarrow> FallbackOf d | kTruncate \<Rightarrow> Truncate (ctype d) v)) = Inr NullV"
      using v unfolding ConvertValue_def by (auto elim!: rbind_InrE)
    then show False
      using Fit_not_null [OF v, of "ctype d"] Clamp_not_null Truncate_not_null FallbackOf_null [of d] n
      by (cases f; cases conv) auto
  qed
  then show "v = NullV" using assms by blast
qed

lemma EncodeColumnValue_into_decodes:
  assumes "ValidateColumnType c = Inr ()" "EncodeColumnValue_into c v = Inr bs"
  shows "value_bytes (FixedWidthBits (ctype c)) bs \<and> DecodeColumnValue c bs = Inr v"
proof -
  have e: "EncodeColumnValue c v = Inr bs" using assms by (simp add: EncodeColumnValue_def)
  have w: "IsFixedWidth (kind (ctype c))"
    using assms(2) by (auto simp: EncodeColumnValue_into_def FixedWidthBits_def IsFixedWidth_def Let_def split: if_splits ColumnKind.splits)
  then have "type_ok (ctype c)" "holds_value (ctype c) v" using encode_refused [of c v] e by auto
  from encode_decode [OF this(1) w this(2)] show ?thesis
    using e by (auto simp: canonical_def value_bytes_def BytesForBits_def)
qed

section \<open>One column\<close>

definition outside_kept :: "ChunkLayout \<Rightarrow> FixedColumn \<Rightarrow> bytes \<Rightarrow> bytes \<Rightarrow> bool" where
  "outside_kept l f d d' \<longleftrightarrow> length d' = length d \<and>
    (\<forall>k < 8 * length d. \<not> in_arrays (block_count l) f k \<longrightarrow> byte_bit d' k = byte_bit d k)"

lemma outside_kept_refl [simp]: "outside_kept l f d d"
  by (simp add: outside_kept_def)

lemma outside_kept_trans: "outside_kept l f d e \<Longrightarrow> outside_kept l f e d' \<Longrightarrow> outside_kept l f d d'"
  by (simp add: outside_kept_def)

lemma outside_kept_put_cell:
  assumes "layout_ok l" "FixedColumnAt l i = Some f" "b < block_count l" "length d = payload_bytes l" "value_bytes (fc_width f) bs"
  shows "outside_kept l f d (put_cell f b bs d)"
  using put_cell_bits [OF assms] cell_bits_in_arrays [OF assms(3)] by (auto simp: outside_kept_def)

lemma outside_kept_cell:
  assumes "layout_ok l" "FixedColumnAt l i = Some f" "outside_kept l f d d'" "length d = payload_bytes l"
    "FixedColumnAt l j = Some g" "j \<noteq> i" "b < block_count l"
  shows "raw_cell g b d' = raw_cell g b d"
proof (rule raw_cell_frame [OF assms(1,5,7,4)])
  fix k assume "k < 8 * length d" "cell_bits g b k"
  then show "byte_bit d' k = byte_bit d k"
    using fixed_disjoint [OF assms(1,5,2,6) cell_bits_in_arrays [OF assms(7)]] assms(3) by (auto simp: outside_kept_def)
qed (use assms(3) in \<open>simp add: outside_kept_def\<close>)

text \<open>A loop over the blocks that leaves each cell empty or writes it once.\<close>

lemma block_loop:
  assumes "layout_ok l" "FixedColumnAt l i = Some f"
    and step: "\<And>b d d'. b < block_count l \<Longrightarrow> g b d = Inr d' \<Longrightarrow>
      (d' = d \<and> P b (empty_cell f)) \<or> (\<exists>bs. value_bytes (fc_width f) bs \<and> d' = put_cell f b bs d \<and> P b (Some bs))"
    and "rfold g [0..<n] d = Inr d'" "n \<le> block_count l" "length d = payload_bytes l"
      "\<forall>b < block_count l. raw_cell f b d = empty_cell f"
  shows "outside_kept l f d d' \<and> (\<forall>b < n. P b (raw_cell f b d')) \<and> (\<forall>b < block_count l. n \<le> b \<longrightarrow> raw_cell f b d' = empty_cell f)"
  using assms(4,5)
proof (induction n arbitrary: d')
  case (Suc n)
  obtain e where e: "rfold g [0..<n] d = Inr e" "g n e = Inr d'" using Suc.prems(1) by (auto simp: rfold_append)
  have IH: "outside_kept l f d e" "\<forall>b < n. P b (raw_cell f b e)" "\<forall>b < block_count l. n \<le> b \<longrightarrow> raw_cell f b e = empty_cell f"
    using Suc.IH [OF e(1)] Suc.prems(2) by auto
  have n: "n < block_count l" "length e = payload_bytes l" using Suc.prems(2) IH(1) assms(6) by (auto simp: outside_kept_def)
  from step [OF n(1) e(2)] show ?case
  proof (elim disjE exE conjE)
    assume "d' = e" "P n (empty_cell f)"
    then show ?thesis using IH n(1) by (auto simp: less_Suc_eq)
  next
    fix bs assume w: "value_bytes (fc_width f) bs" "d' = put_cell f n bs e" "P n (Some bs)"
    have "raw_cell f n d' = Some bs" using put_cell_bits [OF assms(1,2) n w(1)] w(2) by simp
    moreover have "raw_cell f b d' = raw_cell f b e" if "b < block_count l" "b \<noteq> n" for b
      using put_cell_other [OF assms(1,2) n w(1) assms(2) that(1)] that(2) w(2) by simp
    ultimately show ?thesis
      using IH w n outside_kept_trans [OF IH(1) outside_kept_put_cell [OF assms(1,2) n w(1)]] Suc.prems(2)
      by (auto simp: less_Suc_eq)
  qed
qed (use assms(7) in simp)

lemma rfold_Inr: "rfold (\<lambda>x s. Inr (f x s)) xs s = Inr (fold f xs s)"
  by (induction xs arbitrary: s) simp_all

lemma ConvertBlock_cells:
  "ConvertBlock before after conv old f presence payload b nxt =
    (if \<not> GetBit presence b then Inr nxt else
     rbind (cell_value before (raw_cell old b payload)) (\<lambda>v. rbind (ConvertValue before after conv v) (\<lambda>v.
       if v = NullV then Inr nxt else rbind (EncodeColumnValue_into after v) (\<lambda>bs. Inr (put_cell f b bs nxt)))))"
  unfolding ConvertBlock_def cell_value_def raw_cell_def cell_valid_def put_cell_def Let_def
  by (simp split: option.split)

lemma ConvertBlock_step:
  assumes "ConvertBlock before after conv old f presence payload b nxt = Inr nxt'" "ValidateColumnType after = Inr ()"
    "fc_width f = FixedWidthBits (ctype after)" "fc_validity f = None \<longleftrightarrow> \<not> nullable after"
    "fc_validity old = None \<longleftrightarrow> \<not> nullable before" "nullable before = nullable after"
  shows "let P = (\<lambda>r. GetBit presence b \<longrightarrow> cell_value after r = rbind (cell_value before (raw_cell old b payload)) (ConvertValue before after conv))
    in (nxt' = nxt \<and> P (empty_cell f)) \<or> (\<exists>bs. value_bytes (fc_width f) bs \<and> nxt' = put_cell f b bs nxt \<and> P (Some bs))"
proof (cases "GetBit presence b")
  case True
  then obtain v w where vw: "cell_value before (raw_cell old b payload) = Inr v" "ConvertValue before after conv v = Inr w"
      "(if w = NullV then Inr nxt else rbind (EncodeColumnValue_into after w) (\<lambda>bs. Inr (put_cell f b bs nxt))) = Inr nxt'"
    using assms(1) unfolding ConvertBlock_cells by (auto elim!: rbind_InrE)
  show ?thesis
  proof (cases "w = NullV")
    case w: True
    have "nullable after"
    proof (cases "raw_cell old b payload")
      case None
      then show ?thesis using assms(5,6) by (auto simp: raw_cell_def cell_valid_def split: if_splits option.splits)
    next
      case (Some bs)
      then have "v \<noteq> NullV" using vw(1) DecodeColumnValue_not_null by (auto simp: cell_value_def)
      then show ?thesis using ConvertValue_null vw(2) w by blast
    qed
    then show ?thesis using w vw True assms(4) by (auto simp: empty_cell_def cell_value_def)
  next
    case False
    then obtain bs where bs: "EncodeColumnValue_into after w = Inr bs" "nxt' = put_cell f b bs nxt" using vw(3) by auto
    then show ?thesis
      using EncodeColumnValue_into_decodes [OF assms(2) bs(1)] vw assms(3) by (auto simp: cell_value_def)
  qed
qed (use assms(1) in \<open>simp add: ConvertBlock_cells\<close>)

text \<open>An added column: the cell of a present block holds \<open>FallbackOf\<close>, what a new block would get.\<close>

lemma fold_raw_zero:
  "n \<le> m \<Longrightarrow> fold (\<lambda>i raw. raw OR push_bit (8 * i) (ucast (replicate m (0 :: byte) ! i))) [0..<n] (0 :: u64) = 0"
  by (induction n) simp_all

lemma f64_to_f32_zero: "f64_to_f32 0 = 0"
  by (simp add: f64_to_f32_def f64_exp_def f64_frac_def f64_sign_def f32_of_def round_half_even_def Let_def)

lemma FallbackOf_zero:
  assumes "\<not> has_default c" "\<not> nullable c" "type_ok (ctype c)" "IsFixedWidth (kind (ctype c))"
  shows "DecodeColumnValue c (replicate (BytesForBits (FixedWidthBits (ctype c))) 0) = FallbackOf c"
proof -
  let ?n = "BytesForBits (FixedWidthBits (ctype c))"
  have raw: "fold (\<lambda>i raw. raw OR push_bit (8 * i) (ucast (replicate ?n (0 :: byte) ! i))) [0..<min ?n 8] (0 :: u64) = 0"
    by (rule fold_raw_zero) simp
  have bit: "replicate ?n (0 :: byte) ! (i div 8) = 0" if "i < FixedWidthBits (ctype c)" for i
    using that BytesForBits_le(1) [of "FixedWidthBits (ctype c)"] by (intro nth_replicate) (auto intro: less_mult_imp_div_less)
  show ?thesis
  proof (cases "kind (ctype c) = kBits")
    case True
    then have "FixedWidthBits (ctype c) = unat (csize (ctype c))" by (simp add: FixedWidthBits_def IsFixedWidth_def)
    then show ?thesis
      using True assms(1,2) bit
      by (auto simp: DecodeColumnValue_def FallbackOf_def Let_def BytesForBits_def [symmetric] intro!: nth_equalityI)
  next
    case False
    then show ?thesis
      using assms raw
      by (cases "kind (ctype c)")
         (simp_all add: DecodeColumnValue_def FallbackOf_def Let_def BytesForBits_def [symmetric] IsFixedWidth_def
           IntegerValue_def FloatValue_def f64_to_f32_zero)
  qed
qed

lemma AddedBlock_fixed:
  assumes "fc_validity f = None \<longleftrightarrow> \<not> nullable column"
  shows "AddedBlock column (Some f) presence b (nxt, vc) =
    (if GetBit presence b \<and> has_default column then put_cell f b (default_value column) nxt else nxt, vc)"
  using assms by (auto simp: AddedBlock_def put_cell_def Let_def split: option.splits)

lemma fold_AddedBlock:
  assumes "fc_validity f = None \<longleftrightarrow> \<not> nullable column"
  shows "fold (AddedBlock column (Some f) presence) bs (nxt, vc) =
    (fold (\<lambda>b nxt. if GetBit presence b \<and> has_default column then put_cell f b (default_value column) nxt else nxt) bs nxt, vc)"
  by (induction bs arbitrary: nxt) (simp_all add: AddedBlock_fixed [OF assms] del: split_paired_All)

lemma AddedBlock_value:
  assumes "ValidateColumnType c = Inr ()" "ValidateDefault c = Inr ()" "IsFixedWidth (kind (ctype c))"
    "fc_width f = FixedWidthBits (ctype c)" "fc_validity f = None \<longleftrightarrow> \<not> nullable c"
  shows "if has_default c then value_bytes (fc_width f) (default_value c) \<and> cell_value c (Some (default_value c)) = FallbackOf c
    else cell_value c (empty_cell f) = FallbackOf c"
proof -
  have ok: "type_ok (ctype c)" using assms(1) by (simp add: ValidateColumnType_ok)
  show ?thesis
    using ValidateDefault_canonical [OF assms(2) _ assms(3) ok] FallbackOf_zero [OF _ _ ok assms(3)] assms(3-5)
    by (auto simp: canonical_def value_bytes_def BytesForBits_def [symmetric] cell_value_def empty_cell_def FallbackOf_def)
qed

text \<open>A kept column of unchanged type: both arrays are copied.\<close>

lemma copy_array_bits:
  assumes "at + n \<le> length dst" "from + n \<le> length src"
  shows "length (copy_array dst at src from n) = length dst \<and> (\<forall>k < 8 * length dst. byte_bit (copy_array dst at src from n) k =
    (if 8 * at \<le> k \<and> k < 8 * at + 8 * n then byte_bit src (8 * from + (k - 8 * at)) else byte_bit dst k))"
proof -
  have "written dst (copy_array dst at src from n) (8 * at) (8 * n) (byte_bit (take n (drop from src)))"
    using splice_bits [of "8 * at" "8 * n" dst "take n (drop from src)"] assms by (simp add: copy_array_def)
  moreover have "byte_bit (take n (drop from src)) i = byte_bit src (8 * from + i)" if "i < 8 * n" for i
    using that assms by (simp add: byte_bit_def less_mult_imp_div_less mult.commute)
  ultimately show ?thesis by (auto simp: written_def)
qed

lemma placed_end:
  "placed bc a fs e \<Longrightarrow> f \<in> set fs \<Longrightarrow> fc_values f + BytesForBits (bc * fc_width f) \<le> e \<and>
    (\<forall>v. fc_validity f = Some v \<longrightarrow> v + BytesForBits bc \<le> e)"
proof (induction fs arbitrary: a)
  case (Cons g fs)
  then show ?case
    by (cases "fc_validity g") (auto dest: placed_arrays)
qed simp

lemma fixed_arrays_end:
  assumes "layout_ok l" "FixedColumnAt l i = Some f"
  shows "fc_values f + BytesForBits (block_count l * fc_width f) \<le> payload_bytes l \<and>
    (\<forall>v. fc_validity f = Some v \<longrightarrow> v + BytesForBits (block_count l) \<le> payload_bytes l)"
  using placed_end [OF layout_placed [OF assms(1)]] FixedColumnAt_spec [OF assms] nth_mem by blast

lemma copied_cell:
  assumes "layout_ok from" "FixedColumnAt from j = Some old" "layout_ok to" "FixedColumnAt to i = Some f"
    "block_count from = block_count to" "fc_width old = fc_width f" "fc_validity old = None \<longleftrightarrow> fc_validity f = None"
    "length payload = payload_bytes from" "length nxt = payload_bytes to"
    and nxt': "nxt' = copy_array nxt (fc_values f) payload (fc_values old) (BytesForBits (block_count to * fc_width f))"
      "case fc_validity f of None \<Rightarrow> r = nxt' | Some v \<Rightarrow> r = copy_array nxt' v payload (the (fc_validity old)) (BytesForBits (block_count to))"
  shows "outside_kept to f nxt r \<and> (\<forall>b < block_count to. raw_cell f b r = raw_cell old b payload)"
proof -
  let ?n = "BytesForBits (block_count to * fc_width f)" and ?m = "BytesForBits (block_count to)"
  note ends = fixed_arrays_end [OF assms(1,2)] fixed_arrays_end [OF assms(3,4)]
  have c: "length nxt' = length nxt" "\<And>k. k < 8 * length nxt \<Longrightarrow> byte_bit nxt' k =
      (if 8 * fc_values f \<le> k \<and> k < 8 * fc_values f + 8 * ?n then byte_bit payload (8 * fc_values old + (k - 8 * fc_values f)) else byte_bit nxt k)"
    using copy_array_bits [of "fc_values f" ?n nxt "fc_values old" payload] ends assms(5,6,8,9) by (auto simp: nxt'(1))
  have d: "length r = length nxt" "\<And>k. k < 8 * length nxt \<Longrightarrow> byte_bit r k = (case fc_validity f of None \<Rightarrow> byte_bit nxt' k
      | Some v \<Rightarrow> if 8 * v \<le> k \<and> k < 8 * v + 8 * ?m then byte_bit payload (8 * the (fc_validity old) + (k - 8 * v)) else byte_bit nxt' k)"
    using copy_array_bits [of _ ?m nxt' "the (fc_validity old)" payload] ends assms(5,7,8,9) c(1) nxt'(2)
    by (cases "fc_validity f"; force)+
  have "outside_kept to f nxt r"
    using c d by (auto simp: outside_kept_def in_arrays_def split: option.splits)
  moreover have "raw_cell f b r = raw_cell old b payload" if b: "b < block_count to" for b
  proof -
    let ?o = "b * fc_width f"
    have o: "?o + fc_width f \<le> 8 * ?n" using cell_end [OF b, of f] by simp
    have fits: "fc_values f * 8 + ?o + fc_width f \<le> 8 * length r" "fc_values old * 8 + ?o + fc_width f \<le> 8 * length payload"
      using o ends d(1) assms(5,6,8,9) by auto
    have "byte_bit r (fc_values f * 8 + ?o + i) = byte_bit payload (fc_values old * 8 + ?o + i)" if "i < fc_width f" for i
    proof -
      have k: "fc_values f * 8 + ?o + i < 8 * length nxt" using fits(1) d(1) that by simp
      have "\<And>v. fc_validity f = Some v \<Longrightarrow> fc_values f * 8 + ?o + i < 8 * v" using fixed_validity [OF assms(3,4)] o that by auto
      then show ?thesis using c(2) [OF k] d(2) [OF k] o that by (auto split: option.splits simp: mult.commute add.assoc)
    qed
    then have "ReadValueBits r (fc_values f * 8 + ?o) (fc_width f) = ReadValueBits payload (fc_values old * 8 + ?o) (fc_width f)"
      using ReadValueBits_bits [OF fits(1)] ReadValueBits_bits [OF fits(2)] by (intro value_bits.valid_eq) auto
    moreover have "cell_valid f b r = cell_valid old b payload"
      using d assms(7,9) ends(2) b BytesForBits_le(1) [of "block_count to"]
      by (fastforce simp: cell_valid_def GetBit_byte_bit split: option.splits)
    ultimately show ?thesis by (simp add: raw_cell_def assms(6))
  qed
  ultimately show ?thesis by blast
qed

section \<open>All columns\<close>

definition translated_cell :: "ChunkLayout \<Rightarrow> ChunkLayout \<Rightarrow> nat \<Rightarrow> nat \<Rightarrow> bytes \<Rightarrow> ColumnValue res" where
  "translated_cell from to i b payload =
    (let column = columns (cl_schema to) ! i in
     case IndexOfId from (col_id column) of
       Some j \<Rightarrow>
         if ctype (columns (cl_schema from) ! j) = ctype column then fixed_cell from j b payload
         else rbind (ConversionOf from to (col_id column)) (\<lambda>conv.
           rbind (fixed_cell from j b payload) (ConvertValue (columns (cl_schema from) ! j) column conv))
     | None \<Rightarrow> FallbackOf column)"

definition adjacent :: "ChunkLayout \<Rightarrow> ChunkLayout \<Rightarrow> bool" where
  "adjacent from to \<longleftrightarrow> layout_ok from \<and> layout_ok to \<and> block_count from = block_count to \<and>
    schema_step (cl_schema from) (cl_schema to)"

lemma layout_column:
  assumes "layout_ok l" "i < length (columns (cl_schema l))"
  shows "ValidateColumnType (columns (cl_schema l) ! i) = Inr () \<and> ValidateDefault (columns (cl_schema l) ! i) = Inr ()"
  using assms ValidateColumns_column [OF ValidateTableSchemaD(2) nth_mem] unfolding layout_ok_def by blast

lemma fixed_width_kind: "FixedWidthBits t \<noteq> 0 \<Longrightarrow> IsFixedWidth (kind t)"
  by (auto simp: FixedWidthBits_def IsFixedWidth_def split: ColumnKind.splits)

lemma adjacent_kept:
  assumes "adjacent from to" "IndexOfId from (col_id (columns (cl_schema to) ! i)) = Some j" "i < length (columns (cl_schema to))"
  shows "j < length (columns (cl_schema from)) \<and>
    column_kept (cl_schema from) (cl_schema to) (columns (cl_schema from) ! j) (columns (cl_schema to) ! i)"
proof -
  have a: "layout_ok from" "schema_step (cl_schema from) (cl_schema to)" using assms(1) by (auto simp: adjacent_def)
  then have j: "j < length (columns (cl_schema from))" "col_id (columns (cl_schema from) ! j) = col_id (columns (cl_schema to) ! i)"
    using IndexOfId_spec [OF a(1)] assms(2) by auto
  then show ?thesis using schema_step_kept [OF a(2) _ nth_mem nth_mem] a(1) assms(3) by (auto simp: layout_ok_def)
qed

lemma TranslateColumn_fixed:
  assumes adj: "adjacent from to" and f: "FixedColumnAt to i = Some f"
    and l: "length payload = payload_bytes from" "length nxt = payload_bytes to"
    and z: "\<forall>b < block_count to. raw_cell f b nxt = empty_cell f"
    and t: "TranslateColumn from to presence payload vars i (nxt, vc) = Inr (nxt', vc')"
  shows "vc' = vc \<and> outside_kept to f nxt nxt' \<and>
    (\<forall>b < block_count to. GetBit presence b \<longrightarrow> fixed_cell to i b nxt' = translated_cell from to i b payload)"
proof -
  let ?c = "columns (cl_schema to) ! i"
  have ok: "layout_ok from" "layout_ok to" "block_count from = block_count to" using adj by (auto simp: adjacent_def)
  have fs: "i < length (columns (cl_schema to))" "fc_width f = FixedWidthBits (ctype ?c)" "fc_width f \<noteq> 0"
    "fc_validity f = None \<longleftrightarrow> \<not> nullable ?c" using FixedColumnAt_spec [OF ok(2) f] by auto
  have c: "ValidateColumnType ?c = Inr ()" "ValidateDefault ?c = Inr ()" using layout_column [OF ok(2) fs(1)] by auto
  show ?thesis
  proof (cases "IndexOfId from (col_id ?c)")
    case None
    let ?g = "\<lambda>b nxt. if GetBit presence b \<and> has_default ?c then put_cell f b (default_value ?c) nxt else nxt"
    have r: "vc' = vc" "rfold (\<lambda>b nxt. Inr (?g b nxt)) [0..<block_count to] nxt = Inr nxt'"
      using t None f fold_AddedBlock [OF fs(4), of presence] by (auto simp: TranslateColumn_def rfold_Inr Let_def)
    have v: "IsFixedWidth (kind (ctype ?c))" using fixed_width_kind fs(2,3) by simp
    let ?P = "\<lambda>b r. GetBit presence b \<longrightarrow> cell_value ?c r = FallbackOf ?c"
    have "(d' = d \<and> ?P b (empty_cell f)) \<or> (\<exists>bs. value_bytes (fc_width f) bs \<and> d' = put_cell f b bs d \<and> ?P b (Some bs))"
      if "Inr (?g b d) = (Inr d' :: bytes res)" for b d d'
      using that AddedBlock_value [OF c v fs(2,4)] by (auto split: if_splits)
    from block_loop [OF ok(2) f this r(2) order_refl l(2) z]
    have "outside_kept to f nxt nxt' \<and> (\<forall>b < block_count to. ?P b (raw_cell f b nxt'))" by blast
    then show ?thesis using r(1) None by (simp add: fixed_cell_value [OF f] translated_cell_def)
  next
    case (Some j)
    let ?d = "columns (cl_schema from) ! j"
    have k: "nullable ?d = nullable ?c" using adjacent_kept [OF adj Some fs(1)] by (simp add: column_kept_def)
    show ?thesis
    proof (cases "ctype ?d = ctype ?c")
      case True
      then obtain old where old: "FixedColumnAt from j = Some old"
        using t Some f by (auto simp: TranslateColumn_def split: option.splits)
      have os: "fc_width old = fc_width f" "fc_validity old = None \<longleftrightarrow> fc_validity f = None"
        using FixedColumnAt_spec [OF ok(1) old] True fs k by auto
      have "vc' = vc" "case fc_validity f of None \<Rightarrow> nxt' = copy_array nxt (fc_values f) payload (fc_values old) (BytesForBits (block_count to * fc_width f))
        | Some v \<Rightarrow> nxt' = copy_array (copy_array nxt (fc_values f) payload (fc_values old) (BytesForBits (block_count to * fc_width f)))
            v payload (the (fc_validity old)) (BytesForBits (block_count to))"
        using t Some f old True by (auto simp: TranslateColumn_def Let_def split: option.splits)
      with copied_cell [OF ok(1) old ok(2) f ok(3) os l refl] show ?thesis
        using Some True cell_value_ctype [OF True] by (simp add: fixed_cell_value [OF f] fixed_cell_value [OF old] translated_cell_def)
    next
      case False
      obtain conv old where co: "ConversionOf from to (col_id ?c) = Inr conv" "FixedColumnAt from j = Some old" "vc' = vc"
          "rfold (ConvertBlock ?d ?c conv old f presence payload) [0..<block_count to] nxt = Inr nxt'"
        using t Some f False by (auto simp: TranslateColumn_def ConvertColumn_def Let_def split: option.splits)
      have ov: "fc_validity old = None \<longleftrightarrow> \<not> nullable ?d" using FixedColumnAt_spec [OF ok(1) co(2)] by blast
      let ?P = "\<lambda>b r. GetBit presence b \<longrightarrow> cell_value ?c r = rbind (cell_value ?d (raw_cell old b payload)) (ConvertValue ?d ?c conv)"
      have "outside_kept to f nxt nxt' \<and> (\<forall>b < block_count to. ?P b (raw_cell f b nxt'))"
        using block_loop [OF ok(2) f _ co(4) order_refl l(2) z, of ?P] ConvertBlock_step [OF _ c(1) fs(2,4) ov k]
        unfolding Let_def by blast
      then show ?thesis
        using Some False co(1,3) by (simp add: fixed_cell_value [OF f] fixed_cell_value [OF co(2)] translated_cell_def)
    qed
  qed
qed

lemma TranslateColumn_var:
  assumes "FixedColumnAt to i = None" "TranslateColumn from to presence payload vars i (nxt, vc) = Inr (nxt', vc')"
  shows "nxt' = nxt"
proof -
  have "fst (AddedBlock c None presence b st) = fst st" for c b st by (simp add: AddedBlock_def split: prod.splits)
  then have "fst (fold (AddedBlock c None presence) bs st) = fst st" for c bs st by (induction bs arbitrary: st) simp_all
  then show ?thesis
    using assms by (auto simp: TranslateColumn_def ConvertColumn_def Let_def split: option.splits if_splits) (metis fst_conv)
qed

lemma zero_cells:
  assumes "layout_ok l" "FixedColumnAt l i = Some f" "b < block_count l"
  shows "raw_cell f b (replicate (payload_bytes l) 0) = empty_cell f"
proof -
  let ?d = "replicate (payload_bytes l) (0 :: byte)" and ?o = "fc_values f * 8 + b * fc_width f"
  have fits: "\<forall>k. cell_bits f b k \<longrightarrow> \<not> byte_bit ?d k" "?o + fc_width f \<le> 8 * length ?d"
    using cell_fits [OF assms] zero_bits by auto
  have "ReadValueBits ?d ?o (fc_width f) = replicate (BytesForBits (fc_width f)) 0"
  proof (rule value_bits.valid_eq)
    show "value_bytes (fc_width f) (replicate (BytesForBits (fc_width f)) 0)" by (simp add: value_bytes_def zero_bits)
    show "\<forall>i < fc_width f. byte_bit (ReadValueBits ?d ?o (fc_width f)) i = byte_bit (replicate (BytesForBits (fc_width f)) 0) i"
      using ReadValueBits_bits [OF fits(2)] fits(1) BytesForBits_le(1) [of "fc_width f"] zero_bits by (auto simp: cell_bits_def)
  qed (use ReadValueBits_bits [OF fits(2)] in blast)
  then show ?thesis
    using fits(1) by (auto simp: raw_cell_def cell_valid_def empty_cell_def cell_bits_def GetBit_byte_bit split: option.splits)
qed

lemma rfold_TranslateColumn:
  assumes adj: "adjacent from to" and l: "length payload = payload_bytes from"
    and t: "rfold (TranslateColumn from to presence payload vars) [0..<n] (replicate (payload_bytes to) 0, []) = Inr (nxt, vc)"
  shows "length nxt = payload_bytes to \<and>
    (\<forall>i f b. FixedColumnAt to i = Some f \<longrightarrow> b < block_count to \<longrightarrow>
      (i < n \<longrightarrow> GetBit presence b \<longrightarrow> fixed_cell to i b nxt = translated_cell from to i b payload) \<and>
      (n \<le> i \<longrightarrow> raw_cell f b nxt = empty_cell f))"
  using t
proof (induction n arbitrary: nxt vc)
  case 0
  then show ?case using zero_cells adj by (auto simp: adjacent_def)
next
  case (Suc n)
  have ok: "layout_ok to" using adj by (simp add: adjacent_def)
  obtain e vc0 where e: "rfold (TranslateColumn from to presence payload vars) [0..<n] (replicate (payload_bytes to) 0, []) = Inr (e, vc0)"
      "TranslateColumn from to presence payload vars n (e, vc0) = Inr (nxt, vc)"
    using Suc.prems by (auto simp: rfold_append)
  have IH: "length e = payload_bytes to"
    "\<And>i f b. FixedColumnAt to i = Some f \<Longrightarrow> b < block_count to \<Longrightarrow>
      (i < n \<longrightarrow> GetBit presence b \<longrightarrow> fixed_cell to i b e = translated_cell from to i b payload) \<and> (n \<le> i \<longrightarrow> raw_cell f b e = empty_cell f)"
    using Suc.IH [OF e(1)] by blast+
  show ?case
  proof (cases "FixedColumnAt to n")
    case None
    then have "nxt = e" using TranslateColumn_var [OF None e(2)] by simp
    then show ?thesis using IH None by (auto simp: less_Suc_eq)
  next
    case (Some f)
    have r: "outside_kept to f e nxt" "\<forall>b < block_count to. GetBit presence b \<longrightarrow> fixed_cell to n b nxt = translated_cell from to n b payload"
      using TranslateColumn_fixed [OF adj Some l IH(1) _ e(2)] IH(2) [OF Some] by auto
    have same: "raw_cell g b nxt = raw_cell g b e" if "FixedColumnAt to i = Some g" "b < block_count to" "i \<noteq> n" for i g b
      using outside_kept_cell [OF ok Some r(1) IH(1) that(1,3,2)] .
    then have "fixed_cell to i b nxt = fixed_cell to i b e" if "FixedColumnAt to i = Some g" "b < block_count to" "i \<noteq> n" for i g b
      using that by (simp add: fixed_cell_value)
    then show ?thesis
      using r same IH by (auto simp: less_Suc_eq outside_kept_def)
  qed
qed

lemma TranslateChunk_payload:
  assumes "adjacent from to" "TranslateChunk from to presence (payload, vars) = Inr (nxt, vars')"
    "FixedColumnAt to i = Some f" "b < block_count to" "GetBit presence b"
  shows "length nxt = payload_bytes to \<and> fixed_cell to i b nxt = translated_cell from to i b payload"
proof -
  have i: "i < length (columns (cl_schema to))" using FixedColumnAt_spec [OF _ assms(3)] assms(1) by (simp add: adjacent_def)
  obtain vc where "length payload = payload_bytes from"
      "rfold (TranslateColumn from to presence payload vars) [0..<length (columns (cl_schema to))]
        (replicate (payload_bytes to) 0, []) = Inr (nxt, vc)"
    using assms(2) by (auto simp: TranslateChunk_def Let_def split: if_splits)
  from rfold_TranslateColumn [OF assms(1) this] show ?thesis using i assms(3-5) by blast
qed

section \<open>Properties\<close>

text \<open>
  Claim C33. A cell of a chunk's payload is independent of every other cell: in any layout the
  constructor accepts, an encoded value written to a column of a block, followed by its validity
  bit, reads back as that value, keeps the size of the payload, and changes what no other column
  and no other block reads.
\<close>

theorem cells_independent:
  assumes "MakeChunkLayout schema count limit = Inr l" "FixedColumnAt l i = Some f" "b < count" "length payload = payload_bytes l"
    "EncodeColumnValue (columns schema ! i) v = Inr bs"
    "payload' = (let p = WriteValueBits payload (fc_values f * 8 + b * fc_width f) bs (fc_width f)
      in case fc_validity f of None \<Rightarrow> p | Some at \<Rightarrow> PutBit p (8 * at + b) True)"
  shows "length payload' = length payload \<and> fixed_cell l i b payload' = Inr v \<and>
    (\<forall>j c. FixedColumnAt l j \<noteq> None \<and> c < count \<and> (j, c) \<noteq> (i, b) \<longrightarrow> fixed_cell l j c payload' = fixed_cell l j c payload)"
proof -
  have l: "layout_ok l" "cl_schema l = schema" "block_count l = count" using MakeChunkLayout_ok [OF assms(1)] by auto
  have f: "fc_width f = FixedWidthBits (ctype (columns schema ! i))" "i < length (columns schema)"
    using FixedColumnAt_spec [OF l(1) assms(2)] l(2) by auto
  have v: "value_bytes (fc_width f) bs" "DecodeColumnValue (columns schema ! i) bs = Inr v"
    using EncodeColumnValue_into_decodes [of "columns schema ! i" v bs] layout_column [OF l(1)] f l(2) assms(5)
    by (auto simp: EncodeColumnValue_def)
  have p: "payload' = put_cell f b bs payload" using assms(6) by (simp add: put_cell_def)
  have b: "b < block_count l" using assms(3) l(3) by simp
  show ?thesis
    using put_cell_bits [OF l(1) assms(2) b assms(4) v(1)] put_cell_other [OF l(1) assms(2) b assms(4) v(1)] v(2) l assms(2)
    unfolding p by (auto simp: fixed_cell_value cell_value_def)
qed

text \<open>
  Claim C32. \<open>TranslateChunk\<close> between adjacent schema versions gives every present block, in every
  fixed-width column, the value the schema step promises: the same value where the column kept its
  type, that value converted by the conversion recorded in the step where the type changed, and
  DEFAULT, NULL or zero (what a new block would get) where the column was added.
\<close>

theorem TranslateChunk_cells:
  assumes "MakeChunkLayout s count limit = Inr from" "MakeChunkLayout s' count limit' = Inr to" "schema_step s s'"
    "TranslateChunk from to presence (payload, vars) = Inr (payload', vars')"
    "FixedColumnAt to i \<noteq> None" "b < count" "GetBit presence b"
  shows "length payload' = payload_bytes to \<and>
    fixed_cell to i b payload' =
      (let column = columns s' ! i in
       case IndexOfId from (col_id column) of
         Some j \<Rightarrow> if ctype (columns s ! j) = ctype column then fixed_cell from j b payload
           else rbind (ConversionOf from to (col_id column)) (\<lambda>conv.
             rbind (fixed_cell from j b payload) (ConvertValue (columns s ! j) column conv))
       | None \<Rightarrow> FallbackOf column)"
proof -
  have l: "layout_ok from" "cl_schema from = s" "block_count from = count" "layout_ok to" "cl_schema to = s'" "block_count to = count"
    using MakeChunkLayout_ok [OF assms(1)] MakeChunkLayout_ok [OF assms(2)] by auto
  then have adj: "adjacent from to" using assms(3) by (simp add: adjacent_def)
  obtain f where "FixedColumnAt to i = Some f" using assms(5) by blast
  from TranslateChunk_payload [OF adj assms(4) this] have "length payload' = payload_bytes to"
      "fixed_cell to i b payload' = translated_cell from to i b payload" using assms(6,7) l by simp_all
  then show ?thesis unfolding translated_cell_def l by (rule conjI)
qed

section \<open>Examples\<close>

definition example_layout :: ChunkLayout where
  "example_layout = \<lparr>cl_schema = example_schema, block_count = 4, payload_bytes = 4, payload_bytes_limit = 1000,
     fixed_columns = [\<lparr>fc_column = 0, fc_width = 8, fc_values = 0, fc_validity = None\<rparr>], fixed_index = [Some 0],
     by_name = [''bits'' \<mapsto> 0], var_by_id = Map.empty, by_id = [1 \<mapsto> 0], bit_string_blocks = True\<rparr>"

definition extended_layout :: ChunkLayout where
  "extended_layout = \<lparr>cl_schema = extended_schema, block_count = 4, payload_bytes = 7, payload_bytes_limit = 1000,
     fixed_columns = [\<lparr>fc_column = 0, fc_width = 8, fc_values = 0, fc_validity = None\<rparr>,
       \<lparr>fc_column = 1, fc_width = 4, fc_values = 4, fc_validity = Some 6\<rparr>], fixed_index = [Some 0, Some 1],
     by_name = [''bits'' \<mapsto> 0, ''lit'' \<mapsto> 1], var_by_id = Map.empty, by_id = [1 \<mapsto> 0, 2 \<mapsto> 1], bit_string_blocks = False\<rparr>"

lemma example_layout_made: "MakeChunkLayout example_schema 4 1000 = Inr example_layout"
proof -
  have c: "columns example_schema = [\<lparr>col_id = 1, col_name = ''bits'', ctype = \<lparr>kind = kBits, csize = 8\<rparr>, nullable = False,
     required = False, has_default = False, default_value = []\<rparr>]"
    by (simp add: example_schema_def SingleBitsColumnSchema_def)
  show ?thesis
    by (simp add: MakeChunkLayout_def example_schema_valid c ChunkLayout_column_def emplace_def example_layout_def
        FixedWidthBits_def IsFixedWidth_def BytesForBits_def)
qed

lemma extended_columns: "columns extended_schema = [
    \<lparr>col_id = 1, col_name = ''bits'', ctype = \<lparr>kind = kBits, csize = 8\<rparr>, nullable = False,
     required = False, has_default = False, default_value = []\<rparr>,
    \<lparr>col_id = 2, col_name = ''lit'', ctype = \<lparr>kind = kBits, csize = 4\<rparr>, nullable = True,
     required = False, has_default = False, default_value = []\<rparr>]"
  using AddColumn_newer [OF extended_schema_add]
  by (simp add: example_schema_def example_added_def SingleBitsColumnSchema_def)

lemma extended_layout_made: "MakeChunkLayout extended_schema 4 1000 = Inr extended_layout"
  by (simp add: MakeChunkLayout_def table_schema_valid [OF extended_schema_table] extended_columns ChunkLayout_column_def emplace_def
      extended_layout_def FixedWidthBits_def IsFixedWidth_def BytesForBits_def)

lemma example_lists: "replicate 7 (0 :: byte) = [0, 0, 0, 0, 0, 0, 0]" "[0..<4] = [0, 1, 2, 3]" "[0..<2] = [0, 1]"
  by (simp_all add: numeral_eq_Suc)

lemma example_fixed:
  "FixedColumnAt extended_layout 0 = Some \<lparr>fc_column = 0, fc_width = 8, fc_values = 0, fc_validity = None\<rparr>"
  "FixedColumnAt extended_layout 1 = Some \<lparr>fc_column = 1, fc_width = 4, fc_values = 4, fc_validity = Some 6\<rparr>"
  "FixedColumnAt example_layout 0 = Some \<lparr>fc_column = 0, fc_width = 8, fc_values = 0, fc_validity = None\<rparr>"
  by (simp_all add: FixedColumnAt_def extended_layout_def example_layout_def)

lemma example_fields:
  "cl_schema extended_layout = extended_schema" "block_count extended_layout = 4" "payload_bytes extended_layout = 7"
  "cl_schema example_layout = example_schema" "block_count example_layout = 4" "payload_bytes example_layout = 4"
  "by_id example_layout = [1 \<mapsto> 0]"
  by (simp_all add: extended_layout_def example_layout_def)

lemma example_translated:
  "TranslateChunk example_layout extended_layout [5] ([1, 0, 3, 0], \<lparr>vdata = [], voffsets = []\<rparr>) =
    Inr ([1, 0, 3, 0, 0, 0, 0], \<lparr>vdata = [], voffsets = []\<rparr>)"
proof -
  let ?v = "\<lparr>vdata = [], voffsets = []\<rparr> :: ChunkVars"
  have "TranslateColumn example_layout extended_layout [5] [1, 0, 3, 0] ?v 0 ([0, 0, 0, 0, 0, 0, 0], []) =
      Inr ([1, 0, 3, 0, 0, 0, 0], [])"
    by (simp add: TranslateColumn_def example_fixed example_fields extended_columns IndexOfId_def example_schema_def
        SingleBitsColumnSchema_def BytesForBits_def copy_array_def Let_def)
  moreover have "TranslateColumn example_layout extended_layout [5] [1, 0, 3, 0] ?v 1 ([1, 0, 3, 0, 0, 0, 0], []) =
      Inr ([1, 0, 3, 0, 0, 0, 0], [])"
    by (simp add: TranslateColumn_def example_fixed [unfolded One_nat_def] example_fields extended_columns IndexOfId_def
        AddedBlock_def Let_def example_lists)
  ultimately show ?thesis
    by (simp add: TranslateChunk_def example_fields extended_columns example_lists vars_entries_def BytesForBits_def)
qed

theorem cells_independent_witness:
  "fixed_cell extended_layout 0 2 (WriteValueBits [1, 0, 3, 0, 0, 0, 0] (0 * 8 + 2 * 8) [9] 8) = Inr (BitsV ''10010000'') \<and>
    fixed_cell extended_layout 0 0 (WriteValueBits [1, 0, 3, 0, 0, 0, 0] (0 * 8 + 2 * 8) [9] 8) =
      fixed_cell extended_layout 0 0 [1, 0, 3, 0, 0, 0, 0]"
proof -
  have "EncodeColumnValue (columns extended_schema ! 0) (BitsV ''10010000'') = Inr [9]"
    by (simp add: extended_columns EncodeColumnValue_def EncodeColumnValue_into_def ValidateColumnType_def FixedWidthBits_def
        IsFixedWidth_def EncodeBits_step_def upt_conv_Cons kMaxFixedBitsPerBlock_def)
  then show ?thesis
    using cells_independent [OF extended_layout_made example_fixed(1), of 2 "[1, 0, 3, 0, 0, 0, 0]" "BitsV ''10010000''" "[9]"]
    by (simp add: example_fields example_fixed)
qed

theorem TranslateChunk_cells_witness:
  "fixed_cell extended_layout 0 2 [1, 0, 3, 0, 0, 0, 0] = fixed_cell example_layout 0 2 [1, 0, 3, 0] \<and>
    fixed_cell extended_layout 1 2 [1, 0, 3, 0, 0, 0, 0] = Inr NullV"
proof -
  note t = TranslateChunk_cells [OF example_layout_made extended_layout_made schema_step.add [OF extended_schema_add] example_translated]
  show ?thesis
    using t [of 0 2] t [of 1 2]
    by (simp add: example_fixed example_fixed [unfolded One_nat_def] GetBit_def extended_columns IndexOfId_def example_fields
        example_schema_def SingleBitsColumnSchema_def FallbackOf_def)
qed

end
