(* ===== verification/Geometry.thy ===== *)
theory Geometry
  imports Chunk_Translate "HOL-Library.Signed_Division"
begin

text \<open>
  The geometry of a table, from \<open>src/geometry.cpp\<close>: the checked configuration, the layouts of the
  current and of the earlier schema versions, and the arithmetic that takes a block of the world
  to its chunk and its place there.

  A 64-bit signed integer is an \<open>int\<close>; \<open>FloorDiv\<close> and \<open>FloorMod\<close> are shown to stay in range. The
  division of C++ rounds towards zero: it is \<open>sdiv\<close> and \<open>smod\<close> of the library.
\<close>

section \<open>Configuration\<close>

definition kMaxLargeChunkDimensionChunks :: u32 where
  "kMaxLargeChunkDimensionChunks = 1000000"

definition kMaxChunkDimensionBlocks :: u32 where
  "kMaxChunkDimensionBlocks = 4096"

definition kMaxChunkBlockCount :: u64 where
  "kMaxChunkBlockCount = 1048576"

definition kMaxBlockBits :: u32 where
  "kMaxBlockBits = 65535"

definition kMaxChunkPayloadBytes :: u64 where
  "kMaxChunkPayloadBytes = 64 * 1024 * 1024"

record GeometryConfig =
  large_chunk_width_chunks :: u32
  large_chunk_height_chunks :: u32
  chunk_width_blocks :: u32
  chunk_height_blocks :: u32
  block_bits :: u32

record Geometry =
  config :: GeometryConfig
  g_layout :: ChunkLayout
  earlier :: "u64 \<rightharpoonup> ChunkLayout"

definition RequireAtMost :: "u32 \<Rightarrow> u32 \<Rightarrow> unit res" where
  "RequireAtMost v limit = (if v > limit then Inl (InvalidArgument ''must be at most the limit'') else Inr ())"

definition MakeGeometry :: "GeometryConfig \<Rightarrow> TableSchema \<Rightarrow> Geometry res" where
  "MakeGeometry c schema =
    (if large_chunk_width_chunks c = 0 \<or> large_chunk_height_chunks c = 0
     then Inl (InvalidArgument ''large chunk dimensions must be > 0'')
     else if chunk_width_blocks c = 0 \<or> chunk_height_blocks c = 0
     then Inl (InvalidArgument ''chunk dimensions must be > 0'')
     else if block_bits c = 0 then Inl (InvalidArgument ''block_bits must be > 0'')
     else
       rbind (RequireAtMost (large_chunk_width_chunks c) kMaxLargeChunkDimensionChunks) (\<lambda>_.
       rbind (RequireAtMost (large_chunk_height_chunks c) kMaxLargeChunkDimensionChunks) (\<lambda>_.
       rbind (RequireAtMost (chunk_width_blocks c) kMaxChunkDimensionBlocks) (\<lambda>_.
       rbind (RequireAtMost (chunk_height_blocks c) kMaxChunkDimensionBlocks) (\<lambda>_.
       rbind (RequireAtMost (block_bits c) kMaxBlockBits) (\<lambda>_.
       let chunk_blocks = (ucast (chunk_width_blocks c) * ucast (chunk_height_blocks c) :: u64);
           max_payload_bits = kMaxChunkPayloadBytes * 8
       in if chunk_blocks > kMaxChunkBlockCount then Inl (InvalidArgument ''too many blocks in a chunk'')
          else if chunk_blocks \<noteq> 0 \<and> ucast (block_bits c) > max_payload_bits div chunk_blocks
          then Inl (InvalidArgument ''chunk payload is too large'')
          else if unat (block_bits c) \<noteq> FixedBitsPerBlock schema
          then Inl (InvalidArgument ''block_bits does not match the columns' fixed bits per block'')
          else rbind (MakeChunkLayout schema (unat chunk_blocks) (unat kMaxChunkPayloadBytes)) (\<lambda>l.
            Inr \<lparr>config = c, g_layout = l, earlier = Map.empty\<rparr>)))))))"

definition MakeBitsGeometry :: "GeometryConfig \<Rightarrow> Geometry res" where
  "MakeBitsGeometry c = MakeGeometry c (SingleBitsColumnSchema (block_bits c))"

definition ChunkBlockCount :: "Geometry \<Rightarrow> nat" where
  "ChunkBlockCount g = unat (ucast (chunk_width_blocks (config g)) * ucast (chunk_height_blocks (config g)) :: u64)"

definition ChunkPayloadBits :: "Geometry \<Rightarrow> nat" where
  "ChunkPayloadBits g = unat (of_nat (ChunkBlockCount g) * ucast (block_bits (config g)) :: u64)"

definition LayoutAt :: "Geometry \<Rightarrow> u64 \<Rightarrow> (ChunkLayout \<times> Geometry) res" where
  "LayoutAt g v =
    (if v = version (cl_schema (g_layout g)) then Inr (g_layout g, g)
     else case earlier g v of
       Some l \<Rightarrow> Inr (l, g)
     | None \<Rightarrow>
       rbind (SchemaAtVersion (cl_schema (g_layout g)) v) (\<lambda>s.
       rbind (MakeChunkLayout s (ChunkBlockCount g) (payload_bytes_limit (g_layout g))) (\<lambda>l.
         Inr (l, g\<lparr>earlier := (earlier g)(v \<mapsto> l)\<rparr>))))"

section \<open>Coordinates\<close>

record ChunkCoord =
  cx :: int
  cy :: int

definition FloorDiv :: "int \<Rightarrow> int \<Rightarrow> int" where
  "FloorDiv value divisor =
    (let quotient = value sdiv divisor; remainder = value smod divisor in
     if remainder \<noteq> 0 \<and> (remainder > 0) \<noteq> (divisor > 0) then quotient - 1 else quotient)"

definition FloorMod :: "int \<Rightarrow> int \<Rightarrow> int" where
  "FloorMod value divisor = (let m = value smod divisor in if m < 0 then m + divisor else m)"

definition BlockToChunk :: "Geometry \<Rightarrow> int \<Rightarrow> int \<Rightarrow> ChunkCoord" where
  "BlockToChunk g x y = \<lparr>cx = FloorDiv x (uint (chunk_width_blocks (config g))),
    cy = FloorDiv y (uint (chunk_height_blocks (config g)))\<rparr>"

definition BlockToLocal :: "Geometry \<Rightarrow> int \<Rightarrow> int \<Rightarrow> u32 \<times> u32" where
  "BlockToLocal g x y = (word_of_int (FloorMod x (uint (chunk_width_blocks (config g)))),
    word_of_int (FloorMod y (uint (chunk_height_blocks (config g)))))"

definition ChunkToLarge :: "Geometry \<Rightarrow> ChunkCoord \<Rightarrow> ChunkCoord" where
  "ChunkToLarge g c = \<lparr>cx = FloorDiv (cx c) (uint (large_chunk_width_chunks (config g))),
    cy = FloorDiv (cy c) (uint (large_chunk_height_chunks (config g)))\<rparr>"

definition LocalBlockIndex :: "Geometry \<Rightarrow> u32 \<Rightarrow> u32 \<Rightarrow> nat res" where
  "LocalBlockIndex g local_x local_y =
    (if local_x \<ge> chunk_width_blocks (config g) \<or> local_y \<ge> chunk_height_blocks (config g)
     then Inl (OutOfRange ''local block coordinate out of range'')
     else Inr (unat (ucast local_y * ucast (chunk_width_blocks (config g)) + ucast local_x :: u64)))"

section \<open>Division rounds down and stays in range\<close>

lemma floor_parts:
  assumes "0 < d"
  shows "FloorDiv x d * d + FloorMod x d = x \<and> 0 \<le> FloorMod x d \<and> FloorMod x d < d"
proof -
  have e: "x sdiv d * d + x smod d = x" by (rule sdiv_mult_smod_eq)
  have r: "- d < x smod d" "x smod d < d" using smod_int_range [of d x] assms by (auto simp: add1_zle_eq)
  show ?thesis using e r assms by (auto simp: FloorDiv_def FloorMod_def Let_def algebra_simps)
qed

lemma FloorDiv_div: "0 < d \<Longrightarrow> FloorDiv x d = x div d"
  using floor_parts [of d x] int_div_pos_eq [of x d "FloorDiv x d" "FloorMod x d"] by (simp add: mult.commute)

lemma FloorMod_mod: "0 < d \<Longrightarrow> FloorMod x d = x mod d"
  using floor_parts [of d x] int_mod_pos_eq [of x d "FloorDiv x d" "FloorMod x d"] by (simp add: mult.commute)

definition i64_range :: "int \<Rightarrow> bool" where
  "i64_range x \<longleftrightarrow> - (2 ^ 63) \<le> x \<and> x < 2 ^ 63"

lemma FloorDiv_range:
  assumes "0 < d" "i64_range x"
  shows "i64_range (FloorDiv x d)"
proof -
  let ?q = "FloorDiv x d" and ?r = "FloorMod x d"
  have p: "?q * d + ?r = x" "0 \<le> ?r" "?r < d" "1 \<le> d" using floor_parts [OF assms(1)] assms(1) by auto
  have "?q < 2 ^ 63"
  proof (rule ccontr)
    assume "\<not> ?q < 2 ^ 63"
    then have "2 ^ 63 * 1 \<le> ?q * d" using p(4) by (intro mult_mono) auto
    then show False using p assms(2) by (simp add: i64_range_def)
  qed
  moreover have "- (2 ^ 63) \<le> ?q"
  proof (rule ccontr)
    assume n: "\<not> - (2 ^ 63) \<le> ?q"
    then have "(?q + 1) * d \<le> (?q + 1) * 1" using p(4) by (intro mult_left_mono_neg) auto
    then show False using n p assms(2) by (simp add: i64_range_def algebra_simps)
  qed
  ultimately show ?thesis by (simp add: i64_range_def)
qed

section \<open>What a constructed geometry satisfies\<close>

definition geometry_ok :: "Geometry \<Rightarrow> bool" where
  "geometry_ok g \<longleftrightarrow> (let w = chunk_width_blocks (config g); h = chunk_height_blocks (config g) in
    0 < unat w \<and> unat w \<le> 4096 \<and> 0 < unat h \<and> unat h \<le> 4096 \<and> unat w * unat h \<le> 1048576 \<and>
    0 < unat (large_chunk_width_chunks (config g)) \<and> 0 < unat (large_chunk_height_chunks (config g)) \<and>
    MakeChunkLayout (cl_schema (g_layout g)) (unat w * unat h) (64 * 1024 * 1024) = Inr (g_layout g))"

lemma unat_small_mult:
  assumes "unat (a :: u32) \<le> 4096" "unat (b :: u32) \<le> 4096"
  shows "unat (ucast a * ucast b :: u64) = unat a * unat b"
proof -
  have "unat a * unat b \<le> 4096 * 4096" using assms by (rule mult_le_mono)
  then show ?thesis by (simp add: unat_word_ariths unsigned_ucast_eq)
qed

lemma MakeGeometry_ok:
  assumes "MakeGeometry c schema = Inr g"
  shows "geometry_ok g \<and> config g = c \<and> cl_schema (g_layout g) = schema \<and> earlier g = Map.empty \<and>
    unat (block_bits c) = FixedBitsPerBlock schema"
proof -
  let ?b = "ucast (chunk_width_blocks c) * ucast (chunk_height_blocks c) :: u64"
  obtain l where l: "chunk_width_blocks c \<noteq> 0" "chunk_height_blocks c \<noteq> 0" "large_chunk_width_chunks c \<noteq> 0"
      "large_chunk_height_chunks c \<noteq> 0" "chunk_width_blocks c \<le> kMaxChunkDimensionBlocks"
      "chunk_height_blocks c \<le> kMaxChunkDimensionBlocks" "?b \<le> kMaxChunkBlockCount"
      "MakeChunkLayout schema (unat ?b) (unat kMaxChunkPayloadBytes) = Inr l" "g = \<lparr>config = c, g_layout = l, earlier = Map.empty\<rparr>"
      "unat (block_bits c) = FixedBitsPerBlock schema"
    using assms by (auto simp: MakeGeometry_def RequireAtMost_def Let_def not_less split: if_splits)
  have d: "unat (chunk_width_blocks c) \<le> 4096" "unat (chunk_height_blocks c) \<le> 4096"
    using l(5,6) by (simp_all add: word_le_nat_alt kMaxChunkDimensionBlocks_def)
  have b: "unat ?b = unat (chunk_width_blocks c) * unat (chunk_height_blocks c)" by (rule unat_small_mult [OF d])
  have "unat ?b \<le> 1048576" using l(7) unfolding word_le_nat_alt kMaxChunkBlockCount_def by simp
  then show ?thesis
    using l(1-4,8-10) d b MakeChunkLayout_ok [OF l(8)]
    by (simp add: geometry_ok_def Let_def kMaxChunkPayloadBytes_def unat_gt_0)
qed

lemma geometry_blocks:
  "geometry_ok g \<Longrightarrow> ChunkBlockCount g = unat (chunk_width_blocks (config g)) * unat (chunk_height_blocks (config g))"
  by (simp add: geometry_ok_def ChunkBlockCount_def Let_def unat_small_mult)

section \<open>Places of blocks\<close>

lemma uint_pos: "0 < unat w \<Longrightarrow> 0 < uint w"
  by (simp only: uint_nat of_nat_0_less_iff)

lemma word_of_floor_mod:
  assumes "0 < unat (w :: u32)"
  shows "uint (word_of_int (FloorMod x (uint w)) :: u32) = x mod uint w"
proof -
  have w: "0 < uint w" using assms by (rule uint_pos)
  have m: "0 \<le> x mod uint w" "x mod uint w < uint w" using w by auto
  have "x mod uint w < 2 ^ 32" by (rule less_trans [OF m(2)]) (use uint_bounded [of w] in simp)
  then have "take_bit 32 (x mod uint w) = x mod uint w" using m(1) by (rule take_bit_int_eq_self [rotated])
  then show ?thesis by (simp only: FloorMod_mod [OF w] uint_word_of_int_eq) simp
qed

lemma LocalBlockIndex_value:
  assumes "geometry_ok g" "lx < chunk_width_blocks (config g)" "ly < chunk_height_blocks (config g)"
  shows "LocalBlockIndex g lx ly = Inr (unat ly * unat (chunk_width_blocks (config g)) + unat lx) \<and>
    unat ly * unat (chunk_width_blocks (config g)) + unat lx < ChunkBlockCount g"
proof -
  let ?w = "chunk_width_blocks (config g)" and ?h = "chunk_height_blocks (config g)"
  have b: "unat ?w \<le> 4096" "unat ?h \<le> 4096" using assms(1) by (auto simp: geometry_ok_def Let_def)
  have l: "unat lx < unat ?w" "unat ly < unat ?h" using assms(2,3) by (auto simp: word_less_nat_alt)
  have "Suc (unat ly) * unat ?w \<le> unat ?h * unat ?w" using l(2) by (intro mult_le_mono1) simp
  then have lt: "unat ly * unat ?w + unat lx < unat ?w * unat ?h" using l(1) by (simp add: mult.commute)
  have "unat ?w * unat ?h \<le> 4096 * 4096" using b by (rule mult_le_mono)
  then have "unat (ucast ly * ucast ?w + ucast lx :: u64) = unat ly * unat ?w + unat lx"
    using unat_small_mult [of ly ?w] b l lt by (simp add: unat_word_ariths unsigned_ucast_eq)
  then show ?thesis
    using assms lt geometry_blocks [OF assms(1)] by (simp add: LocalBlockIndex_def not_le)
qed

text \<open>
  Claim C34. Every block of the world has one place: its chunk and local coordinates are in range,
  \<open>LocalBlockIndex\<close> accepts them and gives an index below the number of blocks of a chunk, the
  block's coordinates are recovered from its chunk and index, and no other block shares both. The
  chunk coordinates stay within 64 bits, negative blocks included.
\<close>

theorem block_place:
  assumes "MakeGeometry c schema = Inr g" "i64_range x" "i64_range y"
  shows "i64_range (cx (BlockToChunk g x y)) \<and> i64_range (cy (BlockToChunk g x y)) \<and>
    (\<exists>index. LocalBlockIndex g (fst (BlockToLocal g x y)) (snd (BlockToLocal g x y)) = Inr index \<and> index < ChunkBlockCount g \<and>
      x = cx (BlockToChunk g x y) * uint (chunk_width_blocks c) + int (index mod unat (chunk_width_blocks c)) \<and>
      y = cy (BlockToChunk g x y) * uint (chunk_height_blocks c) + int (index div unat (chunk_width_blocks c))) \<and>
    (\<forall>x' y'. BlockToChunk g x' y' = BlockToChunk g x y \<and> BlockToLocal g x' y' = BlockToLocal g x y \<longrightarrow> x' = x \<and> y' = y)"
proof -
  have g: "geometry_ok g" "config g = c" using MakeGeometry_ok [OF assms(1)] by auto
  let ?w = "chunk_width_blocks c" and ?h = "chunk_height_blocks c"
  have p: "0 < unat ?w" "0 < unat ?h" "0 < uint ?w" "0 < uint ?h"
    using g by (auto simp: geometry_ok_def Let_def intro: uint_pos)
  let ?lx = "fst (BlockToLocal g x y)" and ?ly = "snd (BlockToLocal g x y)"
  have lo: "uint ?lx = x mod uint ?w" "uint ?ly = y mod uint ?h" by (simp_all add: BlockToLocal_def g(2) word_of_floor_mod p)
  have "?lx < ?w" "?ly < ?h" unfolding word_less_alt lo using p by simp_all
  from LocalBlockIndex_value [OF g(1)] this g(2)
  have i: "LocalBlockIndex g ?lx ?ly = Inr (unat ?ly * unat ?w + unat ?lx)" "unat ?ly * unat ?w + unat ?lx < ChunkBlockCount g"
    "unat ?lx < unat ?w" by (auto simp: word_less_nat_alt)
  have xy: "u = cx (BlockToChunk g u v) * uint ?w + uint (fst (BlockToLocal g u v))"
    "v = cy (BlockToChunk g u v) * uint ?h + uint (snd (BlockToLocal g u v))" for u v
    using p by (simp_all add: BlockToChunk_def BlockToLocal_def g(2) FloorDiv_div word_of_floor_mod div_mult_mod_eq [symmetric])
  have "i64_range (cx (BlockToChunk g x y)) \<and> i64_range (cy (BlockToChunk g x y))"
    using FloorDiv_range assms(2,3) p by (simp add: BlockToChunk_def g(2))
  moreover have "\<exists>index. LocalBlockIndex g ?lx ?ly = Inr index \<and> index < ChunkBlockCount g \<and>
      x = cx (BlockToChunk g x y) * uint ?w + int (index mod unat ?w) \<and> y = cy (BlockToChunk g x y) * uint ?h + int (index div unat ?w)"
    using i xy(1) [of x y] xy(2) [of y x] by (intro exI [of _ "unat ?ly * unat ?w + unat ?lx"]) simp
  ultimately show ?thesis using xy by metis
qed

section \<open>Layouts of earlier versions\<close>

text \<open>The geometries that requests for layouts lead to.\<close>

inductive asked :: "Geometry \<Rightarrow> Geometry \<Rightarrow> bool" for g0 where
  start: "asked g0 g0"
| ask: "asked g0 g \<Longrightarrow> LayoutAt g v = Inr (l, g') \<Longrightarrow> asked g0 g'"

definition fresh_layout :: "Geometry \<Rightarrow> u64 \<Rightarrow> ChunkLayout res" where
  "fresh_layout g v = rbind (SchemaAtVersion (cl_schema (g_layout g)) v) (\<lambda>s.
    MakeChunkLayout s (ChunkBlockCount g) (payload_bytes_limit (g_layout g)))"

definition cache_ok :: "Geometry \<Rightarrow> bool" where
  "cache_ok g \<longleftrightarrow> (\<forall>v l. earlier g v = Some l \<longrightarrow> fresh_layout g v = Inr l)"

lemma LayoutAt_cases:
  assumes "LayoutAt g v = Inr (l, g')"
  shows "config g' = config g \<and> g_layout g' = g_layout g \<and> (cache_ok g \<longrightarrow> cache_ok g')"
  using assms by (auto simp: LayoutAt_def cache_ok_def fresh_layout_def ChunkBlockCount_def split: if_splits option.splits)

lemma asked_inv:
  assumes "asked g0 g" "cache_ok g0"
  shows "config g = config g0 \<and> g_layout g = g_layout g0 \<and> cache_ok g"
  using assms by (induction rule: asked.induct) (auto dest: LayoutAt_cases)

text \<open>
  Claim C35. The cache of earlier layouts never changes an answer: after any sequence of requests,
  the layout of a version is the one built afresh from that version's schema, the error for a
  version the table lacks included.
\<close>

theorem LayoutAt_fresh:
  assumes "MakeGeometry c schema = Inr g0" "asked g0 g"
  shows "rbind (LayoutAt g v) (\<lambda>(l, _). Inr l) =
    rbind (SchemaAtVersion schema v) (\<lambda>s. MakeChunkLayout s (ChunkBlockCount g0) (64 * 1024 * 1024))"
proof -
  have g0: "geometry_ok g0" "cl_schema (g_layout g0) = schema" "earlier g0 = Map.empty" using MakeGeometry_ok [OF assms(1)] by auto
  then have made: "MakeChunkLayout schema (ChunkBlockCount g0) (64 * 1024 * 1024) = Inr (g_layout g0)"
    using geometry_blocks [OF g0(1)] by (simp add: geometry_ok_def Let_def)
  have lim: "payload_bytes_limit (g_layout g0) = 64 * 1024 * 1024" using MakeChunkLayout_ok [OF made] by simp
  have g: "config g = config g0" "g_layout g = g_layout g0" "cache_ok g"
    using asked_inv [OF assms(2)] g0(3) by (auto simp: cache_ok_def)
  then have cnt: "ChunkBlockCount g = ChunkBlockCount g0" by (simp add: ChunkBlockCount_def)
  show ?thesis
  proof (cases "v = version schema")
    case True
    moreover have "version schema \<noteq> 0"
      using MakeChunkLayout_ok [OF made] by (auto simp: layout_ok_def ValidateTableSchema_def split: if_splits)
    ultimately show ?thesis using made g0(2) g(2) by (simp add: LayoutAt_def SchemaAtVersion_current)
  next
    case False
    then show ?thesis
      using g(3) g0(2) lim cnt unfolding LayoutAt_def cache_ok_def fresh_layout_def g(2)
      by (cases "earlier g v") (auto simp: rbind_assoc)
  qed
qed

section \<open>Examples\<close>

definition example_config :: GeometryConfig where
  "example_config = \<lparr>large_chunk_width_chunks = 8, large_chunk_height_chunks = 8, chunk_width_blocks = 2,
     chunk_height_blocks = 2, block_bits = 8\<rparr>"

definition example_geometry :: Geometry where
  "example_geometry = \<lparr>config = example_config, g_layout = example_layout\<lparr>payload_bytes_limit := 64 * 1024 * 1024\<rparr>,
     earlier = Map.empty\<rparr>"

lemma example_geometry_made: "MakeGeometry example_config example_schema = Inr example_geometry"
proof -
  have "MakeChunkLayout example_schema 4 (64 * 1024 * 1024) = Inr (example_layout\<lparr>payload_bytes_limit := 64 * 1024 * 1024\<rparr>)"
    unfolding MakeChunkLayout_def example_schema_valid
    by (simp add: example_schema_def SingleBitsColumnSchema_def ChunkLayout_column_def emplace_def example_layout_def
        FixedWidthBits_def IsFixedWidth_def BytesForBits_def)
  moreover have "FixedBitsPerBlock example_schema = 8" by (simp add: example_schema_def schema_eval)
  ultimately show ?thesis
    by (simp add: MakeGeometry_def RequireAtMost_def example_config_def example_geometry_def kMaxLargeChunkDimensionChunks_def
        kMaxChunkDimensionBlocks_def kMaxBlockBits_def kMaxChunkBlockCount_def kMaxChunkPayloadBytes_def)
qed

theorem block_place_witness:
  "cx (BlockToChunk example_geometry (-3) 5) = -2 \<and>
    (\<exists>index. LocalBlockIndex example_geometry (fst (BlockToLocal example_geometry (-3) 5)) (snd (BlockToLocal example_geometry (-3) 5)) = Inr index \<and>
      index < ChunkBlockCount example_geometry)"
  using block_place [OF example_geometry_made, of "-3" 5]
  by (auto simp: i64_range_def BlockToChunk_def FloorDiv_div example_geometry_def example_config_def)

theorem LayoutAt_fresh_witness:
  "rbind (LayoutAt example_geometry 7) (\<lambda>(l, _). Inr l) =
    rbind (SchemaAtVersion example_schema 7) (\<lambda>s. MakeChunkLayout s (ChunkBlockCount example_geometry) (64 * 1024 * 1024))"
  by (rule LayoutAt_fresh [OF example_geometry_made asked.start])

end
