(* ===== verification/Feature_Flags.thy ===== *)
theory Feature_Flags
  imports Chunkdb_Prelude
begin

text \<open>
  The feature flags of a store, from \<open>src/feature_flags.hpp\<close> and \<open>src/feature_flags.cpp\<close>: which
  stores a build may open, which structures a store may hold and when a reader may skip a type it
  does not know.
\<close>

record FeatureFlags =
  incompat :: u32
  ro_compat :: u32
  compat :: u32

datatype AccessMode = kReadWrite | kReadOnly

record FeatureDefinition =
  fd_name :: string
  fd_incompat :: u32
  table_scoped :: bool

definition no_features :: FeatureFlags where
  "no_features = \<lparr>incompat = 0, ro_compat = 0, compat = 0\<rparr>"

definition kFeatureRegistry :: "FeatureDefinition list" where
  "kFeatureRegistry = [
     \<lparr>fd_name = ''feed_slots'', fd_incompat = 1, table_scoped = True\<rparr>,
     \<lparr>fd_name = ''migrations'', fd_incompat = 2, table_scoped = False\<rparr>,
     \<lparr>fd_name = ''table_lineage'', fd_incompat = 4, table_scoped = True\<rparr>,
     \<lparr>fd_name = ''slot_filters'', fd_incompat = 8, table_scoped = True\<rparr>,
     \<lparr>fd_name = ''feature_activation'', fd_incompat = 16, table_scoped = False\<rparr>]"

definition kKnownFeatures :: FeatureFlags where
  "kKnownFeatures = no_features\<lparr>incompat := 1 OR 2 OR 4 OR 8 OR 16\<rparr>"

definition RegisteredTableFeatures :: FeatureFlags where
  "RegisteredTableFeatures = fold (\<lambda>f flags. if table_scoped f then flags\<lparr>incompat := incompat flags OR fd_incompat f\<rparr> else flags)
     kFeatureRegistry no_features"

definition FindFeature :: "string \<Rightarrow> FeatureDefinition option" where
  "FindFeature name = find (\<lambda>f. fd_name f = name) kFeatureRegistry"

definition TableScopedFeatures :: "FeatureFlags \<Rightarrow> FeatureFlags" where
  "TableScopedFeatures flags = no_features\<lparr>incompat := incompat flags AND incompat RegisteredTableFeatures\<rparr>"

definition UnionFeatures :: "FeatureFlags \<Rightarrow> FeatureFlags \<Rightarrow> FeatureFlags" where
  "UnionFeatures lhs rhs = \<lparr>incompat = incompat lhs OR incompat rhs, ro_compat = ro_compat lhs OR ro_compat rhs,
     compat = compat lhs OR compat rhs\<rparr>"

definition UnknownFeatures :: "FeatureFlags \<Rightarrow> FeatureFlags" where
  "UnknownFeatures flags = \<lparr>incompat = incompat flags AND NOT (incompat kKnownFeatures),
     ro_compat = ro_compat flags AND NOT (ro_compat kKnownFeatures), compat = compat flags AND NOT (compat kKnownFeatures)\<rparr>"

definition IsSubsetOf :: "FeatureFlags \<Rightarrow> FeatureFlags \<Rightarrow> bool" where
  "IsSubsetOf lhs rhs \<longleftrightarrow> incompat lhs AND NOT (incompat rhs) = 0 \<and> ro_compat lhs AND NOT (ro_compat rhs) = 0 \<and>
     compat lhs AND NOT (compat rhs) = 0"

definition RequireFeature :: "FeatureFlags \<Rightarrow> FeatureDefinition \<Rightarrow> unit res" where
  "RequireFeature flags feature =
     (if incompat flags AND fd_incompat feature = 0 then Inl (InvalidArgument ''feature is disabled'') else Inr ())"

definition MaySkipUnknownTypes :: "FeatureFlags \<Rightarrow> bool" where
  "MaySkipUnknownTypes flags = (let unknown = UnknownFeatures flags in
     incompat unknown \<noteq> 0 \<or> ro_compat unknown \<noteq> 0 \<or> compat unknown \<noteq> 0)"

definition RequireOpenableFeatures :: "FeatureFlags \<Rightarrow> AccessMode \<Rightarrow> unit res" where
  "RequireOpenableFeatures flags access_mode =
     (let unknown = UnknownFeatures flags in
      if incompat unknown \<noteq> 0 then Inl (RuntimeError ''store uses features this build does not support'')
      else if ro_compat unknown \<noteq> 0 \<and> access_mode \<noteq> kReadOnly
      then Inl (RuntimeError ''store uses features this build can read but not write'')
      else Inr ())"

section \<open>Flags as sets of bits\<close>

lemma and_not_zero: "(a :: u32) AND NOT b = 0 \<longleftrightarrow> (\<forall>n. bit a n \<longrightarrow> bit b n)"
proof -
  have "n < 32" if "bit a n" for n using bit_imp_le_length [OF that] by simp
  then show ?thesis by (auto simp: bit_eq_iff bit_and_iff bit_not_iff)
qed

lemma IsSubsetOf_bits:
  "IsSubsetOf a b \<longleftrightarrow> (\<forall>n. bit (incompat a) n \<longrightarrow> bit (incompat b) n) \<and>
    (\<forall>n. bit (ro_compat a) n \<longrightarrow> bit (ro_compat b) n) \<and> (\<forall>n. bit (compat a) n \<longrightarrow> bit (compat b) n)"
  by (simp add: IsSubsetOf_def and_not_zero)

lemma IsSubsetOf_none [simp]: "IsSubsetOf no_features b"
  by (simp add: IsSubsetOf_def no_features_def)

lemma MaySkip_none [simp]: "\<not> MaySkipUnknownTypes no_features"
  by (simp add: MaySkipUnknownTypes_def UnknownFeatures_def no_features_def Let_def)

end
