(* ===== verification/Chunk_Format.thy ===== *)
theory Chunk_Format
  imports Geometry Feature_Flags Zrle Crc32_Clmul
begin

text \<open>
  The chunk image and the WAL file header, from \<open>src/chunk_format.cpp\<close>, with the presence bitmap
  of a chunk and the decoder of a whole chunk sent by a client (\<open>src/chunk_form.cpp\<close>).

  A parsed image comes with the geometry, whose cache of layouts the parser may extend. The
  \<open>Crc32\<close> of a prefix of a buffer is that of the prefix.
\<close>

section \<open>Presence bitmap and chunk state\<close>

definition ChunkPayloadBytes :: "Geometry \<Rightarrow> nat" where
  "ChunkPayloadBytes g = payload_bytes (g_layout g)"

definition ChunkPresenceBitmapBytes :: "Geometry \<Rightarrow> nat" where
  "ChunkPresenceBitmapBytes g = (ChunkBlockCount g + 7) div 8"

definition ChunkStateBytes :: "Geometry \<Rightarrow> nat" where
  "ChunkStateBytes g = ChunkPayloadBytes g + ChunkPresenceBitmapBytes g"

definition MaskUnusedPayloadBits :: "Geometry \<Rightarrow> bytes \<Rightarrow> bytes res" where
  "MaskUnusedPayloadBits g payload = MaskPadding (g_layout g) payload"

text \<open>
  The callers pass a bitmap of \<open>ChunkPresenceBitmapBytes\<close> bytes, which has 0 to 7 bits past the last block; only for
  a shorter one would the subtraction of \<open>std::size_t\<close> wrap.
\<close>

definition MaskUnusedPresenceBits :: "Geometry \<Rightarrow> bytes \<Rightarrow> bytes" where
  "MaskUnusedPresenceBits g presence =
    (if presence = [] then presence
     else let trailing_bits = length presence * 8 - ChunkBlockCount g in
       if trailing_bits = 0 then presence
       else presence[length presence - 1 := last presence AND drop_bit trailing_bits 0xFF])"

definition FullPresenceBitmap :: "Geometry \<Rightarrow> bytes" where
  "FullPresenceBitmap g = MaskUnusedPresenceBits g (replicate (ChunkPresenceBitmapBytes g) 0xFF)"

definition BlockPresent :: "bytes \<Rightarrow> nat \<Rightarrow> bool" where
  "BlockPresent presence index = (presence ! (index div 8) AND push_bit (index mod 8) 1 \<noteq> 0)"

definition SetBlockPresent :: "bytes \<Rightarrow> nat \<Rightarrow> bool \<Rightarrow> bytes" where
  "SetBlockPresent presence index present =
    (let byte_index = index div 8; bit_mask = push_bit (index mod 8) 1 in
     if present then presence[byte_index := presence ! byte_index OR bit_mask]
     else presence[byte_index := presence ! byte_index AND NOT bit_mask])"

definition ChunkPresent :: "bytes \<Rightarrow> bool" where
  "ChunkPresent presence = list_ex (\<lambda>b. b \<noteq> 0) presence"

definition CanonicalizeAbsentBlocks :: "Geometry \<Rightarrow> bytes \<Rightarrow> bytes \<Rightarrow> bytes res" where
  "CanonicalizeAbsentBlocks g presence payload = ClearEmptyValues (g_layout g) presence payload"

definition BuildChunkStateBytes :: "Geometry \<Rightarrow> bytes \<Rightarrow> bytes \<Rightarrow> bytes res" where
  "BuildChunkStateBytes g payload presence =
    (if length payload \<noteq> ChunkPayloadBytes g then Inl (InvalidArgument ''payload size does not match geometry'')
     else if length presence \<noteq> ChunkPresenceBitmapBytes g
     then Inl (InvalidArgument ''presence bitmap size does not match geometry'')
     else Inr (payload @ presence))"

definition SplitChunkStateBytes :: "Geometry \<Rightarrow> bytes \<Rightarrow> (bytes \<times> bytes) res" where
  "SplitChunkStateBytes g state =
    (if length state \<noteq> ChunkPayloadBytes g + ChunkPresenceBitmapBytes g
     then Inl (InvalidArgument ''chunk state size does not match geometry'')
     else Inr (take (ChunkPayloadBytes g) state, MaskUnusedPresenceBits g (drop (ChunkPayloadBytes g) state)))"

section \<open>Writing an image\<close>

datatype CheckpointCompression = kNone | kZrle

type_synonym StoreId = bytes

definition kImageMagic :: bytes where
  "kImageMagic = bytes_of_string ''CHKIMAGE''"

definition kImageFormatVersion :: u16 where "kImageFormatVersion = 1"
definition kImageFixedHeaderSize :: nat where "kImageFixedHeaderSize = 8 + 2 + 2 + 12 + 16 + 8 * 4"
definition kImageSectionEntrySize :: nat where "kImageSectionEntrySize = 16"
definition kImageMaxSections :: u16 where "kImageMaxSections = 64"
definition kImageSectionPayload :: u16 where "kImageSectionPayload = 1"
definition kImageSectionPresence :: u16 where "kImageSectionPresence = 2"
definition kImageSectionVars :: u16 where "kImageSectionVars = 3"
definition kImageSectionSchema :: u16 where "kImageSectionSchema = 4"
definition kImageSectionFlagZrle :: u16 where "kImageSectionFlagZrle = 1"
definition kMaxImageSectionRawBytes :: u32 where "kMaxImageSectionRawBytes = 64 * 1024 * 1024"

definition AppendSection :: "u16 \<Rightarrow> bytes \<Rightarrow> CheckpointCompression \<Rightarrow> bytes \<times> bytes list \<Rightarrow> (bytes \<times> bytes list) res" where
  "AppendSection type raw compression state =
    (let (directory, sections) = state in
     rbind (if compression = kZrle then ZrleCompress raw else Inr raw) (\<lambda>body.
     Inr (directory @ WriteLe16 type @ WriteLe16 (if compression = kZrle then kImageSectionFlagZrle else 0) @
       WriteLe32 (of_nat (length body)) @ WriteLe32 (of_nat (length raw)) @ WriteLe32 (Crc32 raw), sections @ [body])))"

definition ImageHeader :: "u16 \<Rightarrow> StoreId \<Rightarrow> ChunkCoord \<Rightarrow> u64 \<Rightarrow> u64 \<Rightarrow> bytes" where
  "ImageHeader section_count store_id coord revision commit_time_ms =
    kImageMagic @ WriteLe16 kImageFormatVersion @ WriteLe16 section_count @ WriteLe32 0 @ WriteLe32 0 @ WriteLe32 0 @
    store_id @ WriteLe64 (word_of_int (cx coord)) @ WriteLe64 (word_of_int (cy coord)) @ WriteLe64 revision @
    WriteLe64 commit_time_ms"

definition SerializeChunkImage :: "Geometry \<Rightarrow> ChunkCoord \<Rightarrow> bytes \<Rightarrow> bytes \<Rightarrow> CheckpointCompression \<Rightarrow> u64 \<Rightarrow> u64 \<Rightarrow>
    StoreId \<Rightarrow> ChunkVars option \<Rightarrow> bytes res" where
  "SerializeChunkImage g coord payload presence compression revision commit_time_ms store_id vars =
    (if length payload \<noteq> ChunkPayloadBytes g \<or> length presence \<noteq> ChunkPresenceBitmapBytes g
     then Inl (InvalidArgument ''chunk state size does not match geometry'')
     else if revision = 0 then Inl (InvalidArgument ''chunk image revision must not be zero'')
     else
       let var_bytes = (case vars of None \<Rightarrow> [] | Some v \<Rightarrow> vdata v);
           has_vars = (case vars of None \<Rightarrow> False | Some v \<Rightarrow> voffsets v \<noteq> []);
           schema_version = version (cl_schema (g_layout g));
           has_schema = schema_version > 1
       in
       rbind (AppendSection kImageSectionPayload payload compression ([], [])) (\<lambda>state.
       rbind (AppendSection kImageSectionPresence presence compression state) (\<lambda>state.
       rbind (if has_vars then AppendSection kImageSectionVars var_bytes compression state else Inr state) (\<lambda>state.
       rbind (if has_schema then AppendSection kImageSectionSchema (WriteLe64 schema_version) kNone state else Inr state)
         (\<lambda>(directory, sections).
       let header = ImageHeader (2 + (if has_vars then 1 else 0) + (if has_schema then 1 else 0)) store_id coord revision
             commit_time_ms @ directory
       in Inr (header @ WriteLe32 (Crc32 header) @ concat sections))))))"

section \<open>The WAL file header\<close>

definition kWalMagic :: bytes where
  "kWalMagic = bytes_of_string ''CHKWALOG''"

definition kWalFormatVersion :: u16 where "kWalFormatVersion = 1"

definition BuildWalHeader :: "ChunkCoord \<Rightarrow> StoreId \<Rightarrow> FeatureFlags \<Rightarrow> bytes" where
  "BuildWalHeader coord store_id features =
    (let bytes = kWalMagic @ WriteLe16 kWalFormatVersion @ WriteLe16 0 @ WriteLe32 (incompat features) @
           WriteLe32 (ro_compat features) @ WriteLe32 (compat features) @ store_id @
           WriteLe64 (word_of_int (cx coord)) @ WriteLe64 (word_of_int (cy coord))
     in bytes @ WriteLe32 (Crc32 bytes))"

section \<open>Parsing an image\<close>

record ChunkStateImage =
  im_features :: FeatureFlags
  im_revision :: u64
  im_commit_time_ms :: u64
  im_schema_version :: u64
  im_payload :: bytes
  im_presence :: bytes
  im_vars :: ChunkVars

record ImageSectionEntry =
  se_type :: u16
  se_flags :: u16
  se_stored_size :: u32
  se_raw_size :: u32
  se_crc :: u32

record ImageParse =
  body_at :: nat
  previous_type :: u16
  ip_payload :: "bytes option"
  ip_presence :: "bytes option"
  vars_section :: "bytes option"

definition KnownSectionRawSize :: "Geometry \<Rightarrow> ChunkLayout \<Rightarrow> u16 \<Rightarrow> u32" where
  "KnownSectionRawSize g layout type =
    (if type = kImageSectionPayload then of_nat (payload_bytes layout)
     else if type = kImageSectionPresence then of_nat (ChunkPresenceBitmapBytes g) else 0)"

fun ImageSchemaVersion :: "bytes \<Rightarrow> nat list \<Rightarrow> nat \<Rightarrow> u64 res" where
  "ImageSchemaVersion bytes [] offset = Inr 1"
| "ImageSchemaVersion bytes (i # is) offset =
    (let at = kImageFixedHeaderSize + i * kImageSectionEntrySize;
         stored_size = unat (ReadLe32 bytes (at + 4)) in
     if length bytes - offset < stored_size then Inr 1
     else if ReadLe16 bytes at = kImageSectionSchema then
       if ReadLe16 bytes (at + 2) \<noteq> 0 \<or> stored_size \<noteq> 8 \<or> ReadLe32 bytes (at + 8) \<noteq> 8
       then Inl (RuntimeError ''chunk image schema section is malformed'')
       else if Crc32 (take 8 (drop offset bytes)) \<noteq> ReadLe32 bytes (at + 12)
       then Inl (RuntimeError ''chunk image section 4 checksum mismatch'')
       else Inr (ReadLe64 bytes offset)
     else ImageSchemaVersion bytes is (offset + stored_size))"

definition ReadSectionEntry :: "bytes \<Rightarrow> nat \<Rightarrow> ImageSectionEntry" where
  "ReadSectionEntry bytes at = \<lparr>se_type = ReadLe16 bytes at, se_flags = ReadLe16 bytes (at + 2),
    se_stored_size = ReadLe32 bytes (at + 4), se_raw_size = ReadLe32 bytes (at + 8), se_crc = ReadLe32 bytes (at + 12)\<rparr>"

definition ParseImageSection :: "Geometry \<Rightarrow> ChunkLayout \<Rightarrow> bool \<Rightarrow> bytes \<Rightarrow> nat \<Rightarrow> ImageParse \<Rightarrow> ImageParse res" where
  "ParseImageSection g layout may_skip_unknown bytes i p =
    (let e = ReadSectionEntry bytes (kImageFixedHeaderSize + i * kImageSectionEntrySize);
         compressed = (se_flags e AND kImageSectionFlagZrle \<noteq> 0);
         fixed_size = (se_type e = kImageSectionPayload \<or> se_type e = kImageSectionPresence);
         known = (fixed_size \<or> se_type e = kImageSectionVars \<or> se_type e = kImageSectionSchema);
         stored = unat (se_stored_size e); body = take stored (drop (body_at p) bytes) in
     if i > 0 \<and> se_type e \<le> previous_type p
     then Inl (RuntimeError ''chunk image sections are not in ascending type order'')
     else if se_flags e AND NOT kImageSectionFlagZrle \<noteq> 0 then Inl (RuntimeError ''section has unknown flags'')
     else if \<not> compressed \<and> se_stored_size e \<noteq> se_raw_size e then Inl (RuntimeError ''section stored and raw sizes differ'')
     else if length bytes - body_at p < stored then Inl (RuntimeError ''section extends past the end of the image'')
     else if \<not> known \<and> \<not> may_skip_unknown then Inl (RuntimeError ''unknown section'')
     else if se_raw_size e > kMaxImageSectionRawBytes then Inl (RuntimeError ''section declares too many raw bytes'')
     else if fixed_size \<and> se_raw_size e \<noteq> KnownSectionRawSize g layout (se_type e)
     then Inl (RuntimeError ''section has the wrong size for the store geometry'')
     else if se_type e = kImageSectionVars \<and> (se_raw_size e = 0 \<or> unat (se_raw_size e) > kVarMaxChunkBytesLimit)
     then Inl (RuntimeError ''VARS section has a wrong size'')
     else rbind (if compressed then ZrleDecompress body (unat (se_raw_size e)) else Inr body) (\<lambda>raw.
       if Crc32 raw \<noteq> se_crc e then Inl (RuntimeError ''section checksum mismatch'')
       else
         let p = p\<lparr>previous_type := se_type e, body_at := body_at p + stored\<rparr> in
         Inr (if se_type e = kImageSectionPayload then p\<lparr>ip_payload := Some raw\<rparr>
              else if se_type e = kImageSectionPresence then p\<lparr>ip_presence := Some (MaskUnusedPresenceBits g raw)\<rparr>
              else if se_type e = kImageSectionVars then p\<lparr>vars_section := Some raw\<rparr> else p)))"

definition ImageVars :: "Geometry \<Rightarrow> ChunkLayout \<Rightarrow> bytes option \<Rightarrow> bytes \<Rightarrow> ChunkVars res" where
  "ImageVars g layout have_vars presence =
    (case have_vars of
       None \<Rightarrow> Inr \<lparr>vdata = [], voffsets = []\<rparr>
     | Some sec \<Rightarrow>
       case rbind (Decode sec (ChunkBlockCount g)) (\<lambda>vars.
              rbind (RequireValidVars layout vars presence) (\<lambda>_. Inr vars)) of
         Inl (InvalidArgument m) \<Rightarrow> Inl (RuntimeError ''chunk image VARS section is damaged'')
       | r \<Rightarrow> r)"

definition ParseImageBody :: "bytes \<Rightarrow> Geometry \<Rightarrow> FeatureFlags \<Rightarrow> nat \<Rightarrow> (ChunkStateImage \<times> Geometry) res" where
  "ParseImageBody bytes g features section_count =
    (let directory_end = kImageFixedHeaderSize + section_count * kImageSectionEntrySize in
     rbind (ImageSchemaVersion bytes [0..<section_count] (directory_end + 4)) (\<lambda>schema_version.
     if schema_version = 0 \<or> schema_version > version (cl_schema (g_layout g))
     then Inl (RuntimeError ''chunk image is of another schema version'')
     else rbind (LayoutAt g schema_version) (\<lambda>(layout, g).
     rbind (rfold (ParseImageSection g layout (MaySkipUnknownTypes features) bytes) [0..<section_count]
       \<lparr>body_at = directory_end + 4, previous_type = 0, ip_payload = None, ip_presence = None, vars_section = None\<rparr>) (\<lambda>p.
     if body_at p \<noteq> length bytes then Inl (RuntimeError ''chunk image has bytes after its last section'')
     else case (ip_payload p, ip_presence p) of
       (Some payload, Some presence) \<Rightarrow>
         rbind (ImageVars g layout (vars_section p) presence) (\<lambda>vars.
           Inr (\<lparr>im_features = features, im_revision = ReadLe64 bytes 56, im_commit_time_ms = ReadLe64 bytes 64,
                 im_schema_version = schema_version, im_payload = payload, im_presence = presence, im_vars = vars\<rparr>, g))
     | _ \<Rightarrow> Inl (RuntimeError ''chunk image lacks its payload or presence section'')))))"

definition ParseChunkImage :: "bytes \<Rightarrow> Geometry \<Rightarrow> ChunkCoord \<Rightarrow> StoreId \<Rightarrow> FeatureFlags \<Rightarrow> (ChunkStateImage \<times> Geometry) res" where
  "ParseChunkImage bytes g expected_coord store_id store_features =
    (if length bytes < kImageFixedHeaderSize + 4 then Inl (RuntimeError ''chunk image too small'')
     else if take 8 bytes \<noteq> kImageMagic then Inl (RuntimeError ''not a 2.0 chunk image (bad magic)'')
     else if ReadLe16 bytes 8 \<noteq> kImageFormatVersion then Inl (RuntimeError ''unsupported chunk image version'')
     else let section_count = ReadLe16 bytes 10 in
     if section_count > kImageMaxSections then Inl (RuntimeError ''chunk image has too many sections'')
     else let directory_end = kImageFixedHeaderSize + unat section_count * kImageSectionEntrySize in
     if length bytes < directory_end + 4 then Inl (RuntimeError ''chunk image too small for its section directory'')
     else if ReadLe32 bytes directory_end \<noteq> Crc32 (take directory_end bytes)
     then Inl (RuntimeError ''chunk image header checksum mismatch'')
     else let features = \<lparr>incompat = ReadLe32 bytes 12, ro_compat = ReadLe32 bytes 16, compat = ReadLe32 bytes 20\<rparr> in
     if \<not> IsSubsetOf features store_features then Inl (RuntimeError ''chunk image uses features the store does not'')
     else if take 16 (drop 24 bytes) \<noteq> store_id then Inl (RuntimeError ''chunk image belongs to another store'')
     else if sint (ReadLe64 bytes 40) \<noteq> cx expected_coord \<or> sint (ReadLe64 bytes 48) \<noteq> cy expected_coord
     then Inl (RuntimeError ''chunk coordinate mismatch'')
     else if ReadLe64 bytes 56 = 0 then Inl (RuntimeError ''chunk image revision is zero'')
     else ParseImageBody bytes g features (unat section_count))"

section \<open>Bringing a state to the current schema\<close>

definition BringStep :: "bytes \<Rightarrow> nat \<Rightarrow> (bytes \<times> ChunkVars) \<times> Geometry \<Rightarrow> ((bytes \<times> ChunkVars) \<times> Geometry) res" where
  "BringStep presence step state =
    (let (chunk, g) = state in
     rbind (LayoutAt g (of_nat step - 1)) (\<lambda>(from, g).
     rbind (LayoutAt g (of_nat step)) (\<lambda>(to, g).
     rbind (TranslateChunk from to presence chunk) (\<lambda>chunk. Inr (chunk, g)))))"

definition BringToCurrentSchema :: "Geometry \<Rightarrow> u64 \<Rightarrow> bytes \<Rightarrow> bytes \<times> ChunkVars \<Rightarrow> ((bytes \<times> ChunkVars) \<times> Geometry) res" where
  "BringToCurrentSchema g v presence chunk =
    (if v = 0 then Inr ((replicate (payload_bytes (g_layout g)) 0, \<lparr>vdata = [], voffsets = []\<rparr>), g)
     else rfold (BringStep presence) [unat v + 1..<unat (version (cl_schema (g_layout g))) + 1] (chunk, g))"

section \<open>A chunk sent by a client\<close>

definition kChunkFormHeaderBytes :: nat where "kChunkFormHeaderBytes = 16"

definition LoadLittleEndian :: "bytes \<Rightarrow> u64" where
  "LoadLittleEndian bytes = fold (\<lambda>i v. v OR push_bit (8 * i) (ucast (bytes ! i))) [0..<length bytes] 0"

definition ChunkFormSchemaVersion :: "bytes \<Rightarrow> u64 res" where
  "ChunkFormSchemaVersion form =
    (if length form < kChunkFormHeaderBytes then Inl (InvalidArgument ''the chunk starts with its version and schema version'')
     else Inr (LoadLittleEndian (take 8 (drop 8 form))))"

definition DecodeChunkForm :: "Geometry \<Rightarrow> bytes \<Rightarrow> (bytes \<times> bytes \<times> ChunkVars) res" where
  "DecodeChunkForm g form =
    (let presence_bytes = ChunkPresenceBitmapBytes g; fixed_bytes = ChunkPayloadBytes g; header = kChunkFormHeaderBytes in
     if length form < header + presence_bytes + fixed_bytes then Inl (InvalidArgument ''the chunk is too short'')
     else rbind (Decode (drop (header + presence_bytes + fixed_bytes) form) (ChunkBlockCount g)) (\<lambda>vars.
       Inr (take presence_bytes (drop header form), take fixed_bytes (drop (header + presence_bytes) form), vars)))"

end
