(* ===== verification/Chunk_Format_Laws.thy ===== *)
theory Chunk_Format_Laws
  imports Chunk_Format
begin

text \<open>
  An image parses back to the state it was written from: the directory is read entry by entry
  where \<open>AppendSection\<close> put it, and every section body is found at the sum of the sizes before it.
\<close>

section \<open>Images as lists of sections\<close>

record image_section =
  sc_type :: u16
  sc_flags :: u16
  sc_raw :: bytes
  sc_body :: bytes

definition section_entry :: "image_section \<Rightarrow> bytes" where
  "section_entry s = WriteLe16 (sc_type s) @ WriteLe16 (sc_flags s) @ WriteLe32 (of_nat (length (sc_body s))) @
    WriteLe32 (of_nat (length (sc_raw s))) @ WriteLe32 (Crc32 (sc_raw s))"

definition section_stored :: "image_section \<Rightarrow> bool" where
  "section_stored s \<longleftrightarrow> length (sc_raw s) \<le> 64 * 1024 * 1024 \<and> length (sc_body s) < 2 ^ 32 \<and>
    (sc_flags s = 0 \<and> sc_body s = sc_raw s \<or> sc_flags s = 1 \<and> ZrleDecompress (sc_body s) (length (sc_raw s)) = Inr (sc_raw s))"

definition image_bytes :: "bytes \<Rightarrow> image_section list \<Rightarrow> bytes" where
  "image_bytes hdr secs = (let h = hdr @ concat (map section_entry secs) in h @ WriteLe32 (Crc32 h) @ concat (map sc_body secs))"

lemma length_section_entry [simp]: "length (section_entry s) = 16"
  by (simp add: section_entry_def)

lemma length_entries: "length (concat (map section_entry secs)) = 16 * length secs"
  by (induction secs) simp_all

lemma AppendSection_stored:
  assumes "length raw \<le> 64 * 1024 * 1024"
  obtains s where "AppendSection ty raw compression (d, bs) = Inr (d @ section_entry s, bs @ [sc_body s])"
    "sc_type s = ty" "sc_raw s = raw" "section_stored s" "compression = kNone \<Longrightarrow> sc_flags s = 0"
proof (cases compression)
  case kNone
  let ?s = "\<lparr>sc_type = ty, sc_flags = 0, sc_raw = raw, sc_body = raw\<rparr>"
  show ?thesis
    by (rule that [of ?s]) (use kNone assms in \<open>simp_all add: AppendSection_def section_entry_def section_stored_def\<close>)
next
  case kZrle
  obtain out where out: "ZrleCompress raw = Inr out" "length out \<le> length raw + kZrleMaxOverheadBytes"
      "ZrleDecompress out (length raw) = Inr raw"
    using ZrleCompress_decodes [of raw] assms by auto
  let ?s = "\<lparr>sc_type = ty, sc_flags = 1, sc_raw = raw, sc_body = out\<rparr>"
  show ?thesis
    by (rule that [of ?s])
       (use kZrle assms out in \<open>simp_all add: AppendSection_def section_entry_def section_stored_def
         kImageSectionFlagZrle_def kZrleMaxOverheadBytes_def\<close>)
qed

lemma drop_entry:
  assumes "length hdr = 72"
  shows "\<exists>r. drop (72 + 16 * length pre) (image_bytes hdr (pre @ s # suf)) = section_entry s @ r"
proof -
  have "image_bytes hdr (pre @ s # suf) = (hdr @ concat (map section_entry pre)) @ section_entry s @ concat (map section_entry suf) @
      WriteLe32 (Crc32 (hdr @ concat (map section_entry (pre @ s # suf)))) @ concat (map sc_body (pre @ s # suf))"
    by (simp add: image_bytes_def Let_def)
  moreover have "length (hdr @ concat (map section_entry pre)) = 72 + 16 * length pre" using assms by (simp add: length_entries)
  ultimately show ?thesis by (metis append_eq_conv_conj)
qed

definition body_offset :: "nat \<Rightarrow> image_section list \<Rightarrow> nat" where
  "body_offset n pre = 72 + 16 * n + 4 + length (concat (map sc_body pre))"

lemma drop_body:
  assumes "length hdr = 72"
  shows "drop (body_offset (length (pre @ suf)) pre) (image_bytes hdr (pre @ suf)) = concat (map sc_body suf)"
  using assms by (simp add: image_bytes_def Let_def body_offset_def length_entries)

lemma ReadSectionEntry_at:
  assumes "drop at bytes = section_entry s @ r"
  shows "ReadSectionEntry bytes at = \<lparr>se_type = sc_type s, se_flags = sc_flags s, se_stored_size = of_nat (length (sc_body s)),
    se_raw_size = of_nat (length (sc_raw s)), se_crc = Crc32 (sc_raw s)\<rparr>"
proof -
  let ?t = "WriteLe16 (sc_type s)" and ?f = "WriteLe16 (sc_flags s)" and ?a = "WriteLe32 (of_nat (length (sc_body s)))"
    and ?b = "WriteLe32 (of_nat (length (sc_raw s)))" and ?c = "WriteLe32 (Crc32 (sc_raw s))"
  have d: "drop (at + 0) bytes = ?t @ ?f @ ?a @ ?b @ ?c @ r" "drop (at + 2) bytes = ?f @ ?a @ ?b @ ?c @ r"
    "drop (at + 4) bytes = ?a @ ?b @ ?c @ r" "drop (at + 8) bytes = ?b @ ?c @ r" "drop (at + 12) bytes = ?c @ r"
    using assms by (simp_all only: add.commute [of at] drop_drop [symmetric] assms section_entry_def) simp_all
  show ?thesis using ReadLe_prefix(1) [OF d(1)] ReadLe_prefix(1) [OF d(2)] ReadLe_prefix(2) [OF d(3)] ReadLe_prefix(2) [OF d(4)]
      ReadLe_prefix(2) [OF d(5)] by (simp add: ReadSectionEntry_def)
qed

section \<open>Reading the sections\<close>

definition apply_section :: "Geometry \<Rightarrow> image_section \<Rightarrow> ImageParse \<Rightarrow> ImageParse" where
  "apply_section g s p =
    (let p = p\<lparr>previous_type := sc_type s, body_at := body_at p + length (sc_body s)\<rparr> in
     if sc_type s = 1 then p\<lparr>ip_payload := Some (sc_raw s)\<rparr>
     else if sc_type s = 2 then p\<lparr>ip_presence := Some (MaskUnusedPresenceBits g (sc_raw s))\<rparr>
     else if sc_type s = 3 then p\<lparr>vars_section := Some (sc_raw s)\<rparr> else p)"

definition section_fits :: "Geometry \<Rightarrow> ChunkLayout \<Rightarrow> image_section \<Rightarrow> bool" where
  "section_fits g layout s \<longleftrightarrow> section_stored s \<and> sc_type s \<in> {1, 2, 3, 4} \<and>
    (sc_type s = 1 \<longrightarrow> length (sc_raw s) = payload_bytes layout) \<and>
    (sc_type s = 2 \<longrightarrow> length (sc_raw s) = ChunkPresenceBitmapBytes g) \<and> (sc_type s = 3 \<longrightarrow> sc_raw s \<noteq> []) \<and>
    (sc_type s = 4 \<longrightarrow> sc_flags s = 0 \<and> length (sc_raw s) = 8)"

lemma unat_of_nat_u32: "n < 2 ^ 32 \<Longrightarrow> unat (of_nat n :: u32) = n"
  by (simp add: unat_of_nat take_bit_nat_eq_self)

lemma ParseImageSection_step:
  assumes e: "drop (72 + 16 * i) bytes = section_entry s @ r" and b: "drop (body_at p) bytes = sc_body s @ r'"
    and s: "section_fits g layout s" and t: "0 < i \<longrightarrow> previous_type p < sc_type s"
  shows "ParseImageSection g layout skip bytes i p = Inr (apply_section g s p)"
proof -
  have st: "length (sc_raw s) \<le> 64 * 1024 * 1024" "length (sc_body s) < 2 ^ 32"
    "sc_flags s = 0 \<and> sc_body s = sc_raw s \<or> sc_flags s = 1 \<and> ZrleDecompress (sc_body s) (length (sc_raw s)) = Inr (sc_raw s)"
    using s by (auto simp: section_fits_def section_stored_def)
  have sz: "unat (of_nat (length (sc_body s)) :: u32) = length (sc_body s)" "unat (of_nat (length (sc_raw s)) :: u32) = length (sc_raw s)"
    using st(1,2) unat_of_nat_u32 by auto
  have le: "\<not> length bytes - body_at p < length (sc_body s)" using arg_cong [OF b, of length] by simp
  have tk: "take (length (sc_body s)) (drop (body_at p) bytes) = sc_body s" using b by simp
  have mx: "\<not> (of_nat (length (sc_raw s)) :: u32) > kMaxImageSectionRawBytes"
    using st(1) sz(2) by (simp add: word_less_nat_alt kMaxImageSectionRawBytes_def)
  have vl: "(of_nat (length (sc_raw s)) :: u32) = 0 \<longleftrightarrow> sc_raw s = []"
    using sz(2) by (metis length_0_conv unat_0 unat_eq_zero)
  have ReadE: "ReadSectionEntry bytes (kImageFixedHeaderSize + i * kImageSectionEntrySize) =
      \<lparr>se_type = sc_type s, se_flags = sc_flags s, se_stored_size = of_nat (length (sc_body s)),
       se_raw_size = of_nat (length (sc_raw s)), se_crc = Crc32 (sc_raw s)\<rparr>"
    using ReadSectionEntry_at [OF e] by (simp add: kImageFixedHeaderSize_def kImageSectionEntrySize_def mult.commute)
  have fl: "sc_flags s AND NOT kImageSectionFlagZrle = 0" "sc_flags s AND kImageSectionFlagZrle \<noteq> 0 \<longleftrightarrow> sc_flags s = 1"
    using st(3) by (auto simp: kImageSectionFlagZrle_def)
  have raw: "(if sc_flags s AND kImageSectionFlagZrle \<noteq> 0 then ZrleDecompress (sc_body s) (length (sc_raw s)) else Inr (sc_body s)) = Inr (sc_raw s)"
    using st(3) fl(2) by auto
  have eq: "\<not> (sc_flags s AND kImageSectionFlagZrle \<noteq> 0) \<Longrightarrow> sc_body s = sc_raw s" using st(3) fl(2) by auto
  have lim: "length (sc_raw s) \<le> kVarMaxChunkBytesLimit" using st(1) by (simp add: kVarMaxChunkBytesLimit_def)
  have ks: "sc_type s = 1 \<or> sc_type s = 2 \<or> sc_type s = 3 \<or> sc_type s = 4" using s by (auto simp: section_fits_def)
  have known: "KnownSectionRawSize g layout (sc_type s) = of_nat (length (sc_raw s))" if "sc_type s = 1 \<or> sc_type s = 2"
    using s that by (auto simp: KnownSectionRawSize_def section_fits_def kImageSectionPayload_def kImageSectionPresence_def)
  have ne: "sc_type s = 3 \<Longrightarrow> sc_raw s \<noteq> []" using s by (simp add: section_fits_def)
  have ord: "\<not> (0 < i \<and> sc_type s \<le> previous_type p)" using t by auto
  show ?thesis
    unfolding ParseImageSection_def ReadE Let_def
    using ord fl(1) eq le ks mx known vl ne lim tk raw sz
    by (auto simp: kImageSectionPayload_def kImageSectionPresence_def kImageSectionVars_def kImageSectionSchema_def apply_section_def
        simp del: of_nat_eq_0_iff)
qed

lemma body_offset_snoc: "body_offset n (pre @ [s]) = body_offset n pre + length (sc_body s)"
  by (simp add: body_offset_def)

lemma upt_first: "[length pre..<length (pre @ s # suf)] = length pre # [Suc (length pre)..<length (pre @ s # suf)]"
  by (simp add: upt_conv_Cons del: upt_Suc)

lemma rfold_sections:
  assumes "length hdr = 72" "\<forall>s \<in> set suf. section_fits g layout s" "sorted_wrt (<) (map sc_type suf)"
    "pre \<noteq> [] \<longrightarrow> (\<forall>s \<in> set suf. previous_type p < sc_type s)" "body_at p = body_offset (length (pre @ suf)) pre"
  shows "rfold (ParseImageSection g layout skip (image_bytes hdr (pre @ suf))) [length pre..<length (pre @ suf)] p =
    Inr (fold (apply_section g) suf p)"
  using assms
proof (induction suf arbitrary: pre p)
  case (Cons s suf)
  let ?b = "image_bytes hdr (pre @ s # suf)"
  obtain r where e: "drop (72 + 16 * length pre) ?b = section_entry s @ r" using drop_entry [OF Cons.prems(1)] by blast
  have b: "drop (body_at p) ?b = sc_body s @ concat (map sc_body suf)" using drop_body [OF Cons.prems(1), of pre "s # suf"] Cons.prems(5) by simp
  have st: "ParseImageSection g layout skip ?b (length pre) p = Inr (apply_section g s p)"
    using ParseImageSection_step [OF e b] Cons.prems(2,4) by auto
  have "rfold (ParseImageSection g layout skip (image_bytes hdr ((pre @ [s]) @ suf))) [length (pre @ [s])..<length ((pre @ [s]) @ suf)]
      (apply_section g s p) = Inr (fold (apply_section g) suf (apply_section g s p))"
    using Cons.prems body_offset_snoc by (intro Cons.IH) (auto simp: apply_section_def Let_def)
  then show ?case using st unfolding upt_first by (simp del: upt_Suc)
qed simp

lemma ImageSchemaVersion_sections:
  assumes "length hdr = 72" "\<forall>s \<in> set suf. section_fits g layout s"
  shows "ImageSchemaVersion (image_bytes hdr (pre @ suf)) [length pre..<length (pre @ suf)] (body_offset (length (pre @ suf)) pre) =
    Inr (case find (\<lambda>s. sc_type s = 4) suf of None \<Rightarrow> 1 | Some s \<Rightarrow> le_word (sc_raw s))"
  using assms
proof (induction suf arbitrary: pre)
  case (Cons s suf)
  let ?b = "image_bytes hdr (pre @ s # suf)" and ?o = "body_offset (length (pre @ s # suf)) pre"
  obtain r where e: "drop (72 + 16 * length pre) ?b = section_entry s @ r" using drop_entry [OF Cons.prems(1)] by blast
  have R: "ReadLe16 ?b (72 + 16 * length pre) = sc_type s" "ReadLe16 ?b (72 + 16 * length pre + 2) = sc_flags s"
    "ReadLe32 ?b (72 + 16 * length pre + 4) = of_nat (length (sc_body s))"
    "ReadLe32 ?b (72 + 16 * length pre + 8) = of_nat (length (sc_raw s))" "ReadLe32 ?b (72 + 16 * length pre + 12) = Crc32 (sc_raw s)"
    using ReadSectionEntry_at [OF e] by (simp_all add: ReadSectionEntry_def)
  have b: "drop ?o ?b = sc_body s @ concat (map sc_body suf)" using drop_body [OF Cons.prems(1), of pre "s # suf"] by simp
  have s: "section_fits g layout s" using Cons.prems(2) by simp
  then have sz: "unat (of_nat (length (sc_body s)) :: u32) = length (sc_body s)"
    by (intro unat_of_nat_u32) (simp add: section_fits_def section_stored_def)
  have le: "\<not> length ?b - ?o < length (sc_body s)" using arg_cong [OF b, of length] by simp
  have at: "kImageFixedHeaderSize + length pre * kImageSectionEntrySize = 72 + 16 * length pre"
    by (simp add: kImageFixedHeaderSize_def kImageSectionEntrySize_def)
  have IH: "ImageSchemaVersion ?b [Suc (length pre)..<length (pre @ s # suf)] (?o + length (sc_body s)) =
      Inr (case find (\<lambda>s. sc_type s = 4) suf of None \<Rightarrow> 1 | Some s \<Rightarrow> le_word (sc_raw s))"
    using Cons.IH [of "pre @ [s]"] Cons.prems body_offset_snoc by (simp del: upt_Suc)
  have four: "sc_flags s = 0" "sc_body s = sc_raw s" "length (sc_raw s) = 8" if "sc_type s = 4"
    using s that by (auto simp: section_fits_def section_stored_def)
  have "ReadLe64 ?b ?o = le_word (sc_raw s)" if "sc_type s = 4"
  proof -
    have "length (drop ?o ?b) = length (sc_body s @ concat (map sc_body suf))" by (simp only: b)
    then have "?o + 8 \<le> length ?b" using four [OF that] by simp
    then show ?thesis using four [OF that] b by (subst ReadLe64_le) simp_all
  qed
  then show ?case
    using R sz le at IH four b unfolding upt_first by (simp add: Let_def kImageSectionSchema_def del: upt_Suc)
qed simp

lemma Serialize_image:
  assumes "SerializeChunkImage g coord payload presence compression revision time store_id vars = Inr bytes"
    "length payload \<le> 64 * 1024 * 1024" "length presence \<le> 64 * 1024 * 1024"
    "case vars of None \<Rightarrow> True | Some v \<Rightarrow> length (vdata v) \<le> 64 * 1024 * 1024"
  obtains secs where "bytes = image_bytes (ImageHeader (of_nat (length secs)) store_id coord revision time) secs"
    "\<forall>s \<in> set secs. section_stored s \<and> (sc_type s = 4 \<longrightarrow> sc_flags s = 0)"
    "map (\<lambda>s. (sc_type s, sc_raw s)) secs = [(1, payload), (2, presence)] @
      (case vars of None \<Rightarrow> [] | Some v \<Rightarrow> if voffsets v \<noteq> [] then [(3, vdata v)] else []) @
      (if version (cl_schema (g_layout g)) > 1 then [(4, WriteLe64 (version (cl_schema (g_layout g))))] else [])"
proof -
  let ?hv = "case vars of None \<Rightarrow> False | Some v \<Rightarrow> voffsets v \<noteq> []" and ?vb = "case vars of None \<Rightarrow> [] | Some v \<Rightarrow> vdata v"
  let ?sv = "version (cl_schema (g_layout g))"
  obtain a where a: "AppendSection 1 payload compression ([], []) = Inr (section_entry a, [sc_body a])" "sc_type a = 1" "sc_raw a = payload"
      "section_stored a"
    by (rule AppendSection_stored [OF assms(2), of 1 compression "[]" "[]"]) auto
  obtain b where b: "AppendSection 2 presence compression (section_entry a, [sc_body a]) = Inr (section_entry a @ section_entry b, [sc_body a, sc_body b])"
      "sc_type b = 2" "sc_raw b = presence" "section_stored b"
    by (rule AppendSection_stored [OF assms(3), of 2 compression "section_entry a" "[sc_body a]"]) auto
  let ?ab = "(section_entry a @ section_entry b, [sc_body a, sc_body b])"
  obtain vs where vs: "(if ?hv then AppendSection 3 ?vb compression ?ab else Inr ?ab) =
        Inr (fst ?ab @ concat (map section_entry vs), snd ?ab @ map sc_body vs)"
      "\<forall>s \<in> set vs. section_stored s" "map (\<lambda>s. (sc_type s, sc_raw s)) vs = (if ?hv then [(3, ?vb)] else [])"
  proof (cases ?hv)
    case True
    have "length ?vb \<le> 64 * 1024 * 1024" using assms(4) by (simp split: option.splits)
    then obtain c where "AppendSection 3 ?vb compression ?ab = Inr (fst ?ab @ section_entry c, snd ?ab @ [sc_body c])"
      "sc_type c = 3" "sc_raw c = ?vb" "section_stored c" using AppendSection_stored by (metis prod.collapse)
    then show thesis using that [of "[c]"] True by simp
  qed (use that [of "[]"] in simp)
  let ?abc = "(fst ?ab @ concat (map section_entry vs), snd ?ab @ map sc_body vs)"
  obtain ws where ws: "(if ?sv > 1 then AppendSection 4 (WriteLe64 ?sv) kNone ?abc else Inr ?abc) =
        Inr (fst ?abc @ concat (map section_entry ws), snd ?abc @ map sc_body ws)"
      "\<forall>s \<in> set ws. section_stored s \<and> sc_flags s = 0" "map (\<lambda>s. (sc_type s, sc_raw s)) ws = (if ?sv > 1 then [(4, WriteLe64 ?sv)] else [])"
  proof (cases "?sv > 1")
    case True
    have "length (WriteLe64 ?sv) \<le> 64 * 1024 * 1024" by simp
    then obtain c where "AppendSection 4 (WriteLe64 ?sv) kNone ?abc = Inr (fst ?abc @ section_entry c, snd ?abc @ [sc_body c])"
      "sc_type c = 4" "sc_raw c = WriteLe64 ?sv" "section_stored c" "sc_flags c = 0" using AppendSection_stored by (metis prod.collapse)
    then show thesis using that [of "[c]"] True by simp
  qed (use that [of "[]"] in simp)
  let ?secs = "a # b # vs @ ws"
  have n: "length vs = (if ?hv then 1 else 0)" "length ws = (if ?sv > 1 then 1 else 0)"
    using arg_cong [OF vs(3), of length] arg_cong [OF ws(3), of length] by (simp_all split: if_splits)
  have t: "\<forall>s \<in> set vs. sc_type s \<noteq> 4" using vs(3) by (cases vs) (auto split: if_splits)
  show thesis
  proof (rule that [of ?secs])
    show "bytes = image_bytes (ImageHeader (of_nat (length ?secs)) store_id coord revision time) ?secs"
      using assms(1) unfolding SerializeChunkImage_def Let_def kImageSectionPayload_def kImageSectionPresence_def
        kImageSectionVars_def kImageSectionSchema_def a(1)
      using n vs(1) ws(1) by (auto simp: b(1) image_bytes_def Let_def split: if_splits)
    show "\<forall>s \<in> set ?secs. section_stored s \<and> (sc_type s = 4 \<longrightarrow> sc_flags s = 0)" using a(2,4) b(2,4) vs(2) ws(2) t by auto
    show "map (\<lambda>s. (sc_type s, sc_raw s)) ?secs = [(1, payload), (2, presence)] @
      (case vars of None \<Rightarrow> [] | Some v \<Rightarrow> if voffsets v \<noteq> [] then [(3, vdata v)] else []) @
      (if ?sv > 1 then [(4, WriteLe64 ?sv)] else [])"
      using a(2,3) b(2,3) vs(3) ws(3) by (simp split: option.splits)
  qed
qed

section \<open>The whole image\<close>

lemma length_kImageMagic [simp]: "length kImageMagic = 8"
  by (simp add: kImageMagic_def bytes_of_string_def)

lemma ImageHeader_fields:
  assumes "length store_id = 16" "bytes = ImageHeader n store_id coord revision time @ rest"
  shows "length (ImageHeader n store_id coord revision time) = 72" "take 8 bytes = kImageMagic" "ReadLe16 bytes 8 = kImageFormatVersion"
    "ReadLe16 bytes 10 = n" "ReadLe32 bytes 12 = 0" "ReadLe32 bytes 16 = 0" "ReadLe32 bytes 20 = 0" "take 16 (drop 24 bytes) = store_id"
    "ReadLe64 bytes 40 = word_of_int (cx coord)" "ReadLe64 bytes 48 = word_of_int (cy coord)" "ReadLe64 bytes 56 = revision"
    "ReadLe64 bytes 64 = time"
proof -
  show "length (ImageHeader n store_id coord revision time) = 72" "take 8 bytes = kImageMagic" "take 16 (drop 24 bytes) = store_id"
    using assms by (simp_all add: ImageHeader_def)
  show "ReadLe16 bytes 8 = kImageFormatVersion" "ReadLe16 bytes 10 = n"
    using assms by (auto simp: ImageHeader_def intro!: ReadLe_prefix)
  show "ReadLe32 bytes 12 = 0" "ReadLe32 bytes 16 = 0" "ReadLe32 bytes 20 = 0"
    using assms by (auto simp: ImageHeader_def intro!: ReadLe_prefix)
  show "ReadLe64 bytes 40 = word_of_int (cx coord)" "ReadLe64 bytes 48 = word_of_int (cy coord)" "ReadLe64 bytes 56 = revision"
      "ReadLe64 bytes 64 = time"
    using assms by (auto simp: ImageHeader_def intro!: ReadLe_prefix)
qed

lemma sint_of_i64: "i64_range x \<Longrightarrow> sint (word_of_int x :: u64) = x"
  by (simp add: i64_range_def int_word_sint)

lemma vars_ok_empty:
  assumes "vars_ok vars"
  shows "voffsets vars = [] \<longleftrightarrow> vars = \<lparr>vdata = [], voffsets = []\<rparr>" "vdata vars = [] \<longleftrightarrow> voffsets vars = []"
proof -
  obtain es where es: "entries_ok es" "vars = pack es" using assms by (auto simp: vars_ok_def)
  have ne: "entry_bytes e \<noteq> []" for e using length_entry_bytes [of e] by auto
  have "vdata (pack es) = [] \<longleftrightarrow> es = []" by (cases es) (simp_all add: pack_def section_bytes_def ne)
  moreover have "voffsets (pack es) = [] \<longleftrightarrow> es = []" by (cases es) (simp_all add: pack_def)
  ultimately show "voffsets vars = [] \<longleftrightarrow> vars = \<lparr>vdata = [], voffsets = []\<rparr>" "vdata vars = [] \<longleftrightarrow> voffsets vars = []"
    using es(2) by (auto simp: pack_def section_bytes_def)
qed

lemma Decode_loop_errors: "Decode_loop data n at offs = Inl e \<Longrightarrow> \<exists>m. e = InvalidArgument m"
proof (induction data n at offs rule: Decode_loop.induct)
  case (1 data n at offs)
  show ?case
    using "1.prems" "1.IH" [OF refl refl]
    by (auto simp: Decode_loop.simps [of data n at offs] Let_def split: if_splits)
qed

lemma RequireValidVars_errors: "RequireValidVars l vars presence = Inl e \<Longrightarrow> \<exists>m. e = InvalidArgument m"
proof -
  have one: "\<exists>m. e = InvalidArgument m" if "RequireValidVar l presence x = Inl e" for x e
    using that by (auto simp: RequireValidVar_def split: option.splits if_splits)
  have "\<exists>m. e = InvalidArgument m" if "rfold (\<lambda>e _. RequireValidVar l presence e) xs u = Inl e" for xs u
    using that by (induction xs arbitrary: u) (auto simp: rbind_eq_Inl_iff dest: one)
  then show "RequireValidVars l vars presence = Inl e \<Longrightarrow> \<exists>m. e = InvalidArgument m" by (simp add: RequireValidVars_def)
qed

text \<open>A section that decodes gives back the section it was taken from, whatever the number of blocks.\<close>

lemma Decode_vdata:
  assumes "vars_ok vars" "length (vdata vars) \<le> kVarMaxChunkBytesLimit"
  shows "Decode (vdata vars) n = Inr w \<Longrightarrow> w = vars"
    and "(\<forall>k. Find vars k \<noteq> None \<longrightarrow> unat (vk_block k) < n) \<longleftrightarrow> Decode (vdata vars) n = Inr vars"
proof -
  have all: "Decode (vdata v) (2 ^ 32) = Inr v" if "vars_ok v" "length (vdata v) \<le> kVarMaxChunkBytesLimit" for v
  proof -
    have "unat (vk_block k) < 2 ^ 32" for k using unsigned_less [of "vk_block k"] by simp
    then show ?thesis using that by (intro Decode_vars_ok) auto
  qed
  show "Decode (vdata vars) n = Inr w \<Longrightarrow> w = vars"
    using Decode_sound [of "vdata vars" n w] all [of w] all [OF assms] assms(2) by simp
  show "(\<forall>k. Find vars k \<noteq> None \<longrightarrow> unat (vk_block k) < n) \<longleftrightarrow> Decode (vdata vars) n = Inr vars"
    using Decode_vars_ok [OF assms(1) _ assms(2)] Decode_sound(3) by blast
qed

lemma image_vars:
  assumes "vars_ok v" "length (vdata v) \<le> kVarMaxChunkBytesLimit"
  shows "ImageVars g (g_layout g) (if voffsets v \<noteq> [] then Some (vdata v) else None) presence =
    (if (\<forall>k. Find v k \<noteq> None \<longrightarrow> unat (vk_block k) < ChunkBlockCount g) \<and> RequireValidVars (g_layout g) v presence = Inr ()
     then Inr v else Inl (RuntimeError ''chunk image VARS section is damaged''))"
proof (cases "voffsets v = []")
  case True
  then have v: "v = \<lparr>vdata = [], voffsets = []\<rparr>" using vars_ok_empty(1) [OF assms(1)] by simp
  have "Decode [] (ChunkBlockCount g) = Inr v"
    by (subst v) (simp add: Decode_def Decode_loop.simps)
  then have "\<forall>k. Find v k \<noteq> None \<longrightarrow> unat (vk_block k) < ChunkBlockCount g"
    using Decode_vdata(2) [OF assms, of "ChunkBlockCount g"] by (simp add: v)
  moreover have "RequireValidVars (g_layout g) v presence = Inr ()" by (simp add: v RequireValidVars_def vars_entries_def)
  ultimately show ?thesis using True by (simp add: ImageVars_def v)
next
  case False
  note d = Decode_vdata [OF assms, of "ChunkBlockCount g"]
  show ?thesis
  proof (cases "Decode (vdata v) (ChunkBlockCount g)")
    case (Inl e)
    then obtain m where "e = InvalidArgument m" by (auto simp: Decode_def split: if_splits dest: Decode_loop_errors)
    then show ?thesis using Inl False d(2) by (simp add: ImageVars_def)
  next
    case (Inr w)
    then have w: "Decode (vdata v) (ChunkBlockCount g) = Inr v" using d(1) by simp
    show ?thesis
    proof (cases "RequireValidVars (g_layout g) v presence")
      case (Inl e)
      then obtain m where "e = InvalidArgument m" using RequireValidVars_errors by blast
      then show ?thesis using Inl w False by (simp add: ImageVars_def)
    next
      case (Inr u)
      then show ?thesis using w False d(2) by (simp add: ImageVars_def)
    qed
  qed
qed

lemma image_sections:
  assumes m: "map (\<lambda>s. (sc_type s, sc_raw s)) secs = [(1, payload), (2, presence)] @ vs @ ws"
    and vs: "vs = [] \<or> vs = [(3, v)] \<and> v \<noteq> []" and ws: "ws = [] \<or> ws = [(4, w)] \<and> length w = 8"
    and st: "\<forall>s \<in> set secs. section_stored s \<and> (sc_type s = 4 \<longrightarrow> sc_flags s = 0)"
    and l: "length payload = payload_bytes layout" "length presence = ChunkPresenceBitmapBytes g"
  shows "(\<forall>s \<in> set secs. section_fits g layout s) \<and> sorted_wrt (<) (map sc_type secs) \<and>
    find (\<lambda>s. sc_type s = 4) secs = (if ws = [] then None else Some (last secs)) \<and> (ws \<noteq> [] \<longrightarrow> sc_raw (last secs) = w) \<and>
    (let p' = fold (apply_section g) secs p in ip_payload p' = Some payload \<and>
      ip_presence p' = Some (MaskUnusedPresenceBits g presence) \<and> vars_section p' = (if vs = [] then vars_section p else Some v) \<and> body_at p' = body_at p + length (concat (map sc_body secs)))"
proof -
  obtain a b rest where s: "secs = a # b # rest" "sc_type a = 1" "sc_raw a = payload" "sc_type b = 2" "sc_raw b = presence"
      "map (\<lambda>s. (sc_type s, sc_raw s)) rest = vs @ ws" using m by auto
  consider "rest = []" "vs = []" "ws = []" | c where "rest = [c]" "vs = [(3, v)]" "ws = []" "sc_type c = 3" "sc_raw c = v" "v \<noteq> []"
    | c where "rest = [c]" "vs = []" "ws = [(4, w)]" "sc_type c = 4" "sc_raw c = w" "length w = 8"
    | c d where "rest = [c, d]" "vs = [(3, v)]" "ws = [(4, w)]" "sc_type c = 3" "sc_raw c = v" "v \<noteq> []" "sc_type d = 4" "sc_raw d = w" "length w = 8"
    using s(6) vs ws by auto
  then show ?thesis
    by cases (use s st l in \<open>simp_all add: section_fits_def apply_section_def Let_def\<close>)
qed

lemma word_one_least: "(v :: u64) \<noteq> 0 \<Longrightarrow> \<not> v > 1 \<Longrightarrow> v = 1"
  by (simp add: word_less_nat_alt word_unat_eq_iff)

definition image_values :: "ChunkVars option \<Rightarrow> ChunkVars" where
  "image_values vars = (case vars of None \<Rightarrow> \<lparr>vdata = [], voffsets = []\<rparr> | Some v \<Rightarrow> v)"

lemma image_round_trip:
  assumes "SerializeChunkImage g coord payload presence compression revision time store_id vars = Inr bytes"
    and g: "payload_bytes (g_layout g) \<le> 64 * 1024 * 1024" "ChunkBlockCount g \<le> 1048576" "version (cl_schema (g_layout g)) \<noteq> 0"
    and io: "length store_id = 16" "i64_range (cx coord)" "i64_range (cy coord)"
    and v: "vars_ok (image_values vars)" "length (vdata (image_values vars)) \<le> kVarMaxChunkBytesLimit"
  shows "ParseChunkImage bytes g coord store_id features =
    rbind (ImageVars g (g_layout g) (if voffsets (image_values vars) \<noteq> [] then Some (vdata (image_values vars)) else None)
      (MaskUnusedPresenceBits g presence)) (\<lambda>vars.
      Inr (\<lparr>im_features = no_features, im_revision = revision, im_commit_time_ms = time,
        im_schema_version = version (cl_schema (g_layout g)), im_payload = payload,
        im_presence = MaskUnusedPresenceBits g presence, im_vars = vars\<rparr>, g))"
proof -
  let ?sv = "version (cl_schema (g_layout g))" and ?v = "image_values vars"
  let ?vs = "case vars of None \<Rightarrow> [] | Some v \<Rightarrow> if voffsets v \<noteq> [] then [(3 :: u16, vdata v)] else []"
  let ?ws = "if ?sv > 1 then [(4 :: u16, WriteLe64 ?sv)] else []"
  have c: "length payload = payload_bytes (g_layout g)" "revision \<noteq> 0" "length presence = ChunkPresenceBitmapBytes g"
    using assms(1) by (auto simp: SerializeChunkImage_def ChunkPayloadBytes_def split: if_splits)
  have pl: "length presence \<le> 64 * 1024 * 1024" using c(3) g(2) by (simp add: ChunkPresenceBitmapBytes_def)
  have vl: "case vars of None \<Rightarrow> True | Some v \<Rightarrow> length (vdata v) \<le> 64 * 1024 * 1024"
    using v(2) by (simp add: image_values_def kVarMaxChunkBytesLimit_def split: option.splits)
  obtain secs where secs: "bytes = image_bytes (ImageHeader (of_nat (length secs)) store_id coord revision time) secs"
      "\<forall>s \<in> set secs. section_stored s \<and> (sc_type s = 4 \<longrightarrow> sc_flags s = 0)"
      "map (\<lambda>s. (sc_type s, sc_raw s)) secs = [(1, payload), (2, presence)] @ ?vs @ ?ws"
    using Serialize_image [OF assms(1) _ pl vl] c(1) g(1) by auto
  let ?h = "ImageHeader (of_nat (length secs)) store_id coord revision time" and ?n = "length secs"
  let ?d = "?h @ concat (map section_entry secs)"
  note H = ImageHeader_fields [OF io(1), of bytes "of_nat ?n" coord revision time]
  have b: "bytes = ?h @ concat (map section_entry secs) @ WriteLe32 (Crc32 ?d) @ concat (map sc_body secs)"
    using secs(1) by (simp add: image_bytes_def Let_def)
  note H = H [OF b]
  have n: "?n \<le> 4" using arg_cong [OF secs(3), of length] by (simp split: option.splits if_splits)
  then have un: "unat (of_nat ?n :: u16) = ?n" by (simp add: unat_of_nat take_bit_nat_eq_self)
  have ld: "length ?d = 72 + 16 * ?n" using H(1) by (simp add: length_entries)
  have crc: "ReadLe32 bytes (72 + 16 * ?n) = Crc32 (take (72 + 16 * ?n) bytes)"
    using b ld by (subst ReadLe_prefix(2) [of _ _ "Crc32 ?d" "concat (map sc_body secs)"]) (simp_all add: length_entries H(1))
  have vne: "\<forall>v. vars = Some v \<and> voffsets v \<noteq> [] \<longrightarrow> vdata v \<noteq> []" using v(1) vars_ok_empty(2) by (auto simp: image_values_def)
  have v0: "?vs = [] \<or> ?vs = [(3, case vars of None \<Rightarrow> [] | Some v \<Rightarrow> vdata v)] \<and> (case vars of None \<Rightarrow> [] | Some v \<Rightarrow> vdata v) \<noteq> []"
    using vne by (simp split: option.splits)
  have w0: "?ws = [] \<or> ?ws = [(4, WriteLe64 ?sv)] \<and> length (WriteLe64 ?sv) = 8" by simp
  let ?p = "\<lparr>body_at = 72 + 16 * ?n + 4, previous_type = 0, ip_payload = None, ip_presence = None, vars_section = None\<rparr>"
  note S = image_sections [OF secs(3) v0 w0 secs(2) c(1,3)]
  have fits: "\<forall>s \<in> set secs. section_fits g (g_layout g) s" "sorted_wrt (<) (map sc_type secs)" using S by blast+
  have "ImageSchemaVersion bytes [0..<?n] (72 + 16 * ?n + 4) = Inr (if ?sv > 1 then le_word (WriteLe64 ?sv) else 1)"
    using ImageSchemaVersion_sections [OF H(1) fits(1), of "[]"] S secs(1) by (auto simp: body_offset_def)
  moreover have "(if ?sv > 1 then le_word (WriteLe64 ?sv) else 1) = ?sv"
    using word_one_least [OF g(3)] by (auto simp: WriteLe64_le le_word_le_bytes)
  ultimately have sv: "ImageSchemaVersion bytes [0..<?n] (72 + 16 * ?n + 4) = Inr ?sv" by simp
  have p: "rfold (ParseImageSection g (g_layout g) skip bytes) [0..<?n] ?p = Inr (fold (apply_section g) secs ?p)" for skip
    using rfold_sections [OF H(1) fits, of "[]" ?p] secs(1) by (simp add: body_offset_def)
  let ?q = "fold (apply_section g) secs ?p"
  have q: "ip_payload ?q = Some payload" "ip_presence ?q = Some (MaskUnusedPresenceBits g presence)" "body_at ?q = length bytes"
    "vars_section ?q = (if voffsets ?v \<noteq> [] then Some (vdata ?v) else None)"
    using S v0 b ld by (auto simp: Let_def image_values_def length_entries H(1) split: option.splits if_splits)
  have lay: "LayoutAt g ?sv = Inr (g_layout g, g)" by (simp add: LayoutAt_def)
  have sm: "72 + 16 * ?n + 4 \<le> length bytes" using b ld H(1) by (simp add: length_entries)
  have mx: "\<not> (of_nat ?n :: u16) > kImageMaxSections" using n un by (simp add: word_less_nat_alt kImageMaxSections_def)
  have de: "kImageFixedHeaderSize + unat (ReadLe16 bytes 10) * kImageSectionEntrySize = 72 + 16 * ?n"
    by (simp add: H(4) un kImageFixedHeaderSize_def kImageSectionEntrySize_def)
  have ft: "\<lparr>incompat = ReadLe32 bytes 12, ro_compat = ReadLe32 bytes 16, compat = ReadLe32 bytes 20\<rparr> = no_features"
    by (simp add: H no_features_def)
  have co: "sint (ReadLe64 bytes 40) = cx coord" "sint (ReadLe64 bytes 48) = cy coord" using io(2,3) by (simp_all add: H sint_of_i64)
  have hs: "\<not> length bytes < kImageFixedHeaderSize + 4" using sm by (simp add: kImageFixedHeaderSize_def)
  have dd: "kImageFixedHeaderSize + ?n * kImageSectionEntrySize = 72 + 16 * ?n" using de by (simp only: H(4) un)
  have "ParseChunkImage bytes g coord store_id features = ParseImageBody bytes g no_features ?n"
    unfolding ParseChunkImage_def Let_def de ft using hs mx sm co c(2) H crc un by simp
  also have "\<dots> = rbind (ImageVars g (g_layout g) (vars_section ?q) (MaskUnusedPresenceBits g presence)) (\<lambda>vars.
      Inr (\<lparr>im_features = no_features, im_revision = revision, im_commit_time_ms = time,
        im_schema_version = ?sv, im_payload = payload, im_presence = MaskUnusedPresenceBits g presence, im_vars = vars\<rparr>, g))"
    unfolding ParseImageBody_def Let_def dd sv using g(3) p q H lay by simp
  finally show ?thesis unfolding q(4) .
qed

lemma geometry_limits:
  assumes "geometry_ok g"
  shows "payload_bytes (g_layout g) \<le> 64 * 1024 * 1024 \<and> ChunkBlockCount g \<le> 1048576 \<and> version (cl_schema (g_layout g)) \<noteq> 0 \<and>
    block_count (g_layout g) = ChunkBlockCount g"
proof -
  have m: "MakeChunkLayout (cl_schema (g_layout g)) (ChunkBlockCount g) (64 * 1024 * 1024) = Inr (g_layout g)"
    using assms geometry_blocks [OF assms] by (simp add: geometry_ok_def Let_def)
  have "ChunkBlockCount g \<le> 1048576" using assms geometry_blocks [OF assms] by (simp add: geometry_ok_def Let_def)
  then show ?thesis
    using MakeChunkLayout_ok [OF m] by (auto simp: layout_ok_def ValidateTableSchema_def split: if_splits)
qed

section \<open>What a parsed image satisfies\<close>

lemma ZrleDecompress_length: "ZrleDecompress data n = Inr out \<Longrightarrow> length out = n"
  using ZrleDecompress_outcome [of data n] by auto

definition parse_inv :: "Geometry \<Rightarrow> ChunkLayout \<Rightarrow> ImageParse \<Rightarrow> bool" where
  "parse_inv g layout p \<longleftrightarrow>
    (\<forall>b. ip_payload p = Some b \<longrightarrow> (of_nat (length b) :: u32) = of_nat (payload_bytes layout) \<and> length b \<le> 64 * 1024 * 1024) \<and>
    (\<forall>b. ip_presence p = Some b \<longrightarrow> (of_nat (length b) :: u32) = of_nat (ChunkPresenceBitmapBytes g) \<and> length b \<le> 64 * 1024 * 1024 \<and>
      (\<exists>raw. b = MaskUnusedPresenceBits g raw))"

lemma length_MaskUnusedPresenceBits [simp]: "length (MaskUnusedPresenceBits g p) = length p"
  by (simp add: MaskUnusedPresenceBits_def Let_def)

lemma ParseImageSection_inv:
  assumes "parse_inv g layout p" "ParseImageSection g layout skip bytes i p = Inr p'"
  shows "parse_inv g layout p'"
proof -
  let ?e = "ReadSectionEntry bytes (kImageFixedHeaderSize + i * kImageSectionEntrySize)"
  let ?st = "unat (se_stored_size ?e)" let ?body = "take ?st (drop (body_at p) bytes)"
  let ?z = "se_flags ?e AND kImageSectionFlagZrle \<noteq> 0"
  let ?p = "p\<lparr>previous_type := se_type ?e, body_at := body_at p + ?st\<rparr>"
  obtain raw where raw: "(if ?z then ZrleDecompress ?body (unat (se_raw_size ?e)) else Inr ?body) = Inr raw"
      "\<not> ?z \<longrightarrow> se_stored_size ?e = se_raw_size ?e" "\<not> length bytes - body_at p < ?st" "\<not> se_raw_size ?e > kMaxImageSectionRawBytes"
      "se_type ?e = kImageSectionPayload \<or> se_type ?e = kImageSectionPresence \<longrightarrow> se_raw_size ?e = KnownSectionRawSize g layout (se_type ?e)"
    and p': "p' = (if se_type ?e = kImageSectionPayload then ?p\<lparr>ip_payload := Some raw\<rparr>
        else if se_type ?e = kImageSectionPresence then ?p\<lparr>ip_presence := Some (MaskUnusedPresenceBits g raw)\<rparr>
        else if se_type ?e = kImageSectionVars then ?p\<lparr>vars_section := Some raw\<rparr> else ?p)"
    using assms(2) unfolding ParseImageSection_def Let_def by (auto split: if_splits)
  have l: "length raw = unat (se_raw_size ?e)" using raw(1-3) ZrleDecompress_length by (auto split: if_splits)
  then have "length raw \<le> 64 * 1024 * 1024" "(of_nat (length raw) :: u32) = se_raw_size ?e"
    using raw(4) by (simp_all add: word_less_nat_alt kMaxImageSectionRawBytes_def)
  then show ?thesis
    using assms(1) raw(5) unfolding p' parse_inv_def
    by (auto simp: KnownSectionRawSize_def kImageSectionPayload_def kImageSectionPresence_def split: if_splits)
qed

lemma of_nat_u32_eq: "(of_nat a :: u32) = of_nat b \<Longrightarrow> a < 2 ^ 32 \<Longrightarrow> b < 2 ^ 32 \<Longrightarrow> a = b"
  by (metis unat_of_nat_u32)

lemma masked_presence:
  assumes "length p = BytesForBits (ChunkBlockCount g)" "ChunkBlockCount g \<le> k" "k < 8 * length p"
  shows "\<not> byte_bit (MaskUnusedPresenceBits g p) k"
proof -
  let ?n = "ChunkBlockCount g" and ?l = "length p - 1" and ?t = "length p * 8 - ChunkBlockCount g"
  have t: "0 < ?t" "?t < 8" "p \<noteq> []" using assms BytesForBits_le [of ?n] by auto
  have k: "k div 8 = ?l" using assms t by linarith
  have "8 * ?l + k mod 8 = k" using mult_div_mod_eq [of 8 k] k by simp
  then have "8 - ?t \<le> k mod 8" using assms(2,3) t by (cases p) auto
  then have "\<not> bit (drop_bit ?t 0xFF :: byte) (k mod 8)" by (simp add: bit_drop_bit_eq bit_consts)
  then show ?thesis using t k assms(3) by (simp add: MaskUnusedPresenceBits_def Let_def byte_bit_def bit_and_iff)
qed

lemma ParseImageBody_cases:
  assumes "ParseImageBody bytes g features n = Inr (img, g')"
  obtains layout p where "LayoutAt g (im_schema_version img) = Inr (layout, g')" "im_schema_version img \<noteq> 0"
    "im_schema_version img \<le> version (cl_schema (g_layout g))"
    "rfold (ParseImageSection g' layout (MaySkipUnknownTypes features) bytes) [0..<n]
       \<lparr>body_at = kImageFixedHeaderSize + n * kImageSectionEntrySize + 4, previous_type = 0, ip_payload = None, ip_presence = None,
        vars_section = None\<rparr> = Inr p"
    "ip_payload p = Some (im_payload img)" "ip_presence p = Some (im_presence img)"
    "ImageVars g' layout (vars_section p) (im_presence img) = Inr (im_vars img)" "im_revision img = ReadLe64 bytes 56"
  using assms unfolding ParseImageBody_def Let_def
  by (auto simp: not_less split: if_splits option.splits prod.splits)

lemma ImageVars_valid:
  "ImageVars g layout v presence = Inr vars \<Longrightarrow> vars = \<lparr>vdata = [], voffsets = []\<rparr> \<or> RequireValidVars layout vars presence = Inr ()"
  by (auto simp: ImageVars_def split: option.splits sum.splits exn.splits)

lemma LayoutAt_payload:
  assumes "MakeGeometry c schema = Inr g0" "asked g0 g" "LayoutAt g v = Inr (layout, g')" "v \<noteq> 0"
  shows "payload_bytes layout \<le> 64 * 1024 * 1024 \<and> block_count layout = ChunkBlockCount g0 \<and> layout_ok layout"
proof -
  have g0: "geometry_ok g0" "cl_schema (g_layout g0) = schema" "earlier g0 = Map.empty" using MakeGeometry_ok [OF assms(1)] by auto
  have g: "config g = config g0" "g_layout g = g_layout g0" "cache_ok g"
    using asked_inv [OF assms(2)] g0(3) by (auto simp: cache_ok_def)
  have m: "MakeChunkLayout (cl_schema (g_layout g0)) (ChunkBlockCount g0) (64 * 1024 * 1024) = Inr (g_layout g0)"
    using g0(1) geometry_blocks [OF g0(1)] by (simp add: geometry_ok_def Let_def)
  have "\<exists>s. MakeChunkLayout s (ChunkBlockCount g0) (64 * 1024 * 1024) = Inr layout"
  proof (cases "layout = g_layout g0")
    case False
    then have "fresh_layout g v = Inr layout"
      using assms(3) g(2,3) by (auto simp: LayoutAt_def cache_ok_def fresh_layout_def split: if_splits option.splits)
    then show ?thesis
      using MakeChunkLayout_ok [OF m] by (auto simp: fresh_layout_def ChunkBlockCount_def g(1,2))
  qed (use m in auto)
  then obtain s where "MakeChunkLayout s (ChunkBlockCount g0) (64 * 1024 * 1024) = Inr layout" by blast
  from MakeChunkLayout_ok [OF this] show ?thesis by (auto simp: layout_ok_def)
qed

section \<open>Properties\<close>

text \<open>
  Claim C36. What an image written by \<open>SerializeChunkImage\<close> parses to, under any compression and any feature
  flags of the store, for a well-formed section of variable-length values within \<open>kVarMaxChunkBytesLimit\<close>.
  If the values belong to blocks of the chunk and are valid for the table's columns and the presence
  bitmap, it parses to exactly the payload, the values, the revision, the commit time and the schema
  version it was written with, and to the presence bitmap with the bits past the last block cleared.
  Otherwise, since \<open>SerializeChunkImage\<close> does not check the values, the image is refused as damaged.
\<close>

theorem chunk_image_round_trip:
  assumes "MakeGeometry c schema = Inr g"
    "SerializeChunkImage g coord payload presence compression revision time store_id vars = Inr bytes"
    "length store_id = 16" "i64_range (cx coord)" "i64_range (cy coord)"
    "vars_ok (image_values vars)" "length (vdata (image_values vars)) \<le> kVarMaxChunkBytesLimit"
  shows "ParseChunkImage bytes g coord store_id features =
    (if (\<forall>k. Find (image_values vars) k \<noteq> None \<longrightarrow> unat (vk_block k) < ChunkBlockCount g) \<and>
        RequireValidVars (g_layout g) (image_values vars) (MaskUnusedPresenceBits g presence) = Inr ()
     then Inr (\<lparr>im_features = no_features, im_revision = revision, im_commit_time_ms = time, im_schema_version = version schema,
        im_payload = payload, im_presence = MaskUnusedPresenceBits g presence, im_vars = image_values vars\<rparr>, g)
     else Inl (RuntimeError ''chunk image VARS section is damaged''))"
proof -
  have g: "geometry_ok g" "cl_schema (g_layout g) = schema" using MakeGeometry_ok [OF assms(1)] by auto
  then have "ParseChunkImage bytes g coord store_id features =
    rbind (ImageVars g (g_layout g) (if voffsets (image_values vars) \<noteq> [] then Some (vdata (image_values vars)) else None)
      (MaskUnusedPresenceBits g presence)) (\<lambda>vars.
      Inr (\<lparr>im_features = no_features, im_revision = revision, im_commit_time_ms = time,
        im_schema_version = version schema, im_payload = payload,
        im_presence = MaskUnusedPresenceBits g presence, im_vars = vars\<rparr>, g))"
    using image_round_trip [OF assms(2) _ _ _ assms(3-7)] geometry_limits [OF g(1)] by blast
  then show ?thesis unfolding image_vars [OF assms(6,7)] by (auto split: if_splits)
qed

text \<open>
  Claim C37. Whatever bytes are parsed, an accepted image is a valid chunk: its schema version is one
  the table has, its payload is exactly as long as the layout of that version says, the presence
  bitmap has one bit per block and no bit set past the last block, the revision is not zero and the
  variable-length values are valid for that layout. No input yields a state of another size.
\<close>

theorem ParseChunkImage_valid:
  assumes "MakeGeometry c schema = Inr g0" "asked g0 g" "ParseChunkImage bytes g coord store_id features = Inr (img, g')"
  shows "im_revision img \<noteq> 0 \<and> im_schema_version img \<noteq> 0 \<and> im_schema_version img \<le> version schema \<and>
    (\<exists>layout. LayoutAt g (im_schema_version img) = Inr (layout, g') \<and> length (im_payload img) = payload_bytes layout \<and>
      (im_vars img = \<lparr>vdata = [], voffsets = []\<rparr> \<or> RequireValidVars layout (im_vars img) (im_presence img) = Inr ())) \<and>
    length (im_presence img) = ChunkPresenceBitmapBytes g0 \<and>
    (\<forall>k. ChunkBlockCount g0 \<le> k \<and> k < 8 * length (im_presence img) \<longrightarrow> \<not> GetBit (im_presence img) k)"
proof -
  have g0: "geometry_ok g0" "cl_schema (g_layout g0) = schema" "earlier g0 = Map.empty" using MakeGeometry_ok [OF assms(1)] by auto
  have same: "config h = config g0" "g_layout h = g_layout g0" if "asked g0 h" for h
    using asked_inv [OF that] g0(3) by (auto simp: cache_ok_def)
  obtain feats n where body: "ParseImageBody bytes g feats n = Inr (img, g')" and rv: "ReadLe64 bytes 56 \<noteq> 0"
    using assms(3) unfolding ParseChunkImage_def Let_def by (auto split: if_splits)
  obtain layout p where l: "LayoutAt g (im_schema_version img) = Inr (layout, g')" "im_schema_version img \<noteq> 0"
      "im_schema_version img \<le> version (cl_schema (g_layout g))"
    and p: "rfold (ParseImageSection g' layout (MaySkipUnknownTypes feats) bytes) [0..<n]
       \<lparr>body_at = kImageFixedHeaderSize + n * kImageSectionEntrySize + 4, previous_type = 0, ip_payload = None, ip_presence = None,
        vars_section = None\<rparr> = Inr p"
    and f: "ip_payload p = Some (im_payload img)" "ip_presence p = Some (im_presence img)"
      "ImageVars g' layout (vars_section p) (im_presence img) = Inr (im_vars img)" "im_revision img = ReadLe64 bytes 56"
    by (rule ParseImageBody_cases [OF body])
  have "parse_inv g' layout p"
    by (rule rfold_invariant [OF p, of "parse_inv g' layout"]) (simp add: parse_inv_def, rule ParseImageSection_inv)
  then have inv: "(of_nat (length (im_payload img)) :: u32) = of_nat (payload_bytes layout)" "length (im_payload img) \<le> 64 * 1024 * 1024"
    "(of_nat (length (im_presence img)) :: u32) = of_nat (ChunkPresenceBitmapBytes g')" "length (im_presence img) \<le> 64 * 1024 * 1024"
    "\<exists>raw. im_presence img = MaskUnusedPresenceBits g' raw"
    using f(1,2) by (auto simp: parse_inv_def)
  have g': "asked g0 g'" by (rule asked.ask [OF assms(2) l(1)])
  have cnt: "ChunkBlockCount g' = ChunkBlockCount g0" "ChunkPresenceBitmapBytes g' = ChunkPresenceBitmapBytes g0"
    using same [OF g'] by (simp_all add: ChunkBlockCount_def ChunkPresenceBitmapBytes_def)
  have pl: "length (im_payload img) = payload_bytes layout"
    by (rule of_nat_u32_eq [OF inv(1)]) (use inv(2) LayoutAt_payload [OF assms(1,2) l(1,2)] in auto)
  have pr: "length (im_presence img) = ChunkPresenceBitmapBytes g0"
    by (rule of_nat_u32_eq) (use inv(3,4) cnt geometry_limits [OF g0(1)] in \<open>auto simp: ChunkPresenceBitmapBytes_def\<close>)
  obtain raw where raw: "im_presence img = MaskUnusedPresenceBits g' raw" using inv(5) by blast
  then have "length raw = BytesForBits (ChunkBlockCount g')" using pr cnt by (simp add: ChunkPresenceBitmapBytes_def BytesForBits_def)
  then have "\<not> GetBit (im_presence img) k" if "ChunkBlockCount g0 \<le> k" "k < 8 * length (im_presence img)" for k
    using masked_presence [of raw g' k] that raw cnt by (simp add: GetBit_byte_bit)
  then show ?thesis
    using l pl pr rv f(4) ImageVars_valid [OF f(3)] same [OF assms(2)] g0(2) by auto
qed

section \<open>Examples\<close>

definition example_image :: bytes where
  "example_image = (case SerializeChunkImage example_geometry \<lparr>cx = -2, cy = 3\<rparr> [1, 0, 3, 0] [0xF5] kNone 7 9 (replicate 16 1) None
     of Inr bytes \<Rightarrow> bytes | Inl e \<Rightarrow> [])"

lemma example_image_written:
  "SerializeChunkImage example_geometry \<lparr>cx = -2, cy = 3\<rparr> [1, 0, 3, 0] [0xF5] kNone 7 9 (replicate 16 1) None = Inr example_image"
proof -
  have "ChunkPayloadBytes example_geometry = 4" "ChunkPresenceBitmapBytes example_geometry = 1"
    "version (cl_schema (g_layout example_geometry)) = 1"
    by (simp_all add: ChunkPayloadBytes_def ChunkPresenceBitmapBytes_def ChunkBlockCount_def example_geometry_def example_layout_def
        example_config_def example_schema_values)
  then have "\<exists>b. SerializeChunkImage example_geometry \<lparr>cx = -2, cy = 3\<rparr> [1, 0, 3, 0] [0xF5] kNone 7 9 (replicate 16 1) None = Inr b"
    unfolding SerializeChunkImage_def by (simp add: AppendSection_def Let_def del: One_nat_def)
  then show ?thesis by (auto simp: example_image_def)
qed

lemma example_presence: "MaskUnusedPresenceBits example_geometry [0xF5] = [5]"
  by (simp add: ChunkBlockCount_def example_geometry_def example_config_def MaskUnusedPresenceBits_def)

lemma image_values_None:
  "image_values None = \<lparr>vdata = [], voffsets = []\<rparr>" "vars_ok (image_values None)" "Find (image_values None) k = None"
  "RequireValidVars l (image_values None) presence = Inr ()"
proof -
  show v: "image_values None = \<lparr>vdata = [], voffsets = []\<rparr>" by (simp add: image_values_def)
  have e: "entries_ok []" "image_values None = pack []" by (simp_all add: v entries_ok_def pack_def section_bytes_def)
  show "vars_ok (image_values None)" using e by (auto simp: vars_ok_def)
  show "Find (image_values None) k = None" using Find_pack [OF e(1)] e(2) by simp
  show "RequireValidVars l (image_values None) presence = Inr ()" by (simp add: v RequireValidVars_def vars_entries_def)
qed

lemma example_image_parsed:
  "\<exists>img. ParseChunkImage example_image example_geometry \<lparr>cx = -2, cy = 3\<rparr> (replicate 16 1) no_features = Inr (img, example_geometry) \<and>
    im_payload img = [1, 0, 3, 0]"
  using image_round_trip [OF example_image_written] geometry_limits MakeGeometry_ok [OF example_geometry_made]
    image_values_None(2)
  by (auto simp: i64_range_def image_values_None(1) ImageVars_def example_schema_values)

theorem chunk_image_round_trip_witness:
  "ParseChunkImage example_image example_geometry \<lparr>cx = -2, cy = 3\<rparr> (replicate 16 1) no_features =
    Inr (\<lparr>im_features = no_features, im_revision = 7, im_commit_time_ms = 9, im_schema_version = 1,
      im_payload = [1, 0, 3, 0], im_presence = [5], im_vars = \<lparr>vdata = [], voffsets = []\<rparr>\<rparr>, example_geometry)"
  using chunk_image_round_trip [OF example_geometry_made example_image_written, of no_features] example_presence
    image_values_None(2-4)
  by (simp add: i64_range_def example_schema_values image_values_None(1))

theorem ParseChunkImage_valid_witness:
  "\<exists>img layout. ParseChunkImage example_image example_geometry \<lparr>cx = -2, cy = 3\<rparr> (replicate 16 1) no_features =
      Inr (img, example_geometry) \<and> im_revision img \<noteq> 0 \<and>
    LayoutAt example_geometry (im_schema_version img) = Inr (layout, example_geometry) \<and> length (im_payload img) = payload_bytes layout"
proof -
  obtain img where i: "ParseChunkImage example_image example_geometry \<lparr>cx = -2, cy = 3\<rparr> (replicate 16 1) no_features = Inr (img, example_geometry)"
    using example_image_parsed by blast
  from ParseChunkImage_valid [OF example_geometry_made asked.start i] i show ?thesis by blast
qed

end
