(* ===== verification/Wal_Frame.thy ===== *)
theory Wal_Frame
  imports Chunk_Format_Laws
begin

text \<open>
  The frames of a WAL: their writer \<open>WalFrameBuilder\<close> (\<open>src/wal_writer.cpp\<close>) and their parser
  \<open>ParseFrame\<close> (\<open>src/wal_replay.cpp\<close>).

  The parser validates a frame without applying it; what it cannot accept is a stop, whose reason,
  extent and intactness decide what recovery may discard. The layout of the frame's schema version
  is asked without keeping the geometry's cache, which never changes an answer.
\<close>

section \<open>Constants\<close>

definition kWalHeaderSize :: nat where "kWalHeaderSize = 8 + 2 + 2 + 12 + 16 + 8 + 8 + 4"
definition kWalFrameMagicSize :: nat where "kWalFrameMagicSize = 4"
definition kWalFrameMagic :: bytes where "kWalFrameMagic = bytes_of_string ''FRM2''"
definition kWalFrameFixedHeaderSize :: nat where "kWalFrameFixedHeaderSize = 4 + 8 + 8 + 2 + 2 + 4 + 4"
definition kWalFrameHeaderCrcSize :: nat where "kWalFrameHeaderCrcSize = 4"
definition kWalFrameTrailerSize :: nat where "kWalFrameTrailerSize = 4"
definition kWalFrameGc :: u16 where "kWalFrameGc = 1"
definition kWalRecordHeaderSize :: nat where "kWalRecordHeaderSize = 1 + 4"
definition kWalRecordSpan :: byte where "kWalRecordSpan = 1"
definition kWalSpanOffsetSize :: nat where "kWalSpanOffsetSize = 4"
definition kWalRecordVarPut :: byte where "kWalRecordVarPut = 2"
definition kWalRecordVarDel :: byte where "kWalRecordVarDel = 3"
definition kWalRecordVarReplace :: byte where "kWalRecordVarReplace = 4"
definition kWalTlvHeaderSize :: nat where "kWalTlvHeaderSize = 4"
definition kWalTlvTag :: u16 where "kWalTlvTag = 1"
definition kWalTlvSchema :: u16 where "kWalTlvSchema = 2"
definition kWalTlvUser :: u16 where "kWalTlvUser = 3"

lemmas wal_consts = kWalHeaderSize_def kWalFrameMagicSize_def kWalFrameFixedHeaderSize_def kWalFrameHeaderCrcSize_def
  kWalFrameTrailerSize_def kWalFrameGc_def kWalRecordHeaderSize_def kWalRecordSpan_def kWalSpanOffsetSize_def
  kWalRecordVarPut_def kWalRecordVarDel_def kWalRecordVarReplace_def kWalTlvHeaderSize_def kWalTlvTag_def
  kWalTlvSchema_def kWalTlvUser_def kVarEntryHeaderBytes_def

section \<open>Writing a frame\<close>

record WalFrameBuilder =
  wb_batch :: bytes
  wb_header_index :: nat
  wb_records_begin :: nat
  wb_tlv_size :: u16
  wb_frame_flags :: u16
  wb_record_count :: nat
  wb_finished :: bool
  wb_has_var_replace :: bool
  wb_last_var_key :: "VarKey option"

definition NewWalFrame :: "bytes \<Rightarrow> u64 \<Rightarrow> bytes \<Rightarrow> string option \<Rightarrow> bool \<Rightarrow> WalFrameBuilder res" where
  "NewWalFrame batch schema_version tag user gc =
    (if length tag > 0xFFFF - 2 * kWalTlvHeaderSize - 8 then Inl (InvalidArgument ''WAL frame tag is too long'')
     else let user_size = (case user of Some u \<Rightarrow> length u | None \<Rightarrow> 0) in
     if user_size > 0xFFFF then Inl (InvalidArgument ''WAL frame user is too long'')
     else let tlv_bytes = (if tag = [] then 0 else kWalTlvHeaderSize + length tag) +
            (if schema_version > 1 then kWalTlvHeaderSize + 8 else 0) + (if user_size = 0 then 0 else kWalTlvHeaderSize + user_size) in
     if tlv_bytes > 0xFFFF then Inl (InvalidArgument ''WAL frame TLV area is too long'')
     else
       let bytes = batch @ replicate kWalFrameFixedHeaderSize 0;
           (bytes, tlv_size) = (if tag \<noteq> []
             then (bytes @ WriteLe16 kWalTlvTag @ WriteLe16 (of_nat (length tag)) @ tag, of_nat (kWalTlvHeaderSize + length tag))
             else (bytes, 0 :: u16));
           (bytes, tlv_size) = (if schema_version > 1
             then (bytes @ WriteLe16 kWalTlvSchema @ WriteLe16 8 @ WriteLe64 schema_version,
                   tlv_size + of_nat (kWalTlvHeaderSize + 8))
             else (bytes, tlv_size));
           (bytes, tlv_size) = (if user_size \<noteq> 0
             then (bytes @ WriteLe16 kWalTlvUser @ WriteLe16 (of_nat user_size) @ bytes_of_string (the user),
                   tlv_size + of_nat (kWalTlvHeaderSize + user_size))
             else (bytes, tlv_size));
           bytes = bytes @ replicate kWalFrameHeaderCrcSize 0
       in Inr \<lparr>wb_batch = bytes, wb_header_index = length batch, wb_records_begin = length bytes, wb_tlv_size = tlv_size,
            wb_frame_flags = (if gc then kWalFrameGc else 0), wb_record_count = 0, wb_finished = False,
            wb_has_var_replace = False, wb_last_var_key = None\<rparr>)"

definition AppendSpan :: "u32 \<Rightarrow> bytes \<Rightarrow> WalFrameBuilder \<Rightarrow> WalFrameBuilder res" where
  "AppendSpan byte_offset bytes b =
    (if wb_finished b then Inl (LogicError ''WAL frame already finished'')
     else if bytes = [] then Inl (InvalidArgument ''WAL delta payload must not be empty'')
     else if length bytes > 0xFFFFFFFF - kWalSpanOffsetSize \<or> length bytes > 0xFFFFFFFF - unat byte_offset
     then Inl (InvalidArgument ''WAL span too large'')
     else if wb_record_count b \<ge> 0xFFFFFFFF then Inl (InvalidArgument ''WAL frame record count overflow'')
     else Inr (b\<lparr>wb_batch := wb_batch b @ kWalRecordSpan # WriteLe32 (of_nat (kWalSpanOffsetSize + length bytes)) @
            WriteLe32 byte_offset @ bytes, wb_record_count := wb_record_count b + 1\<rparr>))"

definition BeginRecord :: "byte \<Rightarrow> nat \<Rightarrow> WalFrameBuilder \<Rightarrow> WalFrameBuilder res" where
  "BeginRecord type body_size b =
    (if wb_finished b then Inl (LogicError ''WAL frame already finished'')
     else if body_size > 0xFFFFFFFF then Inl (InvalidArgument ''WAL record too large'')
     else if wb_record_count b \<ge> 0xFFFFFFFF then Inl (InvalidArgument ''WAL frame record count overflow'')
     else Inr (b\<lparr>wb_batch := wb_batch b @ type # WriteLe32 (of_nat body_size), wb_record_count := wb_record_count b + 1\<rparr>))"

definition RequireVarOrder :: "VarKey \<Rightarrow> WalFrameBuilder \<Rightarrow> WalFrameBuilder res" where
  "RequireVarOrder key b =
    (if wb_has_var_replace b \<or> (case wb_last_var_key b of None \<Rightarrow> False | Some k \<Rightarrow> key \<le> k)
     then Inl (LogicError ''value records of a WAL frame out of order'')
     else Inr (b\<lparr>wb_last_var_key := Some key\<rparr>))"

definition AppendVarPut :: "VarKey \<Rightarrow> bytes \<Rightarrow> WalFrameBuilder \<Rightarrow> WalFrameBuilder res" where
  "AppendVarPut key v b =
    rbind (RequireVarOrder key b) (\<lambda>b.
    rbind (BeginRecord kWalRecordVarPut (kVarEntryHeaderBytes + length v) b) (\<lambda>b.
    Inr (b\<lparr>wb_batch := wb_batch b @ WriteLe32 (vk_column key) @ WriteLe32 (vk_block key) @ WriteLe32 (of_nat (length v)) @ v\<rparr>)))"

definition AppendVarDel :: "VarKey \<Rightarrow> WalFrameBuilder \<Rightarrow> WalFrameBuilder res" where
  "AppendVarDel key b =
    rbind (RequireVarOrder key b) (\<lambda>b.
    rbind (BeginRecord kWalRecordVarDel 8 b) (\<lambda>b.
    Inr (b\<lparr>wb_batch := wb_batch b @ WriteLe32 (vk_column key) @ WriteLe32 (vk_block key)\<rparr>)))"

definition AppendVarReplace :: "ChunkVars \<Rightarrow> WalFrameBuilder \<Rightarrow> WalFrameBuilder res" where
  "AppendVarReplace vars b =
    (if wb_has_var_replace b \<or> wb_last_var_key b \<noteq> None
     then Inl (LogicError ''value records of a WAL frame out of order'')
     else rbind (BeginRecord kWalRecordVarReplace (length (vdata vars)) (b\<lparr>wb_has_var_replace := True\<rparr>)) (\<lambda>b.
       Inr (b\<lparr>wb_batch := wb_batch b @ vdata vars\<rparr>)))"

definition AppendVarUpdate :: "ChunkVars \<Rightarrow> VarUndo \<Rightarrow> WalFrameBuilder \<Rightarrow> WalFrameBuilder res" where
  "AppendVarUpdate vars undo b =
    (if vn_replaced undo then AppendVarReplace vars b
     else rfold (\<lambda>key b. case Find vars key of Some v \<Rightarrow> AppendVarPut key v b | None \<Rightarrow> AppendVarDel key b) (vn_keys undo) b)"

definition copy_at :: "bytes \<Rightarrow> nat \<Rightarrow> bytes \<Rightarrow> bytes" where
  "copy_at dst at src = take at dst @ src @ drop (at + length src) dst"

definition FinishFrame :: "u64 \<Rightarrow> u64 \<Rightarrow> WalFrameBuilder \<Rightarrow> (nat \<times> WalFrameBuilder) res" where
  "FinishFrame revision commit_time_ms b =
    (if wb_finished b then Inl (LogicError ''WAL frame already finished'')
     else if wb_record_count b = 0 then Inl (InvalidArgument ''WAL frame must contain at least one record'')
     else let body_size = length (wb_batch b) - wb_records_begin b in
     if body_size > 0xFFFFFFFF then Inl (InvalidArgument ''WAL frame body too large'')
     else
       let header = kWalFrameMagic @ WriteLe64 revision @ WriteLe64 commit_time_ms @ WriteLe16 (wb_frame_flags b) @
             WriteLe16 (wb_tlv_size b) @ WriteLe32 (of_nat (wb_record_count b)) @ WriteLe32 (of_nat body_size);
           batch = copy_at (wb_batch b) (wb_header_index b) header;
           crc_pos = wb_records_begin b - kWalFrameHeaderCrcSize;
           header_crc = Crc32 (take (crc_pos - wb_header_index b - kWalFrameMagicSize)
             (drop (wb_header_index b + kWalFrameMagicSize) batch));
           batch = copy_at batch crc_pos (map (\<lambda>i. ucast (drop_bit (8 * i) header_crc AND 0xFF)) [0..<4]);
           batch = batch @ WriteLe32 (Crc32 (take body_size (drop (wb_records_begin b) batch)))
       in Inr (length batch - wb_header_index b, b\<lparr>wb_batch := batch, wb_finished := True\<rparr>))"

section \<open>Parsing a frame\<close>

definition SpanShapeValid :: "nat \<Rightarrow> nat \<Rightarrow> nat \<Rightarrow> nat \<Rightarrow> bool" where
  "SpanShapeValid byte_offset end' payload_boundary state_size \<longleftrightarrow>
    end' \<le> payload_boundary \<or> byte_offset \<ge> payload_boundary \<or> (byte_offset = 0 \<and> end' = state_size)"

record PendingSpan =
  sp_offset :: nat
  sp_source :: nat
  sp_size :: nat

record PendingVar =
  pv_put :: bool
  pv_key :: VarKey
  pv_length :: u32
  pv_source :: nat

record ParsedFrame =
  pf_revision :: u64
  pf_schema_version :: u64
  pf_commit_time_ms :: u64
  pf_user :: "string option"
  pf_gc :: bool
  pf_size :: nat
  pf_spans :: "PendingSpan list"
  pf_var_ops :: "PendingVar list"
  pf_var_replace :: "ChunkVars option"
  pf_record_count :: nat

record FrameShape =
  payload_boundary :: nat
  state_size :: nat
  fs_block_count :: nat
  vars_enabled :: bool
  may_skip_unknown :: bool

record frame_stop =
  stop_reason :: string
  reaches_end :: bool
  intact :: bool

definition ParseVarRecord :: "bytes \<Rightarrow> byte \<Rightarrow> nat \<Rightarrow> u32 \<Rightarrow> FrameShape \<Rightarrow> ParsedFrame \<Rightarrow> string + ParsedFrame" where
  "ParseVarRecord wal type body_pos sz shape frame =
    (if \<not> vars_enabled shape then Inl ''record_vars_without_columns''
     else if pf_var_replace frame \<noteq> None then Inl ''record_vars_order''
     else if type = kWalRecordVarReplace then
       if pf_var_ops frame \<noteq> [] then Inl ''record_vars_order''
       else (case Decode (take (unat sz) (drop body_pos wal)) (fs_block_count shape) of
           Inr vars \<Rightarrow> Inr (frame\<lparr>pf_var_replace := Some vars\<rparr>)
         | Inl e \<Rightarrow> Inl ''record_vars_invalid'')
     else let put = (type = kWalRecordVarPut) in
     if (if put then unat sz < kVarEntryHeaderBytes else unat sz \<noteq> 8) then Inl ''record_vars_invalid''
     else let key = VarKey (ReadLe32 wal body_pos) (ReadLe32 wal (body_pos + 4)) in
     if unat (vk_block key) \<ge> fs_block_count shape then Inl ''record_out_of_range''
     else if pf_var_ops frame \<noteq> [] \<and> key \<le> pv_key (last (pf_var_ops frame)) then Inl ''record_vars_order''
     else if put then
       let len = ReadLe32 wal (body_pos + 8) in
       if unat sz \<noteq> kVarEntryHeaderBytes + unat len then Inl ''record_vars_invalid''
       else Inr (frame\<lparr>pf_var_ops := pf_var_ops frame @
         [\<lparr>pv_put = True, pv_key = key, pv_length = len, pv_source = body_pos + kVarEntryHeaderBytes\<rparr>]\<rparr>)
     else Inr (frame\<lparr>pf_var_ops := pf_var_ops frame @ [\<lparr>pv_put = False, pv_key = key, pv_length = 0, pv_source = 0\<rparr>]\<rparr>))"

record FrameTlvs =
  have_tag :: bool
  have_schema :: bool
  have_user :: bool
  tl_schema_version :: u64
  tl_user :: "string option"

definition ParseTlv :: "bytes \<Rightarrow> bool \<Rightarrow> bool \<Rightarrow> u16 \<Rightarrow> nat \<Rightarrow> nat \<Rightarrow> FrameTlvs \<Rightarrow> string + FrameTlvs" where
  "ParseTlv wal skip slots_enabled type at len t =
    (if type = kWalTlvTag then
       if have_tag t \<or> len = 0 then Inl (if have_tag t then ''tlv_duplicate_tag'' else ''tlv_empty_tag'')
       else Inr (t\<lparr>have_tag := True\<rparr>)
     else if type = kWalTlvSchema then
       if have_schema t \<or> len \<noteq> 8 then Inl ''tlv_schema_invalid''
       else Inr (t\<lparr>have_schema := True, tl_schema_version := ReadLe64 wal (at + kWalTlvHeaderSize)\<rparr>)
     else if type = kWalTlvUser then
       if \<not> slots_enabled \<or> have_user t \<or> len = 0
       then Inl (if \<not> slots_enabled then ''tlv_user_without_slots'' else if have_user t then ''tlv_duplicate_user'' else ''tlv_empty_user'')
       else Inr (t\<lparr>have_user := True, tl_user := Some (string_of_bytes (take len (drop (at + kWalTlvHeaderSize) wal)))\<rparr>)
     else if \<not> skip then Inl ''tlv_unknown_type'' else Inr t)"

function ParseTlvs :: "bytes \<Rightarrow> nat \<Rightarrow> bool \<Rightarrow> bool \<Rightarrow> nat \<Rightarrow> FrameTlvs \<Rightarrow> string + FrameTlvs" where
  "ParseTlvs wal crc_pos skip slots_enabled at t =
    (if at < crc_pos then
       if crc_pos - at < kWalTlvHeaderSize then Inl ''tlv_out_of_frame''
       else let len = unat (ReadLe16 wal (at + 2)) in
         if crc_pos - at - kWalTlvHeaderSize < len then Inl ''tlv_out_of_frame''
         else rbind (ParseTlv wal skip slots_enabled (ReadLe16 wal at) at len t) (\<lambda>t.
           ParseTlvs wal crc_pos skip slots_enabled (at + (kWalTlvHeaderSize + len)) t)
     else Inr t)"
  by pat_completeness auto
termination
  by (relation "measure (\<lambda>(wal, crc_pos, skip, slots, at, t). crc_pos - at)") (auto simp: kWalTlvHeaderSize_def)

declare ParseTlvs.simps [simp del]

definition ParseRecord :: "bytes \<Rightarrow> FrameShape \<Rightarrow> byte \<Rightarrow> nat \<Rightarrow> u32 \<Rightarrow> ParsedFrame \<Rightarrow> string + ParsedFrame" where
  "ParseRecord wal shape type body_pos sz frame =
    (if type = kWalRecordSpan then
       if unat sz \<le> kWalSpanOffsetSize then Inl ''record_span_empty''
       else let offset = unat (ReadLe32 wal body_pos); data_size = unat sz - kWalSpanOffsetSize in
         if offset > state_size shape \<or> data_size > state_size shape - offset then Inl ''record_out_of_range''
         else if \<not> SpanShapeValid offset (offset + data_size) (payload_boundary shape) (state_size shape)
         then Inl ''record_region_straddle''
         else Inr (frame\<lparr>pf_spans := pf_spans frame @
           [\<lparr>sp_offset = offset, sp_source = body_pos + kWalSpanOffsetSize, sp_size = data_size\<rparr>]\<rparr>)
     else if type = kWalRecordVarPut \<or> type = kWalRecordVarDel \<or> type = kWalRecordVarReplace
     then ParseVarRecord wal type body_pos sz shape frame
     else if \<not> may_skip_unknown shape then Inl ''record_unknown_type'' else Inr frame)"

fun ParseRecords :: "bytes \<Rightarrow> nat \<Rightarrow> FrameShape \<Rightarrow> nat \<Rightarrow> nat \<Rightarrow> ParsedFrame \<Rightarrow> string + (nat \<times> ParsedFrame)" where
  "ParseRecords wal records_end shape 0 at frame = Inr (at, frame)"
| "ParseRecords wal records_end shape (Suc n) at frame =
    (if records_end - at < kWalRecordHeaderSize then Inl ''record_out_of_frame''
     else let sz = ReadLe32 wal (at + 1); body_pos = at + kWalRecordHeaderSize in
     if records_end - body_pos < unat sz then Inl ''record_out_of_frame''
     else rbind (ParseRecord wal shape (wal ! at) body_pos sz frame) (\<lambda>frame.
       ParseRecords wal records_end shape n (body_pos + unat sz) frame))"

definition GcResetValid :: "bytes \<Rightarrow> FrameShape \<Rightarrow> bool \<Rightarrow> nat \<Rightarrow> ParsedFrame \<Rightarrow> bool" where
  "GcResetValid wal shape tagged record_count frame \<longleftrightarrow>
    (\<not> tagged \<and> length (pf_spans frame) = 2 \<and> pf_var_ops frame = [] \<and>
     record_count = (if vars_enabled shape then 3 else 2) \<and>
     (if vars_enabled shape then (case pf_var_replace frame of None \<Rightarrow> False | Some vars \<Rightarrow> voffsets vars = [])
      else pf_var_replace frame = None)) \<and>
    (let payload = pf_spans frame ! 0; presence = pf_spans frame ! 1 in
     sp_offset payload = 0 \<and> sp_size payload = payload_boundary shape \<and> sp_offset presence = payload_boundary shape \<and>
     sp_size presence = state_size shape - payload_boundary shape \<and>
     list_all (\<lambda>span. list_all (\<lambda>b. b = 0) (take (sp_size span) (drop (sp_source span) wal))) (pf_spans frame))"

definition has_var_columns :: "ChunkLayout \<Rightarrow> bool" where
  "has_var_columns l = list_ex (\<lambda>c. var_by_id l (col_id c) \<noteq> None) (columns (cl_schema l))"

definition layout_at :: "Geometry \<Rightarrow> u64 \<Rightarrow> ChunkLayout res" where
  "layout_at g v = rbind (LayoutAt g v) (\<lambda>(l, _). Inr l)"

definition frame_shape :: "Geometry \<Rightarrow> bool \<Rightarrow> ChunkLayout \<Rightarrow> FrameShape" where
  "frame_shape g skip layout = \<lparr>payload_boundary = payload_bytes layout,
     state_size = payload_bytes layout + ChunkPresenceBitmapBytes g, fs_block_count = block_count layout,
     vars_enabled = has_var_columns layout, may_skip_unknown = skip\<rparr>"

definition ParseFrameRecords :: "bytes \<Rightarrow> nat \<Rightarrow> nat \<Rightarrow> nat \<Rightarrow> FrameShape \<Rightarrow> bool \<Rightarrow> ParsedFrame \<Rightarrow> string + ParsedFrame" where
  "ParseFrameRecords wal records_begin records_end record_count shape tagged frame =
    rbind (ParseRecords wal records_end shape record_count records_begin frame) (\<lambda>(at, frame).
    if at \<noteq> records_end then Inl ''frame_body_size_mismatch''
    else if pf_gc frame \<and> \<not> GcResetValid wal shape tagged record_count frame then Inl ''frame_gc_invalid''
    else Inr frame)"

definition ParseFrameBody :: "bytes \<Rightarrow> nat \<Rightarrow> Geometry \<Rightarrow> bool \<Rightarrow> bool \<Rightarrow> (string + ParsedFrame) res" where
  "ParseFrameBody wal cursor g skip slots_enabled =
    (let frame_flags = ReadLe16 wal (cursor + 20); record_count = unat (ReadLe32 wal (cursor + 24));
         crc_pos = cursor + kWalFrameFixedHeaderSize + unat (ReadLe16 wal (cursor + 22));
         records_begin = crc_pos + kWalFrameHeaderCrcSize;
         records_end = records_begin + unat (ReadLe32 wal (cursor + 28)) in
     if frame_flags AND NOT kWalFrameGc \<noteq> 0 \<or> (frame_flags \<noteq> 0 \<and> \<not> slots_enabled) then Inr (Inl ''frame_flags_unknown'')
     else if record_count = 0 then Inr (Inl ''frame_empty'')
     else case ParseTlvs wal crc_pos skip slots_enabled (cursor + kWalFrameFixedHeaderSize)
         \<lparr>have_tag = False, have_schema = False, have_user = False, tl_schema_version = 1, tl_user = None\<rparr> of
       Inl reason \<Rightarrow> Inr (Inl reason)
     | Inr t \<Rightarrow>
       if tl_schema_version t = 0 \<or> tl_schema_version t > version (cl_schema (g_layout g)) then Inr (Inl ''frame_schema_version'')
       else rbind (layout_at g (tl_schema_version t)) (\<lambda>layout.
         Inr (ParseFrameRecords wal records_begin records_end record_count (frame_shape g skip layout) (have_tag t)
           \<lparr>pf_revision = ReadLe64 wal (cursor + 4), pf_schema_version = tl_schema_version t,
            pf_commit_time_ms = ReadLe64 wal (cursor + 12), pf_user = tl_user t,
            pf_gc = (frame_flags AND kWalFrameGc \<noteq> 0), pf_size = records_end + kWalFrameTrailerSize - cursor,
            pf_spans = [], pf_var_ops = [], pf_var_replace = None, pf_record_count = record_count\<rparr>)))"

definition ParseFrame :: "bytes \<Rightarrow> nat \<Rightarrow> Geometry \<Rightarrow> bool \<Rightarrow> bool \<Rightarrow> (frame_stop + ParsedFrame) res" where
  "ParseFrame wal cursor g skip slots_enabled =
    (let remaining = length wal - cursor;
         stop = (\<lambda>reason reaches whole. Inl \<lparr>stop_reason = reason, reaches_end = reaches, intact = whole\<rparr>) in
     if remaining < kWalFrameFixedHeaderSize then Inr (stop ''partial_frame_header'' True False)
     else if take kWalFrameMagicSize (drop cursor wal) \<noteq> kWalFrameMagic then Inr (stop ''frame_magic_mismatch'' False False)
     else
       let tlv_size = unat (ReadLe16 wal (cursor + 22)); body_size = unat (ReadLe32 wal (cursor + 28));
           header_size = kWalFrameFixedHeaderSize + tlv_size + kWalFrameHeaderCrcSize in
       if remaining < header_size then Inr (stop ''partial_frame_header'' True False)
       else
         let crc_pos = cursor + kWalFrameFixedHeaderSize + tlv_size in
         if Crc32 (take (crc_pos - cursor - kWalFrameMagicSize) (drop (cursor + kWalFrameMagicSize) wal)) \<noteq> ReadLe32 wal crc_pos
         then Inr (stop ''frame_header_crc_mismatch'' False False)
         else
           let total = header_size + body_size + kWalFrameTrailerSize; reaches = (total \<ge> remaining) in
           if total > remaining then Inr (stop ''partial_frame_body'' reaches False)
           else
             let records_begin = cursor + header_size; records_end = records_begin + body_size in
             if Crc32 (take body_size (drop records_begin wal)) \<noteq> ReadLe32 wal records_end
             then Inr (stop ''frame_crc_mismatch'' reaches False)
             else rbind (ParseFrameBody wal cursor g skip slots_enabled) (\<lambda>r.
               Inr (case r of Inl reason \<Rightarrow> stop reason reaches True | Inr frame \<Rightarrow> Inr frame)))"

section \<open>What a parsed frame satisfies\<close>



definition frame_meta :: "ParsedFrame \<Rightarrow> u64 \<times> u64 \<times> u64 \<times> string option \<times> bool \<times> nat \<times> nat" where
  "frame_meta f = (pf_revision f, pf_schema_version f, pf_commit_time_ms f, pf_user f, pf_gc f, pf_size f, pf_record_count f)"

lemma ParseRecord_meta:
  assumes "ParseRecord wal shape type body_pos sz frame = Inr frame'"
  shows "frame_meta frame' = frame_meta frame"
  using assms
  by (auto simp: ParseRecord_def ParseVarRecord_def frame_meta_def Let_def split: if_splits sum.splits)

lemma ParseRecords_meta:
  assumes "ParseRecords wal records_end shape n at frame = Inr (at', frame')"
  shows "frame_meta frame' = frame_meta frame"
  using assms
proof (induction n arbitrary: at frame)
  case (Suc n)
  then show ?case by (fastforce simp: Let_def dest: ParseRecord_meta split: if_splits)
qed simp

lemma ParseFrame_extent:
  assumes "ParseFrame wal cursor g skip slots = Inr (Inr f)"
  shows "kWalFrameFixedHeaderSize < pf_size f" "cursor + pf_size f \<le> length wal"
    "pf_size f = kWalFrameFixedHeaderSize + unat (ReadLe16 wal (cursor + 22)) + kWalFrameHeaderCrcSize +
       unat (ReadLe32 wal (cursor + 28)) + kWalFrameTrailerSize"
proof -
  let ?n = "kWalFrameFixedHeaderSize + unat (ReadLe16 wal (cursor + 22)) + kWalFrameHeaderCrcSize +
       unat (ReadLe32 wal (cursor + 28)) + kWalFrameTrailerSize"
  from assms have b: "ParseFrameBody wal cursor g skip slots = Inr (Inr f)" and n: "?n \<le> length wal - cursor"
    by (auto simp: ParseFrame_def Let_def split: if_splits sum.splits)
  then have "snd (snd (snd (snd (snd (frame_meta f))))) = (?n, unat (ReadLe32 wal (cursor + 24)))"
    by (auto simp: ParseFrameBody_def ParseFrameRecords_def Let_def dest!: ParseRecords_meta split: if_splits sum.splits)
      (simp_all add: frame_meta_def add.assoc)
  then show s: "pf_size f = ?n" by (simp add: frame_meta_def)
  show "kWalFrameFixedHeaderSize < pf_size f" "cursor + pf_size f \<le> length wal"
    unfolding s using n by (auto simp: wal_consts)
qed

end
