(* ===== verification/Wal_Replay.thy ===== *)
theory Wal_Replay
  imports Wal_Frame
begin

text \<open>
  Recovery of a chunk from its WAL, \<open>src/wal_replay.cpp\<close>: the check of the file header, the
  application of parsed frames to the state of a chunk, and \<open>ReplayWal\<close>, which applies every frame
  up to the first one it cannot accept.

  The state of a chunk is its payload followed by its presence bitmap; the values of its text and
  bytes columns are kept beside it. The outputs of the C++ functions (payload, presence, values,
  boundaries) are parts of the result. A copy outside the destination is undefined.
\<close>

section \<open>The file header\<close>

definition header_features :: "bytes \<Rightarrow> FeatureFlags" where
  "header_features bytes = \<lparr>incompat = ReadLe32 bytes 12, ro_compat = ReadLe32 bytes 16, compat = ReadLe32 bytes 20\<rparr>"

definition ValidateWalHeader :: "bytes \<Rightarrow> ChunkCoord \<Rightarrow> StoreId \<Rightarrow> FeatureFlags \<Rightarrow> unit res" where
  "ValidateWalHeader bytes expected store_id store_features =
    (if length bytes < kWalHeaderSize then Inl (RuntimeError ''WAL file too small'')
     else if take 8 bytes \<noteq> kWalMagic then Inl (RuntimeError ''not a 2.0 WAL (bad magic)'')
     else if ReadLe32 bytes (kWalHeaderSize - 4) \<noteq> Crc32 (take (kWalHeaderSize - 4) bytes)
     then Inl (RuntimeError ''WAL header checksum mismatch'')
     else if ReadLe16 bytes 8 \<noteq> kWalFormatVersion then Inl (RuntimeError ''unsupported WAL version'')
     else if ReadLe16 bytes 10 \<noteq> 0 then Inl (RuntimeError ''WAL header reserved field is not zero'')
     else if \<not> IsSubsetOf (header_features bytes) store_features
     then Inl (RuntimeError ''WAL uses features the store does not'')
     else if take 16 (drop 24 bytes) \<noteq> store_id then Inl (RuntimeError ''WAL belongs to another store'')
     else if sint (ReadLe64 bytes 40) \<noteq> cx expected \<or> sint (ReadLe64 bytes 48) \<noteq> cy expected
     then Inl (RuntimeError ''WAL chunk coordinate mismatch'')
     else Inr ())"

function creation_matched :: "bytes \<Rightarrow> bytes \<Rightarrow> nat \<Rightarrow> nat" where
  "creation_matched wal expected matched =
    (if matched < length wal \<and> matched < kWalHeaderSize - 4 \<and>
       ((matched \<ge> 12 \<and> matched < 24) \<or> wal ! matched = expected ! matched)
     then creation_matched wal expected (matched + 1) else matched)"
  by pat_completeness auto
termination
  by (relation "measure (\<lambda>(wal, expected, matched). length wal - matched)") auto

declare creation_matched.simps [simp del]

definition IsInterruptedCreation :: "bytes \<Rightarrow> ChunkCoord \<Rightarrow> StoreId \<Rightarrow> bool" where
  "IsInterruptedCreation wal coord store_id =
    (let matched = creation_matched wal (BuildWalHeader coord store_id no_features) 0;
         matched = (if matched = kWalHeaderSize - 4 then min (length wal) kWalHeaderSize else matched)
     in list_all (\<lambda>b. b = 0) (drop matched wal))"

definition HasValidFrameHeaderAfter :: "bytes \<Rightarrow> nat \<Rightarrow> bool" where
  "HasValidFrameHeaderAfter wal cursor =
    list_ex (\<lambda>at. take kWalFrameMagicSize (drop at wal) = kWalFrameMagic \<and>
      (let crc_pos = at + kWalFrameFixedHeaderSize + unat (ReadLe16 wal (at + 22)) in
       crc_pos + kWalFrameHeaderCrcSize \<le> length wal \<and>
       Crc32 (take (crc_pos - at - kWalFrameMagicSize) (drop (at + kWalFrameMagicSize) wal)) = ReadLe32 wal crc_pos))
    [cursor + 1..<length wal + 1 - kWalFrameFixedHeaderSize]"

section \<open>Applying a frame\<close>

definition copy_checked :: "bytes \<Rightarrow> nat \<Rightarrow> bytes \<Rightarrow> bytes res" where
  "copy_checked dst at src =
    (if at + length src > length dst then Inl (Undefined ''copy past the end'') else Inr (copy_at dst at src))"

definition value_of :: "bytes \<Rightarrow> PendingVar \<Rightarrow> bytes" where
  "value_of wal op = take (unat (pv_length op)) (drop (pv_source op) wal)"

definition var_change :: "bytes \<Rightarrow> PendingVar \<Rightarrow> VarChange" where
  "var_change wal op = \<lparr>vc_key = pv_key op, vc_value = (if pv_put op then Some (value_of wal op) else None)\<rparr>"

definition ApplyFrameVars :: "bytes \<Rightarrow> ParsedFrame \<Rightarrow> ChunkVars \<Rightarrow> ChunkVars res" where
  "ApplyFrameVars wal frame vars =
    (case pf_var_replace frame of
       Some r \<Rightarrow> Inr r
     | None \<Rightarrow>
       (case pf_var_ops frame of
          [op] \<Rightarrow> if pv_put op then Assign vars (pv_key op) (value_of wal op) else Inr (fst (Remove vars (pv_key op)))
        | ops \<Rightarrow> Merge vars (map (var_change wal) ops)))"

definition span_bytes :: "bytes \<Rightarrow> PendingSpan \<Rightarrow> bytes" where
  "span_bytes wal span = take (sp_size span) (drop (sp_source span) wal)"

definition ApplySpan :: "bytes \<Rightarrow> PendingSpan \<Rightarrow> bytes \<Rightarrow> bytes res" where
  "ApplySpan wal span state = copy_checked state (sp_offset span) (span_bytes wal span)"

section \<open>Captured frames\<close>

record ChunkState =
  cs_version :: u64
  cs_payload :: bytes
  cs_presence :: bytes
  cs_vars :: ChunkVars
  cs_written :: bool

record FeedFrameInfo =
  fi_revision :: u64
  fi_commit_time_ms :: u64
  fi_schema_version :: u64
  fi_user :: "string option"
  fi_gc :: bool

definition kFeatureFeedSlots :: u32 where "kFeatureFeedSlots = 1"

definition slots_on :: "FeatureFlags \<Rightarrow> bool" where
  "slots_on features \<longleftrightarrow> incompat features AND kFeatureFeedSlots \<noteq> 0"

definition feed_info :: "ParsedFrame \<Rightarrow> FeedFrameInfo" where
  "feed_info frame = \<lparr>fi_revision = pf_revision frame, fi_commit_time_ms = pf_commit_time_ms frame,
     fi_schema_version = pf_schema_version frame, fi_user = pf_user frame, fi_gc = pf_gc frame\<rparr>"

definition ApplyFeedSpan :: "bytes \<Rightarrow> PendingSpan \<Rightarrow> bytes \<times> bytes \<Rightarrow> (bytes \<times> bytes) res" where
  "ApplyFeedSpan bytes span state =
    (let (payload, presence) = state; payload_end = length payload;
         last' = sp_offset span + sp_size span;
         first = min (sp_offset span) payload_end; upto = min last' payload_end in
     rbind (copy_checked payload first (take (upto - first) (drop (sp_source span) bytes))) (\<lambda>payload.
     if last' > payload_end then
       let presence_first = max (sp_offset span) payload_end in
       rbind (copy_checked presence (presence_first - payload_end)
         (take (last' - presence_first) (drop (sp_source span + presence_first - sp_offset span) bytes))) (\<lambda>presence.
       Inr (payload, presence))
     else Inr (payload, presence)))"

definition ReplayFeedFrame :: "bytes \<Rightarrow> Geometry \<Rightarrow> FeatureFlags \<Rightarrow> ChunkState \<Rightarrow> (FeedFrameInfo \<times> ChunkState) res" where
  "ReplayFeedFrame bytes g features state =
    rbind (ParseFrame bytes 0 g (MaySkipUnknownTypes features) (slots_on features)) (\<lambda>parsed.
    case parsed of
      Inl stop \<Rightarrow> Inl (RuntimeError ''invalid captured feed frame'')
    | Inr frame \<Rightarrow>
      if pf_size frame \<noteq> length bytes then Inl (RuntimeError ''invalid captured feed frame'')
      else rbind (layout_at g (pf_schema_version frame)) (\<lambda>layout.
        if length (cs_payload state) \<noteq> payload_bytes layout \<or> length (cs_presence state) \<noteq> ChunkPresenceBitmapBytes g
        then Inl (LogicError ''captured feed state has another layout'')
        else if pf_gc frame \<and> ChunkPresent (cs_presence state)
        then Inl (RuntimeError ''invalid captured feed frame: frame_gc_present_state'')
        else rbind (rfold (ApplyFeedSpan bytes) (pf_spans frame) (cs_payload state, cs_presence state)) (\<lambda>(payload, presence).
          rbind (ApplyFrameVars bytes frame (cs_vars state)) (\<lambda>vars.
          rbind (RequireValidVars layout vars presence) (\<lambda>_.
          Inr (feed_info frame, state\<lparr>cs_version := pf_revision frame, cs_payload := payload, cs_presence := presence,
            cs_vars := vars\<rparr>))))))"

definition InspectFeedFrame :: "bytes \<Rightarrow> Geometry \<Rightarrow> FeatureFlags \<Rightarrow> FeedFrameInfo res" where
  "InspectFeedFrame bytes g features =
    rbind (ParseFrame bytes 0 g (MaySkipUnknownTypes features) (slots_on features)) (\<lambda>parsed.
    case parsed of
      Inl stop \<Rightarrow> Inl (RuntimeError ''invalid feed archive frame'')
    | Inr frame \<Rightarrow> if pf_size frame \<noteq> length bytes then Inl (RuntimeError ''invalid feed archive frame'')
        else Inr (feed_info frame))"

section \<open>Replay of a WAL\<close>

record WalReplayResult =
  applied_records :: nat
  applied_frames :: nat
  skipped_frames :: nat
  wr_revision :: u64
  wr_commit_time_ms :: u64
  replayable :: bool
  torn_creation :: bool
  tail_truncated_or_corrupt :: bool
  stopped_at_crash_tail :: bool
  valid_end :: nat
  wr_stop_reason :: string
  vars_problem :: string

definition no_replay :: WalReplayResult where
  "no_replay = \<lparr>applied_records = 0, applied_frames = 0, skipped_frames = 0, wr_revision = 0, wr_commit_time_ms = 0,
     replayable = False, torn_creation = False, tail_truncated_or_corrupt = False, stopped_at_crash_tail = False,
     valid_end = 0, wr_stop_reason = [], vars_problem = []\<rparr>"

record WalFrameBoundary =
  fb_revision :: u64
  fb_end :: nat

text \<open>The variables of the loop over the frames.\<close>

record ReplayState =
  rs_cursor :: nat
  previous_revision :: u64
  state_version :: u64
  rs_state :: bytes
  rs_vars :: ChunkVars
  rs_result :: WalReplayResult
  rs_boundaries :: "WalFrameBoundary list"

definition MoveStep :: "Geometry \<Rightarrow> bytes \<Rightarrow> nat \<Rightarrow> bytes \<times> ChunkVars \<Rightarrow> (bytes \<times> ChunkVars) res" where
  "MoveStep g presence step chunk =
    rbind (layout_at g (of_nat step - 1)) (\<lambda>from.
    rbind (layout_at g (of_nat step)) (\<lambda>to. TranslateChunk from to presence chunk))"

definition move_state_to :: "Geometry \<Rightarrow> bytes \<Rightarrow> u64 \<Rightarrow> ReplayState \<Rightarrow> ReplayState res" where
  "move_state_to g presence_bitmap v s =
    rbind (layout_at g v) (\<lambda>to.
    if state_version s = 0
    then Inr (s\<lparr>rs_state := replicate (payload_bytes to) 0 @ presence_bitmap, state_version := v\<rparr>)
    else rbind (layout_at g (state_version s)) (\<lambda>from.
      let presence = drop (payload_bytes from) (rs_state s) in
      rbind (rfold (MoveStep g presence) [unat (state_version s) + 1..<unat v + 1] (take (payload_bytes from) (rs_state s), rs_vars s))
        (\<lambda>(payload, vars). Inr (s\<lparr>rs_state := payload @ presence, rs_vars := vars, state_version := v\<rparr>))))"

definition stop_replay :: "string \<Rightarrow> bool \<Rightarrow> ReplayState \<Rightarrow> ReplayState" where
  "stop_replay reason crash_tail s = s\<lparr>rs_result := (rs_result s)\<lparr>tail_truncated_or_corrupt := True,
     wr_stop_reason := reason, stopped_at_crash_tail := crash_tail\<rparr>\<rparr>"

definition pass_frame :: "ParsedFrame \<Rightarrow> ReplayState \<Rightarrow> ReplayState" where
  "pass_frame frame s = s\<lparr>rs_cursor := rs_cursor s + pf_size frame,
     rs_boundaries := rs_boundaries s @ [\<lparr>fb_revision = pf_revision frame, fb_end = rs_cursor s + pf_size frame\<rparr>]\<rparr>"

definition skip_frame :: "ParsedFrame \<Rightarrow> ReplayState \<Rightarrow> ReplayState" where
  "skip_frame frame s = pass_frame frame (s\<lparr>previous_revision := pf_revision frame,
     rs_result := (rs_result s)\<lparr>skipped_frames := skipped_frames (rs_result s) + 1\<rparr>\<rparr>)"

definition apply_frame :: "bytes \<Rightarrow> ParsedFrame \<Rightarrow> ReplayState \<Rightarrow> ReplayState res" where
  "apply_frame wal frame s =
    rbind (if pf_var_ops frame \<noteq> [] \<or> pf_var_replace frame \<noteq> None then ApplyFrameVars wal frame (rs_vars s) else Inr (rs_vars s)) (\<lambda>vars.
    rbind (rfold (ApplySpan wal) (pf_spans frame) (rs_state s)) (\<lambda>state.
    let r = rs_result s in
    Inr (pass_frame frame (s\<lparr>previous_revision := pf_revision frame, rs_vars := vars, rs_state := state,
      rs_result := r\<lparr>applied_records := applied_records r + pf_record_count frame, applied_frames := applied_frames r + 1,
        wr_revision := pf_revision frame, wr_commit_time_ms := pf_commit_time_ms frame\<rparr>\<rparr>))))"

definition ReplayStep :: "bytes \<Rightarrow> Geometry \<Rightarrow> bool \<Rightarrow> bool \<Rightarrow> u64 \<Rightarrow> bytes \<Rightarrow> ReplayState \<Rightarrow> (ReplayState \<times> bool) res" where
  "ReplayStep wal g skip slots_enabled base_revision presence_bitmap s =
    rbind (ParseFrame wal (rs_cursor s) g skip slots_enabled) (\<lambda>parsed.
    case parsed of
      Inl stop \<Rightarrow> Inr (stop_replay (stop_reason stop)
        (\<not> intact stop \<and> (reaches_end stop \<or> \<not> HasValidFrameHeaderAfter wal (rs_cursor s))) s, False)
    | Inr frame \<Rightarrow>
      if pf_revision frame \<le> previous_revision s then Inr (stop_replay ''frame_revision_order'' False s, False)
      else if pf_revision frame \<le> base_revision then Inr (skip_frame frame s, True)
      else if pf_schema_version frame < state_version s then Inr (stop_replay ''frame_schema_version_order'' False s, False)
      else rbind (if pf_schema_version frame \<noteq> state_version s then move_state_to g presence_bitmap (pf_schema_version frame) s
          else Inr s) (\<lambda>s.
        rbind (if pf_gc frame then rbind (layout_at g (state_version s)) (\<lambda>l.
            Inr (list_ex (\<lambda>b. b \<noteq> 0) (drop (payload_bytes l) (rs_state s)))) else Inr False) (\<lambda>gc_present.
        if gc_present then Inr (stop_replay ''frame_gc_present_state'' False s, False)
        else rbind (apply_frame wal frame s) (\<lambda>s. Inr (s, True)))))"

lemma ReplayStep_frame:
  assumes "ReplayStep wal g skip slots base presence s = Inr (s', True)"
  obtains f where "ParseFrame wal (rs_cursor s) g skip slots = Inr (Inr f)" "rs_cursor s' = rs_cursor s + pf_size f"
proof -
  obtain f where f: "ParseFrame wal (rs_cursor s) g skip slots = Inr (Inr f)"
    using assms by (auto simp: ReplayStep_def split: sum.splits)
  have "rs_cursor s' = rs_cursor s + pf_size f"
    using assms f by (auto simp: ReplayStep_def skip_frame_def pass_frame_def apply_frame_def move_state_to_def Let_def
        split: if_splits prod.splits)
  with f show thesis by (rule that)
qed

lemma ReplayStep_cursor:
  assumes "ReplayStep wal g skip slots base presence s = Inr (s', True)"
  shows "rs_cursor s < rs_cursor s' \<and> rs_cursor s' \<le> length wal"
  using ReplayStep_frame [OF assms] ParseFrame_extent by (metis less_add_same_cancel1 less_nat_zero_code neq0_conv)

function ReplayLoop :: "bytes \<Rightarrow> Geometry \<Rightarrow> bool \<Rightarrow> bool \<Rightarrow> u64 \<Rightarrow> bytes \<Rightarrow> ReplayState \<Rightarrow> ReplayState res" where
  "ReplayLoop wal g skip slots_enabled base_revision presence_bitmap s =
    (if rs_cursor s < length wal then
       rbind (ReplayStep wal g skip slots_enabled base_revision presence_bitmap s) (\<lambda>(s, continue).
         if continue then ReplayLoop wal g skip slots_enabled base_revision presence_bitmap s else Inr s)
     else Inr s)"
  by pat_completeness auto
termination
  by (relation "measure (\<lambda>(wal, g, skip, slots, base, presence, s). length wal - rs_cursor s)")
    (auto dest: ReplayStep_cursor)

declare ReplayLoop.simps [simp del]

fun exn_what :: "exn \<Rightarrow> string" where
  "exn_what (InvalidArgument m) = m"
| "exn_what (OutOfRange m) = m"
| "exn_what (RuntimeError m) = m"
| "exn_what (LogicError m) = m"
| "exn_what (LengthError m) = m"
| "exn_what BadVariantAccess = ''bad_variant_access''"
| "exn_what (Undefined m) = m"

definition VarsProblem :: "Geometry \<Rightarrow> ChunkVars \<Rightarrow> bytes \<Rightarrow> string res" where
  "VarsProblem g vars presence =
    (if length (vdata vars) > kVarMaxChunkBytesLimit then Inr ''values take too many bytes''
     else case RequireValidVars (g_layout g) vars presence of
       Inl (InvalidArgument m) \<Rightarrow> Inr m
     | Inl e \<Rightarrow> Inl e
     | Inr _ \<Rightarrow> Inr [])"

record Replayed =
  rp_result :: WalReplayResult
  rp_payload :: bytes
  rp_presence :: bytes
  rp_vars :: ChunkVars
  rp_boundaries :: "WalFrameBoundary list"

definition FinishReplay :: "Geometry \<Rightarrow> bytes \<Rightarrow> ReplayState \<Rightarrow> Replayed res" where
  "FinishReplay g presence_bitmap s =
    (let current_version = version (cl_schema (g_layout g));
         s = s\<lparr>rs_result := (rs_result s)\<lparr>valid_end := rs_cursor s\<rparr>\<rparr> in
     rbind (if state_version s \<noteq> current_version then move_state_to g presence_bitmap current_version s else Inr s) (\<lambda>s.
     rbind (SplitChunkStateBytes g (rs_state s)) (\<lambda>(payload, presence).
     rbind (VarsProblem g (rs_vars s) presence) (\<lambda>problem.
     Inr \<lparr>rp_result = (rs_result s)\<lparr>vars_problem := problem\<rparr>, rp_payload = payload, rp_presence = presence,
          rp_vars = rs_vars s, rp_boundaries = rs_boundaries s\<rparr>))))"

definition ReplayWal :: "bytes \<Rightarrow> Geometry \<Rightarrow> ChunkCoord \<Rightarrow> StoreId \<Rightarrow> FeatureFlags \<Rightarrow> u64 \<Rightarrow> u64 \<Rightarrow>
    bytes \<Rightarrow> bytes \<Rightarrow> ChunkVars \<Rightarrow> Replayed res" where
  "ReplayWal wal g coord store_id store_features base_revision base_schema_version payload presence_bitmap vars =
    (case ValidateWalHeader wal coord store_id store_features of
       Inl e \<Rightarrow>
         rbind (BringToCurrentSchema g base_schema_version presence_bitmap (payload, vars)) (\<lambda>((payload, vars), _).
         Inr \<lparr>rp_result = (if IsInterruptedCreation wal coord store_id
                then no_replay\<lparr>torn_creation := True, wr_stop_reason := ''torn_creation''\<rparr>
                else no_replay\<lparr>wr_stop_reason := ''invalid_header: '' @ exn_what e\<rparr>),
              rp_payload = payload, rp_presence = presence_bitmap, rp_vars = vars, rp_boundaries = []\<rparr>)
     | Inr _ \<Rightarrow>
       if base_schema_version > version (cl_schema (g_layout g))
       then Inl (InvalidArgument ''chunk state is of a schema version the table does not have'')
       else rbind (if base_schema_version \<noteq> 0 then
           rbind (layout_at g base_schema_version) (\<lambda>l.
             if length payload \<noteq> payload_bytes l \<or> length presence_bitmap \<noteq> ChunkPresenceBitmapBytes g
             then Inl (InvalidArgument ''chunk state size does not match its schema version'')
             else Inr (payload @ presence_bitmap))
         else Inr []) (\<lambda>state.
         rbind (ReplayLoop wal g (MaySkipUnknownTypes (UnionFeatures (header_features wal) store_features)) (slots_on store_features)
             base_revision presence_bitmap
             \<lparr>rs_cursor = kWalHeaderSize, previous_revision = 0, state_version = base_schema_version, rs_state = state,
              rs_vars = vars, rs_result = no_replay\<lparr>replayable := True\<rparr>, rs_boundaries = []\<rparr>)
           (FinishReplay g presence_bitmap)))"

end
