(* ===== verification/Wal_Replay_Laws.thy ===== *)
theory Wal_Replay_Laws
  imports Wal_Replay
begin

text \<open>
  Recovery from a cut WAL. A frame is parsed from its own bytes alone, a frame that was cut is
  recognised as cut, and so replay of any prefix of a WAL is replay of the whole frames in it.
\<close>

section \<open>Reading below a common length\<close>

text \<open>Two files that agree on their first \<open>n\<close> bytes.\<close>

definition agree :: "nat \<Rightarrow> bytes \<Rightarrow> bytes \<Rightarrow> bool" where
  "agree n w w' \<longleftrightarrow> n \<le> length w \<and> n \<le> length w' \<and> take n w = take n w'"

lemma agree_nth: "agree n w w' \<Longrightarrow> i < n \<Longrightarrow> w ! i = w' ! i"
  unfolding agree_def by (metis nth_take)

lemma agree_take_drop:
  assumes "agree n w w'" "a + k \<le> n"
  shows "take k (drop a w) = take k (drop a w')"
proof -
  have "take k (drop a v) = drop a (take (a + k) (take n v))" for v :: bytes
    using assms(2) by (simp add: take_drop add.commute)
  then show ?thesis using assms(1) unfolding agree_def by metis
qed

lemma agree_Read:
  assumes "agree n w w'"
  shows "a + 2 \<le> n \<Longrightarrow> ReadLe16 w a = ReadLe16 w' a" "a + 4 \<le> n \<Longrightarrow> ReadLe32 w a = ReadLe32 w' a"
    "a + 8 \<le> n \<Longrightarrow> ReadLe64 w a = ReadLe64 w' a"
proof -
  show "ReadLe16 w a = ReadLe16 w' a" if "a + 2 \<le> n"
    using agree_take_drop [OF assms that] assms that by (simp add: ReadLe16_le agree_def)
  show "ReadLe32 w a = ReadLe32 w' a" if "a + 4 \<le> n"
    using agree_take_drop [OF assms that] assms that by (simp add: ReadLe32_le agree_def)
  show "ReadLe64 w a = ReadLe64 w' a" if "a + 8 \<le> n"
    using agree_take_drop [OF assms that] assms that by (simp add: ReadLe64_le agree_def)
qed

lemma agree_sym: "agree n w w' \<Longrightarrow> agree n w' w"
  by (simp add: agree_def)

lemma agree_prefix: "n \<le> length w \<Longrightarrow> agree n w (take n w)"
  by (simp add: agree_def)

section \<open>A frame is parsed from its own bytes\<close>

lemma ParseTlv_agree:
  assumes "agree n w w'" "at + kWalTlvHeaderSize + len \<le> n"
  shows "ParseTlv w skip slots type at len t = ParseTlv w' skip slots type at len t"
proof -
  have "take len (drop (at + kWalTlvHeaderSize) w) = take len (drop (at + kWalTlvHeaderSize) w')"
    using assms by (rule agree_take_drop)
  moreover have "len = 8 \<Longrightarrow> ReadLe64 w (at + kWalTlvHeaderSize) = ReadLe64 w' (at + kWalTlvHeaderSize)"
    using agree_Read(3) [OF assms(1)] assms(2) by simp
  ultimately show ?thesis unfolding ParseTlv_def by (cases "len = 8") simp_all
qed

lemma ParseTlvs_agree:
  assumes "agree n w w'" "crc_pos \<le> n"
  shows "ParseTlvs w crc_pos skip slots at t = ParseTlvs w' crc_pos skip slots at t"
  using assms
proof (induction w crc_pos skip slots at t rule: ParseTlvs.induct)
  case (1 w crc_pos skip slots at t)
  show ?case
  proof (cases "at < crc_pos \<and> \<not> crc_pos - at < kWalTlvHeaderSize")
    case True
    then have r: "ReadLe16 w' at = ReadLe16 w at" "ReadLe16 w' (at + 2) = ReadLe16 w (at + 2)"
      using 1(3) agree_Read(1) [OF 1(2), of at] agree_Read(1) [OF 1(2), of "at + 2"] by (auto simp: wal_consts)
    let ?len = "unat (ReadLe16 w (at + 2))"
    show ?thesis
    proof (cases "crc_pos - at - kWalTlvHeaderSize < ?len")
      case False
      then have p: "ParseTlv w skip slots (ReadLe16 w at) at ?len t = ParseTlv w' skip slots (ReadLe16 w at) at ?len t"
        using True 1(3) by (intro ParseTlv_agree [OF 1(2)]) auto
      have i: "ParseTlvs w crc_pos skip slots (at + (kWalTlvHeaderSize + ?len)) t' =
          ParseTlvs w' crc_pos skip slots (at + (kWalTlvHeaderSize + ?len)) t'"
        if "ParseTlv w' skip slots (ReadLe16 w at) at ?len t = Inr t'" for t'
        by (rule 1(1) [OF _ _ refl _ _ 1(2,3)]) (use True False that p in auto)
      show ?thesis
        unfolding ParseTlvs.simps [of w crc_pos skip slots at] ParseTlvs.simps [of w' crc_pos skip slots at] r Let_def p
        using i by (auto intro: rbind_cong)
    qed (unfold ParseTlvs.simps [of w crc_pos skip slots at t] ParseTlvs.simps [of w' crc_pos skip slots at t] Let_def r, use True in simp)
  qed (auto simp: ParseTlvs.simps [of w crc_pos skip slots at t] ParseTlvs.simps [of w' crc_pos skip slots at t])
qed

text \<open>What lies in the body of a parsed frame, and where its records may write.\<close>

definition span_in :: "nat \<Rightarrow> FrameShape \<Rightarrow> PendingSpan \<Rightarrow> bool" where
  "span_in records_end shape span \<longleftrightarrow> sp_source span + sp_size span \<le> records_end \<and>
     sp_offset span + sp_size span \<le> state_size shape \<and> sp_size span \<noteq> 0 \<and>
     SpanShapeValid (sp_offset span) (sp_offset span + sp_size span) (payload_boundary shape) (state_size shape)"

definition var_in :: "nat \<Rightarrow> FrameShape \<Rightarrow> PendingVar \<Rightarrow> bool" where
  "var_in records_end shape op \<longleftrightarrow> (pv_put op \<longrightarrow> pv_source op + unat (pv_length op) \<le> records_end) \<and>
     unat (vk_block (pv_key op)) < fs_block_count shape"

definition frame_in :: "nat \<Rightarrow> FrameShape \<Rightarrow> ParsedFrame \<Rightarrow> bool" where
  "frame_in records_end shape f \<longleftrightarrow> (\<forall>s \<in> set (pf_spans f). span_in records_end shape s) \<and>
     (\<forall>op \<in> set (pf_var_ops f). var_in records_end shape op) \<and> sorted_wrt (<) (map pv_key (pf_var_ops f)) \<and>
     (pf_var_replace f \<noteq> None \<longrightarrow> pf_var_ops f = []) \<and>
     (pf_var_ops f \<noteq> [] \<or> pf_var_replace f \<noteq> None \<longrightarrow> vars_enabled shape) \<and>
     (\<forall>v. pf_var_replace f = Some v \<longrightarrow> (\<exists>bs. Decode bs (fs_block_count shape) = Inr v))"

lemma ParseVarRecord_agree:
  assumes "agree n w w'" "body_pos + unat sz \<le> n" "type = kWalRecordVarPut \<or> type = kWalRecordVarDel \<or> type = kWalRecordVarReplace"
  shows "ParseVarRecord w type body_pos sz shape f = ParseVarRecord w' type body_pos sz shape f"
proof -
  have d: "take (unat sz) (drop body_pos w) = take (unat sz) (drop body_pos w')"
    using agree_take_drop [OF assms(1,2)] .
  have k: "ReadLe32 w body_pos = ReadLe32 w' body_pos" "ReadLe32 w (body_pos + 4) = ReadLe32 w' (body_pos + 4)"
    if "8 \<le> unat sz" using agree_Read(2) [OF assms(1)] assms(2) that by auto
  have l: "ReadLe32 w (body_pos + 8) = ReadLe32 w' (body_pos + 8)" if "12 \<le> unat sz"
    using agree_Read(2) [OF assms(1)] assms(2) that by auto
  show ?thesis
    unfolding ParseVarRecord_def d Let_def wal_consts using k l by (cases "8 \<le> unat sz"; cases "12 \<le> unat sz") (auto split: sum.split)
qed

lemma ParseRecord_agree:
  assumes "agree n w w'" "body_pos + unat sz \<le> n"
  shows "ParseRecord w shape type body_pos sz f = ParseRecord w' shape type body_pos sz f"
proof (cases "type = kWalRecordSpan")
  case True
  then show ?thesis
    using agree_Read(2) [OF assms(1), of body_pos] assms(2) by (auto simp: ParseRecord_def wal_consts Let_def)
next
  case False
  then show ?thesis using ParseVarRecord_agree [OF assms] by (simp add: ParseRecord_def)
qed

lemma ParseRecords_agree:
  assumes "agree n w w'" "records_end \<le> n"
  shows "ParseRecords w records_end shape k at f = ParseRecords w' records_end shape k at f"
proof (induction k arbitrary: at f)
  case (Suc k)
  show ?case
  proof (cases "records_end - at < kWalRecordHeaderSize")
    case False
    then have r: "ReadLe32 w (at + 1) = ReadLe32 w' (at + 1)" "w ! at = w' ! at"
      using agree_Read(2) [OF assms(1), of "at + 1"] agree_nth [OF assms(1), of at] assms(2) by (auto simp: wal_consts)
    have p: "ParseRecord w shape (w' ! at) (at + kWalRecordHeaderSize) (ReadLe32 w' (at + 1)) f =
        ParseRecord w' shape (w' ! at) (at + kWalRecordHeaderSize) (ReadLe32 w' (at + 1)) f"
      if "\<not> records_end - (at + kWalRecordHeaderSize) < unat (ReadLe32 w' (at + 1))"
      using that False assms(2) by (intro ParseRecord_agree [OF assms(1)]) (auto simp: wal_consts)
    have "ParseRecords w records_end shape k = ParseRecords w' records_end shape k" using Suc.IH by (intro ext)
    then show ?thesis unfolding ParseRecords.simps Let_def r using p by simp
  qed simp
qed simp

lemma ParseVarRecord_in:
  assumes "ParseVarRecord w type body_pos sz shape f = Inr f'" "body_pos + unat sz \<le> records_end" "frame_in records_end shape f"
  shows "frame_in records_end shape f'"
proof (cases "type = kWalRecordVarReplace")
  case True
  then show ?thesis
    using assms by (auto simp: ParseVarRecord_def frame_in_def split: if_splits sum.splits)
next
  case False
  define op where "op = last (pf_var_ops f')"
  have op: "f' = f\<lparr>pf_var_ops := pf_var_ops f @ [op]\<rparr>" "unat (vk_block (pv_key op)) < fs_block_count shape"
      "pf_var_ops f = [] \<or> pv_key (last (pf_var_ops f)) < pv_key op" "vars_enabled shape" "pf_var_replace f = None"
      "pv_put op \<longrightarrow> pv_source op + unat (pv_length op) = body_pos + unat sz"
    using assms(1) False by (auto simp: ParseVarRecord_def Let_def op_def split: if_splits)
  have "\<forall>k \<in> set (map pv_key (pf_var_ops f)). k < pv_key op"
  proof (cases "pf_var_ops f" rule: rev_cases)
    case (snoc ops o')
    then have "sorted_wrt (<) (map pv_key ops @ [pv_key o'])" "pv_key o' < pv_key op" using assms(3) op(3) by (auto simp: frame_in_def)
    then show ?thesis using snoc by (auto simp: sorted_wrt_append)
  qed simp
  then show ?thesis
    using assms(2,3) op by (auto simp: frame_in_def var_in_def sorted_wrt_append)
qed

lemma ParseRecord_in:
  assumes "ParseRecord w shape type body_pos sz f = Inr f'" "body_pos + unat sz \<le> records_end" "frame_in records_end shape f"
  shows "frame_in records_end shape f'"
proof (cases "type = kWalRecordSpan")
  case True
  then show ?thesis
    using assms by (auto simp: ParseRecord_def Let_def frame_in_def span_in_def wal_consts split: if_splits)
next
  case False
  then show ?thesis using assms ParseVarRecord_in by (auto simp: ParseRecord_def split: if_splits)
qed

lemma ParseRecords_in:
  assumes "ParseRecords w records_end shape k at f = Inr (at', f')" "frame_in records_end shape f"
  shows "frame_in records_end shape f'"
  using assms
proof (induction k arbitrary: at f)
  case (Suc k)
  let ?b = "at + kWalRecordHeaderSize" and ?z = "ReadLe32 w (at + 1)"
  from Suc.prems(1) obtain f1 where f1: "\<not> records_end - at < kWalRecordHeaderSize" "\<not> records_end - ?b < unat ?z"
      "ParseRecord w shape (w ! at) ?b ?z f = Inr f1" "ParseRecords w records_end shape k (?b + unat ?z) f1 = Inr (at', f')"
    by (auto simp: Let_def split: if_splits)
  have "frame_in records_end shape f1"
    by (rule ParseRecord_in [OF f1(3) _ Suc.prems(2)]) (use f1(1,2) in \<open>auto simp: wal_consts\<close>)
  with f1(4) show ?case by (rule Suc.IH)
qed simp

lemma span_agree:
  assumes "agree n w w'" "span_in n shape s"
  shows "span_bytes w s = span_bytes w' s"
  using agree_take_drop [OF assms(1)] assms(2) by (simp add: span_bytes_def span_in_def)

lemma GcResetValid_agree:
  assumes "agree n w w'" "frame_in n shape f"
  shows "GcResetValid w shape tagged k f = GcResetValid w' shape tagged k f"
proof -
  have "list_all (\<lambda>s. list_all (\<lambda>b. b = 0) (take (sp_size s) (drop (sp_source s) w))) (pf_spans f) =
      list_all (\<lambda>s. list_all (\<lambda>b. b = 0) (take (sp_size s) (drop (sp_source s) w'))) (pf_spans f)"
    using span_agree [OF assms(1)] assms(2) by (intro list.pred_cong) (auto simp: frame_in_def span_bytes_def)
  then show ?thesis unfolding GcResetValid_def Let_def by simp
qed

lemma frame_in_mono: "frame_in m shape f \<Longrightarrow> m \<le> n \<Longrightarrow> frame_in n shape f"
  by (fastforce simp: frame_in_def span_in_def var_in_def)

lemma frame_in_none [simp]:
  "pf_spans f = [] \<Longrightarrow> pf_var_ops f = [] \<Longrightarrow> pf_var_replace f = None \<Longrightarrow> frame_in n shape f"
  by (simp add: frame_in_def)

lemma ParseFrameRecords_agree:
  assumes "agree n w w'" "records_end \<le> n" "frame_in records_end shape f"
  shows "ParseFrameRecords w records_begin records_end k shape tagged f = ParseFrameRecords w' records_begin records_end k shape tagged f"
  unfolding ParseFrameRecords_def ParseRecords_agree [OF assms(1,2)]
  using ParseRecords_in [OF _ assms(3)] GcResetValid_agree [OF assms(1) frame_in_mono [OF _ assms(2)]]
  by (intro rbind_cong refl) (auto split: prod.splits)

definition frame_end :: "bytes \<Rightarrow> nat \<Rightarrow> nat" where
  "frame_end w c = c + kWalFrameFixedHeaderSize + unat (ReadLe16 w (c + 22)) + kWalFrameHeaderCrcSize +
     unat (ReadLe32 w (c + 28)) + kWalFrameTrailerSize"

definition framed :: "bytes \<Rightarrow> nat \<Rightarrow> bool" where
  "framed w c \<longleftrightarrow> (let crc_pos = c + kWalFrameFixedHeaderSize + unat (ReadLe16 w (c + 22));
       records_begin = c + (kWalFrameFixedHeaderSize + unat (ReadLe16 w (c + 22)) + kWalFrameHeaderCrcSize);
       body = unat (ReadLe32 w (c + 28)) in
     frame_end w c \<le> length w \<and> take kWalFrameMagicSize (drop c w) = kWalFrameMagic \<and>
     Crc32 (take (crc_pos - c - kWalFrameMagicSize) (drop (c + kWalFrameMagicSize) w)) = ReadLe32 w crc_pos \<and>
     Crc32 (take body (drop records_begin w)) = ReadLe32 w (records_begin + body))"

lemma ParseFrame_framed:
  "ParseFrame w c g skip slots = Inr (Inr f) \<longleftrightarrow> framed w c \<and> ParseFrameBody w c g skip slots = Inr (Inr f)"
  by (auto simp: ParseFrame_def framed_def frame_end_def Let_def wal_consts split: if_splits sum.splits)

lemma frame_end_agree:
  assumes "agree n w w'" "c + kWalFrameFixedHeaderSize \<le> n"
  shows "frame_end w' c = frame_end w c"
  using agree_Read [OF assms(1)] assms(2) by (simp add: frame_end_def wal_consts)

lemma framed_agree:
  assumes "agree n w w'" "framed w c" "frame_end w c \<le> n"
  shows "framed w' c"
proof -
  have c: "c + kWalFrameFixedHeaderSize \<le> n" using assms(3) by (simp add: frame_end_def)
  have r: "ReadLe16 w (c + 22) = ReadLe16 w' (c + 22)" "ReadLe32 w (c + 28) = ReadLe32 w' (c + 28)"
    using agree_Read [OF assms(1)] c by (simp_all add: wal_consts)
  show ?thesis
    using assms agree_take_drop [OF assms(1)] agree_Read(2) [OF assms(1)] frame_end_agree [OF assms(1) c]
    by (simp add: framed_def Let_def agree_def r frame_end_def wal_consts)
qed

lemma ParseFrameBody_agree:
  assumes "agree n w w'" "frame_end w c \<le> n"
  shows "ParseFrameBody w c g skip slots = ParseFrameBody w' c g skip slots"
proof -
  have c: "c + kWalFrameFixedHeaderSize \<le> n" using assms(2) by (simp add: frame_end_def)
  let ?crc = "c + kWalFrameFixedHeaderSize + unat (ReadLe16 w (c + 22))" and ?b = "unat (ReadLe32 w (c + 28))"
  have r: "ReadLe16 w (c + 20) = ReadLe16 w' (c + 20)" "ReadLe16 w (c + 22) = ReadLe16 w' (c + 22)"
    "ReadLe32 w (c + 24) = ReadLe32 w' (c + 24)" "ReadLe32 w (c + 28) = ReadLe32 w' (c + 28)"
    "ReadLe64 w (c + 4) = ReadLe64 w' (c + 4)" "ReadLe64 w (c + 12) = ReadLe64 w' (c + 12)"
    using agree_Read [OF assms(1)] c by (simp_all add: wal_consts)
  have e: "?crc \<le> n" "?crc + kWalFrameHeaderCrcSize + ?b \<le> n" using assms(2) by (auto simp: frame_end_def)
  have t: "ParseTlvs w (c + kWalFrameFixedHeaderSize + unat (ReadLe16 w' (c + 22))) skip slots at t =
      ParseTlvs w' (c + kWalFrameFixedHeaderSize + unat (ReadLe16 w' (c + 22))) skip slots at t" for at t
    by (rule ParseTlvs_agree [OF assms(1)]) (use e r in simp)
  have p: "ParseFrameRecords w b (c + kWalFrameFixedHeaderSize + unat (ReadLe16 w' (c + 22)) + kWalFrameHeaderCrcSize +
        unat (ReadLe32 w' (c + 28))) k shape tagged \<lparr>pf_revision = a1, pf_schema_version = a2, pf_commit_time_ms = a3,
        pf_user = a4, pf_gc = a5, pf_size = a6, pf_spans = [], pf_var_ops = [], pf_var_replace = None, pf_record_count = a7\<rparr> =
      ParseFrameRecords w' b (c + kWalFrameFixedHeaderSize + unat (ReadLe16 w' (c + 22)) + kWalFrameHeaderCrcSize +
        unat (ReadLe32 w' (c + 28))) k shape tagged \<lparr>pf_revision = a1, pf_schema_version = a2, pf_commit_time_ms = a3,
        pf_user = a4, pf_gc = a5, pf_size = a6, pf_spans = [], pf_var_ops = [], pf_var_replace = None, pf_record_count = a7\<rparr>"
    for b k shape tagged a1 a2 a3 a4 a5 a6 a7
    by (rule ParseFrameRecords_agree [OF assms(1)]) (use e r in simp_all)
  show ?thesis
    unfolding ParseFrameBody_def Let_def r t p by (rule refl)
qed

lemma ParseFrame_end:
  "ParseFrame w c g skip slots = Inr (Inr f) \<Longrightarrow> frame_end w c = c + pf_size f"
  using ParseFrame_extent(3) [of w c g skip slots f] by (simp add: frame_end_def)

lemma ParseFrame_agree:
  assumes "ParseFrame w c g skip slots = Inr (Inr f)" "agree n w w'" "c + pf_size f \<le> n"
  shows "ParseFrame w' c g skip slots = Inr (Inr f)"
proof -
  have e: "frame_end w c \<le> n" using ParseFrame_end [OF assms(1)] assms(3) by simp
  show ?thesis
    using assms(1) framed_agree [OF assms(2) _ e] ParseFrameBody_agree [OF assms(2) e] by (simp add: ParseFrame_framed)
qed

text \<open>A frame that is cut is recognised: the stop says that it reaches the end of the file.\<close>

lemma ParseFrame_torn:
  assumes "ParseFrame w c g skip slots = Inr (Inr f)" "c \<le> n" "n < c + pf_size f" "n \<le> length w"
  obtains reason where "reason \<in> {''partial_frame_header'', ''partial_frame_body''}"
    "ParseFrame (take n w) c g skip slots = Inr (Inl \<lparr>stop_reason = reason, reaches_end = True, intact = False\<rparr>)"
proof -
  have f: "framed w c" "n < frame_end w c" using assms(1,3) ParseFrame_end [OF assms(1)] by (simp_all add: ParseFrame_framed)
  have a: "agree n w (take n w)" using assms(4) by (rule agree_prefix)
  let ?w = "take n w"
  have len: "length ?w - c = n - c" using assms(4) by simp
  show thesis
  proof (cases "n - c < kWalFrameFixedHeaderSize")
    case True
    then show thesis by (intro that [of "''partial_frame_header''"]) (simp_all only: ParseFrame_def Let_def len, simp_all)
  next
    case False
    then have c: "c + kWalFrameFixedHeaderSize \<le> n" using assms(2) by simp
    have r: "ReadLe16 w (c + 22) = ReadLe16 ?w (c + 22)" "ReadLe32 w (c + 28) = ReadLe32 ?w (c + 28)"
      using agree_Read [OF a] c by (simp_all add: wal_consts)
    have m: "take kWalFrameMagicSize (drop c ?w) = kWalFrameMagic"
      using f(1) agree_take_drop [OF a, of c kWalFrameMagicSize] c by (simp add: framed_def Let_def wal_consts)
    let ?h = "kWalFrameFixedHeaderSize + unat (ReadLe16 ?w (c + 22)) + kWalFrameHeaderCrcSize"
    show thesis
    proof (cases "n - c < ?h")
      case True
      then show thesis using False m
        by (intro that [of "''partial_frame_header''"]) (simp_all only: ParseFrame_def Let_def len, simp_all)
    next
      case short: False
      let ?crc = "c + kWalFrameFixedHeaderSize + unat (ReadLe16 ?w (c + 22))"
      have "Crc32 (take (?crc - c - kWalFrameMagicSize) (drop (c + kWalFrameMagicSize) ?w)) = ReadLe32 ?w ?crc"
        using f(1) short assms(2) agree_take_drop [OF a] agree_Read(2) [OF a] unfolding framed_def Let_def r
        by (auto simp: wal_consts)
      moreover have "?h + unat (ReadLe32 ?w (c + 28)) + kWalFrameTrailerSize > n - c"
        using f(2) assms(2) unfolding frame_end_def r by simp
      ultimately show thesis using False m short
        by (intro that [of "''partial_frame_body''"]) (simp_all only: ParseFrame_def Let_def len, simp_all)
    qed
  qed
qed

lemma ParseFrame_in:
  assumes "ParseFrame w c g skip slots = Inr (Inr f)"
  obtains l where "layout_at g (pf_schema_version f) = Inr l" "frame_in (c + pf_size f) (frame_shape g skip l) f"
    "pf_schema_version f \<noteq> 0" "pf_schema_version f \<le> version (cl_schema (g_layout g))"
proof -
  have b: "ParseFrameBody w c g skip slots = Inr (Inr f)" using assms by (simp add: ParseFrame_framed)
  then obtain v l b e k tagged f0 at where p: "v \<noteq> 0" "v \<le> version (cl_schema (g_layout g))" "layout_at g v = Inr l"
      "ParseRecords w e (frame_shape g skip l) k b f0 = Inr (at, f)" "pf_schema_version f0 = v" "frame_in e (frame_shape g skip l) f0"
      "pf_size f0 = e + kWalFrameTrailerSize - c"
    by (fastforce simp: ParseFrameBody_def ParseFrameRecords_def Let_def not_less split: if_splits sum.splits)
  have m: "pf_schema_version f = v" "pf_size f = pf_size f0" using ParseRecords_meta [OF p(4)] p(5) by (simp_all add: frame_meta_def)
  have "frame_in e (frame_shape g skip l) f" by (rule ParseRecords_in [OF p(4,6)])
  then have "frame_in (c + pf_size f) (frame_shape g skip l) f"
    by (rule frame_in_mono) (use m p(7) ParseFrame_extent [OF assms] in \<open>auto simp: wal_consts\<close>)
  then show thesis using p m that by simp
qed

section \<open>Runs over whole frames\<close>

lemma value_agree:
  assumes "agree n w w'" "var_in n shape op"
  shows "var_change w op = var_change w' op"
  using agree_take_drop [OF assms(1)] assms(2) by (auto simp: var_change_def value_of_def var_in_def)

lemma ApplyFrameVars_agree:
  assumes "agree n w w'" "frame_in n shape f"
  shows "ApplyFrameVars w f vars = ApplyFrameVars w' f vars"
proof -
  have c: "\<forall>op \<in> set (pf_var_ops f). var_change w op = var_change w' op"
    using value_agree [OF assms(1)] assms(2) by (auto simp: frame_in_def)
  then have v: "\<forall>op \<in> set (pf_var_ops f). pv_put op \<longrightarrow> value_of w op = value_of w' op" by (auto simp: var_change_def)
  show ?thesis
    using v c unfolding ApplyFrameVars_def by (auto split: option.split list.split cong: map_cong)
qed

lemma apply_frame_agree:
  assumes "agree n w w'" "frame_in n shape f"
  shows "apply_frame w f s = apply_frame w' f s"
proof -
  have "rfold (ApplySpan w) (pf_spans f) st = rfold (ApplySpan w') (pf_spans f) st" for st
    using span_agree [OF assms(1)] assms(2) by (intro rfold_cong) (auto simp: frame_in_def ApplySpan_def)
  then show ?thesis unfolding apply_frame_def ApplyFrameVars_agree [OF assms] by simp
qed

lemma ReplayStep_agree:
  assumes "ReplayStep w g skip slots base pres s = Inr (s', True)" "agree n w w'" "rs_cursor s' \<le> n"
  shows "ReplayStep w' g skip slots base pres s = Inr (s', True)"
proof -
  obtain f where f: "ParseFrame w (rs_cursor s) g skip slots = Inr (Inr f)" and e: "rs_cursor s' = rs_cursor s + pf_size f"
    using ReplayStep_frame [OF assms(1)] by blast
  obtain l where l: "frame_in (rs_cursor s + pf_size f) (frame_shape g skip l) f" using ParseFrame_in [OF f] by metis
  have f': "ParseFrame w' (rs_cursor s) g skip slots = Inr (Inr f)"
    by (rule ParseFrame_agree [OF f assms(2)]) (use e assms(3) in simp)
  have a: "apply_frame w f = apply_frame w' f"
    by (rule ext, rule apply_frame_agree [OF assms(2) frame_in_mono [OF l]]) (use e assms(3) in simp)
  show ?thesis using assms(1) unfolding ReplayStep_def f f' a rbind_simps sum.case .
qed

inductive run :: "bytes \<Rightarrow> Geometry \<Rightarrow> bool \<Rightarrow> bool \<Rightarrow> u64 \<Rightarrow> bytes \<Rightarrow> ReplayState \<Rightarrow> ReplayState \<Rightarrow> bool"
  for w g skip slots base pres where
  here: "run w g skip slots base pres s s"
| frame: "run w g skip slots base pres s u \<Longrightarrow> rs_cursor u < length w \<Longrightarrow>
    ReplayStep w g skip slots base pres u = Inr (v, True) \<Longrightarrow> run w g skip slots base pres s v"

lemma run_loop:
  "run w g skip slots base pres s u \<Longrightarrow> ReplayLoop w g skip slots base pres s = ReplayLoop w g skip slots base pres u"
proof (induction rule: run.induct)
  case (frame s u v)
  then show ?case by (simp add: ReplayLoop.simps [of _ _ _ _ _ _ u])
qed simp

lemma run_trans:
  "run w g skip slots base pres u v \<Longrightarrow> run w g skip slots base pres s u \<Longrightarrow> run w g skip slots base pres s v"
  by (induction rule: run.induct) (auto intro: run.frame)

lemma run_cursor: "run w g skip slots base pres s u \<Longrightarrow> rs_cursor s \<le> rs_cursor u"
  by (induction rule: run.induct) (auto dest: ReplayStep_cursor)

lemma run_agree:
  assumes "run w g skip slots base pres s u" "agree n w w'" "rs_cursor u \<le> n"
  shows "run w' g skip slots base pres s u"
  using assms
proof (induction rule: run.induct)
  case (frame s u v)
  have c: "rs_cursor u < rs_cursor v" "rs_cursor v \<le> n"
    using ReplayStep_cursor [OF frame.hyps(3)] frame.prems(2) by auto
  have "run w' g skip slots base pres s u" by (rule frame.IH [OF frame.prems(1)]) (use c in simp)
  moreover have "rs_cursor u < length w'" using c frame.prems(1) by (auto simp: agree_def)
  moreover have "ReplayStep w' g skip slots base pres u = Inr (v, True)"
    by (rule ReplayStep_agree [OF frame.hyps(3) frame.prems])
  ultimately show ?case by (rule run.frame)
qed (rule run.here)

text \<open>The result of the loop is reached by whole frames and, unless the file ends there, one stop.\<close>

lemma loop_run:
  assumes "ReplayLoop w g skip slots base pres s = Inr t"
  shows "\<exists>u. run w g skip slots base pres s u \<and>
    (\<not> rs_cursor u < length w \<and> t = u \<or> rs_cursor u < length w \<and> ReplayStep w g skip slots base pres u = Inr (t, False))"
  using assms
proof (induction w g skip slots base pres s rule: ReplayLoop.induct)
  case (1 w g skip slots base pres s)
  show ?case
  proof (cases "rs_cursor s < length w")
    case True
    then obtain v go where v: "ReplayStep w g skip slots base pres s = Inr (v, go)"
        "(if go then ReplayLoop w g skip slots base pres v else Inr v) = Inr t"
      using 1(2) by (auto simp: ReplayLoop.simps [of w g skip slots base pres s])
    show ?thesis
    proof (cases go)
      case go: True
      have r: "run w g skip slots base pres s v" by (rule run.frame [OF run.here True]) (use v go in simp)
      have "ReplayLoop w g skip slots base pres v = Inr t" using v(2) go by simp
      from 1(1) [OF True v(1) refl go this] obtain u where "run w g skip slots base pres v u"
          "\<not> rs_cursor u < length w \<and> t = u \<or> rs_cursor u < length w \<and> ReplayStep w g skip slots base pres u = Inr (t, False)"
        by blast
      then show ?thesis using run_trans [OF _ r] by blast
    qed (use True v in \<open>auto intro: run.here\<close>)
  qed (use 1(2) in \<open>auto simp: ReplayLoop.simps [of w g skip slots base pres s] intro: run.here\<close>)
qed

section \<open>Cutting a file\<close>

definition frame_ends :: "ReplayState \<Rightarrow> nat list" where
  "frame_ends s = map fb_end (rs_boundaries s)"

lemma ReplayStep_ends:
  assumes "ReplayStep w g skip slots base pres s = Inr (s', True)"
  shows "frame_ends s' = frame_ends s @ [rs_cursor s'] \<and>
    tail_truncated_or_corrupt (rs_result s') = tail_truncated_or_corrupt (rs_result s)"
  using assms
  by (auto simp: ReplayStep_def skip_frame_def pass_frame_def apply_frame_def move_state_to_def frame_ends_def Let_def
      split: if_splits prod.splits sum.splits)

lemma ReplayStep_stops:
  assumes "ReplayStep w g skip slots base pres s = Inr (s', False)"
  shows "tail_truncated_or_corrupt (rs_result s')"
  using assms
  by (auto simp: ReplayStep_def stop_replay_def Let_def split: if_splits prod.splits sum.splits)

lemma run_ends:
  assumes "run w g skip slots base pres s u" "frame_ends s = []"
  shows "(\<forall>e \<in> set (frame_ends u). e \<le> rs_cursor u) \<and> last (rs_cursor s # frame_ends u) = rs_cursor u \<and>
    tail_truncated_or_corrupt (rs_result u) = tail_truncated_or_corrupt (rs_result s)"
  using assms
proof (induction rule: run.induct)
  case (frame s u v)
  then show ?case using ReplayStep_ends [OF frame.hyps(3)] ReplayStep_cursor [OF frame.hyps(3)] by auto
qed simp

lemma run_cut:
  assumes "run w g skip slots base pres s t" "rs_cursor s \<le> n" "frame_ends s = []"
  shows "\<exists>v. run w g skip slots base pres s v \<and> rs_cursor v \<le> n \<and> frame_ends v = filter (\<lambda>e. e \<le> n) (frame_ends t) \<and>
    (v = t \<or> n < rs_cursor t \<and> rs_cursor v < length w \<and>
      (\<exists>v'. ReplayStep w g skip slots base pres v = Inr (v', True) \<and> n < rs_cursor v'))"
  using assms
proof (induction rule: run.induct)
  case (here s)
  then show ?case by (auto intro: run.here)
next
  case (frame s u v)
  note step = ReplayStep_ends [OF frame.hyps(3)] ReplayStep_cursor [OF frame.hyps(3)]
  from frame.IH frame.prems obtain x where x: "run w g skip slots base pres s x" "rs_cursor x \<le> n"
      "frame_ends x = filter (\<lambda>e. e \<le> n) (frame_ends u)"
      "x = u \<or> n < rs_cursor u \<and> rs_cursor x < length w \<and>
        (\<exists>v'. ReplayStep w g skip slots base pres x = Inr (v', True) \<and> n < rs_cursor v')" by blast
  show ?case
  proof (cases "x = u \<and> rs_cursor v \<le> n")
    case True
    then have "filter (\<lambda>e. e \<le> n) (frame_ends v) = frame_ends v" using x(3) step by simp
    then show ?thesis using True run.frame [OF frame.hyps] by auto
  next
    case False
    then have "n < rs_cursor v" using x(4) step by auto
    then show ?thesis using x step frame.hyps by (intro exI [of _ x]) auto
  qed
qed

lemma ReplayLoop_cut:
  assumes loop: "ReplayLoop w g skip slots base pres s = Inr t" and clean: "\<not> tail_truncated_or_corrupt (rs_result t)"
    and n: "rs_cursor s \<le> n" "n \<le> length w" and s: "frame_ends s = []"
  defines "m \<equiv> last (rs_cursor s # filter (\<lambda>e. e \<le> n) (frame_ends t))"
  obtains v reason where "reason \<in> {''partial_frame_header'', ''partial_frame_body''}" "rs_cursor s \<le> m" "m \<le> n"
    "ReplayLoop (take m w) g skip slots base pres s = Inr v"
    "ReplayLoop (take n w) g skip slots base pres s = Inr (if m < n then stop_replay reason True v else v)"
proof -
  have t: "run w g skip slots base pres s t" "\<not> rs_cursor t < length w"
    using loop_run [OF loop] ReplayStep_stops clean by blast+
  obtain v where v: "run w g skip slots base pres s v" "rs_cursor v \<le> n" "frame_ends v = filter (\<lambda>e. e \<le> n) (frame_ends t)"
      "v = t \<or> n < rs_cursor t \<and> rs_cursor v < length w \<and>
        (\<exists>v'. ReplayStep w g skip slots base pres v = Inr (v', True) \<and> n < rs_cursor v')"
    using run_cut [OF t(1) n(1) s] by blast
  have m: "m = rs_cursor v" using run_ends [OF v(1) s] by (simp add: m_def v(3))
  then have bounds: "rs_cursor s \<le> m" "m \<le> n" using run_cursor [OF v(1)] v(2) by simp_all
  have end': "ReplayLoop (take k w) g skip slots base pres s = ReplayLoop (take k w) g skip slots base pres v"
    if "rs_cursor v \<le> k" "k \<le> length w" for k
    by (rule run_loop, rule run_agree [OF v(1) agree_prefix [OF that(2)] that(1)])
  have whole: "ReplayLoop (take m w) g skip slots base pres s = Inr v"
    using end' [of m] m v(2) n(2) ReplayLoop.simps [of "take m w" g skip slots base pres v] by simp
  show thesis
  proof (cases "m < n")
    case False
    then have "m = n" using m v(2) by simp
    with whole show thesis using bounds by (intro that [of "''partial_frame_body''" v]) auto
  next
    case True
    then have "v \<noteq> t" using t(2) n(2) m by auto
    then obtain v' where v': "ReplayStep w g skip slots base pres v = Inr (v', True)" "n < rs_cursor v'" using v(4) by blast
    obtain f where f: "ParseFrame w (rs_cursor v) g skip slots = Inr (Inr f)" "rs_cursor v' = rs_cursor v + pf_size f"
      using ReplayStep_frame [OF v'(1)] by blast
    then obtain reason where reason: "reason \<in> {''partial_frame_header'', ''partial_frame_body''}"
        "ParseFrame (take n w) (rs_cursor v) g skip slots = Inr (Inl \<lparr>stop_reason = reason, reaches_end = True, intact = False\<rparr>)"
      using ParseFrame_torn [OF f(1) v(2)] v'(2) n(2) by metis
    have "ReplayLoop (take n w) g skip slots base pres v = Inr (stop_replay reason True v)"
      using True m n(2) unfolding ReplayLoop.simps [of "take n w" g skip slots base pres v] ReplayStep_def reason(2) by simp
    then show thesis using end' [OF v(2) n(2)] True by (intro that [OF reason(1) bounds whole]) simp
  qed
qed

section \<open>The whole of a replay\<close>

lemma ValidateWalHeader_agree:
  assumes "agree n w w'" "kWalHeaderSize \<le> n"
  shows "ValidateWalHeader w coord sid features = ValidateWalHeader w' coord sid features" "header_features w = header_features w'"
proof -
  have t: "take 8 w = take 8 w'" "take (kWalHeaderSize - 4) w = take (kWalHeaderSize - 4) w'"
      "take 16 (drop 24 w) = take 16 (drop 24 w')"
    using agree_take_drop [OF assms(1), of 0] agree_take_drop [OF assms(1), of 24] assms(2) by (simp_all add: wal_consts)
  have r: "ReadLe16 w 8 = ReadLe16 w' 8" "ReadLe16 w 10 = ReadLe16 w' 10" "ReadLe32 w 12 = ReadLe32 w' 12"
      "ReadLe32 w 16 = ReadLe32 w' 16" "ReadLe32 w 20 = ReadLe32 w' 20" "ReadLe64 w 40 = ReadLe64 w' 40"
      "ReadLe64 w 48 = ReadLe64 w' 48" "ReadLe32 w (kWalHeaderSize - 4) = ReadLe32 w' (kWalHeaderSize - 4)"
    using agree_Read [OF assms(1)] assms(2) by (simp_all add: wal_consts)
  show h: "header_features w = header_features w'" by (simp add: header_features_def r)
  have "\<not> length w < kWalHeaderSize" "\<not> length w' < kWalHeaderSize" using assms by (auto simp: agree_def)
  then show "ValidateWalHeader w coord sid features = ValidateWalHeader w' coord sid features"
    unfolding ValidateWalHeader_def t r h by simp
qed

lemma move_state_result:
  "move_state_to g pres v (s\<lparr>rs_result := r\<rparr>) = rbind (move_state_to g pres v s) (\<lambda>s. Inr (s\<lparr>rs_result := r\<rparr>))"
  by (auto simp: move_state_to_def rbind_assoc Let_def intro!: rbind_cong split: prod.split)

lemma move_state_kept:
  "move_state_to g pres v s = Inr s' \<Longrightarrow>
    rs_result s' = rs_result s \<and> rs_boundaries s' = rs_boundaries s \<and> rs_cursor s' = rs_cursor s \<and> state_version s' = v"
  by (auto simp: move_state_to_def Let_def split: if_splits prod.splits)

text \<open>What a stop adds to the outcome.\<close>

definition with_stop :: "string \<Rightarrow> Replayed \<Rightarrow> Replayed" where
  "with_stop reason q = q\<lparr>rp_result := (rp_result q)\<lparr>tail_truncated_or_corrupt := True, wr_stop_reason := reason,
     stopped_at_crash_tail := True\<rparr>\<rparr>"

lemma FinishReplay_stop:
  "FinishReplay g pres (stop_replay reason True v) = rbind (FinishReplay g pres v) (\<lambda>q. Inr (with_stop reason q))"
proof -
  let ?r = "(rs_result v)\<lparr>valid_end := rs_cursor v\<rparr>"
  let ?s = "(rs_result v)\<lparr>tail_truncated_or_corrupt := True, wr_stop_reason := reason, stopped_at_crash_tail := True,
    valid_end := rs_cursor v\<rparr>"
  have s: "(stop_replay reason True v)\<lparr>rs_result := (rs_result (stop_replay reason True v))\<lparr>valid_end := rs_cursor
      (stop_replay reason True v)\<rparr>\<rparr> = v\<lparr>rs_result := ?s\<rparr>" by (simp add: stop_replay_def)
  have k: "rs_result x = rs_result v" if "move_state_to g pres c v = Inr x" for x c using move_state_kept [OF that] by simp
  show ?thesis
    unfolding FinishReplay_def Let_def s
    by (cases "move_state_to g pres (version (cl_schema (g_layout g))) v")
      (auto simp: move_state_result rbind_assoc with_stop_def intro!: rbind_cong split: prod.split)
qed

lemma FinishReplay_kept:
  assumes "FinishReplay g pres s = Inr q"
  shows "rp_boundaries q = rs_boundaries s \<and>
    tail_truncated_or_corrupt (rp_result q) = tail_truncated_or_corrupt (rs_result s) \<and>
    replayable (rp_result q) = replayable (rs_result s) \<and> valid_end (rp_result q) = rs_cursor s"
  using assms by (auto simp: FinishReplay_def Let_def dest!: move_state_kept split: if_splits)

end
