(* ===== verification/Wal_Frame_Laws.thy ===== *)
theory Wal_Frame_Laws
  imports Wal_Replay_Laws
begin

text \<open>
  What \<open>WalFrameBuilder\<close> writes is what \<open>ParseFrame\<close> reads: the records of a frame, its revision,
  commit time, schema version and user come back, wherever in a file the frame stands and whatever
  follows it.
\<close>

section \<open>The bytes of a frame\<close>

text \<open>One call of an append operation of the builder.\<close>

datatype WalOp = SpanOp u32 bytes | PutOp VarKey bytes | DelOp VarKey | ReplaceOp ChunkVars

fun AppendOp :: "WalOp \<Rightarrow> WalFrameBuilder \<Rightarrow> WalFrameBuilder res" where
  "AppendOp (SpanOp byte_offset bs) b = AppendSpan byte_offset bs b"
| "AppendOp (PutOp key v) b = AppendVarPut key v b"
| "AppendOp (DelOp key) b = AppendVarDel key b"
| "AppendOp (ReplaceOp vars) b = AppendVarReplace vars b"

fun op_body :: "WalOp \<Rightarrow> bytes" where
  "op_body (SpanOp byte_offset bs) = WriteLe32 byte_offset @ bs"
| "op_body (PutOp key v) = WriteLe32 (vk_column key) @ WriteLe32 (vk_block key) @ WriteLe32 (of_nat (length v)) @ v"
| "op_body (DelOp key) = WriteLe32 (vk_column key) @ WriteLe32 (vk_block key)"
| "op_body (ReplaceOp vars) = vdata vars"

fun op_type :: "WalOp \<Rightarrow> byte" where
  "op_type (SpanOp byte_offset bs) = kWalRecordSpan"
| "op_type (PutOp key v) = kWalRecordVarPut"
| "op_type (DelOp key) = kWalRecordVarDel"
| "op_type (ReplaceOp vars) = kWalRecordVarReplace"

definition op_bytes :: "WalOp \<Rightarrow> bytes" where
  "op_bytes op = op_type op # WriteLe32 (of_nat (length (op_body op))) @ op_body op"

definition tlv_bytes :: "u64 \<Rightarrow> bytes \<Rightarrow> string option \<Rightarrow> bytes" where
  "tlv_bytes v tag user =
    (if tag = [] then [] else WriteLe16 kWalTlvTag @ WriteLe16 (of_nat (length tag)) @ tag) @
    (if v > 1 then WriteLe16 kWalTlvSchema @ WriteLe16 8 @ WriteLe64 v else []) @
    (case user of None \<Rightarrow> [] | Some u \<Rightarrow> if u = [] then [] else WriteLe16 kWalTlvUser @ WriteLe16 (of_nat (length u)) @ bytes_of_string u)"

definition frame_head :: "u64 \<Rightarrow> u64 \<Rightarrow> u16 \<Rightarrow> bytes \<Rightarrow> nat \<Rightarrow> bytes \<Rightarrow> bytes" where
  "frame_head revision commit_time flags tlvs record_count body =
    WriteLe64 revision @ WriteLe64 commit_time @ WriteLe16 flags @ WriteLe16 (of_nat (length tlvs)) @
    WriteLe32 (of_nat record_count) @ WriteLe32 (of_nat (length body)) @ tlvs"

definition frame_bytes :: "u64 \<Rightarrow> u64 \<Rightarrow> u16 \<Rightarrow> bytes \<Rightarrow> nat \<Rightarrow> bytes \<Rightarrow> bytes" where
  "frame_bytes revision commit_time flags tlvs record_count body =
    (let head = frame_head revision commit_time flags tlvs record_count body in
     kWalFrameMagic @ head @ WriteLe32 (Crc32 head) @ body @ WriteLe32 (Crc32 body))"

section \<open>What the builder writes\<close>

definition building :: "bytes \<Rightarrow> bytes \<Rightarrow> bytes \<Rightarrow> nat \<Rightarrow> bool \<Rightarrow> WalFrameBuilder \<Rightarrow> bool" where
  "building pre tlvs body k gc b \<longleftrightarrow>
    wb_batch b = pre @ replicate kWalFrameFixedHeaderSize 0 @ tlvs @ replicate kWalFrameHeaderCrcSize 0 @ body \<and>
    wb_header_index b = length pre \<and> wb_tlv_size b = of_nat (length tlvs) \<and> length tlvs \<le> 0xFFFF \<and>
    wb_records_begin b = length pre + kWalFrameFixedHeaderSize + length tlvs + kWalFrameHeaderCrcSize \<and>
    wb_frame_flags b = (if gc then kWalFrameGc else 0) \<and> wb_record_count b = k \<and> k \<le> 0xFFFFFFFF \<and> \<not> wb_finished b"

lemma NewWalFrame_building:
  assumes "NewWalFrame pre v tag user gc = Inr b"
  shows "building pre (tlv_bytes v tag user) [] 0 gc b \<and> \<not> wb_has_var_replace b \<and> wb_last_var_key b = None \<and>
    length tag \<le> 0xFFFF \<and> (\<forall>u. user = Some u \<longrightarrow> length u \<le> 0xFFFF)"
proof -
  have l: "length (tlv_bytes v tag user) = (if tag = [] then 0 else kWalTlvHeaderSize + length tag) +
      (if v > 1 then kWalTlvHeaderSize + 8 else 0) +
      (if (case user of Some u \<Rightarrow> length u | None \<Rightarrow> 0) = 0 then 0
       else kWalTlvHeaderSize + (case user of Some u \<Rightarrow> length u | None \<Rightarrow> 0))"
    by (simp add: tlv_bytes_def wal_consts split: option.split)
  show ?thesis
    using assms l by (cases user)
      (auto simp: NewWalFrame_def building_def tlv_bytes_def wal_consts Let_def split: if_splits)
qed

lemma AppendOp_building:
  assumes "AppendOp op b = Inr b'" "building pre tlvs body k gc b"
  shows "building pre tlvs (body @ op_bytes op) (Suc k) gc b' \<and> length (op_body op) \<le> 0xFFFFFFFF"
  using assms
  by (cases op) (auto simp: building_def op_bytes_def AppendSpan_def AppendVarPut_def AppendVarDel_def AppendVarReplace_def
      RequireVarOrder_def BeginRecord_def wal_consts split: if_splits option.splits)

lemma copy_at_append:
  "length old = length new \<Longrightarrow> at = length a \<Longrightarrow> copy_at (a @ old @ c) at new = a @ new @ c"
  by (simp add: copy_at_def)

lemma FinishFrame_bytes:
  assumes "building pre tlvs body k gc b" "FinishFrame revision commit_time b = Inr (sz, b')"
  shows "wb_batch b' = pre @ frame_bytes revision commit_time (if gc then kWalFrameGc else 0) tlvs k body \<and>
    sz = length (frame_bytes revision commit_time (if gc then kWalFrameGc else 0) tlvs k body) \<and>
    k \<noteq> 0 \<and> length body \<le> 0xFFFFFFFF"
proof -
  let ?flags = "if gc then kWalFrameGc else 0"
  let ?fixed = "WriteLe64 revision @ WriteLe64 commit_time @ WriteLe16 ?flags @ WriteLe16 (of_nat (length tlvs)) @
    WriteLe32 (of_nat k) @ WriteLe32 (of_nat (length body))"
  let ?head = "frame_head revision commit_time ?flags tlvs k body"
  have h: "?head = ?fixed @ tlvs" "length kWalFrameMagic = 4" by (simp_all add: frame_head_def kWalFrameMagic_def)
  have b: "\<not> wb_finished b" "k \<noteq> 0" "length body \<le> 0xFFFFFFFF"
    using assms by (auto simp: FinishFrame_def building_def wal_consts Let_def split: if_splits)
  have c1: "copy_at (wb_batch b) (length pre) (kWalFrameMagic @ ?fixed) =
      (pre @ kWalFrameMagic @ ?head) @ replicate 4 0 @ body"
    using assms(1) copy_at_append [of "replicate 32 0" "kWalFrameMagic @ ?fixed" "length pre" pre "tlvs @ replicate 4 0 @ body"]
    by (simp add: building_def h wal_consts)
  have crc: "take (length tlvs + 28) (drop (length pre + 4) ((pre @ kWalFrameMagic @ ?head) @ replicate 4 0 @ body)) = ?head"
    by (simp add: h)
  have le: "map (\<lambda>i. ucast (drop_bit (8 * i) x AND 0xFF)) [0..<4] = WriteLe32 x" for x :: u32
    by (simp add: WriteLe32_le le_bytes_def ucast_and_FF)
  have c2: "copy_at ((pre @ kWalFrameMagic @ ?head) @ replicate 4 0 @ body) (length pre + length tlvs + 32) (WriteLe32 x) =
      (pre @ kWalFrameMagic @ ?head) @ WriteLe32 x @ body" for x
    by (rule copy_at_append) (simp_all add: h)
  have f: "wb_header_index b = length pre" "wb_records_begin b = length pre + length tlvs + 36" "wb_record_count b = k"
      "wb_tlv_size b = of_nat (length tlvs)" "wb_frame_flags b = ?flags" "length (wb_batch b) - (length pre + length tlvs + 36) = length body"
    using assms(1) by (simp_all add: building_def wal_consts)
  have a: "length pre + length tlvs + 36 - 4 = length pre + length tlvs + 32"
      "length pre + length tlvs + 32 - length pre - 4 = length tlvs + 28" by simp_all
  have t: "take (length body) (drop (length pre + length tlvs + 36) ((pre @ kWalFrameMagic @ ?head) @ WriteLe32 x @ body)) = body" for x
    by (simp add: h)
  have n: "\<not> 0xFFFFFFFF < length body" using b(3) by simp
  have "FinishFrame revision commit_time b =
      (let batch = pre @ frame_bytes revision commit_time ?flags tlvs k body in
       Inr (length batch - length pre, b\<lparr>wb_batch := batch, wb_finished := True\<rparr>))"
    unfolding FinishFrame_def Let_def f kWalFrameHeaderCrcSize_def kWalFrameMagicSize_def a c1 crc le c2 t
    using b(1,2) n by (simp add: frame_bytes_def Let_def)
  then show ?thesis using assms(2) b by (auto simp: Let_def)
qed

section \<open>What the parser reads\<close>

lemma frame_fields:
  assumes "w = pre @ frame_bytes revision commit_time flags tlvs k body @ rest"
    and "length tlvs \<le> 0xFFFF" "length body \<le> 0xFFFFFFFF" "k \<le> 0xFFFFFFFF"
  shows "ReadLe64 w (length pre + 4) = revision" "ReadLe64 w (length pre + 12) = commit_time" "ReadLe16 w (length pre + 20) = flags"
    "unat (ReadLe16 w (length pre + 22)) = length tlvs" "unat (ReadLe32 w (length pre + 24)) = k"
    "unat (ReadLe32 w (length pre + 28)) = length body"
proof -
  have m: "length kWalFrameMagic = 4" by (simp add: kWalFrameMagic_def)
  note d = assms(1) frame_bytes_def frame_head_def Let_def m
  show "ReadLe64 w (length pre + 4) = revision" by (rule ReadLe_prefix) (simp add: d)
  show "ReadLe64 w (length pre + 12) = commit_time" by (rule ReadLe_prefix) (simp add: d)
  show "ReadLe16 w (length pre + 20) = flags" by (rule ReadLe_prefix) (simp add: d)
  have "ReadLe16 w (length pre + 22) = of_nat (length tlvs)" by (rule ReadLe_prefix) (simp add: d)
  moreover have "ReadLe32 w (length pre + 24) = of_nat k" by (rule ReadLe_prefix) (simp add: d)
  moreover have "ReadLe32 w (length pre + 28) = of_nat (length body)" by (rule ReadLe_prefix) (simp add: d)
  ultimately show "unat (ReadLe16 w (length pre + 22)) = length tlvs" "unat (ReadLe32 w (length pre + 24)) = k"
    "unat (ReadLe32 w (length pre + 28)) = length body"
    using assms(2-4) by (simp_all add: unat_of_nat_le16 unat_of_nat_le32)
qed

lemma frame_framed:
  assumes "w = pre @ frame_bytes revision commit_time flags tlvs k body @ rest"
    and "length tlvs \<le> 0xFFFF" "length body \<le> 0xFFFFFFFF" "k \<le> 0xFFFFFFFF"
  shows "framed w (length pre)" "frame_end w (length pre) = length pre + length (frame_bytes revision commit_time flags tlvs k body)"
proof -
  have m: "length kWalFrameMagic = 4" by (simp add: kWalFrameMagic_def)
  let ?head = "frame_head revision commit_time flags tlvs k body"
  note d = assms(1) frame_bytes_def Let_def m
  have h: "length ?head = 28 + length tlvs" by (simp add: frame_head_def)
  note f = frame_fields [OF assms]
  show e: "frame_end w (length pre) = length pre + length (frame_bytes revision commit_time flags tlvs k body)"
    unfolding frame_end_def f by (simp add: frame_bytes_def Let_def m h wal_consts)
  have "ReadLe32 w (length pre + 32 + length tlvs) = Crc32 ?head"
    by (rule ReadLe_prefix(2) [where r = "body @ WriteLe32 (Crc32 body) @ rest"]) (simp add: d h)
  moreover have "ReadLe32 w (length pre + (36 + length tlvs) + length body) = Crc32 body"
    by (rule ReadLe_prefix(2) [where r = rest]) (simp add: d h)
  moreover have "take 4 (drop (length pre) w) = kWalFrameMagic" by (simp add: d)
  moreover have "take (28 + length tlvs) (drop (length pre + 4) w) = ?head" by (simp add: d h)
  moreover have "take (length body) (drop (length pre + (36 + length tlvs)) w) = body" by (simp add: d h)
  moreover have "frame_end w (length pre) \<le> length w" unfolding e by (simp add: assms(1))
  ultimately show "framed w (length pre)"
    unfolding framed_def Let_def f wal_consts by (simp add: add.commute add.left_commute)
qed

lemma drop_advance: "drop at w = a @ r \<Longrightarrow> drop (at + length a) w = r"
  by (metis add.commute append_eq_conv_conj drop_drop)

lemma ParseTlvs_entry:
  assumes "drop at w = e @ r" "e = WriteLe16 ty @ WriteLe16 (of_nat (length x)) @ x" "length x \<le> 0xFFFF" "at + length e \<le> crc_pos"
  shows "ParseTlvs w crc_pos skip slots at t =
    rbind (ParseTlv w skip slots ty at (length x) t) (ParseTlvs w crc_pos skip slots (at + length e))"
proof -
  have d: "drop at w = WriteLe16 ty @ WriteLe16 (of_nat (length x)) @ x @ r" using assms(1,2) by simp
  have t: "ReadLe16 w at = ty" using d by (rule ReadLe_prefix(1))
  have "drop (at + 2) w = WriteLe16 (of_nat (length x)) @ x @ r" using drop_advance [OF d] by simp
  then have "unat (ReadLe16 w (at + 2)) = length x" using ReadLe_prefix(1) assms(3) by (simp add: unat_of_nat_le16)
  moreover have "at < crc_pos" "\<not> crc_pos - at < 4" "\<not> crc_pos - at - 4 < length x" "length e = 4 + length x"
    using assms(2,4) by auto
  ultimately show ?thesis
    using t unfolding ParseTlvs.simps [of w crc_pos skip slots at t] Let_def wal_consts by simp
qed

lemma ParseTlvs_end: "ParseTlvs w at skip slots at t = Inr t"
  by (simp add: ParseTlvs.simps)

definition no_tlvs :: FrameTlvs where
  "no_tlvs = \<lparr>have_tag = False, have_schema = False, have_user = False, tl_schema_version = 1, tl_user = None\<rparr>"

definition user_of :: "string option \<Rightarrow> string option" where
  "user_of user = (case user of Some u \<Rightarrow> if u = [] then None else Some u | None \<Rightarrow> None)"

lemma ParseTlvs_written:
  assumes "drop at w = tlv_bytes v tag user @ r" "length tag \<le> 0xFFFF" "\<forall>u. user = Some u \<longrightarrow> length u \<le> 0xFFFF"
    and "user_of user = None \<or> slots" "v \<noteq> 0"
  shows "ParseTlvs w (at + length (tlv_bytes v tag user)) skip slots at no_tlvs =
    Inr \<lparr>have_tag = (tag \<noteq> []), have_schema = (v > 1), have_user = (user_of user \<noteq> None), tl_schema_version = v,
      tl_user = user_of user\<rparr>"
proof -
  define a where "a = (if tag = [] then [] else WriteLe16 kWalTlvTag @ WriteLe16 (of_nat (length tag)) @ tag)"
  define b where "b = (if v > 1 then WriteLe16 kWalTlvSchema @ WriteLe16 8 @ WriteLe64 v else [])"
  define c where "c = (case user_of user of None \<Rightarrow> []
    | Some u \<Rightarrow> WriteLe16 kWalTlvUser @ WriteLe16 (of_nat (length u)) @ bytes_of_string u)"
  have t: "tlv_bytes v tag user = a @ b @ c" by (simp add: tlv_bytes_def a_def b_def c_def user_of_def split: option.split)
  define crc where "crc = at + length (a @ b @ c)"
  have da: "drop at w = a @ b @ c @ r" using assms(1) by (simp add: t)
  have db: "drop (at + length a) w = b @ c @ r" by (rule drop_advance [OF da])
  have dc: "drop (at + length a + length b) w = c @ r" by (rule drop_advance [OF db])
  have pa: "ParseTlvs w crc skip slots at no_tlvs =
      ParseTlvs w crc skip slots (at + length a) (no_tlvs\<lparr>have_tag := tag \<noteq> []\<rparr>)"
    using ParseTlvs_entry [OF da, of kWalTlvTag tag crc skip slots no_tlvs] assms(2)
    by (cases "tag = []") (simp_all add: a_def crc_def ParseTlv_def no_tlvs_def)
  have v1: "v = 1" if "\<not> v > 1" using that assms(5) word_one_least [of v] by auto
  have pb: "ParseTlvs w crc skip slots (at + length a) s =
      ParseTlvs w crc skip slots (at + length a + length b) (s\<lparr>have_schema := v > 1, tl_schema_version := v\<rparr>)"
    if "\<not> have_schema s" "tl_schema_version s = 1" for s
  proof (cases "v > 1")
    case True
    then have b: "b = WriteLe16 kWalTlvSchema @ WriteLe16 (of_nat (length (WriteLe64 v))) @ WriteLe64 v" by (simp add: b_def)
    have "drop (at + length a + 4) w = WriteLe64 v @ c @ r"
      using drop_advance [of "at + length a" w "WriteLe16 kWalTlvSchema @ WriteLe16 8"] db b by simp
    then have "ReadLe64 w (at + length a + 4) = v" by (rule ReadLe_prefix(3))
    then have "ParseTlv w skip slots kWalTlvSchema (at + length a) (length (WriteLe64 v)) s =
        Inr (s\<lparr>have_schema := v > 1, tl_schema_version := v\<rparr>)"
      using that True by (simp add: ParseTlv_def wal_consts)
    then show ?thesis
      using ParseTlvs_entry [OF db b, of crc skip slots s] by (simp add: crc_def)
  qed (use that v1 in \<open>cases s, simp add: b_def\<close>)
  have pc: "ParseTlvs w crc skip slots (at + length a + length b) s =
      Inr (s\<lparr>have_user := user_of user \<noteq> None, tl_user := user_of user\<rparr>)" if "\<not> have_user s" "tl_user s = None" for s
  proof (cases "user_of user")
    case None
    then show ?thesis using that ParseTlvs_end [of w crc] by (cases s) (simp add: c_def crc_def add.assoc)
  next
    case (Some u)
    then have u: "user = Some u" "u \<noteq> []" by (auto simp: user_of_def split: option.splits if_splits)
    have c: "c = WriteLe16 kWalTlvUser @ WriteLe16 (of_nat (length (bytes_of_string u))) @ bytes_of_string u"
      using Some by (simp add: c_def)
    have "drop (at + length a + length b + 4) w = bytes_of_string u @ r"
      using drop_advance [of "at + length a + length b" w "WriteLe16 kWalTlvUser @ WriteLe16 (of_nat (length u))"] dc c by simp
    then have "ParseTlv w skip slots kWalTlvUser (at + length a + length b) (length (bytes_of_string u)) s =
        Inr (s\<lparr>have_user := user_of user \<noteq> None, tl_user := user_of user\<rparr>)"
      using that assms(4) u Some by (simp add: ParseTlv_def wal_consts)
    then show ?thesis
      using ParseTlvs_entry [OF dc c, of crc skip slots s] ParseTlvs_end [of w crc skip slots] assms(3) u
      by (simp add: crc_def add.assoc)
  qed
  show ?thesis
    using pa pb pc by (simp add: t crc_def no_tlvs_def)
qed

section \<open>Records\<close>

fun op_span :: "WalOp \<Rightarrow> (nat \<times> bytes) list" where
  "op_span (SpanOp byte_offset bs) = [(unat byte_offset, bs)]"
| "op_span _ = []"

fun op_change :: "WalOp \<Rightarrow> VarChange list" where
  "op_change (PutOp key v) = [\<lparr>vc_key = key, vc_value = Some v\<rparr>]"
| "op_change (DelOp key) = [\<lparr>vc_key = key, vc_value = None\<rparr>]"
| "op_change _ = []"

fun op_replace :: "WalOp \<Rightarrow> ChunkVars list" where
  "op_replace (ReplaceOp vars) = [vars]"
| "op_replace _ = []"

text \<open>The operations a table of the given shape takes.\<close>

fun op_ok :: "FrameShape \<Rightarrow> WalOp \<Rightarrow> bool" where
  "op_ok shape (SpanOp byte_offset bs) \<longleftrightarrow> unat byte_offset + length bs \<le> state_size shape \<and>
     SpanShapeValid (unat byte_offset) (unat byte_offset + length bs) (payload_boundary shape) (state_size shape)"
| "op_ok shape (PutOp key v) \<longleftrightarrow> vars_enabled shape \<and> unat (vk_block key) < fs_block_count shape"
| "op_ok shape (DelOp key) \<longleftrightarrow> vars_enabled shape \<and> unat (vk_block key) < fs_block_count shape"
| "op_ok shape (ReplaceOp vars) \<longleftrightarrow> vars_enabled shape \<and> Decode (vdata vars) (fs_block_count shape) = Inr vars"

definition spans_read :: "bytes \<Rightarrow> ParsedFrame \<Rightarrow> (nat \<times> bytes) list" where
  "spans_read w f = map (\<lambda>s. (sp_offset s, span_bytes w s)) (pf_spans f)"

definition changes_read :: "bytes \<Rightarrow> ParsedFrame \<Rightarrow> VarChange list" where
  "changes_read w f = map (var_change w) (pf_var_ops f)"

definition replace_read :: "ParsedFrame \<Rightarrow> ChunkVars list" where
  "replace_read f = (case pf_var_replace f of None \<Rightarrow> [] | Some vars \<Rightarrow> [vars])"

definition linked :: "WalFrameBuilder \<Rightarrow> ParsedFrame \<Rightarrow> bool" where
  "linked b f \<longleftrightarrow> (wb_has_var_replace b \<longleftrightarrow> pf_var_replace f \<noteq> None) \<and>
    wb_last_var_key b = (if pf_var_ops f = [] then None else Some (pv_key (last (pf_var_ops f))))"

definition read_more :: "bytes \<Rightarrow> ParsedFrame \<Rightarrow> WalOp list \<Rightarrow> ParsedFrame \<Rightarrow> bool" where
  "read_more w f ops f' \<longleftrightarrow> spans_read w f' = spans_read w f @ concat (map op_span ops) \<and>
    changes_read w f' = changes_read w f @ concat (map op_change ops) \<and>
    replace_read f' = replace_read f @ concat (map op_replace ops) \<and> frame_meta f' = frame_meta f"

lemma ParseRecord_span:
  assumes "AppendSpan off bs b = Inr b'" "drop at w = WriteLe32 off @ bs @ r" "linked b f" "op_ok shape (SpanOp off bs)"
  shows "\<exists>f'. ParseRecord w shape kWalRecordSpan at (of_nat (4 + length bs)) f = Inr f' \<and> linked b' f' \<and>
    spans_read w f' = spans_read w f @ [(unat off, bs)] \<and> pf_var_ops f' = pf_var_ops f \<and> pf_var_replace f' = pf_var_replace f"
proof -
  have l: "bs \<noteq> []" "4 + length bs \<le> 0xFFFFFFFF" using assms(1) by (auto simp: AppendSpan_def wal_consts split: if_splits)
  have n: "unat (of_nat (4 + length bs) :: u32) = 4 + length bs" "bs \<noteq> []"
    using l by (simp_all only: unat_of_nat_le32 not_False_eq_True)
  have o: "ReadLe32 w at = off" using assms(2) by (rule ReadLe_prefix(2))
  have d: "drop (at + 4) w = bs @ r" using drop_advance [OF assms(2)] by simp
  have k: "wb_has_var_replace b' = wb_has_var_replace b" "wb_last_var_key b' = wb_last_var_key b"
    using assms(1) by (auto simp: AppendSpan_def split: if_splits)
  show ?thesis
    unfolding ParseRecord_def Let_def n(1) o using assms(3,4) n(2) d k
    by (auto simp: wal_consts linked_def spans_read_def span_bytes_def)
qed

lemma ParseRecord_var:
  assumes "AppendOp op b = Inr b'" "drop at w = op_body op @ r" "linked b f" "op_ok shape op"
    and "op = PutOp key v \<or> op = DelOp key" "length (op_body op) \<le> 0xFFFFFFFF"
  shows "\<exists>f'. ParseRecord w shape (op_type op) at (of_nat (length (op_body op))) f = Inr f' \<and> linked b' f' \<and>
    changes_read w f' = changes_read w f @ op_change op \<and> pf_spans f' = pf_spans f \<and> pf_var_replace f' = pf_var_replace f"
proof -
  have n: "unat (of_nat (length (op_body op)) :: u32) = length (op_body op)" using assms(6) by (rule unat_of_nat_le32)
  obtain r' where d: "drop at w = WriteLe32 (vk_column key) @ WriteLe32 (vk_block key) @ r'" using assms(2,5) by auto
  have k: "ReadLe32 w at = vk_column key" "ReadLe32 w (at + 4) = vk_block key"
    using ReadLe_prefix(2) [OF d] ReadLe_prefix(2) [of "at + 4" w "vk_block key" r'] drop_advance [OF d] by simp_all
  have o: "pf_var_replace f = None" "pf_var_ops f = [] \<or> pv_key (last (pf_var_ops f)) < key" "wb_last_var_key b' = Some key"
      "wb_has_var_replace b' = wb_has_var_replace b"
    using assms(1,3,5) by (auto simp: linked_def AppendVarPut_def AppendVarDel_def RequireVarOrder_def BeginRecord_def
        split: if_splits option.splits)
  note p = ParseRecord_def ParseVarRecord_def Let_def wal_consts
  from assms(5) show ?thesis
  proof
    assume op: "op = PutOp key v"
    have l: "length v \<le> 0xFFFFFFFF" using assms(6) op by simp
    have d12: "drop (at + 8) w = WriteLe32 (of_nat (length v)) @ v @ r" "drop (at + 12) w = v @ r"
      using drop_advance [of at w "WriteLe32 (vk_column key) @ WriteLe32 (vk_block key)"]
        drop_advance [of at w "WriteLe32 (vk_column key) @ WriteLe32 (vk_block key) @ WriteLe32 (of_nat (length v))"] assms(2) op by simp_all
    have v: "ReadLe32 w (at + 8) = of_nat (length v)" using d12(1) by (rule ReadLe_prefix(2))
    show ?thesis
      using assms(3,4) n o d12 l unfolding op op_body.simps op_type.simps
      by (auto simp: p k v linked_def changes_read_def var_change_def value_of_def unat_of_nat_le32)
  next
    assume op: "op = DelOp key"
    show ?thesis
      using assms(3,4) n o unfolding op op_body.simps op_type.simps
      by (auto simp: p k linked_def changes_read_def var_change_def)
  qed
qed

lemma ParseRecord_written:
  assumes "AppendOp op b = Inr b'" "drop at w = op_body op @ r" "linked b f" "op_ok shape op" "length (op_body op) \<le> 0xFFFFFFFF"
  shows "\<exists>f'. ParseRecord w shape (op_type op) at (of_nat (length (op_body op))) f = Inr f' \<and> linked b' f' \<and> read_more w f [op] f'"
proof -
  consider (span) off bs where "op = SpanOp off bs" | (var) key v where "op = PutOp key v \<or> op = DelOp key"
    | (replace) vars where "op = ReplaceOp vars" by (cases op) auto
  then show ?thesis
  proof cases
    case span
    then show ?thesis
      using ParseRecord_span [of off bs b b' at w r f shape] assms
      by (auto simp: read_more_def changes_read_def replace_read_def dest: ParseRecord_meta)
  next
    case var
    then show ?thesis
      using ParseRecord_var [OF assms(1-4) var assms(5)]
      by (auto simp: read_more_def spans_read_def replace_read_def dest: ParseRecord_meta)
  next
    case replace
    have n: "unat (of_nat (length (vdata vars)) :: u32) = length (vdata vars)"
      using assms(5) replace by (simp add: unat_of_nat_le32)
    have o: "pf_var_replace f = None" "pf_var_ops f = []" "wb_has_var_replace b'" "wb_last_var_key b' = None"
      using assms(1,3) replace by (auto simp: linked_def AppendVarReplace_def BeginRecord_def split: if_splits)
    have "Decode (take (length (vdata vars)) (drop at w)) (fs_block_count shape) = Inr vars"
      using assms(2,4) replace by simp
    then show ?thesis
      using assms(4) o n replace
      by (auto simp: ParseRecord_def ParseVarRecord_def Let_def wal_consts linked_def read_more_def spans_read_def changes_read_def
          replace_read_def frame_meta_def)
  qed
qed

lemma read_more_trans: "read_more w f xs f1 \<Longrightarrow> read_more w f1 ys f2 \<Longrightarrow> read_more w f (xs @ ys) f2"
  by (simp add: read_more_def)

lemma ParseRecords_op:
  assumes "drop at w = op_bytes op @ r" "length (op_body op) \<le> 0xFFFFFFFF" "e = at + length (op_bytes op) + n"
  shows "drop (at + 5) w = op_body op @ r" "drop (at + length (op_bytes op)) w = r"
    "ParseRecords w e shape (Suc k) at f =
      rbind (ParseRecord w shape (op_type op) (at + 5) (of_nat (length (op_body op))) f)
        (ParseRecords w e shape k (at + length (op_bytes op)))"
proof -
  let ?n = "length (op_body op)"
  have d: "drop at w = op_type op # WriteLe32 (of_nat ?n) @ op_body op @ r" using assms(1) by (simp add: op_bytes_def)
  have d1: "drop (at + 1) w = WriteLe32 (of_nat ?n) @ op_body op @ r"
    using drop_advance [of at w "[op_type op]"] d by simp
  show "drop (at + 5) w = op_body op @ r" using drop_advance [OF d1] by (simp add: add.commute)
  show "drop (at + length (op_bytes op)) w = r" by (rule drop_advance [OF assms(1)])
  have "w ! at = op_type op" using d by (metis nth_via_drop)
  moreover have "ReadLe32 w (at + 1) = of_nat ?n" using d1 by (rule ReadLe_prefix(2))
  moreover have "unat (of_nat ?n :: u32) = ?n" by (rule unat_of_nat_le32 [OF assms(2)])
  moreover have "length (op_bytes op) = 5 + ?n" by (simp add: op_bytes_def)
  ultimately show "ParseRecords w e shape (Suc k) at f =
      rbind (ParseRecord w shape (op_type op) (at + 5) (of_nat ?n) f) (ParseRecords w e shape k (at + length (op_bytes op)))"
    using assms(3) by (simp add: Let_def kWalRecordHeaderSize_def add.assoc)
qed

lemma ParseRecords_written:
  assumes "rfold AppendOp ops b = Inr b'" "drop at w = concat (map op_bytes ops) @ r" "linked b f"
    and "\<forall>op \<in> set ops. op_ok shape op" "building pre tlvs body k gc b"
  shows "\<exists>f'. ParseRecords w (at + length (concat (map op_bytes ops))) shape (length ops) at f =
      Inr (at + length (concat (map op_bytes ops)), f') \<and> read_more w f ops f'"
  using assms
proof (induction ops arbitrary: b at f body k)
  case Nil
  then show ?case by (simp add: read_more_def)
next
  case (Cons op ops)
  let ?e = "at + length (concat (map op_bytes (op # ops)))"
  obtain b1 where b1: "AppendOp op b = Inr b1" "rfold AppendOp ops b1 = Inr b'" using Cons.prems(1) by auto
  have b1': "building pre tlvs (body @ op_bytes op) (Suc k) gc b1" "length (op_body op) \<le> 0xFFFFFFFF"
    using AppendOp_building [OF b1(1) Cons.prems(5)] by auto
  have d: "drop at w = op_bytes op @ concat (map op_bytes ops) @ r" using Cons.prems(2) by simp
  note step = ParseRecords_op [OF d b1'(2), of ?e "length (concat (map op_bytes ops))"]
  obtain f1 where f1: "ParseRecord w shape (op_type op) (at + 5) (of_nat (length (op_body op))) f = Inr f1" "linked b1 f1"
      "read_more w f [op] f1"
    using ParseRecord_written [OF b1(1) step(1) Cons.prems(3) _ b1'(2)] Cons.prems(4) by auto
  obtain f2 where "ParseRecords w ?e shape (length ops) (at + length (op_bytes op)) f1 = Inr (?e, f2)" "read_more w f1 ops f2"
    using Cons.IH [OF b1(2) step(2) f1(2) _ b1'(1)] Cons.prems(4) by (auto simp: add.assoc)
  then show ?case using f1 step(3) read_more_trans [OF f1(3)] by (intro exI [of _ f2]) (simp add: add.assoc)
qed

text \<open>An operation the table does not take is written all the same, and refused by the parser.\<close>

lemma ParseRecord_refused:
  assumes "AppendOp op b = Inr b'" "drop at w = op_body op @ r" "linked b f" "\<not> op_ok shape op" "length (op_body op) \<le> 0xFFFFFFFF"
    and "\<forall>vars. op = ReplaceOp vars \<longrightarrow> vars_ok vars"
  shows "\<exists>reason. ParseRecord w shape (op_type op) at (of_nat (length (op_body op))) f = Inl reason"
proof (cases op)
  case (SpanOp off bs)
  then have n: "unat (of_nat (4 + length bs) :: u32) = 4 + length bs" using assms(5) by (intro unat_of_nat_le32) simp
  have o: "ReadLe32 w at = off" using assms(2) SpanOp by (auto intro: ReadLe_prefix(2))
  show ?thesis
    unfolding SpanOp op_type.simps op_body.simps length_append length_WriteLe ParseRecord_def Let_def n o
    using assms(4) SpanOp by (auto simp: wal_consts)
next
  case (PutOp key v)
  then obtain r' where "drop at w = WriteLe32 (vk_column key) @ WriteLe32 (vk_block key) @ r'" using assms(2) by auto
  note d = this and d4 = drop_advance [OF this]
  have "ReadLe32 w at = vk_column key" "ReadLe32 w (at + 4) = vk_block key"
    using ReadLe_prefix(2) [OF d] ReadLe_prefix(2) [of "at + 4" w "vk_block key" r'] d4 by simp_all
  then show ?thesis using assms(4) PutOp by (auto simp: ParseRecord_def ParseVarRecord_def Let_def wal_consts)
next
  case (DelOp key)
  then have d: "drop at w = WriteLe32 (vk_column key) @ WriteLe32 (vk_block key) @ r" using assms(2) by simp
  have "ReadLe32 w at = vk_column key" "ReadLe32 w (at + 4) = vk_block key"
    using ReadLe_prefix(2) [OF d] ReadLe_prefix(2) [of "at + 4" w "vk_block key" r] drop_advance [OF d] by simp_all
  then show ?thesis using assms(4) DelOp by (auto simp: ParseRecord_def ParseVarRecord_def Let_def wal_consts)
next
  case (ReplaceOp vars)
  have n: "unat (of_nat (length (vdata vars)) :: u32) = length (vdata vars)"
    using assms(5) ReplaceOp by (intro unat_of_nat_le32) simp
  have "Decode (vdata vars) (fs_block_count shape) \<noteq> Inr w" if "vars_enabled shape" for w
  proof (cases "length (vdata vars) \<le> kVarMaxChunkBytesLimit")
    case True
    then show ?thesis using Decode_vdata(1) [of vars] assms(4,6) ReplaceOp that by auto
  qed (simp add: Decode_def)
  then have "vars_enabled shape \<Longrightarrow> \<exists>e. Decode (vdata vars) (fs_block_count shape) = Inl e"
    by (cases "Decode (vdata vars) (fs_block_count shape)") auto
  then show ?thesis
    using assms(2) ReplaceOp n by (auto simp: ParseRecord_def ParseVarRecord_def Let_def wal_consts)
qed

lemma ParseRecords_refused:
  assumes "rfold AppendOp ops b = Inr b'" "drop at w = concat (map op_bytes ops) @ r" "linked b f"
    and "\<exists>op \<in> set ops. \<not> op_ok shape op" "building pre tlvs body k gc b" "\<forall>vars. ReplaceOp vars \<in> set ops \<longrightarrow> vars_ok vars"
  shows "\<exists>reason. ParseRecords w (at + length (concat (map op_bytes ops))) shape (length ops) at f = Inl reason"
  using assms
proof (induction ops arbitrary: b at f body k)
  case (Cons op ops)
  let ?e = "at + length (concat (map op_bytes (op # ops)))"
  obtain b1 where b1: "AppendOp op b = Inr b1" "rfold AppendOp ops b1 = Inr b'" using Cons.prems(1) by auto
  have b1': "building pre tlvs (body @ op_bytes op) (Suc k) gc b1" "length (op_body op) \<le> 0xFFFFFFFF"
    using AppendOp_building [OF b1(1) Cons.prems(5)] by auto
  have d: "drop at w = op_bytes op @ concat (map op_bytes ops) @ r" using Cons.prems(2) by simp
  note step = ParseRecords_op [OF d b1'(2), of ?e "length (concat (map op_bytes ops))"]
  show ?case
  proof (cases "op_ok shape op")
    case True
    then obtain f1 where f1: "ParseRecord w shape (op_type op) (at + 5) (of_nat (length (op_body op))) f = Inr f1" "linked b1 f1"
      using ParseRecord_written [OF b1(1) step(1) Cons.prems(3) _ b1'(2)] by auto
    have "\<exists>reason. ParseRecords w ?e shape (length ops) (at + length (op_bytes op)) f1 = Inl reason"
      using Cons.IH [OF b1(2) step(2) f1(2) _ b1'(1)] Cons.prems(4,6) True by (auto simp: add.assoc)
    then show ?thesis using f1(1) step(3) by (simp add: add.assoc)
  next
    case False
    then show ?thesis
      using ParseRecord_refused [OF b1(1) step(1) Cons.prems(3) False b1'(2)] step(3) Cons.prems(6) by (auto simp: add.assoc)
  qed
qed simp

lemma AppendOps_building:
  assumes "rfold AppendOp ops b = Inr b'" "building pre tlvs body k gc b"
  shows "building pre tlvs (body @ concat (map op_bytes ops)) (k + length ops) gc b'"
  using assms
proof (induction ops arbitrary: b body k)
  case (Cons op ops)
  then obtain b1 where b1: "AppendOp op b = Inr b1" "rfold AppendOp ops b1 = Inr b'" by auto
  show ?case using Cons.IH [OF b1(2)] AppendOp_building [OF b1(1) Cons.prems(2)] by fastforce
qed simp

section \<open>Round trip\<close>

definition empty_frame :: "u64 \<Rightarrow> u64 \<Rightarrow> u64 \<Rightarrow> string option \<Rightarrow> nat \<Rightarrow> nat \<Rightarrow> ParsedFrame" where
  "empty_frame revision v commit_time user sz k = \<lparr>pf_revision = revision, pf_schema_version = v, pf_commit_time_ms = commit_time,
     pf_user = user, pf_gc = False, pf_size = sz, pf_spans = [], pf_var_ops = [], pf_var_replace = None, pf_record_count = k\<rparr>"

lemma ParseFrame_stopped:
  "framed w c \<Longrightarrow> ParseFrameBody w c g skip slots = Inr (Inl reason) \<Longrightarrow>
    ParseFrame w c g skip slots = Inr (Inl \<lparr>stop_reason = reason, reaches_end = (length w \<le> frame_end w c), intact = True\<rparr>)"
  by (auto simp: ParseFrame_def framed_def frame_end_def Let_def wal_consts)

definition records_outcome :: "bytes \<Rightarrow> nat \<Rightarrow> WalOp list \<Rightarrow> FrameShape \<Rightarrow> ParsedFrame \<Rightarrow> bool \<Rightarrow> frame_stop + ParsedFrame" where
  "records_outcome w at ops shape f0 reaches =
    (let records_end = at + length (concat (map op_bytes ops)) in
     case ParseRecords w records_end shape (length ops) at f0 of
       Inl reason \<Rightarrow> Inl \<lparr>stop_reason = reason, reaches_end = reaches, intact = True\<rparr>
     | Inr (e, f) \<Rightarrow> if e \<noteq> records_end
         then Inl \<lparr>stop_reason = ''frame_body_size_mismatch'', reaches_end = reaches, intact = True\<rparr> else Inr f)"

text \<open>The frame of a mutation as a whole: its bytes, and parsing it by its records.\<close>

lemma written_frame_records:
  assumes new: "NewWalFrame pre v tag user False = Inr b0" and ops: "rfold AppendOp ops b0 = Inr b1"
    and fin: "FinishFrame revision commit_time b1 = Inr (sz, b)"
    and v: "v \<noteq> 0" "v \<le> version (cl_schema (g_layout g))" "layout_at g v = Inr l"
    and user: "user_of user = None \<or> slots"
  obtains frame at r where "wb_batch b = pre @ frame" "length frame = sz"
    "drop at (pre @ frame @ rest) = concat (map op_bytes ops) @ r"
    "linked b0 (empty_frame revision v commit_time (user_of user) sz (length ops))" "building pre (tlv_bytes v tag user) [] 0 False b0"
    "ParseFrame (pre @ frame @ rest) (length pre) g skip slots = Inr (records_outcome (pre @ frame @ rest) at ops
       (frame_shape g skip l) (empty_frame revision v commit_time (user_of user) sz (length ops)) (rest = []))"
proof -
  let ?tlvs = "tlv_bytes v tag user" and ?body = "concat (map op_bytes ops)"
  let ?frame = "frame_bytes revision commit_time 0 ?tlvs (length ops) ?body"
  let ?w = "pre @ ?frame @ rest" and ?c = "length pre"
  note n = NewWalFrame_building [OF new]
  have bu: "building pre ?tlvs ?body (length ops) False b1" using AppendOps_building [OF ops] n by fastforce
  have fb: "wb_batch b = pre @ ?frame" "sz = length ?frame" "length ops \<noteq> 0" "length ?body \<le> 0xFFFFFFFF"
    using FinishFrame_bytes [OF bu fin] by simp_all
  have lim: "length ?tlvs \<le> 0xFFFF" "length ops \<le> 0xFFFFFFFF" using bu by (auto simp: building_def)
  note fields = frame_fields [OF refl lim(1) fb(4) lim(2), of pre revision commit_time 0 rest]
  have fr: "framed ?w ?c" "frame_end ?w ?c = ?c + length ?frame"
    using frame_framed [OF refl lim(1) fb(4) lim(2)] by blast+
  have m: "length kWalFrameMagic = 4" by (simp add: kWalFrameMagic_def)
  have dt: "drop (?c + 32) ?w = ?tlvs @ WriteLe32 (Crc32 (frame_head revision commit_time 0 ?tlvs (length ops) ?body)) @ ?body @
      WriteLe32 (Crc32 ?body) @ rest" by (simp add: frame_bytes_def frame_head_def Let_def m)
  have db: "drop (?c + 32 + length ?tlvs + 4) ?w = ?body @ WriteLe32 (Crc32 ?body) @ rest"
    using drop_advance [OF drop_advance [OF dt]] by simp
  have t: "ParseTlvs ?w (?c + 32 + length ?tlvs) skip slots (?c + 32) no_tlvs =
      Inr \<lparr>have_tag = (tag \<noteq> []), have_schema = (v > 1), have_user = (user_of user \<noteq> None), tl_schema_version = v,
        tl_user = user_of user\<rparr>"
    by (rule ParseTlvs_written [OF dt]) (use n user v in auto)
  let ?f0 = "empty_frame revision v commit_time (user_of user) sz (length ops)" and ?at = "?c + 32 + length ?tlvs + 4"
  have lk: "linked b0 ?f0" using n by (simp add: linked_def empty_frame_def)
  have sz: "?at + length ?body + 4 - ?c = sz" using fr(2) fb(2) unfolding frame_end_def fields wal_consts by simp
  let ?p = "ParseRecords ?w (?at + length ?body) (frame_shape g skip l) (length ops) ?at ?f0"
  have gc: "\<not> pf_gc f" if "?p = Inr (e, f)" for e f
    using ParseRecords_meta [OF that] by (simp add: frame_meta_def empty_frame_def)
  have body: "ParseFrameBody ?w ?c g skip slots = Inr (rbind ?p (\<lambda>(e, f).
      if e \<noteq> ?at + length ?body then Inl ''frame_body_size_mismatch'' else Inr f))"
    unfolding ParseFrameBody_def Let_def fields kWalFrameFixedHeaderSize_def kWalFrameHeaderCrcSize_def kWalFrameTrailerSize_def
      no_tlvs_def [symmetric] ParseFrameRecords_def
    using t sz gc v fb(3) by (cases ?p) (auto simp: empty_frame_def not_less)
  have le: "length ?w \<le> frame_end ?w ?c \<longleftrightarrow> rest = []" using fr(2) by simp
  have "ParseFrame ?w ?c g skip slots = Inr (records_outcome ?w ?at ops (frame_shape g skip l) ?f0 (rest = []))"
  proof (cases "rbind ?p (\<lambda>(e, f). if e \<noteq> ?at + length ?body then Inl ''frame_body_size_mismatch'' else Inr f)")
    case (Inl reason)
    then have "ParseFrame ?w ?c g skip slots = Inr (Inl \<lparr>stop_reason = reason, reaches_end = (rest = []), intact = True\<rparr>)"
      using ParseFrame_stopped [OF fr(1), of g skip slots reason, unfolded le] body by simp
    then show ?thesis
      using Inl by (auto simp: records_outcome_def Let_def rbind_eq_Inl_iff split: if_splits)
  next
    case (Inr f)
    then have "ParseFrame ?w ?c g skip slots = Inr (Inr f)" using fr(1) body by (simp add: ParseFrame_framed)
    then show ?thesis using Inr by (auto simp: records_outcome_def Let_def)
  qed
  then show thesis using that [OF fb(1) fb(2) [symmetric] db lk] n by blast
qed

lemma written_frame:
  assumes new: "NewWalFrame pre v tag user False = Inr b0" and ops: "rfold AppendOp ops b0 = Inr b1"
    and fin: "FinishFrame revision commit_time b1 = Inr (sz, b)"
    and v: "v \<noteq> 0" "v \<le> version (cl_schema (g_layout g))" "layout_at g v = Inr l"
    and ok: "\<forall>op \<in> set ops. op_ok (frame_shape g skip l) op" and user: "user_of user = None \<or> slots"
  obtains frame f where "wb_batch b = pre @ frame" "length frame = sz"
    "ParseFrame (pre @ frame @ rest) (length pre) g skip slots = Inr (Inr f)"
    "read_more (pre @ frame @ rest) (empty_frame revision v commit_time (user_of user) sz (length ops)) ops f"
proof -
  obtain frame at r where f: "wb_batch b = pre @ frame" "length frame = sz"
    "drop at (pre @ frame @ rest) = concat (map op_bytes ops) @ r"
    "linked b0 (empty_frame revision v commit_time (user_of user) sz (length ops))" "building pre (tlv_bytes v tag user) [] 0 False b0"
    "ParseFrame (pre @ frame @ rest) (length pre) g skip slots = Inr (records_outcome (pre @ frame @ rest) at ops
       (frame_shape g skip l) (empty_frame revision v commit_time (user_of user) sz (length ops)) (rest = []))"
    by (rule written_frame_records [OF new ops fin v user, where rest = rest and skip = skip])
  show thesis using that [OF f(1,2)] ParseRecords_written [OF ops f(3,4) ok f(5)] f(6) by (auto simp: records_outcome_def)
qed

text \<open>
  Claim C4. A frame written by \<open>WalFrameBuilder\<close> is read back by \<open>ParseFrame\<close>, or refused for what was
  written into it.  After the calls of the constructor (with no collection flag, for a schema version of
  the table, and with a user only where the store has write slots), of any sequence of append operations
  that the builder accepts (a replacement being a well-formed section) and of \<open>Finish\<close>, the batch is the old batch followed by the frame.  If the table
  takes every operation (\<open>op_ok\<close>: a span within the state that does not straddle payload and presence, a
  value only in a table with text or bytes columns and for a block of the chunk, a replacement within the size
  limit), the parser finds at its start
  the revision, commit time, schema version and user, the spans with their offsets and bytes, the changed values in key
  order and the replacement of all values, whatever bytes follow the frame.  The builder does not check
  this; if the table does not take some operation, the parser stops at the frame, and reports it as intact.
\<close>

theorem wal_frame_round_trip:
  assumes "NewWalFrame pre v tag user False = Inr b0" "rfold AppendOp ops b0 = Inr b1"
    "FinishFrame revision commit_time b1 = Inr (sz, b)"
    "v \<noteq> 0" "v \<le> version (cl_schema (g_layout g))" "layout_at g v = Inr l"
    "user_of user = None \<or> slots" "\<forall>vars. ReplaceOp vars \<in> set ops \<longrightarrow> vars_ok vars"
  shows "take (length pre) (wb_batch b) = pre \<and> length (wb_batch b) = length pre + sz \<and>
    (if \<forall>op \<in> set ops. op_ok (frame_shape g skip l) op
     then \<exists>f. ParseFrame (wb_batch b @ rest) (length pre) g skip slots = Inr (Inr f) \<and> pf_revision f = revision \<and>
      pf_commit_time_ms f = commit_time \<and> pf_schema_version f = v \<and> pf_user f = user_of user \<and> \<not> pf_gc f \<and> pf_size f = sz \<and>
      pf_record_count f = length ops \<and> spans_read (wb_batch b @ rest) f = concat (map op_span ops) \<and>
      changes_read (wb_batch b @ rest) f = concat (map op_change ops) \<and> replace_read f = concat (map op_replace ops)
     else \<exists>reason. ParseFrame (wb_batch b @ rest) (length pre) g skip slots =
      Inr (Inl \<lparr>stop_reason = reason, reaches_end = (rest = []), intact = True\<rparr>))"
proof (cases "\<forall>op \<in> set ops. op_ok (frame_shape g skip l) op")
  case True
  obtain frame f where f: "wb_batch b = pre @ frame" "length frame = sz"
      "ParseFrame (pre @ frame @ rest) (length pre) g skip slots = Inr (Inr f)"
      "read_more (pre @ frame @ rest) (empty_frame revision v commit_time (user_of user) sz (length ops)) ops f"
    by (rule written_frame [OF assms(1-6) True assms(7), where rest = rest])
  from f(4) show ?thesis
    unfolding f(1) append_assoc if_P [OF True] using f(2,3)
    by (intro conjI exI [of _ f]) (simp_all add: read_more_def frame_meta_def empty_frame_def spans_read_def changes_read_def replace_read_def)
next
  case False
  obtain frame at r where f: "wb_batch b = pre @ frame" "length frame = sz"
    "drop at (pre @ frame @ rest) = concat (map op_bytes ops) @ r"
    "linked b0 (empty_frame revision v commit_time (user_of user) sz (length ops))" "building pre (tlv_bytes v tag user) [] 0 False b0"
    "ParseFrame (pre @ frame @ rest) (length pre) g skip slots = Inr (records_outcome (pre @ frame @ rest) at ops
       (frame_shape g skip l) (empty_frame revision v commit_time (user_of user) sz (length ops)) (rest = []))"
    by (rule written_frame_records [OF assms(1-7), where rest = rest and skip = skip])
  then obtain reason where "ParseRecords (pre @ frame @ rest) (at + length (concat (map op_bytes ops))) (frame_shape g skip l)
      (length ops) at (empty_frame revision v commit_time (user_of user) sz (length ops)) = Inl reason"
    using ParseRecords_refused [OF assms(2) f(3,4) _ f(5) assms(8)] False by blast
  then show ?thesis using f(1,2,6) False by (auto simp: records_outcome_def)
qed

definition example_ops :: "WalOp list" where
  "example_ops = [SpanOp 1 [7], SpanOp 4 [2]]"

lemma example_shape: "frame_shape example_geometry False (g_layout example_geometry) =
  \<lparr>payload_boundary = 4, state_size = 5, fs_block_count = 4, vars_enabled = False, may_skip_unknown = False\<rparr>"
  by (simp add: frame_shape_def has_var_columns_def ChunkPresenceBitmapBytes_def ChunkBlockCount_def example_geometry_def example_layout_def
      example_config_def list_ex_iff)

lemma example_frame_written:
  "\<exists>b0 b1 sz b. NewWalFrame pre 1 [] None False = Inr b0 \<and> rfold AppendOp example_ops b0 = Inr b1 \<and>
    FinishFrame revision commit_time b1 = Inr (sz, b)"
  by (simp add: NewWalFrame_def example_ops_def AppendSpan_def FinishFrame_def wal_consts Let_def)

lemma example_ops_ok: "\<forall>op \<in> set example_ops. op_ok (frame_shape example_geometry False (g_layout example_geometry)) op"
  unfolding example_shape by (simp add: example_ops_def SpanShapeValid_def)

lemma example_layout_at: "layout_at example_geometry 1 = Inr (g_layout example_geometry)"
  "version (cl_schema (g_layout example_geometry)) = 1"
  by (simp_all add: layout_at_def LayoutAt_def example_geometry_def example_layout_def example_schema_values)

theorem wal_frame_round_trip_witness:
  "\<exists>w f. ParseFrame w 3 example_geometry False False = Inr (Inr f) \<and> pf_revision f = 5 \<and> pf_commit_time_ms f = 9 \<and>
    spans_read w f = [(1, [7]), (4, [2])] \<and> pf_schema_version f = 1"
proof -
  obtain b0 b1 sz b where b: "NewWalFrame [1, 2, 3] 1 [] None False = Inr b0" "rfold AppendOp example_ops b0 = Inr b1"
      "FinishFrame 5 9 b1 = Inr (sz, b)" using example_frame_written by blast
  have r: "\<forall>vars. ReplaceOp vars \<in> set example_ops \<longrightarrow> vars_ok vars" by (simp add: example_ops_def)
  from wal_frame_round_trip [OF b _ _ example_layout_at(1) _ r, of False False "[]"] example_ops_ok
  show ?thesis by (auto simp: example_layout_at user_of_def example_ops_def numeral_3_eq_3)
qed

end
