(* ===== verification/Wal_Recovery.thy ===== *)
theory Wal_Recovery
  imports Wal_Frame_Laws
begin

text \<open>
  Recovery as a whole: replay of a file that \<open>WalFrameBuilder\<close> wrote gives the state after every
  logged mutation, and replay of a file that a crash cut gives the state after the mutations whose
  frames are complete.
\<close>

section \<open>A cut file\<close>

text \<open>
  Claim C1. A crash loses whole mutations, never a part of one. When a WAL replays to its end,
  replay of its first \<open>n\<close> bytes, header included, gives exactly the outcome of the file cut at the
  last frame that ends at or before \<open>n\<close>: the same state, values, boundaries and revision, or the
  same exception. If bytes of a further frame are left, the result says so: the tail is truncated,
  at a crash tail, for one of the two partial-frame reasons.
\<close>

theorem ReplayWal_crash_atomic:
  assumes "ReplayWal w g coord sid features base base_version payload pres vars = Inr r"
    and "replayable (rp_result r)" "\<not> tail_truncated_or_corrupt (rp_result r)"
    and "kWalHeaderSize \<le> n" "n \<le> length w" "m = last (kWalHeaderSize # filter (\<lambda>e. e \<le> n) (map fb_end (rp_boundaries r)))"
  shows "\<exists>reason \<in> {''partial_frame_header'', ''partial_frame_body''}.
    ReplayWal (take n w) g coord sid features base base_version payload pres vars =
    rbind (ReplayWal (take m w) g coord sid features base base_version payload pres vars)
      (\<lambda>q. Inr (if m < n then with_stop reason q else q))"
proof -
  let ?skip = "MaySkipUnknownTypes (UnionFeatures (header_features w) features)" and ?slots = "slots_on features"
  define init where "init state = \<lparr>rs_cursor = kWalHeaderSize, previous_revision = 0, state_version = base_version,
    rs_state = state, rs_vars = vars, rs_result = no_replay\<lparr>replayable := True\<rparr>, rs_boundaries = []\<rparr>" for state
  define start where "start = (if base_version > version (cl_schema (g_layout g))
    then Inl (InvalidArgument ''chunk state is of a schema version the table does not have'')
    else if base_version \<noteq> 0 then rbind (layout_at g base_version) (\<lambda>l.
      if length payload \<noteq> payload_bytes l \<or> length pres \<noteq> ChunkPresenceBitmapBytes g
      then Inl (InvalidArgument ''chunk state size does not match its schema version'') else Inr (payload @ pres))
    else Inr [])"
  have valid: "ValidateWalHeader w coord sid features = Inr ()"
    using assms(1,2) by (cases "ValidateWalHeader w coord sid features")
      (auto simp: ReplayWal_def no_replay_def split: prod.splits if_splits)
  have eq: "ReplayWal w' g coord sid features base base_version payload pres vars =
      rbind start (\<lambda>state. rbind (ReplayLoop w' g ?skip ?slots base pres (init state)) (FinishReplay g pres))"
    if "agree k w w'" "kWalHeaderSize \<le> k" for w' k
    using ValidateWalHeader_agree [OF that] valid
    by (auto simp: ReplayWal_def start_def init_def rbind_assoc cong: if_cong)
  have whole: "agree (length w) w w" "kWalHeaderSize \<le> length w" using assms(4,5) by (auto simp: agree_def)
  obtain state t where st: "start = Inr state" "ReplayLoop w g ?skip ?slots base pres (init state) = Inr t" "FinishReplay g pres t = Inr r"
    using assms(1) unfolding eq [OF whole] by auto
  have k: "frame_ends t = map fb_end (rp_boundaries r)" "\<not> tail_truncated_or_corrupt (rs_result t)"
    using FinishReplay_kept [OF st(3)] assms(3) by (auto simp: frame_ends_def)
  have i: "rs_cursor (init state) = kWalHeaderSize" "frame_ends (init state) = []" by (simp_all add: init_def frame_ends_def)
  have m: "m = last (rs_cursor (init state) # filter (\<lambda>e. e \<le> n) (frame_ends t))" by (simp add: assms(6) i k)
  obtain v reason where v: "reason \<in> {''partial_frame_header'', ''partial_frame_body''}"
      "ReplayLoop (take m w) g ?skip ?slots base pres (init state) = Inr v"
      "ReplayLoop (take n w) g ?skip ?slots base pres (init state) = Inr (if m < n then stop_replay reason True v else v)"
      and mm: "kWalHeaderSize \<le> m" "m \<le> n"
    using ReplayLoop_cut [OF st(2) k(2) _ assms(5) i(2)] assms(4) unfolding m i(1) by blast
  show ?thesis
    using v eq [OF agree_prefix [OF assms(5)] assms(4)] eq [OF agree_prefix mm(1)] mm(2) assms(5) st(1)
    by (intro bexI [of _ reason]) (auto simp: FinishReplay_stop rbind_Inr_right [of "FinishReplay g pres v", unfolded comp_def])
qed

section \<open>A written file\<close>

text \<open>
  A logged mutation: what the store passes to the frame builder. \<open>apply_ops\<close> is its effect on the
  state of the chunk, one span and one value at a time.
\<close>

record Mutation =
  mu_revision :: u64
  mu_time :: u64
  mu_tag :: bytes
  mu_user :: "string option"
  mu_ops :: "WalOp list"

definition WriteFrame :: "u64 \<Rightarrow> Mutation \<Rightarrow> bytes \<Rightarrow> bytes res" where
  "WriteFrame v m batch =
    rbind (NewWalFrame batch v (mu_tag m) (mu_user m) False) (\<lambda>b.
    rbind (rfold AppendOp (mu_ops m) b) (\<lambda>b.
    rbind (FinishFrame (mu_revision m) (mu_time m) b) (\<lambda>(sz, b). Inr (wb_batch b))))"

definition apply_vars :: "WalOp list \<Rightarrow> ChunkVars \<Rightarrow> ChunkVars res" where
  "apply_vars ops vars =
    (case concat (map op_replace ops) of
       [] \<Rightarrow> rfold (\<lambda>c vars. set_value vars c) (concat (map op_change ops)) vars
     | r # _ \<Rightarrow> Inr r)"

definition apply_spans :: "WalOp list \<Rightarrow> bytes \<Rightarrow> bytes" where
  "apply_spans ops state = fold (\<lambda>(off, bs) state. copy_at state off bs) (concat (map op_span ops)) state"

definition apply_ops :: "Mutation \<Rightarrow> bytes \<times> ChunkVars \<Rightarrow> (bytes \<times> ChunkVars) res" where
  "apply_ops m chunk = rbind (apply_vars (mu_ops m) (snd chunk)) (\<lambda>vars. Inr (apply_spans (mu_ops m) (fst chunk), vars))"

definition mutation_ok :: "Geometry \<Rightarrow> bool \<Rightarrow> bool \<Rightarrow> Mutation \<Rightarrow> bool" where
  "mutation_ok g skip slots m \<longleftrightarrow> (\<forall>op \<in> set (mu_ops m). op_ok (frame_shape g skip (g_layout g)) op) \<and>
    (user_of (mu_user m) = None \<or> slots)"

lemma copy_checked_fold:
  assumes "\<forall>(off, bs) \<in> set xs. off + length bs \<le> length state"
  shows "rfold (\<lambda>(off, bs) state. copy_checked state off bs) xs state = Inr (fold (\<lambda>(off, bs) state. copy_at state off bs) xs state) \<and>
    length (fold (\<lambda>(off, bs) state. copy_at state off bs) xs state) = length state"
  using assms
proof (induction xs arbitrary: state)
  case (Cons x xs)
  obtain off bs where x: "x = (off, bs)" by (cases x)
  then have "off + length bs \<le> length state" using Cons.prems by auto
  then have l: "length (copy_at state off bs) = length state" by (simp add: copy_at_def)
  then show ?case using Cons.IH [of "copy_at state off bs"] Cons.prems x by (auto simp: copy_checked_def)
qed simp

lemma rfold_map: "rfold f (map h xs) s = rfold (\<lambda>x. f (h x)) xs s"
  by (induction xs arbitrary: s) (auto intro!: rbind_cong)

lemma read_spans:
  assumes "spans_read w f = concat (map op_span ops)" "\<forall>op \<in> set ops. op_ok shape op" "length state = state_size shape"
  shows "rfold (ApplySpan w) (pf_spans f) state = Inr (apply_spans ops state) \<and> length (apply_spans ops state) = length state"
proof -
  have "\<forall>(off, bs) \<in> set (concat (map op_span ops)). off + length bs \<le> length state"
  proof (clarsimp, rename_tac off bs op)
    fix off bs op assume a: "op \<in> set ops" "(off, bs) \<in> set (op_span op)"
    have "op_ok shape op" using a(1) assms(2) by simp
    with a(2) show "off + length bs \<le> length state" using assms(3) by (cases op rule: WalOp.exhaust) auto
  qed
  note c = copy_checked_fold [OF this]
  have "rfold (ApplySpan w) (pf_spans f) state = rfold (\<lambda>(off, bs) state. copy_checked state off bs) (spans_read w f) state"
    unfolding spans_read_def rfold_map by (intro rfold_cong) (simp add: ApplySpan_def)
  then show ?thesis using c unfolding assms(1) apply_spans_def by simp
qed

lemma read_vars:
  assumes "changes_read w f = concat (map op_change ops)" "replace_read f = concat (map op_replace ops)" "frame_in n shape f"
    and "vars_ok vars" "apply_vars ops vars = Inr vars'"
  shows "(if pf_var_ops f \<noteq> [] \<or> pf_var_replace f \<noteq> None then ApplyFrameVars w f vars else Inr vars) = Inr vars' \<and> vars_ok vars'"
proof (cases "pf_var_replace f")
  case (Some r)
  then obtain bs where "Decode bs (fs_block_count shape) = Inr r" using assms(3) by (auto simp: frame_in_def)
  then have "vars_ok r" by (rule Decode_sound)
  moreover have "vars' = r" using assms(2,5) Some by (auto simp: apply_vars_def replace_read_def split: list.splits)
  ultimately show ?thesis using Some by (simp add: ApplyFrameVars_def)
next
  case None
  let ?cs = "map (var_change w) (pf_var_ops f)"
  have cs: "concat (map op_change ops) = ?cs" using assms(1) by (simp add: changes_read_def)
  have "concat (map op_replace ops) = []" using assms(2) None by (simp only: replace_read_def option.case)
  then have s: "rfold (\<lambda>c vars. set_value vars c) ?cs vars = Inr vars'"
    using assms(5) unfolding apply_vars_def cs by (simp only: list.case)
  then have ok: "vars_ok vars'" "Find vars' = changed_map ?cs (Find vars)" using rfold_set_value [OF assms(4)] by auto
  have "sorted_wrt (<) (map vc_key ?cs)" using assms(3) by (simp add: frame_in_def var_change_def comp_def)
  then have m: "Merge vars ?cs = Inr vars'" by (intro Merge_total [OF assms(4) _ ok]) (simp only: ascending_sorted)
  show ?thesis
  proof (cases "\<exists>op. pf_var_ops f = [op]")
    case True
    then show ?thesis using s None ok(1) by (auto simp: ApplyFrameVars_def var_change_def set_value_def)
  next
    case False
    then have "ApplyFrameVars w f vars = Inr vars'"
      using m None by (auto simp: ApplyFrameVars_def split: list.splits)
    moreover have "vars' = vars" if "pf_var_ops f = []" using s that by simp
    ultimately show ?thesis using None ok(1) by auto
  qed
qed

lemma WalHeader_valid:
  assumes "length sid = 16" "i64_range (cx coord)" "i64_range (cy coord)" "IsSubsetOf features store_features"
  shows "length (BuildWalHeader coord sid features) = kWalHeaderSize"
    "header_features (BuildWalHeader coord sid features @ rest) = features"
    "ValidateWalHeader (BuildWalHeader coord sid features @ rest) coord sid store_features = Inr ()"
proof -
  define h where "h = kWalMagic @ WriteLe16 kWalFormatVersion @ WriteLe16 0 @ WriteLe32 (incompat features) @
    WriteLe32 (ro_compat features) @ WriteLe32 (compat features) @ sid @ WriteLe64 (word_of_int (cx coord)) @ WriteLe64 (word_of_int (cy coord))"
  have w: "BuildWalHeader coord sid features = h @ WriteLe32 (Crc32 h)" by (simp add: BuildWalHeader_def h_def Let_def)
  have m: "length kWalMagic = 8" by (simp add: kWalMagic_def)
  have l: "length h = 56" by (simp add: h_def m assms(1))
  show len: "length (BuildWalHeader coord sid features) = kWalHeaderSize" by (simp add: w l wal_consts)
  let ?w = "BuildWalHeader coord sid features @ rest"
  note d = w h_def m assms(1)
  have "ReadLe32 ?w 12 = incompat features" by (rule ReadLe_prefix) (simp add: d)
  moreover have "ReadLe32 ?w 16 = ro_compat features" by (rule ReadLe_prefix) (simp add: d)
  moreover have "ReadLe32 ?w 20 = compat features" by (rule ReadLe_prefix) (simp add: d)
  ultimately show f: "header_features ?w = features" by (simp add: header_features_def)
  have "ReadLe16 ?w 8 = kWalFormatVersion" by (rule ReadLe_prefix) (simp add: d)
  moreover have "ReadLe16 ?w 10 = 0" by (rule ReadLe_prefix) (simp add: d)
  moreover have "ReadLe64 ?w 40 = word_of_int (cx coord)" by (rule ReadLe_prefix) (simp add: d)
  moreover have "ReadLe64 ?w 48 = word_of_int (cy coord)" by (rule ReadLe_prefix) (simp add: d)
  moreover have "ReadLe32 ?w 56 = Crc32 h" by (rule ReadLe_prefix [where r = rest]) (simp add: w l)
  moreover have "take 56 ?w = h" by (simp add: w l)
  moreover have "take 8 ?w = kWalMagic" "take 16 (drop 24 ?w) = sid" by (simp_all add: d)
  moreover have "\<not> length ?w < kWalHeaderSize" using len by simp
  ultimately show "ValidateWalHeader ?w coord sid store_features = Inr ()"
    unfolding ValidateWalHeader_def f using assms by (simp add: kWalHeaderSize_def sint_of_i64)
qed

lemma WriteFrames_prefix: "rfold (WriteFrame v) ms pre = Inr w \<Longrightarrow> \<exists>rest. w = pre @ rest"
proof (induction ms arbitrary: pre)
  case (Cons m ms)
  then obtain pre' where p: "WriteFrame v m pre = Inr pre'" "rfold (WriteFrame v) ms pre' = Inr w" by auto
  obtain b0 b1 sz b where b: "NewWalFrame pre v (mu_tag m) (mu_user m) False = Inr b0" "rfold AppendOp (mu_ops m) b0 = Inr b1"
      "FinishFrame (mu_revision m) (mu_time m) b1 = Inr (sz, b)" "pre' = wb_batch b"
    using p(1) by (auto simp: WriteFrame_def)
  have "building pre (tlv_bytes v (mu_tag m) (mu_user m)) [] 0 False b0" using NewWalFrame_building [OF b(1)] by simp
  from FinishFrame_bytes [OF AppendOps_building [OF b(2) this] b(3)] have "\<exists>f. pre' = pre @ f" using b(4) by auto
  then show ?case using Cons.IH [OF p(2)] by auto
qed simp

definition applied :: "u64 \<Rightarrow> Mutation list \<Rightarrow> Mutation list" where
  "applied base ms = filter (\<lambda>m. base < mu_revision m) ms"

definition counted :: "u64 \<Rightarrow> Mutation list \<Rightarrow> WalReplayResult \<Rightarrow> bool" where
  "counted base ms r \<longleftrightarrow> applied_frames r = length (applied base ms) \<and> skipped_frames r = length ms - length (applied base ms) \<and>
    wr_revision r = last (0 # map mu_revision (applied base ms)) \<and> \<not> tail_truncated_or_corrupt r \<and> replayable r"

text \<open>The state of the loop between two frames of a file laid out by the current version.\<close>

definition between :: "Geometry \<Rightarrow> u64 \<Rightarrow> Mutation list \<Rightarrow> bytes \<Rightarrow> ReplayState \<Rightarrow> bool" where
  "between g base ms pre s \<longleftrightarrow> rs_cursor s = length pre \<and> state_version s = version (cl_schema (g_layout g)) \<and>
    length (rs_state s) = payload_bytes (g_layout g) + ChunkPresenceBitmapBytes g \<and> vars_ok (rs_vars s) \<and>
    previous_revision s = last (0 # map mu_revision ms) \<and> counted base ms (rs_result s)"

lemma WriteFrame_step:
  assumes wr: "WriteFrame v m pre = Inr pre'" and v: "v = version (cl_schema (g_layout g))" "v \<noteq> 0"
    and ok: "mutation_ok g skip slots m" and s: "between g base ms pre s" "last (0 # map mu_revision ms) < mu_revision m"
    and eff: "rfold apply_ops (applied base [m]) (rs_state s, rs_vars s) = Inr (st, vs)"
  obtains s' where "ReplayStep (pre' @ rest) g skip slots base pres s = Inr (s', True)" "between g base (ms @ [m]) pre' s'"
    "rs_state s' = st" "rs_vars s' = vs" "length pre < length pre'"
proof -
  obtain b0 b1 sz b where b: "NewWalFrame pre v (mu_tag m) (mu_user m) False = Inr b0" "rfold AppendOp (mu_ops m) b0 = Inr b1"
      "FinishFrame (mu_revision m) (mu_time m) b1 = Inr (sz, b)" "pre' = wb_batch b"
    using wr by (auto simp: WriteFrame_def)
  have l: "layout_at g v = Inr (g_layout g)" by (simp add: layout_at_def LayoutAt_def v(1))
  let ?sh = "frame_shape g skip (g_layout g)"
  have ops: "\<forall>op \<in> set (mu_ops m). op_ok ?sh op" "user_of (mu_user m) = None \<or> slots" using ok by (simp_all add: mutation_ok_def)
  obtain frame f where f: "pre' = pre @ frame" "length frame = sz"
      "ParseFrame (pre @ frame @ rest) (length pre) g skip slots = Inr (Inr f)"
      "read_more (pre @ frame @ rest) (empty_frame (mu_revision m) v (mu_time m) (user_of (mu_user m)) sz (length (mu_ops m))) (mu_ops m) f"
    by (rule written_frame [OF b(1-3) v(2) eq_refl [OF v(1)] l ops, where rest = rest]) (use b(4) in blast)
  let ?w = "pre @ frame @ rest"
  have meta: "pf_revision f = mu_revision m" "pf_schema_version f = v" "pf_size f = sz" "\<not> pf_gc f"
    using f(4) by (simp_all add: read_more_def frame_meta_def empty_frame_def)
  have rd: "spans_read ?w f = concat (map op_span (mu_ops m))" "changes_read ?w f = concat (map op_change (mu_ops m))"
      "replace_read f = concat (map op_replace (mu_ops m))"
    using f(4) by (simp_all add: read_more_def empty_frame_def spans_read_def changes_read_def replace_read_def)
  have fin: "frame_in (length pre + sz) ?sh f" using ParseFrame_in [OF f(3)] meta l by auto
  have pos: "0 < sz" using ParseFrame_extent(1) [OF f(3)] meta(3) by simp
  have st: "length (rs_state s) = state_size ?sh" using s(1) by (simp add: between_def frame_shape_def)
  note rsp = read_spans [OF rd(1) ops(1) st]
  note bt = s(1) [unfolded between_def]
  have rev: "\<not> pf_revision f \<le> previous_revision s" using bt s(2) meta(1) by (simp add: not_le)
  show thesis
  proof (cases "mu_revision m \<le> base")
    case True
    then have "ReplayStep ?w g skip slots base pres s = Inr (skip_frame f s, True)"
      using rev f(3) bt meta(1) by (simp add: ReplayStep_def)
    moreover have a: "applied base [m] = []" "applied base (ms @ [m]) = applied base ms" "length (applied base ms) \<le> length ms"
      using True by (simp_all add: applied_def leD)
    moreover have "st = rs_state s" "vs = rs_vars s" using eff a by simp_all
    ultimately show thesis
      using bt f(1,2) meta pos
      by (intro that [of "skip_frame f s"]) (auto simp: between_def counted_def skip_frame_def pass_frame_def Suc_diff_le)
  next
    case False
    then have a: "applied base [m] = [m]" "applied base (ms @ [m]) = applied base ms @ [m]" by (simp_all add: applied_def not_le)
    then have eff': "apply_vars (mu_ops m) (rs_vars s) = Inr vs" "st = apply_spans (mu_ops m) (rs_state s)"
      using eff by (auto simp: apply_ops_def)
    note rv = read_vars [OF rd(2,3) fin _ eff'(1)]
    obtain s' where s': "apply_frame ?w f s = Inr s'" "rs_state s' = st" "rs_vars s' = vs" "between g base (ms @ [m]) pre' s'"
      using bt rsp rv False meta f(1,2) eff'(2)
      by (auto simp: apply_frame_def pass_frame_def between_def counted_def a Let_def)
    have "ReplayStep ?w g skip slots base pres s = Inr (s', True)"
      using rev False bt meta s'(1) v(1) f(3) by (simp add: ReplayStep_def)
    then show thesis using s' f(1,2) pos by (intro that [of s']) auto
  qed
qed

lemma written_run:
  assumes "rfold (WriteFrame v) ms pre = Inr w" "v = version (cl_schema (g_layout g))" "v \<noteq> 0"
    and "\<forall>m \<in> set ms. mutation_ok g skip slots m" "sorted_wrt (<) (last (0 # map mu_revision old) # map mu_revision ms)"
    and "between g base old pre s" "rfold apply_ops (applied base ms) (rs_state s, rs_vars s) = Inr (st, vs)"
  shows "\<exists>t. run w g skip slots base pres s t \<and> between g base (old @ ms) w t \<and> rs_state t = st \<and> rs_vars t = vs"
  using assms
proof (induction ms arbitrary: pre s old)
  case Nil
  then show ?case by (intro exI [of _ s]) (auto intro: run.here simp: applied_def)
next
  case (Cons m ms)
  obtain pre' where p: "WriteFrame v m pre = Inr pre'" "rfold (WriteFrame v) ms pre' = Inr w" using Cons.prems(1) by auto
  obtain rest where w: "w = pre' @ rest" using WriteFrames_prefix [OF p(2)] by blast
  have app: "applied base (m # ms) = applied base [m] @ applied base ms" by (simp add: applied_def)
  obtain c where c: "rfold apply_ops (applied base [m]) (rs_state s, rs_vars s) = Inr c" "rfold apply_ops (applied base ms) c = Inr (st, vs)"
    using Cons.prems(7) unfolding app rfold_append by auto
  obtain st1 vs1 where c1: "c = (st1, vs1)" by (cases c)
  have ok: "mutation_ok g skip slots m" "last (0 # map mu_revision old) < mu_revision m" using Cons.prems(4,5) by auto
  obtain s' where s': "ReplayStep w g skip slots base pres s = Inr (s', True)" "between g base (old @ [m]) pre' s'" "rs_state s' = st1"
      "rs_vars s' = vs1" "length pre < length pre'"
    by (rule WriteFrame_step [OF p(1) Cons.prems(2,3) ok(1) Cons.prems(6) ok(2) c(1) [unfolded c1], of rest pres]) (use w in blast)
  have "rs_cursor s < length w" using Cons.prems(6) s'(5) w by (simp add: between_def)
  then have r: "run w g skip slots base pres s s'" using s'(1) by (rule run.frame [OF run.here])
  have "\<exists>t. run w g skip slots base pres s' t \<and> between g base ((old @ [m]) @ ms) w t \<and> rs_state t = st \<and> rs_vars t = vs"
    by (rule Cons.IH [OF p(2) Cons.prems(2,3) _ _ s'(2)]) (use Cons.prems(4,5) c(2) c1 s' in auto)
  then show ?case using run_trans [OF _ r] by auto
qed

lemma replay_written:
  assumes "rfold (WriteFrame (version (cl_schema (g_layout g)))) ms (BuildWalHeader coord sid features) = Inr w"
    and "length sid = 16" "i64_range (cx coord)" "i64_range (cy coord)" "IsSubsetOf features store_features"
    and "\<forall>m \<in> set ms. mutation_ok g (MaySkipUnknownTypes (UnionFeatures features store_features)) (slots_on store_features) m"
    and "sorted_wrt (<) (0 # map mu_revision ms)"
    and "version (cl_schema (g_layout g)) \<noteq> 0" "length payload = ChunkPayloadBytes g" "length pres = ChunkPresenceBitmapBytes g" "vars_ok vars"
    and "rfold apply_ops (applied base ms) (payload @ pres, vars) = Inr (st, vs)"
  obtains t where "ReplayWal w g coord sid store_features base (version (cl_schema (g_layout g))) payload pres vars = FinishReplay g pres t"
    "between g base ms w t" "rs_state t = st" "rs_vars t = vs"
proof -
  let ?v = "version (cl_schema (g_layout g))" and ?skip = "MaySkipUnknownTypes (UnionFeatures features store_features)"
  obtain rest where w: "w = BuildWalHeader coord sid features @ rest" using WriteFrames_prefix [OF assms(1)] by blast
  note h = WalHeader_valid [OF assms(2-5)]
  let ?s = "\<lparr>rs_cursor = kWalHeaderSize, previous_revision = 0, state_version = ?v, rs_state = payload @ pres,
    rs_vars = vars, rs_result = no_replay\<lparr>replayable := True\<rparr>, rs_boundaries = []\<rparr>"
  have b: "between g base [] (BuildWalHeader coord sid features) ?s"
    using assms(9-11) h(1) by (simp add: between_def counted_def applied_def no_replay_def ChunkPayloadBytes_def)
  obtain t where t: "run w g ?skip (slots_on store_features) base pres ?s t" "between g base ms w t" "rs_state t = st" "rs_vars t = vs"
    using written_run [OF assms(1) refl assms(8,6) _ b, of st vs pres] assms(7,12) by auto
  have loop: "ReplayLoop w g ?skip (slots_on store_features) base pres ?s = Inr t"
    using run_loop [OF t(1)] t(2) ReplayLoop.simps [of w g ?skip "slots_on store_features" base pres t] by (simp add: between_def)
  have l: "layout_at g ?v = Inr (g_layout g)" by (simp add: layout_at_def LayoutAt_def)
  have "ReplayWal w g coord sid store_features base ?v payload pres vars = FinishReplay g pres t"
    using assms(8-10) h(2,3) [of rest] loop l unfolding ReplayWal_def w by (simp add: ChunkPayloadBytes_def)
  then show thesis using t(2-4) by (rule that)
qed

text \<open>
  Claim C2. What was logged is what is recovered. Take a WAL that consists of the header and of
  the frames written for valid mutations (\<open>mutation_ok\<close>: operations the table takes, a user only where the
  store has write slots) of increasing revisions, over a chunk image of revision \<open>base\<close> at the current
  schema version. Replay applies, in order, exactly the mutations above the image's
  revision, each with all of its spans and values, and skips the others; it ends at the end of the
  file with the revision of the last applied mutation and reports neither a truncated tail nor a
  problem with the values, when the last state keeps the value rules of the table.
\<close>

theorem ReplayWal_recovers_mutations:
  assumes "rfold (WriteFrame (version (cl_schema (g_layout g)))) ms (BuildWalHeader coord sid features) = Inr w"
    and "length sid = 16" "i64_range (cx coord)" "i64_range (cy coord)" "IsSubsetOf features store_features"
    and "\<forall>m \<in> set ms. mutation_ok g (MaySkipUnknownTypes (UnionFeatures features store_features)) (slots_on store_features) m"
    and "sorted_wrt (<) (0 # map mu_revision ms)"
    and "version (cl_schema (g_layout g)) \<noteq> 0" "length payload = ChunkPayloadBytes g" "length pres = ChunkPresenceBitmapBytes g" "vars_ok vars"
    and "rfold apply_ops (applied base ms) (payload @ pres, vars) = Inr (payload' @ pres', vars')"
    and "length payload' = length payload" "RequireValidVars (g_layout g) vars' (MaskUnusedPresenceBits g pres') = Inr ()"
    and "length (vdata vars') \<le> kVarMaxChunkBytesLimit"
  shows "\<exists>q. ReplayWal w g coord sid store_features base (version (cl_schema (g_layout g))) payload pres vars = Inr q \<and>
    rp_payload q = payload' \<and> rp_presence q = MaskUnusedPresenceBits g pres' \<and> rp_vars q = vars' \<and>
    counted base ms (rp_result q) \<and> valid_end (rp_result q) = length w \<and> vars_problem (rp_result q) = []"
proof -
  obtain t where t: "ReplayWal w g coord sid store_features base (version (cl_schema (g_layout g))) payload pres vars = FinishReplay g pres t"
      "between g base ms w t" "rs_state t = payload' @ pres'" "rs_vars t = vars'"
    by (rule replay_written [OF assms(1-12)])
  moreover have "length (payload' @ pres') = ChunkPayloadBytes g + ChunkPresenceBitmapBytes g"
    using t(2,3) by (simp add: between_def ChunkPayloadBytes_def)
  ultimately show ?thesis
    using assms(9,13-15)
    by (simp add: FinishReplay_def SplitChunkStateBytes_def VarsProblem_def between_def counted_def)
qed

section \<open>An example\<close>

definition example_mutation :: Mutation where
  "example_mutation = \<lparr>mu_revision = 5, mu_time = 9, mu_tag = [], mu_user = None, mu_ops = example_ops\<rparr>"

definition example_coord :: ChunkCoord where
  "example_coord = \<lparr>cx = -2, cy = 3\<rparr>"

lemma example_wal:
  "\<exists>w. rfold (WriteFrame 1) [example_mutation] pre = Inr w \<and> length w = length pre + 60"
  by (simp add: WriteFrame_def example_mutation_def NewWalFrame_def example_ops_def AppendSpan_def FinishFrame_def wal_consts Let_def
      copy_at_def kWalFrameMagic_def)

lemma example_mutation_facts:
  "\<forall>m \<in> set [example_mutation]. mutation_ok example_geometry (MaySkipUnknownTypes (UnionFeatures no_features no_features)) (slots_on no_features) m"
  "rfold apply_ops (applied 2 [example_mutation]) ([0, 0, 0, 0] @ [0], empty_vars) = Inr ([0, 7, 0, 0] @ [2], empty_vars)"
  "RequireValidVars l empty_vars pres = Inr ()"
proof -
  have "MaySkipUnknownTypes (UnionFeatures no_features no_features) = False" by (simp add: UnionFeatures_def MaySkipUnknownTypes_def
    UnknownFeatures_def no_features_def Let_def)
  then show "\<forall>m \<in> set [example_mutation]. mutation_ok example_geometry (MaySkipUnknownTypes (UnionFeatures no_features no_features))
      (slots_on no_features) m"
    using example_ops_ok by (simp add: mutation_ok_def example_mutation_def user_of_def)
  show "rfold apply_ops (applied 2 [example_mutation]) ([0, 0, 0, 0] @ [0], empty_vars) = Inr ([0, 7, 0, 0] @ [2], empty_vars)"
    by (simp add: applied_def example_mutation_def apply_ops_def apply_vars_def apply_spans_def example_ops_def copy_at_def)
  show "RequireValidVars l empty_vars pres = Inr ()"
    by (simp add: RequireValidVars_def vars_entries_def empty_vars_def)
qed

lemma example_sizes: "ChunkPayloadBytes example_geometry = 4" "ChunkPresenceBitmapBytes example_geometry = 1"
  by (simp_all add: ChunkPayloadBytes_def ChunkPresenceBitmapBytes_def ChunkBlockCount_def example_geometry_def example_layout_def
      example_config_def)

lemma empty_vars_facts: "vars_ok empty_vars" "vdata empty_vars = []"
proof -
  have "empty_vars = pack []" by (simp add: empty_vars_def pack_def)
  then show "vars_ok empty_vars" unfolding vars_ok_def by (intro exI [of _ "[]"]) (simp add: entries_ok_def)
qed (simp add: empty_vars_def)

theorem ReplayWal_recovers_mutations_witness:
  "\<exists>w q. ReplayWal w example_geometry example_coord (replicate 16 1) no_features 2 1 [0, 0, 0, 0] [0] empty_vars = Inr q \<and>
    rp_payload q = [0, 7, 0, 0] \<and> wr_revision (rp_result q) = 5 \<and> valid_end (rp_result q) = length w"
proof -
  obtain w where w: "rfold (WriteFrame (version (cl_schema (g_layout example_geometry)))) [example_mutation]
      (BuildWalHeader example_coord (replicate 16 1) no_features) = Inr w"
    using example_wal by (auto simp only: example_layout_at)
  show ?thesis
    using ReplayWal_recovers_mutations [OF w, where base = 2 and store_features = no_features and payload = "[0, 0, 0, 0]" and pres = "[0]"
      and vars = empty_vars and payload' = "[0, 7, 0, 0]" and pres' = "[2]" and vars' = empty_vars] example_mutation_facts
    by (auto simp: example_coord_def i64_range_def example_sizes example_layout_at example_mutation_def counted_def applied_def
      empty_vars_facts kVarMaxChunkBytesLimit_def)
qed

theorem ReplayWal_crash_atomic_witness:
  "\<exists>w r m. \<exists>reason \<in> {''partial_frame_header'', ''partial_frame_body''}. 100 < length w \<and> m \<le> 100 \<and>
    ReplayWal w example_geometry example_coord (replicate 16 1) no_features 2 1 [0, 0, 0, 0] [0] empty_vars = Inr r \<and>
    applied_frames (rp_result r) = 1 \<and>
    ReplayWal (take 100 w) example_geometry example_coord (replicate 16 1) no_features 2 1 [0, 0, 0, 0] [0] empty_vars =
      rbind (ReplayWal (take m w) example_geometry example_coord (replicate 16 1) no_features 2 1 [0, 0, 0, 0] [0] empty_vars)
        (\<lambda>q. Inr (if m < 100 then with_stop reason q else q))"
proof -
  note h = WalHeader_valid [of "replicate 16 1" example_coord no_features no_features]
  have hl: "length (BuildWalHeader example_coord (replicate 16 1) no_features) = 60"
    using h(1) by (simp add: example_coord_def i64_range_def wal_consts)
  obtain w where w: "rfold (WriteFrame (version (cl_schema (g_layout example_geometry)))) [example_mutation]
      (BuildWalHeader example_coord (replicate 16 1) no_features) = Inr w" "length w = 120"
    using example_wal [of "BuildWalHeader example_coord (replicate 16 1) no_features"] hl by (auto simp only: example_layout_at)
  obtain t where t: "ReplayWal w example_geometry example_coord (replicate 16 1) no_features 2
        (version (cl_schema (g_layout example_geometry))) [0, 0, 0, 0] [0] empty_vars = FinishReplay example_geometry [0] t"
      "between example_geometry 2 [example_mutation] w t" "rs_state t = [0, 7, 0, 0] @ [2]" "rs_vars t = empty_vars"
    by (rule replay_written [OF w(1) _ _ _ _ example_mutation_facts(1) _ _ _ _ _ example_mutation_facts(2)])
      (auto simp: example_coord_def i64_range_def example_sizes example_layout_at example_mutation_def
        empty_vars_facts)
  obtain r where r: "FinishReplay example_geometry [0] t = Inr r" "replayable (rp_result r)" "\<not> tail_truncated_or_corrupt (rp_result r)"
      "applied_frames (rp_result r) = 1"
    using t(2-4) example_mutation_facts(3)
    by (auto simp: FinishReplay_def SplitChunkStateBytes_def VarsProblem_def between_def counted_def applied_def example_sizes
        empty_vars_facts kVarMaxChunkBytesLimit_def example_mutation_def)
  have rw: "ReplayWal w example_geometry example_coord (replicate 16 1) no_features 2 1 [0, 0, 0, 0] [0] empty_vars = Inr r"
    using t(1) r(1) by (simp only: example_layout_at)
  let ?m = "last (kWalHeaderSize # filter (\<lambda>e. e \<le> 100) (map fb_end (rp_boundaries r)))"
  have "set (kWalHeaderSize # filter (\<lambda>e. e \<le> 100) (map fb_end (rp_boundaries r))) \<subseteq> {..100}" by (auto simp: wal_consts)
  then have m: "?m \<le> 100" using last_in_set [of "kWalHeaderSize # filter (\<lambda>e. e \<le> 100) (map fb_end (rp_boundaries r))"] by auto
  show ?thesis
    using ReplayWal_crash_atomic [OF rw r(2,3), of 100 ?m] w(2) r(4) rw m
    by (intro exI [of _ w] exI [of _ r] exI [of _ ?m]) (auto simp: wal_consts)
qed

end
