(* ===== verification/Wal_Totality.thy ===== *)
theory Wal_Totality
  imports Wal_Recovery
begin

text \<open>
  Recovery ends for every content of the file: for a table of schema version 1 without text or
  bytes columns, whatever the bytes of the WAL, replay returns a state of the table's shape. No
  copy leaves its destination and no exception is thrown.
\<close>

lemma ParseFrame_returns:
  assumes "version (cl_schema (g_layout g)) = 1"
  shows "\<exists>p. ParseFrame w c g skip slots = Inr p"
proof -
  have l: "layout_at g v = Inr (g_layout g)" if "v \<noteq> 0" "\<not> 1 < v" for v
    using that assms word_one_least [of v] by (auto simp: layout_at_def LayoutAt_def)
  have "\<exists>p. ParseFrameBody w c g skip slots = Inr p"
    by (auto simp: ParseFrameBody_def Let_def assms l split: sum.split)
  then show ?thesis by (auto simp: ParseFrame_def Let_def)
qed

text \<open>The state of the loop: empty and of no version, or of the table's size.\<close>

definition sized :: "Geometry \<Rightarrow> ReplayState \<Rightarrow> bool" where
  "sized g s \<longleftrightarrow> rs_vars s = empty_vars \<and>
    (state_version s = 0 \<or> state_version s = 1 \<and> length (rs_state s) = payload_bytes (g_layout g) + ChunkPresenceBitmapBytes g)"

lemma move_sized:
  assumes "version (cl_schema (g_layout g)) = 1" "length pres = ChunkPresenceBitmapBytes g" "sized g s" "state_version s \<noteq> 1"
  shows "\<exists>s'. move_state_to g pres 1 s = Inr s' \<and> sized g s' \<and> state_version s' = 1"
  using assms by (auto simp: move_state_to_def layout_at_def LayoutAt_def sized_def)

lemma apply_frame_sized:
  assumes "frame_in n (frame_shape g skip (g_layout g)) f" "\<not> has_var_columns (g_layout g)" "sized g s" "state_version s = 1"
  shows "\<exists>s'. apply_frame w f s = Inr s' \<and> sized g s' \<and> state_version s' = 1"
proof -
  have v: "pf_var_ops f = []" "pf_var_replace f = None" using assms(1,2) by (auto simp: frame_in_def frame_shape_def)
  have "\<forall>(off, bs) \<in> set (spans_read w f). off + length bs \<le> length (rs_state s)"
    using assms(1,3,4) by (fastforce simp: spans_read_def span_bytes_def frame_in_def span_in_def frame_shape_def sized_def)
  note c = copy_checked_fold [OF this]
  have "rfold (ApplySpan w) (pf_spans f) (rs_state s) = rfold (\<lambda>(off, bs) state. copy_checked state off bs) (spans_read w f) (rs_state s)"
    unfolding spans_read_def rfold_map by (intro rfold_cong) (simp add: ApplySpan_def)
  then show ?thesis using c v assms(3,4) by (auto simp: apply_frame_def pass_frame_def sized_def Let_def)
qed

lemma ReplayStep_returns:
  assumes g: "version (cl_schema (g_layout g)) = 1" "\<not> has_var_columns (g_layout g)"
    and pres: "length pres = ChunkPresenceBitmapBytes g" and s: "sized g s"
  shows "\<exists>s' go. ReplayStep w g skip slots base pres s = Inr (s', go) \<and> sized g s'"
proof -
  obtain p where p: "ParseFrame w (rs_cursor s) g skip slots = Inr p" using ParseFrame_returns [OF g(1)] by blast
  show ?thesis
  proof (cases p)
    case (Inl stop)
    then show ?thesis using p s by (auto simp: ReplayStep_def stop_replay_def sized_def)
  next
    case (Inr f)
    obtain l where l: "layout_at g (pf_schema_version f) = Inr l" "frame_in (rs_cursor s + pf_size f) (frame_shape g skip l) f"
        "pf_schema_version f \<noteq> 0" "pf_schema_version f \<le> 1" using ParseFrame_in [of w] p g(1) Inr by metis
    have v: "pf_schema_version f = 1" using l(3,4) word_one_least [of "pf_schema_version f"] by auto
    then have ll: "l = g_layout g" "layout_at g 1 = Inr (g_layout g)" using l(1) g(1) by (auto simp: layout_at_def LayoutAt_def)
    obtain s1 where s1: "(if pf_schema_version f \<noteq> state_version s then move_state_to g pres (pf_schema_version f) s else Inr s) = Inr s1"
        "sized g s1" "state_version s1 = 1"
      using move_sized [OF g(1) pres s] s v by (cases "state_version s = 1") auto
    obtain s2 where s2: "apply_frame w f s1 = Inr s2" "sized g s2"
      using apply_frame_sized [OF l(2) [unfolded ll(1)] g(2) s1(2,3)] by blast
    show ?thesis
      using p Inr s s1 s2 ll(2) unfolding ReplayStep_def p Inr rbind_simps sum.case s1(1)
      by (auto simp: sized_def stop_replay_def skip_frame_def pass_frame_def)
  qed
qed

lemma ReplayStep_stop_cursor:
  "ReplayStep w g skip slots base pres s = Inr (s', False) \<Longrightarrow> rs_cursor s' = rs_cursor s"
  by (auto simp: ReplayStep_def stop_replay_def dest!: move_state_kept split: if_splits sum.splits)

lemma ReplayLoop_returns:
  assumes g: "version (cl_schema (g_layout g)) = 1" "\<not> has_var_columns (g_layout g)"
    and pres: "length pres = ChunkPresenceBitmapBytes g" and s: "sized g s" "rs_cursor s \<le> length w"
  shows "\<exists>t. ReplayLoop w g skip slots base pres s = Inr t \<and> sized g t \<and> rs_cursor t \<le> length w"
  using s
proof (induction "length w - rs_cursor s" arbitrary: s rule: less_induct)
  case less
  obtain s' go where s': "ReplayStep w g skip slots base pres s = Inr (s', go)" "sized g s'"
    using ReplayStep_returns [OF g pres less.prems(1)] by blast
  have loop: "ReplayLoop w g skip slots base pres s =
      (if rs_cursor s < length w then if go then ReplayLoop w g skip slots base pres s' else Inr s' else Inr s)"
    using s'(1) by (simp add: ReplayLoop.simps [of w g skip slots base pres s])
  show ?case
  proof (cases "rs_cursor s < length w \<and> go")
    case True
    then have "rs_cursor s < rs_cursor s'" "rs_cursor s' \<le> length w" using ReplayStep_cursor [of w g skip slots base pres s s'] s'(1) by simp_all
    then show ?thesis using less.hyps [of s'] s'(2) loop True by simp
  next
    case False
    have "rs_cursor s' = rs_cursor s" if "\<not> go" using s'(1) that ReplayStep_stop_cursor [of w g skip slots base pres s s'] by simp
    then show ?thesis using False loop less.prems s'(2) by auto
  qed
qed

text \<open>
  Claim C3. Recovery returns for every file. Whatever bytes the WAL holds, replay over the empty
  state or over an image of the right size ends with a payload and a presence bitmap of the
  table's size, throws nothing, never copies outside the state and stops within the file. The
  table has schema version 1 and no text or bytes columns.
\<close>

theorem ReplayWal_returns:
  assumes "version (cl_schema (g_layout g)) = 1" "\<not> has_var_columns (g_layout g)"
    and "base_version = 0 \<or> base_version = 1 \<and> length payload = ChunkPayloadBytes g" "length pres = ChunkPresenceBitmapBytes g"
  shows "\<exists>q. ReplayWal w g coord sid features base base_version payload pres empty_vars = Inr q \<and>
    length (rp_payload q) = ChunkPayloadBytes g \<and> length (rp_presence q) = ChunkPresenceBitmapBytes g \<and>
    rp_vars q = empty_vars \<and> vars_problem (rp_result q) = [] \<and> valid_end (rp_result q) \<le> length w"
proof (cases "ValidateWalHeader w coord sid features")
  case (Inl e)
  have e0: "\<lparr>vdata = [], voffsets = []\<rparr> = empty_vars" by (simp add: empty_vars_def)
  have "\<exists>pl. BringToCurrentSchema g base_version pres (payload, empty_vars) = Inr ((pl, empty_vars), g) \<and> length pl = ChunkPayloadBytes g"
    using assms(1,3) by (auto simp: BringToCurrentSchema_def ChunkPayloadBytes_def e0)
  then show ?thesis using Inl assms(4) by (auto simp: ReplayWal_def no_replay_def)
next
  case (Inr u)
  have long: "kWalHeaderSize \<le> length w" using Inr by (auto simp: ValidateWalHeader_def not_less split: if_splits)
  define st where "st = (if base_version = 0 then [] else payload @ pres)"
  let ?s = "\<lparr>rs_cursor = kWalHeaderSize, previous_revision = 0, state_version = base_version, rs_state = st,
    rs_vars = empty_vars, rs_result = no_replay\<lparr>replayable := True\<rparr>, rs_boundaries = []\<rparr>"
  let ?skip = "MaySkipUnknownTypes (UnionFeatures (header_features w) features)"
  have "sized g ?s" using assms(3,4) by (auto simp: sized_def st_def ChunkPayloadBytes_def)
  then obtain t where t: "ReplayLoop w g ?skip (slots_on features) base pres ?s = Inr t" "sized g t" "rs_cursor t \<le> length w"
    using ReplayLoop_returns [OF assms(1,2,4), of ?s w ?skip "slots_on features" base] long by auto
  have l: "layout_at g 1 = Inr (g_layout g)" using assms(1) by (simp add: layout_at_def LayoutAt_def)
  have r: "ReplayWal w g coord sid features base base_version payload pres empty_vars = FinishReplay g pres t"
  proof (cases "base_version = 0")
    case True
    then show ?thesis using t(1) unfolding ReplayWal_def Inr sum.case st_def assms(1) by simp
  next
    case False
    then show ?thesis using t(1) assms(3,4) l unfolding ReplayWal_def Inr sum.case st_def assms(1) by (simp add: ChunkPayloadBytes_def)
  qed
  let ?t = "t\<lparr>rs_result := (rs_result t)\<lparr>valid_end := rs_cursor t\<rparr>\<rparr>"
  have st: "sized g ?t" using t(2) by (simp add: sized_def)
  obtain t' where t': "(if state_version ?t \<noteq> 1 then move_state_to g pres 1 ?t else Inr ?t) = Inr t'" "sized g t'" "state_version t' = 1"
      "rs_result t' = rs_result ?t"
  proof (cases "state_version t = 1")
    case True
    then show ?thesis using st by (intro that [of ?t]) simp_all
  next
    case False
    then obtain x where x: "move_state_to g pres 1 ?t = Inr x" "sized g x" "state_version x = 1"
      using move_sized [OF assms(1,4) st] by auto
    then show ?thesis using False move_state_kept [OF x(1)] by (intro that [of x]) simp_all
  qed
  have "RequireValidVars (g_layout g) empty_vars p = Inr ()" for p by (simp add: RequireValidVars_def vars_entries_def empty_vars_def)
  then show ?thesis
    using t'(2-4) t(3) unfolding r FinishReplay_def Let_def assms(1) t'(1)
    by (auto simp: sized_def SplitChunkStateBytes_def VarsProblem_def ChunkPayloadBytes_def MaskUnusedPresenceBits_def Let_def
        empty_vars_facts)
qed

theorem ReplayWal_returns_witness:
  "\<exists>q. ReplayWal [0x43, 0x48, 0x4B] example_geometry example_coord (replicate 16 1) no_features 2 1 [1, 2, 3, 4] [5] empty_vars = Inr q \<and>
    length (rp_payload q) = 4"
  using ReplayWal_returns [of example_geometry 1 "[1, 2, 3, 4]" "[5]" "[0x43, 0x48, 0x4B]" example_coord "replicate 16 1" no_features 2]
    example_shape by (auto simp: example_layout_at example_sizes frame_shape_def)

end
