(* ===== verification/Float_Arith.thy ===== *)
theory Float_Arith
  imports Float_Bits
begin

text \<open>
  IEEE 754 arithmetic of \<open>double\<close> as C++ on the supported platforms computes it, on the bit
  patterns of \<open>Float_Bits\<close>.  Every finite double is an integer number of units of \<open>2\<^sup>-\<^sup>1\<^sup>0\<^sup>7\<^sup>4\<close>, so an
  operation is an exact integer or rational computation in units followed by one rounding to
  nearest, ties to even.  The sign and payload of a NaN that an operation makes are not fixed by
  C++; the model takes the quiet NaN of \<open>std::numeric_limits\<close>.
\<close>

section \<open>Units\<close>

definition unit_scale :: nat where
  "unit_scale = 2 ^ 1074"

definition f64_isinf :: "f64 \<Rightarrow> bool" where
  "f64_isinf x \<longleftrightarrow> f64_exp x = 2047 \<and> f64_frac x = 0"

text \<open>The units of a magnitude, the bit pattern without its sign.\<close>

definition mag_units :: "nat \<Rightarrow> nat" where
  "mag_units g = (if g < 2 ^ 52 then g else (2 ^ 52 + g mod 2 ^ 52) * 2 ^ (g div 2 ^ 52 - 1))"

definition f64_units :: "f64 \<Rightarrow> nat" where
  "f64_units x = mag_units (f64_mag x)"

definition f64_signed :: "f64 \<Rightarrow> int" where
  "f64_signed x = (if f64_sign x = 0 then int (f64_units x) else - int (f64_units x))"

text \<open>
  The magnitude nearest to \<open>n / d\<close> units, for a format of \<open>p\<close> fraction bits whose infinity has
  magnitude \<open>limit\<close>.
\<close>

definition half_even :: "nat \<Rightarrow> nat \<Rightarrow> nat" where
  "half_even n d = (let q = n div d; r = n mod d in if 2 * r > d \<or> (2 * r = d \<and> odd q) then q + 1 else q)"

definition round_units :: "nat \<Rightarrow> nat \<Rightarrow> nat \<Rightarrow> nat \<Rightarrow> nat" where
  "round_units p limit n d =
    (let k = floor_log2 (n div d) - p in min (k * 2 ^ p + half_even n (d * 2 ^ k)) limit)"

definition f64_inf_mag :: nat where
  "f64_inf_mag = 2047 * 2 ^ 52"

definition f64_round :: "nat \<Rightarrow> nat \<Rightarrow> nat \<Rightarrow> f64" where
  "f64_round s n d = f64_of s 0 (round_units 52 f64_inf_mag n d)"

definition f64_round_int :: "int \<Rightarrow> f64" where
  "f64_round_int z = f64_round (if z < 0 then 1 else 0) (nat \<bar>z\<bar>) 1"

section \<open>Operations\<close>

definition f64_nan :: f64 where
  "f64_nan = 0x7FF8000000000000"

definition f64_quiet :: "f64 \<Rightarrow> f64" where
  "f64_quiet x = x OR 0x0008000000000000"

definition f64_neg :: "f64 \<Rightarrow> f64" where
  "f64_neg x = f64_of (1 - f64_sign x) 0 (f64_mag x)"

definition f64_is_zero :: "f64 \<Rightarrow> bool" where
  "f64_is_zero x \<longleftrightarrow> f64_mag x = 0"

definition f64_add :: "f64 \<Rightarrow> f64 \<Rightarrow> f64" where
  "f64_add x y =
    (if f64_isnan x then f64_quiet x else if f64_isnan y then f64_quiet y
     else if f64_isinf x then (if f64_isinf y \<and> f64_sign x \<noteq> f64_sign y then f64_nan else x)
     else if f64_isinf y then y
     else let z = f64_signed x + f64_signed y in
       if z = 0 then f64_of (if f64_sign x = 1 \<and> f64_sign y = 1 then 1 else 0) 0 0
       else f64_round_int z)"

definition f64_sub :: "f64 \<Rightarrow> f64 \<Rightarrow> f64" where
  "f64_sub x y =
    (if f64_isnan x then f64_quiet x else if f64_isnan y then f64_quiet y
     else f64_add x (f64_neg y))"

definition sign_product :: "f64 \<Rightarrow> f64 \<Rightarrow> nat" where
  "sign_product x y = (if f64_sign x = f64_sign y then 0 else 1)"

definition f64_mul :: "f64 \<Rightarrow> f64 \<Rightarrow> f64" where
  "f64_mul x y =
    (if f64_isnan x then f64_quiet x else if f64_isnan y then f64_quiet y
     else if f64_isinf x \<or> f64_isinf y then
       (if f64_is_zero x \<or> f64_is_zero y then f64_nan else f64_of (sign_product x y) 2047 0)
     else f64_round (sign_product x y) (f64_units x * f64_units y) unit_scale)"

definition f64_div :: "f64 \<Rightarrow> f64 \<Rightarrow> f64" where
  "f64_div x y =
    (if f64_isnan x then f64_quiet x else if f64_isnan y then f64_quiet y
     else if f64_isinf x then (if f64_isinf y then f64_nan else f64_of (sign_product x y) 2047 0)
     else if f64_isinf y then f64_of (sign_product x y) 0 0
     else if f64_is_zero y then (if f64_is_zero x then f64_nan else f64_of (sign_product x y) 2047 0)
     else f64_round (sign_product x y) (f64_units x * unit_scale) (f64_units y))"

definition f64_fmod :: "f64 \<Rightarrow> f64 \<Rightarrow> f64" where
  "f64_fmod x y =
    (if f64_isnan x then f64_quiet x else if f64_isnan y then f64_quiet y
     else if f64_isinf x \<or> f64_is_zero y then f64_nan
     else if f64_isinf y then x
     else f64_round (f64_sign x) (f64_units x mod f64_units y) 1)"

text \<open>\<open>std::trunc\<close>, and the value of a conversion to an integer type, which truncates.\<close>

definition f64_trunc :: "f64 \<Rightarrow> f64" where
  "f64_trunc x =
    (if f64_isnan x then f64_quiet x else if f64_isinf x then x
     else f64_round (f64_sign x) (f64_units x div unit_scale * unit_scale) 1)"

definition f64_to_int :: "f64 \<Rightarrow> int" where
  "f64_to_int x = (let q = int (f64_units x div unit_scale) in if f64_sign x = 0 then q else - q)"

text \<open>Conversions from an integer; a float is an integer number of units of \<open>2\<^sup>-\<^sup>1\<^sup>4\<^sup>9\<close>.\<close>

definition f64_of_int :: "int \<Rightarrow> f64" where
  "f64_of_int n = f64_round_int (n * int unit_scale)"

definition f32_of_int :: "int \<Rightarrow> f32" where
  "f32_of_int n = f32_of (if n < 0 then 1 else 0) 0 (round_units 23 (255 * 2 ^ 23) (nat \<bar>n\<bar> * 2 ^ 149) 1)"

definition f64_le :: "f64 \<Rightarrow> f64 \<Rightarrow> bool" where
  "f64_le x y \<longleftrightarrow> \<not> f64_isnan x \<and> \<not> f64_isnan y \<and> \<not> f64_less y x"

section \<open>Exactness of representable values\<close>

lemma floor_log2_eq: "2 ^ k \<le> n \<Longrightarrow> n < 2 ^ Suc k \<Longrightarrow> floor_log2 n = k"
proof -
  assume b: "2 ^ k \<le> n" "n < 2 ^ Suc k"
  have "0 < n" using b(1) by (rule less_le_trans [rotated]) simp
  then have c: "2 ^ floor_log2 n \<le> n" "n < 2 ^ Suc (floor_log2 n)" using floor_log2_bounds by auto
  have "(2 :: nat) ^ k < 2 ^ Suc (floor_log2 n)" using b c by linarith
  moreover have "(2 :: nat) ^ floor_log2 n < 2 ^ Suc k" using b c by linarith
  ultimately have "k < Suc (floor_log2 n)" "floor_log2 n < Suc k"
    by (simp_all only: power_strict_increasing_iff one_less_numeral_iff semiring_norm)
  then show ?thesis by simp
qed

lemma floor_log2_scaled: "0 < a \<Longrightarrow> floor_log2 (a * 2 ^ j) = floor_log2 a + j"
proof (rule floor_log2_eq)
  assume a: "0 < a"
  note b = floor_log2_bounds [OF a]
  show "2 ^ (floor_log2 a + j) \<le> a * 2 ^ j" using b by (simp add: power_add)
  have "a * 2 ^ j < 2 ^ Suc (floor_log2 a) * 2 ^ j" using b by simp
  then show "a * 2 ^ j < 2 ^ Suc (floor_log2 a + j)" by (simp add: power_add)
qed

lemma half_even_exact: "0 < d \<Longrightarrow> half_even (m * d) d = m"
  by (simp add: half_even_def)

lemma mag_units_encode:
  assumes "m < 2 ^ 53" "0 < k \<Longrightarrow> 2 ^ 52 \<le> m"
  shows "mag_units (k * 2 ^ 52 + m) = m * 2 ^ k"
proof (cases "m < 2 ^ 52")
  case True
  then have "k = 0" using assms(2) by (cases k) auto
  then show ?thesis using True by (simp add: mag_units_def)
next
  case False
  define f where "f = m - 2 ^ 52"
  have m: "m = 2 ^ 52 + f" and f: "f < 2 ^ 52" using False assms(1) by (auto simp: f_def)
  have "k * 2 ^ 52 + m = f + Suc k * 2 ^ 52" using m by simp
  then have "(k * 2 ^ 52 + m) div 2 ^ 52 = Suc k" "(k * 2 ^ 52 + m) mod 2 ^ 52 = f"
    using f by (simp_all only: div_mult_self3 div_mult_self1 mod_mult_self1) simp_all
  then show ?thesis using m by (simp add: mag_units_def del: mult_Suc)
qed

lemma round_units_exact:
  assumes "a < 2 ^ 53" "a * 2 ^ j < 2 ^ 2098"
  shows "round_units 52 f64_inf_mag (a * 2 ^ j) 1 < f64_inf_mag"
    and "mag_units (round_units 52 f64_inf_mag (a * 2 ^ j) 1) = a * 2 ^ j"
proof -
  let ?n = "a * 2 ^ j"
  define k where "k = floor_log2 ?n - 52"
  have "round_units 52 f64_inf_mag ?n 1 < f64_inf_mag \<and> mag_units (round_units 52 f64_inf_mag ?n 1) = ?n"
  proof (cases "a = 0")
    case True
    then show ?thesis by (simp add: round_units_def half_even_def f64_inf_mag_def mag_units_def floor_log2.simps)
  next
    case False
    then have a: "0 < a" and n: "0 < ?n" by simp_all
    have L: "floor_log2 ?n = floor_log2 a + j" using a by (rule floor_log2_scaled)
    have "(2 :: nat) ^ floor_log2 a < 2 ^ 53" using floor_log2_bounds [OF a] assms(1) by linarith
    then have "floor_log2 a < 53" by (rule power_less_imp_less_exp [rotated]) simp
    then have kj: "k \<le> j" using L by (simp add: k_def)
    define m where "m = a * 2 ^ (j - k)"
    have mk: "?n = m * 2 ^ k" using kj by (simp add: m_def flip: power_add)
    have he: "half_even ?n (1 * 2 ^ k) = m" by (simp add: mk half_even_exact)
    have nb: "2 ^ floor_log2 ?n \<le> ?n" "?n < 2 ^ Suc (floor_log2 ?n)" using floor_log2_bounds [OF n] by auto
    have "(2 :: nat) ^ floor_log2 ?n < 2 ^ 2098" using nb(1) assms(2) by (rule le_less_trans)
    then have "floor_log2 ?n < 2098" by (rule power_less_imp_less_exp [rotated]) simp
    then have k: "k < 2046" by (simp add: k_def)
    have "?n < 2 ^ (53 + k)" using nb(2)
      by (rule less_le_trans) (rule power_increasing, simp_all add: k_def)
    then have m53: "m < 2 ^ 53" by (simp add: mk power_add)
    have m52: "2 ^ 52 \<le> m" if "0 < k"
    proof -
      have "52 + k = floor_log2 ?n" using that by (simp add: k_def)
      then have "2 ^ (52 + k) \<le> m * 2 ^ k" using nb(1) mk by simp
      then show ?thesis by (simp add: power_add)
    qed
    have "k * 2 ^ 52 + m < f64_inf_mag" using k m53 by (simp add: f64_inf_mag_def)
    then have "round_units 52 f64_inf_mag ?n 1 = k * 2 ^ 52 + m"
      unfolding round_units_def Let_def by (simp only: div_by_1 k_def [symmetric] he min_def if_True less_imp_le)
    moreover have "mag_units (k * 2 ^ 52 + m) = m * 2 ^ k" using m53 m52 by (rule mag_units_encode)
    ultimately show ?thesis using \<open>k * 2 ^ 52 + m < f64_inf_mag\<close> mk by simp
  qed
  then show "round_units 52 f64_inf_mag ?n 1 < f64_inf_mag"
    and "mag_units (round_units 52 f64_inf_mag ?n 1) = ?n" by simp_all
qed


section \<open>Order\<close>

lemma mag_units_exp:
  assumes "2 ^ 52 \<le> g"
  shows "2 ^ 52 * 2 ^ (g div 2 ^ 52 - 1) \<le> mag_units g" "mag_units g < 2 ^ 53 * 2 ^ (g div 2 ^ 52 - 1)"
proof -
  have u: "mag_units g = (2 ^ 52 + g mod 2 ^ 52) * 2 ^ (g div 2 ^ 52 - 1)"
    using assms by (simp add: mag_units_def)
  show "2 ^ 52 * 2 ^ (g div 2 ^ 52 - 1) \<le> mag_units g" unfolding u by (rule mult_right_mono) simp_all
  have "g mod 2 ^ 52 < (2 :: nat) ^ 52" by simp
  then have "2 ^ 52 + g mod 2 ^ 52 < (2 :: nat) ^ 53" by simp
  then show "mag_units g < 2 ^ 53 * 2 ^ (g div 2 ^ 52 - 1)" unfolding u
    by (rule mult_strict_right_mono) simp
qed

lemma mag_units_strict_mono: "g < h \<Longrightarrow> mag_units g < mag_units h"
proof -
  assume gh: "g < h"
  let ?e = "\<lambda>g :: nat. g div 2 ^ 52"
  have e: "?e g \<le> ?e h" using gh by (simp add: div_le_mono)
  consider "h < 2 ^ 52" | "g < 2 ^ 52" "2 ^ 52 \<le> h" | "2 ^ 52 \<le> g" "?e g = ?e h" | "2 ^ 52 \<le> g" "?e g < ?e h"
    using e by linarith
  then show ?thesis
  proof cases
    case 1
    then show ?thesis using gh by (simp add: mag_units_def)
  next
    case 2
    then have "mag_units g = g" by (simp add: mag_units_def)
    also have "g < 2 ^ 52 * 2 ^ (?e h - 1)" using 2(1) by (rule less_le_trans) simp
    also have "\<dots> \<le> mag_units h" using 2(2) by (rule mag_units_exp)
    finally show ?thesis .
  next
    case 3
    have "g mod 2 ^ 52 < h mod 2 ^ 52"
      using gh div_mult_mod_eq [of g "2 ^ 52"] div_mult_mod_eq [of h "2 ^ 52"] unfolding 3(2)
      by (metis nat_add_left_cancel_less)
    then show ?thesis using 3 gh by (simp add: mag_units_def)
  next
    case 4
    have "1 \<le> ?e g" using 4(1) by (simp add: less_eq_div_iff_mult_less_eq)
    then have "Suc (?e g - 1) \<le> ?e h - 1" using 4(2) by linarith
    then have "(2 :: nat) ^ 52 * 2 ^ Suc (?e g - 1) \<le> 2 ^ 52 * 2 ^ (?e h - 1)"
      by (intro mult_left_mono power_increasing) simp_all
    then have "2 ^ 53 * 2 ^ (?e g - 1) \<le> (2 :: nat) ^ 52 * 2 ^ (?e h - 1)" by simp
    moreover have "2 ^ 52 \<le> h" using 4(1) gh by linarith
    ultimately show ?thesis using mag_units_exp(2) [OF 4(1)] mag_units_exp(1) [of h] by linarith
  qed
qed

lemma mag_units_less_iff: "mag_units g < mag_units h \<longleftrightarrow> g < h"
  by (metis mag_units_strict_mono not_less_iff_gr_or_eq)

lemma mag_units_0 [simp]: "mag_units 0 = 0"
  by (simp add: mag_units_def)

lemma mag_units_pos_iff: "0 < mag_units g \<longleftrightarrow> 0 < g"
  using mag_units_less_iff [of 0 g] by simp

lemma f64_sign_cases: "f64_sign x = 0 \<or> f64_sign x = 1"
proof -
  have "unat x < 2 ^ LENGTH(64)" by (rule unsigned_less)
  then have "unat x < 2 * 2 ^ 63" by simp
  then have "f64_sign x < 2" unfolding f64_sign_def by (rule less_mult_imp_div_less)
  then show ?thesis by linarith
qed

lemma f64_less_signed:
  "\<not> f64_isnan x \<Longrightarrow> \<not> f64_isnan y \<Longrightarrow> f64_less x y \<longleftrightarrow> f64_signed x < f64_signed y"
  using f64_sign_cases [of x] f64_sign_cases [of y] mag_units_pos_iff [of "f64_mag x"] mag_units_pos_iff [of "f64_mag y"]
  by (auto simp: f64_less_def f64_signed_def f64_units_def mag_units_less_iff)

lemma f64_le_signed:
  "\<not> f64_isnan x \<Longrightarrow> \<not> f64_isnan y \<Longrightarrow> f64_le x y \<longleftrightarrow> f64_signed x \<le> f64_signed y"
  by (auto simp: f64_le_def f64_less_signed)


section \<open>Signs and magnitudes\<close>

lemma f64_mag_less: "f64_mag x < 2 ^ 63"
  by (simp add: f64_mag_def)

lemma f64_exp_mag: "f64_exp x = f64_mag x div 2 ^ 52"
proof -
  have "(2 :: nat) ^ 63 = 2 ^ 52 * 2 ^ 11" by simp
  then have "unat x mod 2 ^ 63 = 2 ^ 52 * (unat x div 2 ^ 52 mod 2 ^ 11) + unat x mod 2 ^ 52"
    by (simp only: mod_mult2_eq)
  then show ?thesis by (simp add: f64_exp_def f64_mag_def)
qed

lemma f64_frac_mag: "f64_frac x = f64_mag x mod 2 ^ 52"
proof -
  have "(2 :: nat) ^ 52 dvd 2 ^ 63" by (rule le_imp_power_dvd) simp
  then show ?thesis by (simp only: f64_frac_def f64_mag_def mod_mod_cancel)
qed

lemma f64_kinds:
  "f64_isnan x \<longleftrightarrow> f64_inf_mag < f64_mag x"
  "f64_isinf x \<longleftrightarrow> f64_mag x = f64_inf_mag"
  "f64_isfinite x \<longleftrightarrow> f64_mag x < f64_inf_mag"
proof -
  let ?e = "f64_mag x div 2 ^ 52" and ?f = "f64_mag x mod 2 ^ 52"
  have m: "f64_mag x = ?e * 2 ^ 52 + ?f" by (rule div_mult_mod_eq [symmetric])
  have "f64_mag x < 2048 * 2 ^ 52" using f64_mag_less [of x] by simp
  then have "?e < 2048" by (rule less_mult_imp_div_less)
  then consider "?e = 2047" | "?e < 2047" by linarith
  then have "(?e = 2047 \<and> ?f \<noteq> 0 \<longleftrightarrow> f64_inf_mag < f64_mag x) \<and>
    (?e = 2047 \<and> ?f = 0 \<longleftrightarrow> f64_mag x = f64_inf_mag) \<and> (?e \<noteq> 2047 \<longleftrightarrow> f64_mag x < f64_inf_mag)"
  proof cases
    case 1
    then show ?thesis using m by (simp add: f64_inf_mag_def) linarith
  next
    case 2
    then have "f64_mag x < 2047 * 2 ^ 52" by (simp add: div_less_iff_less_mult)
    then show ?thesis using 2 by (simp add: f64_inf_mag_def)
  qed
  note r = this
  show "f64_isnan x \<longleftrightarrow> f64_inf_mag < f64_mag x"
    using r [THEN conjunct1] by (simp only: f64_isnan_def f64_exp_mag f64_frac_mag)
  show "f64_isinf x \<longleftrightarrow> f64_mag x = f64_inf_mag"
    using r [THEN conjunct2, THEN conjunct1] by (simp only: f64_isinf_def f64_exp_mag f64_frac_mag)
  show "f64_isfinite x \<longleftrightarrow> f64_mag x < f64_inf_mag"
    using r [THEN conjunct2, THEN conjunct2] by (simp only: f64_isfinite_def f64_exp_mag)
qed

lemma f64_of_mag:
  assumes "s < 2" "g < 2 ^ 63"
  shows "f64_sign (f64_of s 0 g) = s" "f64_mag (f64_of s 0 g) = g"
proof -
  have "s * 2 ^ 63 + g < 2 ^ 64" using assms by simp
  then have u: "unat (f64_of s 0 g) = g + s * 2 ^ 63"
    unfolding f64_of_def by (subst unat_of_nat_small) simp_all
  show "f64_sign (f64_of s 0 g) = s" "f64_mag (f64_of s 0 g) = g"
    using assms(2) unfolding f64_sign_def f64_mag_def u by simp_all
qed

lemma round_units_le: "round_units p l n d \<le> l"
  by (simp add: round_units_def Let_def)

lemma f64_inf_mag_less: "f64_inf_mag < 2 ^ 63"
  by (simp add: f64_inf_mag_def)

lemma f64_round_mag:
  assumes "s < 2"
  shows "f64_sign (f64_round s n d) = s" "f64_mag (f64_round s n d) = round_units 52 f64_inf_mag n d"
    "\<not> f64_isnan (f64_round s n d)"
proof -
  have g: "round_units 52 f64_inf_mag n d < 2 ^ 63"
    using round_units_le f64_inf_mag_less by (rule le_less_trans)
  show "f64_sign (f64_round s n d) = s" and m: "f64_mag (f64_round s n d) = round_units 52 f64_inf_mag n d"
    unfolding f64_round_def by (rule f64_of_mag [OF assms g])+
  show "\<not> f64_isnan (f64_round s n d)" unfolding f64_kinds m using round_units_le by (rule leD)
qed

lemma round_units_pos: "0 < n \<Longrightarrow> 0 < round_units 52 f64_inf_mag n 1"
  by (cases "floor_log2 n - 52") (simp_all add: round_units_def Let_def half_even_def f64_inf_mag_def)

lemma f64_round_int_sign:
  shows "\<not> f64_isnan (f64_round_int z)" "0 < f64_signed (f64_round_int z) \<longleftrightarrow> 0 < z"
    "f64_signed (f64_round_int z) < 0 \<longleftrightarrow> z < 0"
proof -
  let ?s = "if z < 0 then 1 else 0 :: nat"
  have s: "?s < 2" by simp
  show "\<not> f64_isnan (f64_round_int z)" unfolding f64_round_int_def by (rule f64_round_mag(3) [OF s])
  have "0 < mag_units (round_units 52 f64_inf_mag (nat \<bar>z\<bar>) 1) \<longleftrightarrow> z \<noteq> 0"
  proof (cases "z = 0")
    case True
    then show ?thesis by (simp add: round_units_def half_even_def Let_def floor_log2.simps)
  next
    case False
    then show ?thesis using round_units_pos [of "nat \<bar>z\<bar>"] by (simp add: mag_units_pos_iff)
  qed
  then show "0 < f64_signed (f64_round_int z) \<longleftrightarrow> 0 < z" "f64_signed (f64_round_int z) < 0 \<longleftrightarrow> z < 0"
    unfolding f64_round_int_def f64_signed_def f64_units_def f64_round_mag [OF s] by auto
qed

lemma f64_neg_mag: "f64_sign (f64_neg x) = 1 - f64_sign x" "f64_mag (f64_neg x) = f64_mag x"
  unfolding f64_neg_def by (rule f64_of_mag [OF _ f64_mag_less], simp)+

lemma f64_neg_facts:
  "f64_isnan (f64_neg x) = f64_isnan x" "f64_isinf (f64_neg x) = f64_isinf x"
  "f64_signed (f64_neg x) = - f64_signed x"
  using f64_sign_cases [of x] by (auto simp: f64_kinds f64_neg_mag f64_signed_def f64_units_def)


section \<open>Truncation and differences\<close>

lemma mag_units_inf: "mag_units f64_inf_mag = 2 ^ 2098"
proof -
  have i: "f64_inf_mag = 2046 * 2 ^ 52 + 2 ^ 52" by (simp add: f64_inf_mag_def)
  have "mag_units (2046 * 2 ^ 52 + 2 ^ 52) = 2 ^ 52 * 2 ^ 2046" by (rule mag_units_encode) simp_all
  also have "\<dots> = 2 ^ (52 + 2046)" by (simp only: power_add)
  finally show ?thesis unfolding i by simp
qed

lemma finite_units: "g < f64_inf_mag \<Longrightarrow> mag_units g < 2 ^ 2098"
  using mag_units_less_iff [of g f64_inf_mag] unfolding mag_units_inf by blast

lemma whole_units:
  obtains a j where "a < 2 ^ 53" "mag_units g div unit_scale * unit_scale = a * 2 ^ j"
proof (cases "g < 1075 * 2 ^ 52")
  case True
  have "mag_units (1074 * 2 ^ 52 + 2 ^ 52) = 2 ^ 52 * 2 ^ 1074" by (rule mag_units_encode) simp_all
  then have "mag_units g < 2 ^ 52 * unit_scale"
    using mag_units_strict_mono [OF True] by (simp add: unit_scale_def)
  then have "mag_units g div unit_scale < 2 ^ 52" by (rule less_mult_imp_div_less)
  then show ?thesis using that [of "mag_units g div unit_scale" 1074] by (simp add: unit_scale_def)
next
  case False
  then have "1075 \<le> g div 2 ^ 52" by (simp add: less_eq_div_iff_mult_less_eq)
  then have k: "g div 2 ^ 52 - 1 = (g div 2 ^ 52 - 1075) + 1074" by linarith
  define k where "k = g div 2 ^ 52 - 1075"
  note k = k [folded k_def]
  have u: "mag_units g = (2 ^ 52 + g mod 2 ^ 52) * 2 ^ (k + 1074)"
    using False unfolding k [symmetric] by (simp add: mag_units_def)
  then have "mag_units g = (2 ^ 52 + g mod 2 ^ 52) * 2 ^ k * unit_scale"
    by (simp only: unit_scale_def power_add mult.assoc)
  then have "mag_units g div unit_scale * unit_scale = (2 ^ 52 + g mod 2 ^ 52) * 2 ^ (k + 1074)"
    unfolding u [symmetric] by (simp add: unit_scale_def)
  moreover have "2 ^ 52 + g mod 2 ^ 52 < (2 :: nat) ^ 53"
  proof -
    have "g mod 2 ^ 52 < (2 :: nat) ^ 52" by simp
    then show ?thesis by simp
  qed
  ultimately show ?thesis using that by blast
qed

lemma f64_trunc_finite:
  assumes "f64_isfinite x"
  shows "f64_isfinite (f64_trunc x)" "f64_sign (f64_trunc x) = f64_sign x"
    "f64_units (f64_trunc x) = f64_units x div unit_scale * unit_scale"
proof -
  obtain a j where aj: "a < 2 ^ 53" "f64_units x div unit_scale * unit_scale = a * 2 ^ j"
    unfolding f64_units_def by (rule whole_units)
  have "a * 2 ^ j \<le> f64_units x" unfolding aj(2) [symmetric] by simp
  also have "f64_units x < 2 ^ 2098" using assms unfolding f64_units_def f64_kinds by (rule finite_units)
  finally have r: "round_units 52 f64_inf_mag (a * 2 ^ j) 1 < f64_inf_mag"
    "mag_units (round_units 52 f64_inf_mag (a * 2 ^ j) 1) = a * 2 ^ j"
    using round_units_exact [OF aj(1)] by blast+
  have s: "f64_sign x < 2" using f64_sign_cases [of x] by auto
  have t: "f64_trunc x = f64_round (f64_sign x) (a * 2 ^ j) 1"
    using assms by (simp add: f64_trunc_def f64_kinds aj(2))
  show "f64_isfinite (f64_trunc x)" "f64_sign (f64_trunc x) = f64_sign x"
    "f64_units (f64_trunc x) = f64_units x div unit_scale * unit_scale"
    unfolding t f64_kinds f64_units_def f64_round_mag [OF s] using r aj(2) by (simp_all add: f64_units_def)
qed

lemma f64_sub_order:
  assumes "f64_isfinite x" "f64_isfinite y"
  shows "\<not> f64_isnan (f64_sub x y)" "0 < f64_signed (f64_sub x y) \<longleftrightarrow> f64_signed y < f64_signed x"
    "f64_signed (f64_sub x y) < 0 \<longleftrightarrow> f64_signed x < f64_signed y"
proof -
  have k: "\<not> f64_isnan x" "\<not> f64_isinf x" "\<not> f64_isnan y" "\<not> f64_isinf y"
    using assms by (auto simp: f64_kinds)
  let ?z = "f64_signed x - f64_signed y"
  show "\<not> f64_isnan (f64_sub x y)" "0 < f64_signed (f64_sub x y) \<longleftrightarrow> f64_signed y < f64_signed x"
    "f64_signed (f64_sub x y) < 0 \<longleftrightarrow> f64_signed x < f64_signed y"
  proof (atomize (full), cases "?z = 0")
    case True
    then obtain s where "f64_sub x y = f64_of s 0 0" "s < 2"
      using k by (auto simp: f64_sub_def f64_add_def f64_neg_facts)
    then have "f64_mag (f64_sub x y) = 0" using f64_of_mag(2) [of s 0] by simp
    then show "\<not> f64_isnan (f64_sub x y) \<and> (0 < f64_signed (f64_sub x y)) = (f64_signed y < f64_signed x) \<and>
      (f64_signed (f64_sub x y) < 0) = (f64_signed x < f64_signed y)"
      using True by (simp add: f64_kinds f64_signed_def f64_units_def)
  next
    case False
    then have "f64_sub x y = f64_round_int ?z"
      using k by (auto simp: f64_sub_def f64_add_def f64_neg_facts Let_def)
    then show "\<not> f64_isnan (f64_sub x y) \<and> (0 < f64_signed (f64_sub x y)) = (f64_signed y < f64_signed x) \<and>
      (f64_signed (f64_sub x y) < 0) = (f64_signed x < f64_signed y)"
      using f64_round_int_sign [of ?z] by auto
  qed
qed

end
