(* ===== verification/Expr_Program.thy ===== *)
theory Expr_Program
  imports Column_Laws Float_Arith
begin

text \<open>
  The data of the expression engine: parsed expressions (\<open>src/expr.hpp\<close>, the literals of
  \<open>src/cql.hpp\<close>) and their planned form (\<open>src/expr_program.hpp\<close>).  Node, step and operand indexes are
  natural numbers, wrapped to 32 bits where the code narrows or adds them.  Names of constructors that
  other enums also use carry a letter: \<open>C\<close> for \<open>Category\<close>.  The views into \<open>Program::strings\<close> are the
  strings themselves, so that field is not modelled.
\<close>

section \<open>Expressions\<close>

record Limits =
  max_nodes :: nat
  max_depth :: nat

datatype Op =
    kLiteral | kParameter | kColumn | kChunkColumn | kPosX | kPosY | kPosZ | kNow
  | kNegate | kAdd | kSubtract | kMultiply | kDivide | kModulo
  | kLeast | kGreatest | kCoalesce
  | kEqual | kNotEqual | kLess | kLessEqual | kGreater | kGreaterEqual
  | kIsNull | kIsNotNull | kIn | kNotIn | kBetween | kNotBetween | kExists
  | kNot | kAnd | kOr

text \<open>The enumerators in their order, which \<open>IsValue\<close> compares.\<close>

primrec op_code :: "Op \<Rightarrow> nat" where
  "op_code kLiteral = 0" | "op_code kParameter = 1" | "op_code kColumn = 2" | "op_code kChunkColumn = 3"
| "op_code kPosX = 4" | "op_code kPosY = 5" | "op_code kPosZ = 6" | "op_code kNow = 7"
| "op_code kNegate = 8" | "op_code kAdd = 9" | "op_code kSubtract = 10" | "op_code kMultiply = 11"
| "op_code kDivide = 12" | "op_code kModulo = 13" | "op_code kLeast = 14" | "op_code kGreatest = 15"
| "op_code kCoalesce = 16" | "op_code kEqual = 17" | "op_code kNotEqual = 18" | "op_code kLess = 19"
| "op_code kLessEqual = 20" | "op_code kGreater = 21" | "op_code kGreaterEqual = 22" | "op_code kIsNull = 23"
| "op_code kIsNotNull = 24" | "op_code kIn = 25" | "op_code kNotIn = 26" | "op_code kBetween = 27"
| "op_code kNotBetween = 28" | "op_code kExists = 29" | "op_code kNot = 30" | "op_code kAnd = 31"
| "op_code kOr = 32"

definition op_list :: "Op list" where
  "op_list =
    [kLiteral, kParameter, kColumn, kChunkColumn, kPosX, kPosY, kPosZ, kNow,
     kNegate, kAdd, kSubtract, kMultiply, kDivide, kModulo, kLeast, kGreatest, kCoalesce,
     kEqual, kNotEqual, kLess, kLessEqual, kGreater, kGreaterEqual, kIsNull, kIsNotNull,
     kIn, kNotIn, kBetween, kNotBetween, kExists, kNot, kAnd, kOr]"

lemma op_list_code: "op_list ! op_code a = a"
  by (cases a) (simp_all add: op_list_def)

lemma op_code_inj: "op_code a = op_code b \<Longrightarrow> a = b"
  by (metis op_list_code)

instantiation Op :: linorder
begin

definition less_eq_Op :: "Op \<Rightarrow> Op \<Rightarrow> bool" where
  "less_eq_Op a b \<longleftrightarrow> op_code a \<le> op_code b"

definition less_Op :: "Op \<Rightarrow> Op \<Rightarrow> bool" where
  "less_Op a b \<longleftrightarrow> op_code a < op_code b"

instance
  by standard (auto simp: less_eq_Op_def less_Op_def intro: op_code_inj)

end

definition IsValue :: "Op \<Rightarrow> bool" where
  "IsValue op \<longleftrightarrow> op \<le> kCoalesce"

datatype Literal =
    LNull
  | LInteger bool u64
  | LDouble f64
  | LBool bool
  | LText bytes
  | LBytes bytes
  | LBits string
  | LParameter nat

record Node =
  node_op :: Op
  node_column :: nat
  node_literal :: Literal
  node_name :: string
  node_operands :: "nat list"

record Expression =
  nodes :: "Node list"
  expr_root :: nat

record AssignmentExpression =
  as_column :: string
  as_at :: nat
  as_value :: Expression

record ColumnBinding =
  bind_id :: u32
  bind_slot :: nat
  bind_type :: ColumnType
  bind_nullable :: bool

text \<open>The names an expression is planned against: the two virtual functions of \<open>Schema\<close>.\<close>

record ExprSchema =
  BlockColumn :: "string \<Rightarrow> ColumnBinding option"
  ChunkColumn :: "string \<Rightarrow> ColumnBinding option"

record ParameterType =
  par_index :: nat
  par_type :: ColumnType

text \<open>Coordinates are the 64-bit patterns of \<open>std::int64_t\<close>.\<close>

record Inputs =
  in_exists :: bool
  in_block :: "ColumnValue list"
  in_chunk :: "ColumnValue list"
  in_x :: u64
  in_y :: u64
  in_z :: u64
  in_now :: u64
  in_parameters :: "ColumnValue list"

section \<open>Programs\<close>

type_synonym Int128 = "128 word"

datatype Category = kUnknownC | kNullC | kIntC | kFloatC | kBoolC | kTextC | kBytesC | kBitsC

record Value =
  category :: Category
  integer :: Int128
  number :: f64
  boolean :: bool
  val_bytes :: bytes

definition null_value :: Value where
  "null_value = \<lparr>category = kNullC, integer = 0, number = 0, boolean = False, val_bytes = []\<rparr>"

record Step =
  step_op :: Op
  step_category :: Category
  step_column :: nat
  step_first :: nat
  step_count :: nat
  step_slot :: nat
  step_type :: ColumnType
  step_literal :: Value

record Target =
  target_column :: ColumnBinding
  target_name :: string
  target_root :: nat

record Program =
  steps :: "Step list"
  prog_operands :: "nat list"
  prog_root :: nat
  targets :: "Target list"
  target_columns :: "ColumnBinding list"
  prog_parameters :: "ParameterType list"

definition u32_of :: "nat \<Rightarrow> nat" where
  "u32_of n = n mod 2 ^ 32"

text \<open>The digits of bits as the bytes of a view.\<close>

definition digit_bytes :: "string \<Rightarrow> bytes" where
  "digit_bytes s = map (\<lambda>c. of_nat (of_char c)) s"

end
