(* ===== verification/Expr_Eval.thy ===== *)
theory Expr_Eval
  imports Expr_Program "HOL-Library.Signed_Division"
begin

text \<open>
  Evaluation of planned expressions, \<open>src/expr_eval.cpp\<close>: exact 128-bit integers, comparisons across
  integers and floats, three-valued logic, and the recursive evaluator.  The evaluator's first
  argument is the number of stack frames it may use; without one left the result is \<open>Undefined\<close>, so
  that a claim of success bounds the recursion.  \<open>Int128\<close> is the bit pattern of \<open>__int128\<close>, \<open>sint\<close> its value.
  Constructors of \<open>Truth\<close> carry the letter \<open>T\<close>, those of \<open>Order\<close> the letter \<open>O\<close>.
\<close>

section \<open>Integers\<close>

datatype Truth = kFalseT | kTrueT | kUnknownT

datatype Order = kLessO | kEqualO | kGreaterO | kUnorderedO

definition kIntMax :: Int128 where "kIntMax = push_bit 127 1 - 1"
definition kIntMin :: Int128 where "kIntMin = - kIntMax - 1"
definition kLow64 :: Int128 where "kLow64 = 0xFFFFFFFFFFFFFFFF"

definition Overflow :: exn where
  "Overflow = OutOfRange ''an integer result is outside the 128-bit range''"

definition Add :: "Int128 \<Rightarrow> Int128 \<Rightarrow> Int128 res" where
  "Add a b =
    (let out = a + b in if sint ((a XOR out) AND (b XOR out)) < 0 then Inl Overflow else Inr out)"

definition Subtract :: "Int128 \<Rightarrow> Int128 \<Rightarrow> Int128 res" where
  "Subtract a b =
    (let out = a - b in if sint ((a XOR b) AND (a XOR out)) < 0 then Inl Overflow else Inr out)"

definition Magnitude :: "Int128 \<Rightarrow> Int128" where
  "Magnitude v = (if sint v < 0 then 0 - v else v)"

definition Multiply :: "Int128 \<Rightarrow> Int128 \<Rightarrow> Int128 res" where
  "Multiply a b =
    (let x = Magnitude a; y = Magnitude b in
     if x > kLow64 \<and> y > kLow64 then Inl Overflow
     else let small = (if x \<le> kLow64 then x else y);
              big = (if x \<le> kLow64 then y else x);
              high = small * drop_bit 64 big
     in if high > kLow64 then Inl Overflow
     else let low = small * (big AND kLow64);
              product = low + push_bit 64 high
     in if product < low then Inl Overflow
     else let negative = ((sint a < 0) \<noteq> (sint b < 0));
              limit = push_bit 127 1
     in if (if negative then product > limit else product \<ge> limit) then Inl Overflow
     else Inr (if negative then 0 - product else product))"

definition Divide :: "Int128 \<Rightarrow> Int128 \<Rightarrow> Int128 res" where
  "Divide a b =
    (if b = 0 then Inl (InvalidArgument ''division by zero'')
     else if a = kIntMin \<and> b = -1 then Inl Overflow
     else Inr (word_of_int (sint a sdiv sint b)))"

definition Modulo :: "Int128 \<Rightarrow> Int128 \<Rightarrow> Int128 res" where
  "Modulo a b =
    (if b = 0 then Inl (InvalidArgument ''modulo by zero'')
     else Inr (if b = -1 then 0 else word_of_int (sint a smod sint b)))"

definition ToDouble :: "Value \<Rightarrow> f64" where
  "ToDouble v = (if category v = kIntC then f64_of_int (sint (integer v)) else number v)"

section \<open>Comparison\<close>

definition kTwo127 :: f64 where "kTwo127 = 0x47E0000000000000"

definition CompareIntFloat :: "Int128 \<Rightarrow> f64 \<Rightarrow> Order" where
  "CompareIntFloat i x =
    (if f64_isnan x then kUnorderedO
     else if f64_le kTwo127 x then kLessO
     else if f64_less x (f64_neg kTwo127) then kGreaterO
     else let whole = f64_trunc x;
              truncated = word_of_int (f64_to_int whole) :: Int128
     in if i \<noteq> truncated then (if sint i < sint truncated then kLessO else kGreaterO)
     else let fraction = f64_sub x whole
     in if f64_less 0 fraction then kLessO else if f64_less fraction 0 then kGreaterO else kEqualO)"

fun Reverse :: "Order \<Rightarrow> Order" where
  "Reverse kLessO = kGreaterO"
| "Reverse kGreaterO = kLessO"
| "Reverse ord = ord"

text \<open>\<open>std::memcmp\<close> on the common prefix: the first byte that differs decides.\<close>

fun memcmp :: "bytes \<Rightarrow> bytes \<Rightarrow> nat \<Rightarrow> int" where
  "memcmp (a # as) (b # bs) (Suc n) = (if a = b then memcmp as bs n else if a < b then -1 else 1)"
| "memcmp _ _ _ = 0"

definition Compare :: "Value \<Rightarrow> Value \<Rightarrow> Order res" where
  "Compare a b =
    (if category a = kIntC \<and> category b = kIntC then
       Inr (if sint (integer a) < sint (integer b) then kLessO
            else if sint (integer a) > sint (integer b) then kGreaterO else kEqualO)
     else if category a = kIntC \<and> category b = kFloatC then Inr (CompareIntFloat (integer a) (number b))
     else if category a = kFloatC \<and> category b = kIntC then
       Inr (Reverse (CompareIntFloat (integer b) (number a)))
     else if category a = kFloatC \<and> category b = kFloatC then
       Inr (if f64_isnan (number a) \<or> f64_isnan (number b) then kUnorderedO
            else if f64_less (number a) (number b) then kLessO
            else if f64_less (number b) (number a) then kGreaterO else kEqualO)
     else if category a = kBoolC \<and> category b = kBoolC then
       Inr (if boolean a = boolean b then kEqualO else if boolean a then kGreaterO else kLessO)
     else if category a \<noteq> category b then Inl (LogicError ''expression values of different types'')
     else let common = min (length (val_bytes a)) (length (val_bytes b));
              ord = (if common = 0 then 0 else memcmp (val_bytes a) (val_bytes b) common)
     in Inr (if ord \<noteq> 0 then (if ord < 0 then kLessO else kGreaterO)
             else if length (val_bytes a) < length (val_bytes b) then kLessO
             else if length (val_bytes a) > length (val_bytes b) then kGreaterO else kEqualO))"

definition Holds :: "Op \<Rightarrow> Order \<Rightarrow> bool res" where
  "Holds op ord =
    (if ord = kUnorderedO then Inr (op = kNotEqual)
     else case op of
       kEqual \<Rightarrow> Inr (ord = kEqualO)
     | kNotEqual \<Rightarrow> Inr (ord \<noteq> kEqualO)
     | kLess \<Rightarrow> Inr (ord = kLessO)
     | kLessEqual \<Rightarrow> Inr (ord \<noteq> kGreaterO)
     | kGreater \<Rightarrow> Inr (ord = kGreaterO)
     | kGreaterEqual \<Rightarrow> Inr (ord \<noteq> kLessO)
     | _ \<Rightarrow> Inl (LogicError ''not a comparison''))"

fun Not :: "Truth \<Rightarrow> Truth" where
  "Not kTrueT = kFalseT"
| "Not kFalseT = kTrueT"
| "Not kUnknownT = kUnknownT"

definition And :: "Truth \<Rightarrow> Truth \<Rightarrow> Truth" where
  "And a b =
    (if a = kFalseT \<or> b = kFalseT then kFalseT
     else if a = kTrueT \<and> b = kTrueT then kTrueT else kUnknownT)"

definition truth_of :: "bool \<Rightarrow> Truth" where
  "truth_of b = (if b then kTrueT else kFalseT)"

definition Compared :: "Op \<Rightarrow> Value \<Rightarrow> Value \<Rightarrow> Truth res" where
  "Compared op a b =
    (if category a = kNullC \<or> category b = kNullC then Inr kUnknownT
     else rbind (Compare a b) (\<lambda>ord. rbind (Holds op ord) (\<lambda>holds. Inr (truth_of holds))))"

section \<open>Values of columns and parameters\<close>

definition IntegerVal :: "Int128 \<Rightarrow> Value" where
  "IntegerVal n = null_value\<lparr>category := kIntC, integer := n\<rparr>"

definition FloatVal :: "f64 \<Rightarrow> Value" where
  "FloatVal x = null_value\<lparr>category := kFloatC, number := x\<rparr>"

text \<open>\<open>None\<close> where the code returns false.\<close>

definition LoadValue :: "ColumnValue \<Rightarrow> ColumnType \<Rightarrow> Value option" where
  "LoadValue v t =
    (if v = NullV then Some null_value
     else case kind t of
       kUnsigned \<Rightarrow> (case v of UIntV n \<Rightarrow> Some (IntegerVal (word_of_int (uint n))) | _ \<Rightarrow> None)
     | kSigned \<Rightarrow> (case v of SIntV n \<Rightarrow> Some (IntegerVal (word_of_int (sint n))) | _ \<Rightarrow> None)
     | kBool \<Rightarrow> (case v of BoolV b \<Rightarrow> Some (null_value\<lparr>category := kBoolC, boolean := b\<rparr>) | _ \<Rightarrow> None)
     | kFloat32 \<Rightarrow> (case v of FloatV f \<Rightarrow> Some (FloatVal (f32_to_f64 f)) | _ \<Rightarrow> None)
     | kFloat64 \<Rightarrow> (case v of DoubleV d \<Rightarrow> Some (FloatVal d) | _ \<Rightarrow> None)
     | kBits \<Rightarrow> (case v of
           BitsV s \<Rightarrow> if length s = unat (csize t)
             then Some (null_value\<lparr>category := kBitsC, val_bytes := digit_bytes s\<rparr>) else None
         | _ \<Rightarrow> None)
     | kText \<Rightarrow> (case v of TextV bs \<Rightarrow> Some (null_value\<lparr>category := kTextC, val_bytes := bs\<rparr>) | _ \<Rightarrow> None)
     | kBytes \<Rightarrow> (case v of BytesV bs \<Rightarrow> Some (null_value\<lparr>category := kBytesC, val_bytes := bs\<rparr>) | _ \<Rightarrow> None))"

definition Stored :: "ColumnValue list \<Rightarrow> Step \<Rightarrow> Value res" where
  "Stored values step =
    (if step_slot step \<ge> length values then Inl (LogicError ''no value for column slot'')
     else case LoadValue (values ! step_slot step) (step_type step) of
       None \<Rightarrow> Inl (LogicError ''a column value is not of its column's type'')
     | Some v \<Rightarrow> Inr v)"

definition Parameter :: "ColumnValue list \<Rightarrow> Step \<Rightarrow> Value res" where
  "Parameter values step =
    (if step_slot step \<ge> length values then Inl (InvalidArgument ''has no value'')
     else case LoadValue (values ! step_slot step) (step_type step) of
       None \<Rightarrow> Inl (InvalidArgument ''must be a value of its type'')
     | Some v \<Rightarrow> Inr v)"

section \<open>The evaluator\<close>

definition Operand :: "Program \<Rightarrow> Step \<Rightarrow> nat \<Rightarrow> nat res" where
  "Operand program step k = at_index (prog_operands program) (u32_add (step_first step) k)"

definition Widen :: "Value \<Rightarrow> Category \<Rightarrow> Value" where
  "Widen v c =
    (if c = kFloatC \<and> category v = kIntC
     then v\<lparr>number := f64_of_int (sint (integer v)), category := kFloatC\<rparr> else v)"

definition Arithmetic :: "Op \<Rightarrow> Value \<Rightarrow> Value \<Rightarrow> Value res" where
  "Arithmetic op a b =
    (if category a = kNullC \<or> category b = kNullC then Inr null_value
     else if category a = kIntC \<and> category b = kIntC then
       (let x = integer a; y = integer b in
        rbind (case op of kAdd \<Rightarrow> Add x y | kSubtract \<Rightarrow> Subtract x y | kMultiply \<Rightarrow> Multiply x y
                 | kDivide \<Rightarrow> Divide x y | _ \<Rightarrow> Modulo x y)
          (\<lambda>n. Inr (IntegerVal n)))
     else let x = ToDouble a; y = ToDouble b in
       Inr (FloatVal (case op of kAdd \<Rightarrow> f64_add x y | kSubtract \<Rightarrow> f64_sub x y | kMultiply \<Rightarrow> f64_mul x y
                        | kDivide \<Rightarrow> f64_div x y | _ \<Rightarrow> f64_fmod x y)))"

text \<open>
  The value of operand \<open>k\<close> of a step, evaluated by \<open>value\<close>; the argument stands for the recursive call.
\<close>

definition OperandOf :: "(nat \<Rightarrow> 'a res) \<Rightarrow> Program \<Rightarrow> Step \<Rightarrow> nat \<Rightarrow> 'a res" where
  "OperandOf value program step k = rbind (Operand program step k) value"

definition ExtremeStep :: "(nat \<Rightarrow> Value res) \<Rightarrow> Order \<Rightarrow> nat \<Rightarrow> Value \<times> bool \<Rightarrow> (Value \<times> bool) res" where
  "ExtremeStep operand better k = (\<lambda>(best, nan).
    rbind (operand k) (\<lambda>v.
      if category v = kNullC then Inr (best, nan)
      else if category v = kFloatC \<and> f64_isnan (number v) then Inr (best, True)
      else if category best = kNullC then Inr (v, nan)
      else rbind (Compare v best) (\<lambda>ord. Inr (if ord = better then v else best, nan))))"

definition Extreme :: "(nat \<Rightarrow> Value res) \<Rightarrow> Program \<Rightarrow> Step \<Rightarrow> Value res" where
  "Extreme value program step =
    (let better = (if step_op step = kLeast then kLessO else kGreaterO) in
     rbind (rfold (ExtremeStep (OperandOf value program step) better) [0..<step_count step] (null_value, False))
       (\<lambda>(best, nan). Inr (if nan then FloatVal f64_nan else Widen best (step_category step))))"

fun Coalesce :: "(nat \<Rightarrow> Value res) \<Rightarrow> Category \<Rightarrow> nat list \<Rightarrow> Value res" where
  "Coalesce operand c [] = Inr null_value"
| "Coalesce operand c (k # ks) = rbind (operand k) (\<lambda>v.
     if category v \<noteq> kNullC then Inr (Widen v c) else Coalesce operand c ks)"

definition Negated :: "Value \<Rightarrow> Value res" where
  "Negated v =
    (if category v = kIntC then
       (if integer v = kIntMin then Inl Overflow else Inr (v\<lparr>integer := - integer v\<rparr>))
     else if category v = kFloatC then Inr (v\<lparr>number := f64_neg (number v)\<rparr>)
     else Inr v)"

definition ValueStep :: "(nat \<Rightarrow> Value res) \<Rightarrow> Program \<Rightarrow> Inputs \<Rightarrow> Step \<Rightarrow> Value res" where
  "ValueStep value program inputs step =
    (let operand = OperandOf value program step; op = step_op step in
     case op of
       kLiteral \<Rightarrow> Inr (step_literal step)
     | kParameter \<Rightarrow> Parameter (in_parameters inputs) step
     | kColumn \<Rightarrow> if \<not> in_exists inputs then Inr null_value else Stored (in_block inputs) step
     | kChunkColumn \<Rightarrow> Stored (in_chunk inputs) step
     | kPosX \<Rightarrow> Inr (IntegerVal (word_of_int (sint (in_x inputs))))
     | kPosY \<Rightarrow> Inr (IntegerVal (word_of_int (sint (in_y inputs))))
     | kPosZ \<Rightarrow> Inr (IntegerVal (word_of_int (sint (in_z inputs))))
     | kNow \<Rightarrow> Inr (IntegerVal (word_of_int (uint (in_now inputs))))
     | kNegate \<Rightarrow> rbind (operand 0) Negated
     | kLeast \<Rightarrow> Extreme value program step
     | kGreatest \<Rightarrow> Extreme value program step
     | kCoalesce \<Rightarrow> Coalesce operand (step_category step) [0..<step_count step]
     | _ \<Rightarrow> if op \<in> {kAdd, kSubtract, kMultiply, kDivide, kModulo} then
           rbind (operand 0) (\<lambda>a. rbind (operand 1) (\<lambda>b. Arithmetic op a b))
         else Inl (LogicError ''a predicate is not a value''))"

primrec ValueOf :: "nat \<Rightarrow> Program \<Rightarrow> Inputs \<Rightarrow> nat \<Rightarrow> Value res" where
  "ValueOf 0 program inputs i = Inl (Undefined ''stack'')"
| "ValueOf (Suc n) program inputs i =
    rbind (at_index (steps program) i) (ValueStep (ValueOf n program inputs) program inputs)"

definition InItem :: "(nat \<Rightarrow> Value res) \<Rightarrow> Value \<Rightarrow> nat \<Rightarrow> bool \<times> bool \<Rightarrow> (bool \<times> bool) res" where
  "InItem operand v k = (\<lambda>(found, null).
    rbind (operand k) (\<lambda>item.
      if category item = kNullC then Inr (found, True)
      else if category v \<noteq> kNullC then
        rbind (Compare v item) (\<lambda>ord. Inr (found \<or> ord = kEqualO, null))
      else Inr (found, null)))"

definition InList :: "(nat \<Rightarrow> Value res) \<Rightarrow> nat \<Rightarrow> Truth res" where
  "InList operand count =
    rbind (operand 0) (\<lambda>v.
    rbind (rfold (InItem operand v) [1..<count] (False, category v = kNullC)) (\<lambda>(found, null).
      Inr (if category v \<noteq> kNullC \<and> found then kTrueT else if null then kUnknownT else kFalseT)))"

definition BetweenBounds :: "(nat \<Rightarrow> Value res) \<Rightarrow> Truth res" where
  "BetweenBounds operand =
    rbind (operand 0) (\<lambda>v. rbind (operand 1) (\<lambda>low. rbind (operand 2) (\<lambda>high.
      rbind (Compared kGreaterEqual v low) (\<lambda>above. rbind (Compared kLessEqual v high) (\<lambda>below.
        Inr (And above below))))))"

fun Logic :: "(nat \<Rightarrow> Truth res) \<Rightarrow> Truth \<Rightarrow> nat list \<Rightarrow> Truth \<Rightarrow> Truth res" where
  "Logic operand decides [] result = Inr result"
| "Logic operand decides (k # ks) result = rbind (operand k) (\<lambda>truth.
     if truth = decides then Inr decides
     else Logic operand decides ks (if truth = kUnknownT then kUnknownT else result))"

definition TruthOfValue :: "Value \<Rightarrow> Truth res" where
  "TruthOfValue v =
    (if category v = kNullC then Inr kUnknownT
     else if category v \<noteq> kBoolC then Inl (LogicError ''a condition that is not bool'')
     else Inr (truth_of (boolean v)))"

definition TruthStep :: "(nat \<Rightarrow> Value res) \<Rightarrow> (nat \<Rightarrow> Truth res) \<Rightarrow> Program \<Rightarrow> Inputs \<Rightarrow> nat \<Rightarrow> Step \<Rightarrow> Truth res" where
  "TruthStep value truth program inputs i step =
    (let operand = OperandOf value program step; op = step_op step in
     if op \<in> {kEqual, kNotEqual, kLess, kLessEqual, kGreater, kGreaterEqual} then
       rbind (operand 0) (\<lambda>a. rbind (operand 1) (\<lambda>b. Compared op a b))
     else if op = kIsNull \<or> op = kIsNotNull then
       rbind (operand 0) (\<lambda>v. Inr (truth_of ((category v = kNullC) = (op = kIsNull))))
     else if op = kIn \<or> op = kNotIn then
       rbind (InList operand (step_count step)) (\<lambda>t. Inr (if op = kIn then t else Not t))
     else if op = kBetween \<or> op = kNotBetween then
       rbind (BetweenBounds operand) (\<lambda>t. Inr (if op = kBetween then t else Not t))
     else if op = kExists then Inr (truth_of (in_exists inputs))
     else if op = kNot then rbind (OperandOf truth program step 0) (\<lambda>t. Inr (Not t))
     else if op = kAnd \<or> op = kOr then
       (let decides = (if op = kAnd then kFalseT else kTrueT) in
        Logic (OperandOf truth program step) decides [0..<step_count step] (Not decides))
     else rbind (value i) TruthOfValue)"

primrec TruthOf :: "nat \<Rightarrow> Program \<Rightarrow> Inputs \<Rightarrow> nat \<Rightarrow> Truth res" where
  "TruthOf 0 program inputs i = Inl (Undefined ''stack'')"
| "TruthOf (Suc n) program inputs i =
    rbind (at_index (steps program) i)
      (TruthStep (ValueOf n program inputs) (TruthOf n program inputs) program inputs i)"

section \<open>Results\<close>

definition DoesNotHold :: exn where
  "DoesNotHold = OutOfRange ''the column does not hold the value''"

definition StoreInteger :: "ColumnType \<Rightarrow> Value \<Rightarrow> ColumnValue res" where
  "StoreInteger t v =
    (if category v \<noteq> kIntC then Inl (LogicError ''an integer column assigned a value that is not an integer'')
     else let n = sint (integer v); size = unat (csize t) in
       if kind t = kUnsigned then
         (if size > 126 then Inl (Undefined ''shift'')
          else if n < 0 \<or> n > 2 ^ size - 1 then Inl DoesNotHold else Inr (UIntV (word_of_int n)))
       else if size = 0 \<or> size > 127 then Inl (Undefined ''shift'')
       else if n < - (2 ^ (size - 1)) \<or> n \<ge> 2 ^ (size - 1) then Inl DoesNotHold
       else Inr (SIntV (word_of_int n)))"

definition Store :: "Target \<Rightarrow> Value \<Rightarrow> ColumnValue res" where
  "Store target v =
    (let t = bind_type (target_column target) in
     if category v = kNullC then
       (if \<not> bind_nullable (target_column target) then Inl (InvalidArgument ''the column cannot be NULL'')
        else Inr NullV)
     else case kind t of
       kUnsigned \<Rightarrow> StoreInteger t v
     | kSigned \<Rightarrow> StoreInteger t v
     | kFloat32 \<Rightarrow>
         if category v = kIntC then Inr (FloatV (f32_of_int (sint (integer v))))
         else if f64_isfinite (number v) \<and> f64_mag (number v) > f64_mag (f32_to_f64 FLT_MAX) then Inl DoesNotHold
         else Inr (FloatV (f64_to_f32 (number v)))
     | kFloat64 \<Rightarrow> Inr (DoubleV (ToDouble v))
     | kBool \<Rightarrow> Inr (BoolV (boolean v))
     | kText \<Rightarrow>
         if length (val_bytes v) > unat (csize t) then Inl DoesNotHold
         else if \<not> IsUtf8 (val_bytes v) then Inl (InvalidArgument ''the column takes UTF-8 text'')
         else Inr (TextV (val_bytes v))
     | kBytes \<Rightarrow>
         if length (val_bytes v) > unat (csize t) then Inl DoesNotHold else Inr (BytesV (val_bytes v))
     | kBits \<Rightarrow> Inr (BitsV (map (\<lambda>b. char_of (unat b)) (val_bytes v))))"

definition EvaluateCondition :: "nat \<Rightarrow> Program \<Rightarrow> Inputs \<Rightarrow> bool res" where
  "EvaluateCondition stack program inputs =
    rbind (TruthOf stack program inputs (prog_root program)) (\<lambda>truth. Inr (truth = kTrueT))"

definition EvaluateAssignments :: "nat \<Rightarrow> Program \<Rightarrow> Inputs \<Rightarrow> ColumnValue list res" where
  "EvaluateAssignments stack program inputs =
    rfold (\<lambda>target values. rbind (ValueOf stack program inputs (target_root target)) (\<lambda>v.
        rbind (Store target v) (\<lambda>stored. Inr (values @ [stored]))))
      (targets program) []"

end
