(* ===== verification/Expr_Arith_Laws.thy ===== *)
theory Expr_Arith_Laws
  imports Expr_Eval
begin

text \<open>
  The 128-bit integers of the evaluator are exact: an operation returns the mathematical result when
  it has one in range and throws otherwise, without ever relying on a wrapped value.
\<close>

section \<open>Signed 128-bit values\<close>

definition int128_fits :: "int \<Rightarrow> bool" where
  "int128_fits z \<longleftrightarrow> - (2 ^ 127) \<le> z \<and> z < 2 ^ 127"

definition exact128 :: "int \<Rightarrow> Int128 res" where
  "exact128 z = (if int128_fits z then Inr (word_of_int z) else Inl Overflow)"

lemma sint128_bounds: "- (2 ^ 127) \<le> sint (a :: Int128)" "sint (a :: Int128) < 2 ^ 127"
  using sint_ge [of a] sint_lt [of a] by simp_all

lemma sint128_fits [simp]: "int128_fits (sint (a :: Int128))"
  using sint128_bounds [of a] by (simp add: int128_fits_def)

lemma sint128_word_of_int: "int128_fits z \<Longrightarrow> sint (word_of_int z :: Int128) = z"
  unfolding sint_sbintrunc' int128_fits_def by (rule signed_take_bit_int_eq_self) simp_all

lemma sint128_wrap:
  obtains k where "sint (word_of_int z :: Int128) = z + k * 2 ^ 128"
proof
  let ?k = "- ((z + 2 ^ 127) div 2 ^ 128)"
  show "sint (word_of_int z :: Int128) = z + ?k * 2 ^ 128"
    unfolding int_word_sint minus_div_mult_eq_mod [symmetric] by simp
qed

lemma sint128_negative: "sint (a :: Int128) < 0 \<longleftrightarrow> bit a 127"
  using bit_last_iff [of a] by simp

text \<open>A sum of two values in range that leaves the range has wrapped once, to the other sign.\<close>

lemma wrapped_sign:
  assumes x: "- (2 ^ 127) \<le> x" "x < 2 ^ 127" and y: "- (2 ^ 127) \<le> y" "y \<le> 2 ^ 127"
    and z: "z = x + y + k * 2 ^ 128" "int128_fits z" "\<not> int128_fits (x + y)"
  shows "(0 \<le> x \<and> 0 < y \<and> z < 0) \<or> (x < 0 \<and> y < 0 \<and> 0 \<le> z)"
proof -
  consider "2 ^ 127 \<le> x + y" | "x + y < - (2 ^ 127)" using z(3) unfolding int128_fits_def by linarith
  then show ?thesis
  proof cases
    case 1
    have "k < 0" using 1 z(1,2) unfolding int128_fits_def by simp
    then have "z < 0" using x y z(1) by simp
    then show ?thesis using 1 x y by simp
  next
    case 2
    have "0 < k" using 2 z(1,2) unfolding int128_fits_def by simp
    then have "0 \<le> z" using x y z(1) by simp
    then show ?thesis using 2 x y by simp
  qed
qed

lemma Add_exact: "Add a b = exact128 (sint a + sint b)"
proof -
  let ?z = "sint a + sint b" and ?o = "a + b"
  have o: "?o = word_of_int ?z" by simp
  obtain k where k: "sint ?o = ?z + k * 2 ^ 128" unfolding o by (rule sint128_wrap)
  have "((sint a < 0) \<noteq> (sint ?o < 0) \<and> (sint b < 0) \<noteq> (sint ?o < 0)) \<longleftrightarrow> \<not> int128_fits ?z"
  proof (cases "int128_fits ?z")
    case True
    then have "sint ?o = ?z" unfolding o by (rule sint128_word_of_int)
    then show ?thesis using True by auto
  next
    case False
    then show ?thesis
      using wrapped_sign [OF sint128_bounds [of a] sint128_bounds(1) [of b] _ k] sint128_bounds(2) [of b] by auto
  qed
  then show ?thesis unfolding Add_def Let_def exact128_def o [symmetric]
    by (simp add: sint128_negative bit_simps)
qed

lemma Subtract_exact: "Subtract a b = exact128 (sint a - sint b)"
proof -
  let ?z = "sint a - sint b" and ?o = "a - b"
  have o: "?o = word_of_int ?z" by simp
  obtain k where k: "sint ?o = ?z + k * 2 ^ 128" unfolding o by (rule sint128_wrap)
  have "((sint a < 0) \<noteq> (sint b < 0) \<and> (sint a < 0) \<noteq> (sint ?o < 0)) \<longleftrightarrow> \<not> int128_fits ?z"
  proof (cases "int128_fits ?z")
    case True
    then have "sint ?o = ?z" unfolding o by (rule sint128_word_of_int)
    then show ?thesis using True by auto
  next
    case False
    have d: "sint ?o = sint a + - sint b + k * 2 ^ 128" using k by simp
    have "(0 \<le> sint a \<and> 0 < - sint b \<and> sint ?o < 0) \<or> (sint a < 0 \<and> - sint b < 0 \<and> 0 \<le> sint ?o)"
      by (rule wrapped_sign [OF sint128_bounds _ _ d sint128_fits]) (use sint128_bounds [of b] False in simp_all)
    then show ?thesis using False by auto
  qed
  then show ?thesis unfolding Subtract_def Let_def exact128_def o [symmetric]
    by (simp add: sint128_negative bit_simps)
qed


section \<open>Products\<close>

lemma uint128_word_of_int: "0 \<le> z \<Longrightarrow> z < 2 ^ 128 \<Longrightarrow> uint (word_of_int z :: Int128) = z"
  by (simp only: uint_word_of_int take_bit_eq_mod len_num0 len_bit0 len_num1) (simp add: take_bit_eq_mod)

lemma uint_Magnitude: "uint (Magnitude a) = \<bar>sint a\<bar>"
proof -
  have "Magnitude a = word_of_int \<bar>sint a\<bar>"
    by (cases "sint a < 0") (simp_all only: Magnitude_def if_True if_False abs_if of_int_minus of_int_sint diff_0 scast_id)
  moreover have "\<bar>sint a\<bar> < 2 ^ 128" using sint128_bounds [of a] by simp
  ultimately show ?thesis by (simp only: uint128_word_of_int abs_ge_zero)
qed

text \<open>
  The product of two magnitudes, one below \<open>2^64\<close>, from the halves of the other: the code's three
  overflow checks stop exactly the products that do not fit 128 bits.
\<close>

definition Product :: "Int128 \<Rightarrow> Int128 \<Rightarrow> Int128 option" where
  "Product small big =
    (let high = small * drop_bit 64 big in
     if high > kLow64 then None
     else let low = small * (big AND kLow64); product = low + push_bit 64 high in
       if product < low then None else Some product)"

lemma uint128_less: "uint (a :: Int128) < 2 ^ 128"
  using uint_lt2p [of a] by simp

lemma uint128_times: "uint (a * b :: Int128) = uint a * uint b mod 2 ^ 128"
  by (simp add: uint_word_ariths)

lemma uint128_plus: "uint (a + b :: Int128) = (uint a + uint b) mod 2 ^ 128"
  by (simp add: uint_word_ariths)

lemma uint128_drop64: "uint (drop_bit 64 a :: Int128) = uint a div 2 ^ 64"
  by (simp add: drop_bit_eq_div uint_div)

lemma uint128_low64: "uint (a AND kLow64 :: Int128) = uint a mod 2 ^ 64"
proof -
  have "kLow64 = mask 64" by (simp add: kLow64_def mask_eq_exp_minus_1)
  then have "a AND kLow64 = take_bit 64 a" by (simp add: take_bit_eq_mask)
  then show ?thesis by (simp add: take_bit_eq_mod uint_mod)
qed

lemma uint128_push64: "uint (push_bit 64 a :: Int128) = uint a * 2 ^ 64 mod 2 ^ 128"
  by (simp add: push_bit_eq_mult uint128_times)

lemma uint_kLow64: "uint kLow64 = 2 ^ 64 - 1"
  by (simp add: kLow64_def)

lemma half_products:
  fixes s q r :: int
  assumes "0 \<le> s" "s < 2 ^ 64" "0 \<le> q" "q < 2 ^ 64"
  shows "0 \<le> s * q" "s * q < 2 ^ 128"
proof -
  show "0 \<le> s * q" using assms by simp
  have "s * q < 2 ^ 64 * 2 ^ 64" by (rule mult_strict_mono) (use assms in auto)
  then show "s * q < 2 ^ 128" by simp
qed

lemma Product_exact:
  assumes s: "uint small < 2 ^ 64"
  shows "Product small big = (if uint small * uint big < 2 ^ 128 then Some (small * big) else None)"
proof -
  define q where "q = uint big div 2 ^ 64"
  define r where "r = uint big mod 2 ^ 64"
  let ?s = "uint small" and ?h = "small * drop_bit 64 big" and ?l = "small * (big AND kLow64)"
  have b: "uint big = q * 2 ^ 64 + r" unfolding q_def r_def by (rule div_mult_mod_eq [symmetric])
  have q: "0 \<le> q" "q < 2 ^ 64" using uint128_less [of big] uint_ge_0 [of big] by (simp_all add: q_def pos_imp_zdiv_nonneg_iff del: uint_ge_0)
  have r: "0 \<le> r" "r < 2 ^ 64" by (simp_all add: r_def)
  have high: "uint ?h = ?s * q"
    using half_products [OF _ s q] by (simp only: uint128_times uint128_drop64 q_def [symmetric] mod_pos_pos_trivial uint_ge_0)
  have low: "uint ?l = ?s * r"
    using half_products [OF _ s r] by (simp only: uint128_times uint128_low64 r_def [symmetric] mod_pos_pos_trivial uint_ge_0)
  have whole: "?s * uint big = ?s * q * 2 ^ 64 + ?s * r" unfolding b by (simp add: algebra_simps)
  show ?thesis
  proof (cases "?h > kLow64")
    case True
    then have "2 ^ 64 \<le> ?s * q" unfolding word_less_def high uint_kLow64 by simp
    then have "2 ^ 128 \<le> ?s * uint big" using whole half_products(1) [OF _ s r] by simp
    then show ?thesis using True by (simp add: Product_def Let_def)
  next
    case False
    then have h: "?s * q < 2 ^ 64" unfolding word_less_def high uint_kLow64 by simp
    have p: "uint (?l + push_bit 64 ?h) = (?s * uint big) mod 2 ^ 128"
      unfolding uint128_plus uint128_push64 high low whole by (simp add: mod_simps add.commute)
    have e: "?l + push_bit 64 ?h = small * big" by (rule word_uint_eqI) (simp only: p uint128_times)
    show ?thesis
    proof (cases "?s * uint big < 2 ^ 128")
      case fits: True
      have "uint ?l \<le> ?s * uint big" unfolding low whole using q by simp
      then have "\<not> small * big < ?l" unfolding word_less_def uint128_times using fits low by simp
      then show ?thesis using False fits by (simp add: Product_def Let_def e)
    next
      case big: False
      have "?s * uint big < 2 * 2 ^ 128" unfolding whole using h half_products [OF _ s r] by simp
      moreover have "x mod m = x - m" if "m \<le> x" "x < 2 * m" for x m :: int
        using that by (smt (verit) mod_pos_pos_trivial minus_mod_self2)
      ultimately have "uint (small * big) = ?s * uint big - 2 ^ 128"
        unfolding uint128_times using big by simp
      then have "small * big < ?l" unfolding word_less_def low whole using h by (simp add: mult.commute [of q])
      then show ?thesis using False big by (simp add: Product_def Let_def e)
    qed
  qed
qed


lemma Multiply_Product:
  "Multiply a b =
    (let x = Magnitude a; y = Magnitude b; negative = ((sint a < 0) \<noteq> (sint b < 0)) in
     if x > kLow64 \<and> y > kLow64 then Inl Overflow
     else case Product (if x \<le> kLow64 then x else y) (if x \<le> kLow64 then y else x) of
       None \<Rightarrow> Inl Overflow
     | Some p \<Rightarrow> if (if negative then p > push_bit 127 1 else p \<ge> push_bit 127 1) then Inl Overflow
         else Inr (if negative then 0 - p else p))"
  unfolding Multiply_def Product_def Let_def by simp

lemma uint128_half: "uint (push_bit 127 1 :: Int128) = 2 ^ 127"
  by simp

lemma signed_product:
  fixes x y :: int
  shows "x * y = (if (x < 0) \<noteq> (y < 0) then - (\<bar>x\<bar> * \<bar>y\<bar>) else \<bar>x\<bar> * \<bar>y\<bar>)"
  by (cases "x < 0"; cases "y < 0") simp_all

lemma Multiply_exact: "Multiply a b = exact128 (sint a * sint b)"
proof -
  define x y where xy: "x = Magnitude a" "y = Magnitude b"
  define neg where "neg \<longleftrightarrow> ((sint a < 0) \<noteq> (sint b < 0))"
  let ?p = "uint x * uint y"
  have p: "\<bar>sint a\<bar> * \<bar>sint b\<bar> = ?p" unfolding xy uint_Magnitude ..
  have z: "sint a * sint b = (if neg then - ?p else ?p)"
    unfolding signed_product [of "sint a"] p neg_def ..
  have p0: "0 \<le> ?p" by simp
  have lo: "- (2 ^ 127) \<le> ?p" by (rule order_trans [OF _ p0]) simp
  have hi: "- ?p < 2 ^ 127" by (rule le_less_trans [of _ 0]) (use p0 in simp_all)
  have "Multiply a b = (if ?p < 2 ^ 128 then
      if (if neg then x * y > push_bit 127 1 else x * y \<ge> push_bit 127 1) then Inl Overflow
      else Inr (if neg then 0 - x * y else x * y) else Inl Overflow)"
  proof (cases "x > kLow64 \<and> y > kLow64")
    case True
    then have "2 ^ 64 \<le> uint x" "2 ^ 64 \<le> uint y" unfolding word_less_def uint_kLow64 by simp_all
    then have "2 ^ 64 * 2 ^ 64 \<le> ?p" by (intro mult_mono) simp_all
    then show ?thesis using True by (simp add: Multiply_Product Let_def flip: xy)
  next
    case False
    let ?s = "if x \<le> kLow64 then x else y" and ?b = "if x \<le> kLow64 then y else x"
    have "uint ?s < 2 ^ 64" using False unfolding word_less_def word_le_def uint_kLow64 by auto
    then have "Product ?s ?b = (if ?p < 2 ^ 128 then Some (x * y) else None)"
      using Product_exact [of ?s ?b] by (simp add: mult.commute split: if_splits)
    then show ?thesis using False
      unfolding Multiply_Product Let_def neg_def xy [symmetric] by (simp only: if_False) auto
  qed
  moreover have "uint (x * y) = ?p" if "?p < 2 ^ 128"
    unfolding uint128_times by (rule mod_pos_pos_trivial [OF p0 that])
  ultimately show ?thesis
    unfolding exact128_def z int128_fits_def word_less_def word_le_def uint128_half
    using lo hi by (cases neg; cases "?p < 2 ^ 128") simp_all
qed

section \<open>Quotients\<close>

lemma sint128_zero: "sint (b :: Int128) = 0 \<longleftrightarrow> b = 0"
  by (metis sint_0 signed_word_eqI)

lemma kIntMin_sint: "a = kIntMin \<longleftrightarrow> sint a = - (2 ^ 127)"
proof -
  have "sint kIntMin = - (2 ^ 127)" by (simp add: kIntMin_def kIntMax_def)
  then show ?thesis by (metis signed_word_eqI)
qed

lemma minus_one_sint: "b = -1 \<longleftrightarrow> sint (b :: Int128) = -1"
proof -
  have "sint (-1 :: Int128) = -1" by simp
  then show ?thesis by (metis signed_word_eqI)
qed

lemma sdiv_fits:
  fixes x y :: int
  assumes "int128_fits x" "\<not> (x = - (2 ^ 127) \<and> y = -1)"
  shows "int128_fits (x sdiv y)"
proof (rule ccontr)
  assume n: "\<not> int128_fits (x sdiv y)"
  have "- \<bar>x\<bar> \<le> x sdiv y" "x sdiv y \<le> \<bar>x\<bar>" using sdiv_int_range [of x y] by simp_all
  then have "x sdiv y = - x" "x = - (2 ^ 127)" using n assms(1) unfolding int128_fits_def by linarith+
  then show False using assms(2) int_sdiv_negated_is_minus1 [of x y] by simp
qed

lemma smod_fits: "int128_fits y \<Longrightarrow> y \<noteq> 0 \<Longrightarrow> int128_fits (x smod y)"
  using smod_int_range [of y x] by (auto simp: int128_fits_def)

lemma Divide_exact:
  "Divide a b = (if b = 0 then Inl (InvalidArgument ''division by zero'') else exact128 (sint a sdiv sint b))"
proof (cases "a = kIntMin \<and> b = -1")
  case True
  then have "sint a sdiv sint b = 2 ^ 127" "b \<noteq> 0" by (simp_all add: kIntMin_sint)
  then show ?thesis using True by (simp add: Divide_def exact128_def int128_fits_def)
next
  case False
  then have "int128_fits (sint a sdiv sint b)"
    by (intro sdiv_fits) (simp_all add: kIntMin_sint minus_one_sint)
  then show ?thesis using False by (simp add: Divide_def exact128_def)
qed

lemma Modulo_exact:
  "Modulo a b = (if b = 0 then Inl (InvalidArgument ''modulo by zero'') else exact128 (sint a smod sint b))"
  using smod_fits [of "sint b" "sint a"] by (auto simp: Modulo_def exact128_def sint128_zero smod_int_alt_def)


section \<open>Integers against floats\<close>

lemma kTwo127_units: "f64_signed kTwo127 = 2 ^ 127 * int unit_scale" "\<not> f64_isnan kTwo127"
proof -
  have m: "f64_mag kTwo127 = 1149 * 2 ^ 52 + 2 ^ 52" and s: "f64_sign kTwo127 = 0"
    by (simp_all add: kTwo127_def f64_mag_def f64_sign_def)
  have "mag_units (1149 * 2 ^ 52 + 2 ^ 52) = 2 ^ 52 * 2 ^ 1149" by (rule mag_units_encode) simp_all
  also have "\<dots> = 2 ^ (52 + 1149)" by (simp only: power_add)
  also have "\<dots> = 2 ^ (127 + 1074)" by simp
  also have "\<dots> = 2 ^ 127 * unit_scale" by (simp only: power_add unit_scale_def)
  finally show "f64_signed kTwo127 = 2 ^ 127 * int unit_scale"
    unfolding f64_signed_def f64_units_def m s by simp
  show "\<not> f64_isnan kTwo127" unfolding f64_kinds m by (simp add: f64_inf_mag_def)
qed

lemma unit_scale_pos: "0 < unit_scale"
  by (simp add: unit_scale_def)

text \<open>Comparing with the truncated value, and then with the fraction, compares exactly.\<close>

lemma truncated_order:
  fixes u :: nat and i :: int
  defines "q \<equiv> int (u div unit_scale)" and "s \<equiv> int unit_scale"
  shows "i < q \<Longrightarrow> i * s < int u" "q < i \<Longrightarrow> int u < i * s"
    "- q < i \<Longrightarrow> - int u < i * s" "i < - q \<Longrightarrow> i * s < - int u"
proof -
  have s: "0 < s" by (simp add: s_def unit_scale_pos)
  have lo: "q * s \<le> int u" unfolding q_def s_def of_nat_mult [symmetric] by (simp only: of_nat_le_iff div_times_less_eq_dividend)
  have "u < u div unit_scale * unit_scale + unit_scale" using unit_scale_pos
    by (metis add.commute div_mult_mod_eq mod_less_divisor nat_add_left_cancel_less)
  then have hi: "int u < (q + 1) * s" unfolding q_def s_def by (simp add: distrib_right flip: of_nat_mult of_nat_add)
  show "i < q \<Longrightarrow> i * s < int u"
    using lo s by (smt (verit) mult_strict_right_mono)
  show "q < i \<Longrightarrow> int u < i * s"
    using hi s by (smt (verit) mult_right_mono)
  show "- q < i \<Longrightarrow> - int u < i * s"
    using lo s by (smt (verit) mult_strict_right_mono mult_minus_left)
  show "i < - q \<Longrightarrow> i * s < - int u"
    using hi s by (smt (verit) mult_right_mono mult_minus_left)
qed


definition order_of :: "int \<Rightarrow> int \<Rightarrow> Order" where
  "order_of a b = (if a < b then kLessO else if b < a then kGreaterO else kEqualO)"

lemma CompareIntFloat_middle:
  assumes fin: "f64_isfinite x" and range: "- (2 ^ 127 * int unit_scale) \<le> f64_signed x" "f64_signed x < 2 ^ 127 * int unit_scale"
    and code: "CompareIntFloat i x =
      (let whole = f64_trunc x; truncated = word_of_int (f64_to_int whole) :: Int128
       in if i \<noteq> truncated then (if sint i < sint truncated then kLessO else kGreaterO)
       else let fraction = f64_sub x whole
       in if f64_less 0 fraction then kLessO else if f64_less fraction 0 then kGreaterO else kEqualO)"
  shows "CompareIntFloat i x = order_of (sint i * int unit_scale) (f64_signed x)"
proof -
  define q where "q = int (f64_units x div unit_scale)"
  define t where "t = (if f64_sign x = 0 then q else - q)"
  let ?s = "int unit_scale" and ?w = "f64_trunc x"
  note tr = f64_trunc_finite [OF fin]
  have s: "0 < ?s" by (simp add: unit_scale_pos)
  have whole: "f64_to_int ?w = t" "f64_signed ?w = t * ?s"
    unfolding f64_to_int_def f64_signed_def tr t_def q_def using unit_scale_pos by (simp_all add: Let_def)
  have order: "j < t \<Longrightarrow> j * ?s < f64_signed x" "t < j \<Longrightarrow> f64_signed x < j * ?s" for j
    using truncated_order [where i = j and u = "f64_units x"] unfolding t_def q_def f64_signed_def by (auto split: if_splits)
  have "t < 2 ^ 127"
  proof (rule ccontr)
    assume "\<not> t < 2 ^ 127"
    moreover have "0 \<le> q" by (simp add: q_def)
    ultimately have "2 ^ 127 \<le> q" "f64_sign x = 0" unfolding t_def by (auto split: if_splits)
    then have "2 ^ 127 * ?s \<le> q * ?s" using s by (intro mult_right_mono) simp_all
    also have "\<dots> \<le> int (f64_units x)" unfolding q_def of_nat_mult [symmetric]
      by (simp only: of_nat_le_iff div_times_less_eq_dividend)
    finally show False using range(2) \<open>f64_sign x = 0\<close> by (simp add: f64_signed_def)
  qed
  moreover have "- (2 ^ 127) \<le> t" using order(2) [of "- (2 ^ 127)"] range(1) by force
  ultimately have "int128_fits t" unfolding int128_fits_def by simp
  then have st: "sint (word_of_int t :: Int128) = t" by (rule sint128_word_of_int)
  have eq: "i = word_of_int t \<longleftrightarrow> sint i = t" by (metis st signed_word_eqI)
  show ?thesis
  proof (cases "sint i = t")
    case False
    then show ?thesis unfolding code Let_def whole eq st using order [of "sint i"] by (auto simp: order_of_def)
  next
    case True
    have z: "f64_signed 0 = 0" "\<not> f64_isnan 0"
      by (simp_all add: f64_signed_def f64_units_def f64_mag_def f64_isnan_def f64_frac_def)
    note d = f64_sub_order [OF fin tr(1)]
    show ?thesis unfolding code Let_def whole(1) eq
      using True d z whole(2) by (simp add: order_of_def f64_less_signed)
  qed
qed

lemma CompareIntFloat_exact:
  "CompareIntFloat i x =
    (if f64_isnan x then kUnorderedO else order_of (sint i * int unit_scale) (f64_signed x))"
proof (cases "f64_isnan x")
  case True
  then show ?thesis by (simp add: CompareIntFloat_def)
next
  case nan: False
  let ?t = "2 ^ 127 * int unit_scale"
  have s: "0 < int unit_scale" by (simp add: unit_scale_pos)
  have i: "- ?t \<le> sint i * int unit_scale" "sint i * int unit_scale < ?t"
    using sint128_bounds [of i] s by (smt (verit) mult_minus_left mult_right_mono mult_strict_right_mono)+
  have le: "f64_le kTwo127 x \<longleftrightarrow> ?t \<le> f64_signed x"
    using nan kTwo127_units by (simp add: f64_le_signed)
  have less: "f64_less x (f64_neg kTwo127) \<longleftrightarrow> f64_signed x < - ?t"
    using nan kTwo127_units by (simp add: f64_less_signed f64_neg_facts)
  consider "?t \<le> f64_signed x" | "f64_signed x < - ?t" | "- ?t \<le> f64_signed x" "f64_signed x < ?t" by linarith
  then show ?thesis
  proof cases
    case 1
    then show ?thesis using nan i le by (simp add: CompareIntFloat_def order_of_def)
  next
    case 2
    then show ?thesis using nan i le less s by (simp add: CompareIntFloat_def order_of_def)
  next
    case 3
    have "f64_isfinite x"
    proof (rule ccontr)
      assume "\<not> f64_isfinite x"
      then have u: "f64_units x = mag_units f64_inf_mag" using nan by (simp add: f64_kinds f64_units_def)
      have "2 ^ 127 * unit_scale < f64_units x"
        unfolding u mag_units_inf unit_scale_def power_add [symmetric] by (rule power_strict_increasing) simp_all
      then have "int (2 ^ 127 * unit_scale) < int (f64_units x)" by (simp only: of_nat_less_iff)
      then have "?t < int (f64_units x)" by (simp only: of_nat_mult of_nat_power of_nat_numeral)
      then show False using 3 by (simp add: f64_signed_def split: if_splits)
    qed
    then show ?thesis using 3 nan le less by (subst CompareIntFloat_middle) (simp_all add: CompareIntFloat_def)
  qed
qed


section \<open>Properties\<close>

text \<open>
  Claim C7. Integers compute exactly: on any two 128-bit operands the sum, difference, product,
  quotient (truncated toward zero) and remainder (with the sign of the dividend) are the mathematical
  ones whenever these fit 128 bits, and otherwise, and only then, the operation throws
  \<open>std::out_of_range\<close>; division and remainder by zero throw \<open>std::invalid_argument\<close>.  The wrapped
  intermediate values of the sums and the 64-bit halves of the product never show.
\<close>

theorem int128_arithmetic_exact:
  "Add a b = exact128 (sint a + sint b) \<and>
   Subtract a b = exact128 (sint a - sint b) \<and>
   Multiply a b = exact128 (sint a * sint b) \<and>
   Divide a b = (if b = 0 then Inl (InvalidArgument ''division by zero'') else exact128 (sint a sdiv sint b)) \<and>
   Modulo a b = (if b = 0 then Inl (InvalidArgument ''modulo by zero'') else exact128 (sint a smod sint b))"
  by (simp only: Add_exact Subtract_exact Multiply_exact Divide_exact Modulo_exact)

definition is_number :: "Value \<Rightarrow> bool" where
  "is_number v \<longleftrightarrow> category v = kIntC \<or> category v = kFloatC"

definition is_nan :: "Value \<Rightarrow> bool" where
  "is_nan v \<longleftrightarrow> category v = kFloatC \<and> f64_isnan (number v)"

definition units_of :: "Value \<Rightarrow> int" where
  "units_of v = (if category v = kIntC then sint (integer v) * int unit_scale else f64_signed (number v))"

lemma order_of_scaled: "order_of (a * int unit_scale) (b * int unit_scale) = order_of a b"
  using unit_scale_pos by (simp add: order_of_def)

lemma Reverse_order_of: "Reverse (order_of a b) = order_of b a"
  by (auto simp: order_of_def)

text \<open>
  Claim C8. Numbers compare by their exact values: for any two integers or floats, in any mix, the
  order is that of their values as exact multiples of \<open>2\<^sup>-\<^sup>1\<^sup>0\<^sup>7\<^sup>4\<close>, infinities lying beyond every integer,
  and a NaN is unordered.  No integer is rounded to a float for a comparison.
\<close>

theorem Compare_numbers_exact:
  assumes "is_number a" "is_number b"
  shows "Compare a b = Inr (if is_nan a \<or> is_nan b then kUnorderedO else order_of (units_of a) (units_of b))"
  using assms unfolding is_number_def
  by (auto simp: Compare_def is_nan_def units_of_def CompareIntFloat_exact order_of_scaled Reverse_order_of
      order_of_def [of "sint _" "sint _"] order_of_def [of "f64_signed _" "f64_signed _"] f64_less_signed)

theorem Compare_numbers_exact_witness:
  "Compare (IntegerVal 9007199254740993) (FloatVal 0x4340000000000000) = Inr kGreaterO"
  using Compare_numbers_exact [of "IntegerVal 9007199254740993" "FloatVal 0x4340000000000000"]
  by (simp add: is_number_def is_nan_def units_of_def IntegerVal_def FloatVal_def null_value_def order_of_def
      unit_scale_def f64_signed_def f64_units_def mag_units_def f64_mag_def f64_sign_def f64_isnan_def f64_exp_def)

end
