(* ===== verification/Expr_Plan.thy ===== *)
theory Expr_Plan
  imports Expr_Program
begin

text \<open>
  Planning of expressions, the second half of \<open>src/expr.cpp\<close>: the checks of the node array, the static
  types, the types parameters take from what they meet, and the compilation to steps.  A
  \<open>cql::ParseError\<close> is an \<open>std::invalid_argument\<close>; of a message only its constant words are kept, so
  \<open>Describe\<close> and \<open>OpName\<close>, which name types and operators in messages, are not modelled.
\<close>

section \<open>Static types\<close>

definition kI64 :: ColumnType where "kI64 = \<lparr>kind = kSigned, csize = 64\<rparr>"
definition kU64 :: ColumnType where "kU64 = \<lparr>kind = kUnsigned, csize = 64\<rparr>"
definition kF32 :: ColumnType where "kF32 = \<lparr>kind = kFloat32, csize = 32\<rparr>"
definition kF64 :: ColumnType where "kF64 = \<lparr>kind = kFloat64, csize = 64\<rparr>"

record ExprType =
  ty_category :: Category
  ty_typed :: bool
  ty_repr :: ColumnType

definition no_column :: ColumnType where
  "no_column = \<lparr>kind = kBits, csize = 0\<rparr>"

definition plain :: "Category \<Rightarrow> ExprType" where
  "plain c = \<lparr>ty_category = c, ty_typed = False, ty_repr = no_column\<rparr>"

definition IsOpen :: "Category \<Rightarrow> bool" where
  "IsOpen c \<longleftrightarrow> c = kUnknownC \<or> c = kNullC"

definition IsNumber :: "Category \<Rightarrow> bool" where
  "IsNumber c \<longleftrightarrow> c = kIntC \<or> c = kFloatC"

fun CategoryOf :: "ColumnKind \<Rightarrow> Category" where
  "CategoryOf kUnsigned = kIntC"
| "CategoryOf kSigned = kIntC"
| "CategoryOf kFloat32 = kFloatC"
| "CategoryOf kFloat64 = kFloatC"
| "CategoryOf kBool = kBoolC"
| "CategoryOf kText = kTextC"
| "CategoryOf kBytes = kBytesC"
| "CategoryOf kBits = kBitsC"

definition TypeOf :: "ColumnType \<Rightarrow> ExprType" where
  "TypeOf t = \<lparr>ty_category = CategoryOf (kind t), ty_typed = True, ty_repr = t\<rparr>"

fun LiteralType :: "Literal \<Rightarrow> ExprType" where
  "LiteralType (LInteger neg m) = \<lparr>ty_category = kIntC, ty_typed = False, ty_repr = kI64\<rparr>"
| "LiteralType (LDouble d) = \<lparr>ty_category = kFloatC, ty_typed = False, ty_repr = kF64\<rparr>"
| "LiteralType (LBool b) = \<lparr>ty_category = kBoolC, ty_typed = False, ty_repr = \<lparr>kind = kBool, csize = 1\<rparr>\<rparr>"
| "LiteralType (LText s) = \<lparr>ty_category = kTextC, ty_typed = False, ty_repr = \<lparr>kind = kText, csize = 0\<rparr>\<rparr>"
| "LiteralType (LBytes s) = \<lparr>ty_category = kBytesC, ty_typed = False, ty_repr = \<lparr>kind = kBytes, csize = 0\<rparr>\<rparr>"
| "LiteralType (LBits s) =
    \<lparr>ty_category = kBitsC, ty_typed = False, ty_repr = \<lparr>kind = kBits, csize = of_nat (length s)\<rparr>\<rparr>"
| "LiteralType (LParameter n) = plain kUnknownC"
| "LiteralType LNull = plain kNullC"

definition TypeError :: "string \<Rightarrow> exn" where
  "TypeError m = InvalidArgument m"

definition Malformed :: "string \<Rightarrow> exn" where
  "Malformed m = InvalidArgument (''malformed expression: '' @ m)"

definition is_f32 :: "ExprType \<Rightarrow> bool" where
  "is_f32 t \<longleftrightarrow> ty_category t = kFloatC \<and> ty_typed t \<and> kind (ty_repr t) = kFloat32"

definition MergeNumbers :: "ExprType \<Rightarrow> ExprType \<Rightarrow> ExprType" where
  "MergeNumbers a b =
    (if IsOpen (ty_category a) \<and> IsOpen (ty_category b) then
       plain (if ty_category a = kUnknownC \<or> ty_category b = kUnknownC then kUnknownC else kNullC)
     else if IsOpen (ty_category a) then b
     else if IsOpen (ty_category b) then a
     else if ty_category a = kFloatC \<or> ty_category b = kFloatC then
       \<lparr>ty_category = kFloatC, ty_typed = ty_typed a \<or> ty_typed b,
        ty_repr = (if is_f32 a \<and> is_f32 b then kF32 else kF64)\<rparr>
     else \<lparr>ty_category = kIntC, ty_typed = ty_typed a \<or> ty_typed b,
        ty_repr =
          (if ty_typed a \<and> ty_typed b then
             (if ty_repr a = ty_repr b then ty_repr a
              else if kind (ty_repr a) = kSigned \<or> kind (ty_repr b) = kSigned then kI64 else kU64)
           else if ty_typed a then ty_repr a else if ty_typed b then ty_repr b else kI64)\<rparr>)"

definition MergeAny :: "ExprType \<Rightarrow> ExprType \<Rightarrow> ExprType res" where
  "MergeAny a b =
    (let ca = ty_category a; cb = ty_category b in
     if IsOpen ca \<or> IsOpen cb \<or> (IsNumber ca \<and> IsNumber cb) then
       (if IsOpen ca \<and> \<not> IsOpen cb then Inr b
        else if IsOpen cb \<and> \<not> IsOpen ca then Inr a
        else Inr (MergeNumbers a b))
     else if ca \<noteq> cb \<or> (ca = kBitsC \<and> csize (ty_repr a) \<noteq> csize (ty_repr b)) then
       Inl (TypeError ''takes arguments of one type'')
     else Inr (if ty_typed a then a else b))"

definition CheckComparable :: "ExprType \<Rightarrow> ExprType \<Rightarrow> Op \<Rightarrow> unit res" where
  "CheckComparable left right op =
    (let l = ty_category left; r = ty_category right in
     if IsOpen l \<and> IsOpen r then Inr ()
     else let known = (if \<not> IsOpen l then l else r);
              numbers = (IsNumber l \<and> IsNumber r);
              same = (l = r \<and> (l \<noteq> kBitsC \<or> csize (ty_repr left) = csize (ty_repr right)));
              equality = (op = kEqual \<or> op = kNotEqual)
     in if \<not> IsOpen l \<and> \<not> IsOpen r \<and> \<not> numbers \<and> \<not> same then Inl (TypeError ''cannot compare'')
     else if (known = kBoolC \<or> known = kBitsC) \<and> \<not> equality then Inl (TypeError ''supports only = and <>'')
     else Inr ())"

definition OperandCount :: "Op \<Rightarrow> nat \<Rightarrow> nat" where
  "OperandCount op given =
    (if op \<in> {kLiteral, kParameter, kColumn, kChunkColumn, kPosX, kPosY, kPosZ, kNow, kExists} then 0
     else if op \<in> {kNegate, kIsNull, kIsNotNull, kNot} then 1
     else if op \<in> {kBetween, kNotBetween} then 3
     else if op \<in> {kLeast, kGreatest, kCoalesce} then (if given \<ge> 1 then given else 1)
     else if op \<in> {kIn, kNotIn, kAnd, kOr} then (if given \<ge> 2 then given else 2)
     else 2)"

section \<open>The checks of the node array\<close>

definition is_logic :: "Op \<Rightarrow> bool" where
  "is_logic op \<longleftrightarrow> op = kNot \<or> op = kAnd \<or> op = kOr"

definition CheckOperand :: "Node list \<Rightarrow> nat \<Rightarrow> nat \<Rightarrow> nat list \<times> bool list \<Rightarrow> (nat list \<times> bool list) res" where
  "CheckOperand ns i operand = (\<lambda>(depths, used).
    if operand \<ge> i then Inl (Malformed ''an operand must come before its node'')
    else if used ! operand then Inl (Malformed ''a node is an operand twice'')
    else if \<not> is_logic (node_op (ns ! i)) \<and> \<not> IsValue (node_op (ns ! operand)) then
      Inl (Malformed ''a predicate cannot be an operand of a value'')
    else Inr (depths[i := max (depths ! i) (depths ! operand + 1)], used[operand := True]))"

fun is_parameter :: "Literal \<Rightarrow> bool" where
  "is_parameter (LParameter n) = True"
| "is_parameter _ = False"

definition CheckNode :: "Node list \<Rightarrow> Limits \<Rightarrow> nat \<Rightarrow> nat list \<times> bool list \<Rightarrow> (nat list \<times> bool list) res" where
  "CheckNode ns limits i state =
    (let node = ns ! i in
     if OperandCount (node_op node) (length (node_operands node)) \<noteq> length (node_operands node) then
       Inl (Malformed ''wrong number of operands'')
     else if (node_op node = kParameter) \<noteq> is_parameter (node_literal node) then
       Inl (Malformed ''a parameter must be a kParameter node'')
     else rbind (rfold (CheckOperand ns i) (node_operands node) state) (\<lambda>(depths, used).
       if depths ! i > max_depth limits then Inl (InvalidArgument ''the expression is nested too deeply'')
       else Inr (depths, used)))"

definition CheckNodes :: "Expression \<Rightarrow> Limits \<Rightarrow> unit res" where
  "CheckNodes e limits =
    (let n = length (nodes e) in
     if nodes e = [] \<or> expr_root e \<ge> n then Inl (Malformed ''no root'')
     else if n > max_nodes limits then Inl (InvalidArgument ''the expression is too long'')
     else rbind (rfold (CheckNode (nodes e) limits) [0..<n] (replicate n 1, replicate n False)) (\<lambda>_. Inr ()))"

section \<open>Typing\<close>

definition TypeAt :: "ExprType list \<Rightarrow> nat list \<Rightarrow> nat \<Rightarrow> ExprType res" where
  "TypeAt types ops k = rbind (at_index ops k) (at_index types)"

definition CheckTruth :: "Node list \<Rightarrow> ExprType list \<Rightarrow> nat \<Rightarrow> unit res" where
  "CheckTruth ns types index =
    rbind (at_index ns index) (\<lambda>node.
      if \<not> IsValue (node_op node) then Inr ()
      else rbind (at_index types index) (\<lambda>t.
        if ty_category t \<noteq> kBoolC \<and> \<not> IsOpen (ty_category t) then Inl (TypeError ''a condition must be bool'')
        else Inr ()))"

definition RequireNumber :: "ExprType \<Rightarrow> unit res" where
  "RequireNumber t =
    (if \<not> IsNumber (ty_category t) \<and> \<not> IsOpen (ty_category t) then Inl (TypeError ''takes numbers'') else Inr ())"

definition InferNegate :: "ExprType \<Rightarrow> ExprType res" where
  "InferNegate t =
    rbind (RequireNumber t) (\<lambda>_.
      Inr (if ty_category t = kIntC \<and> ty_typed t \<and> kind (ty_repr t) = kUnsigned then t\<lparr>ty_repr := kI64\<rparr> else t))"

definition InferArithmetic :: "ExprType \<Rightarrow> ExprType \<Rightarrow> ExprType res" where
  "InferArithmetic a b =
    rbind (RequireNumber a) (\<lambda>_. rbind (RequireNumber b) (\<lambda>_. Inr (MergeNumbers a b)))"

definition InferExtreme :: "ExprType list \<Rightarrow> nat list \<Rightarrow> ExprType res" where
  "InferExtreme types ops =
    rfold (\<lambda>k t. rbind (TypeAt types ops k) (\<lambda>tk. rbind (RequireNumber tk) (\<lambda>_.
        Inr (if k = 0 then tk else MergeNumbers t tk))))
      [0..<length ops] (plain kNullC)"

definition InferCoalesce :: "ExprType list \<Rightarrow> nat list \<Rightarrow> ExprType res" where
  "InferCoalesce types ops =
    rbind (TypeAt types ops 0) (\<lambda>t.
      rfold (\<lambda>k t. rbind (TypeAt types ops k) (\<lambda>tk. MergeAny t tk)) [1..<length ops] t)"

definition FirstKnown :: "ExprType list \<Rightarrow> nat list \<Rightarrow> ExprType option res" where
  "FirstKnown types ops =
    rfold (\<lambda>operand known. rbind (at_index types operand) (\<lambda>t.
        Inr (if known = None \<and> \<not> IsOpen (ty_category t) then Some t else known)))
      ops None"

definition CheckIn :: "ExprType list \<Rightarrow> nat list \<Rightarrow> unit res" where
  "CheckIn types ops =
    rbind (FirstKnown types ops) (\<lambda>known. case known of
      None \<Rightarrow> Inr ()
    | Some k \<Rightarrow> rfold (\<lambda>operand _. rbind (at_index types operand) (\<lambda>t. CheckComparable k t kEqual)) ops ())"

definition CheckBetween :: "ExprType \<Rightarrow> ExprType \<Rightarrow> ExprType \<Rightarrow> unit res" where
  "CheckBetween tested low high =
    (let v = (if IsOpen (ty_category tested) then (if \<not> IsOpen (ty_category low) then low else high) else tested)
     in rbind (CheckComparable v low kGreaterEqual) (\<lambda>_. CheckComparable v high kLessEqual))"

definition BindingOf :: "ExprSchema \<Rightarrow> Node \<Rightarrow> ColumnBinding option \<Rightarrow> ColumnBinding res" where
  "BindingOf schema node bound =
    (case bound of Some b \<Rightarrow> Inr b
     | None \<Rightarrow> (case (if node_op node = kChunkColumn then ChunkColumn schema (node_name node)
                       else BlockColumn schema (node_name node)) of
         None \<Rightarrow> Inl (InvalidArgument ''the table has no column'')
       | Some b \<Rightarrow> Inr b))"

definition InferOperator :: "Node list \<Rightarrow> ExprType list \<Rightarrow> Op \<Rightarrow> nat list \<Rightarrow> ExprType res" where
  "InferOperator ns types op ops =
    (let at = TypeAt types ops; bool = (\<lambda>_ :: unit. Inr (plain kBoolC)) in
     if op = kNegate then rbind (at 0) InferNegate
     else if op \<in> {kAdd, kSubtract, kMultiply, kDivide, kModulo} then
       rbind (at 0) (\<lambda>a. rbind (at 1) (\<lambda>b. InferArithmetic a b))
     else if op \<in> {kLeast, kGreatest} then InferExtreme types ops
     else if op = kCoalesce then InferCoalesce types ops
     else if op \<in> {kEqual, kNotEqual, kLess, kLessEqual, kGreater, kGreaterEqual} then
       rbind (at 0) (\<lambda>a. rbind (at 1) (\<lambda>b. rbind (CheckComparable a b op) bool))
     else if op \<in> {kIn, kNotIn} then rbind (CheckIn types ops) bool
     else if op \<in> {kBetween, kNotBetween} then
       rbind (at 0) (\<lambda>v. rbind (at 1) (\<lambda>low. rbind (at 2) (\<lambda>high. rbind (CheckBetween v low high) bool)))
     else if op \<in> {kNot, kAnd, kOr} then rbind (rfold (\<lambda>operand _. CheckTruth ns types operand) ops ()) bool
     else bool ())"

definition InferNode ::
    "Node list \<Rightarrow> bool \<Rightarrow> ExprSchema \<Rightarrow> ColumnType option list \<Rightarrow> nat \<Rightarrow> ExprType list \<times> ColumnBinding option list \<Rightarrow>
      (ExprType list \<times> ColumnBinding option list) res" where
  "InferNode ns bound schema declared i = (\<lambda>(types, bindings).
    let node = ns ! i; typed = (\<lambda>t. Inr (types[i := t], bindings)) in
    case node_op node of
      kLiteral \<Rightarrow> typed (LiteralType (node_literal node))
    | kParameter \<Rightarrow>
        if bound then (case declared ! i of None \<Rightarrow> Inl (Undefined ''optional'') | Some t \<Rightarrow> typed (TypeOf t))
        else typed (plain kUnknownC)
    | kPosX \<Rightarrow> typed (TypeOf kI64)
    | kPosY \<Rightarrow> typed (TypeOf kI64)
    | kPosZ \<Rightarrow> typed (TypeOf kI64)
    | kNow \<Rightarrow> typed (TypeOf kU64)
    | _ \<Rightarrow>
        if node_op node = kColumn \<or> node_op node = kChunkColumn then
          rbind (BindingOf schema node (bindings ! i)) (\<lambda>b.
            Inr (types[i := TypeOf (bind_type b)], bindings[i := Some b]))
        else rbind (InferOperator ns types (node_op node) (node_operands node)) typed)"

definition Infer ::
    "Node list \<Rightarrow> bool \<Rightarrow> ExprSchema \<Rightarrow> ColumnType option list \<Rightarrow> ExprType list \<times> ColumnBinding option list \<Rightarrow>
      (ExprType list \<times> ColumnBinding option list) res" where
  "Infer ns bound schema declared = rfold (InferNode ns bound schema declared) [0..<length ns]"

section \<open>Binding of parameters\<close>

definition typed_at :: "ExprType list \<Rightarrow> nat list \<Rightarrow> nat \<Rightarrow> ExprType option res" where
  "typed_at types ops k = rbind (TypeAt types ops k) (\<lambda>t. Inr (if ty_typed t then Some t else None))"

definition SetContext :: "ExprType option \<Rightarrow> nat list \<Rightarrow> ExprType option list \<Rightarrow> ExprType option list res" where
  "SetContext c = rfold (\<lambda>operand context. put_index context operand c)"

definition BetweenContext :: "ExprType option \<Rightarrow> ExprType option \<Rightarrow> ExprType option \<Rightarrow> ExprType option" where
  "BetweenContext tested low high =
    (case tested of Some t \<Rightarrow> Some t
     | None \<Rightarrow> (case (low, high) of
         (Some l, Some h) \<Rightarrow>
           if IsNumber (ty_category l) \<and> IsNumber (ty_category h) then Some (MergeNumbers l h) else Some l
       | (Some l, None) \<Rightarrow> Some l
       | (None, _) \<Rightarrow> high))"

definition BindNode ::
    "Node list \<Rightarrow> ExprType list \<Rightarrow> nat \<Rightarrow> ExprType option list \<times> ColumnType option list \<Rightarrow>
      (ExprType option list \<times> ColumnType option list) res" where
  "BindNode ns types i = (\<lambda>(context, declared).
    let node = ns ! i; op = node_op node; ops = node_operands node;
        own = (case context ! i of Some c \<Rightarrow> if \<not> ty_typed (types ! i) then c else types ! i | None \<Rightarrow> types ! i);
        down = (if ty_typed own then Some own else None);
        keep = (\<lambda>context. Inr (context, declared))
    in if op = kParameter then
         (if \<not> ty_typed own then Inl (TypeError ''has no column to take its type from'')
          else Inr (context, declared[i := Some (ty_repr own)]))
       else if op \<in> {kNegate, kAdd, kSubtract, kMultiply, kDivide, kModulo, kLeast, kGreatest, kCoalesce} then
         rbind (SetContext down ops context) keep
       else if op \<in> {kEqual, kNotEqual, kLess, kLessEqual, kGreater, kGreaterEqual} then
         rbind (typed_at types ops 1) (\<lambda>right. rbind (typed_at types ops 0) (\<lambda>left.
           rbind (SetContext right [ops ! 0] context) (\<lambda>context.
             rbind (SetContext left [ops ! 1] context) keep)))
       else if op \<in> {kIn, kNotIn} then
         rbind (typed_at types ops 0) (\<lambda>tested. rbind (SetContext tested (tl ops) context) keep)
       else if op \<in> {kBetween, kNotBetween} then
         rbind (typed_at types ops 0) (\<lambda>tested. rbind (typed_at types ops 1) (\<lambda>low.
           rbind (typed_at types ops 2) (\<lambda>high.
             rbind (SetContext (BetweenContext tested low high) ops context) keep)))
       else Inr (context, declared))"

definition Bind ::
    "Expression \<Rightarrow> ExprType list \<Rightarrow> ExprType option \<Rightarrow> ColumnType option list res" where
  "Bind e types target =
    (let n = length (nodes e) in
     rbind (rfold (BindNode (nodes e) types) (rev [0..<n])
         ((replicate n None)[expr_root e := target], replicate n None))
       (\<lambda>(context, declared). Inr declared))"

section \<open>Compilation\<close>

definition LiteralValue :: "ExprType \<Rightarrow> Literal \<Rightarrow> Value" where
  "LiteralValue t literal =
    (let v = null_value\<lparr>category := ty_category t\<rparr> in
     case literal of
       LInteger neg m \<Rightarrow> v\<lparr>integer := (if neg then - word_of_int (uint m) else word_of_int (uint m))\<rparr>
     | LDouble d \<Rightarrow> v\<lparr>number := d\<rparr>
     | LBool b \<Rightarrow> v\<lparr>boolean := b\<rparr>
     | LText s \<Rightarrow> v\<lparr>val_bytes := s\<rparr>
     | LBytes s \<Rightarrow> v\<lparr>val_bytes := s\<rparr>
     | LBits s \<Rightarrow> v\<lparr>val_bytes := digit_bytes s\<rparr>
     | LParameter n \<Rightarrow> v
     | LNull \<Rightarrow> v)"

fun ParameterIndex :: "Literal \<Rightarrow> nat res" where
  "ParameterIndex (LParameter n) = Inr n"
| "ParameterIndex _ = Inl BadVariantAccess"

text \<open>A default \<open>Step\<close> with the fields every node sets.\<close>

definition new_step :: "nat \<Rightarrow> Node \<Rightarrow> ExprType \<Rightarrow> Step" where
  "new_step first node t =
    \<lparr>step_op = node_op node, step_category = ty_category t, step_column = node_column node,
     step_first = u32_of first, step_count = u32_of (length (node_operands node)), step_slot = 0,
     step_type = no_column, step_literal = null_value\<rparr>"

definition CompileNode ::
    "Node list \<Rightarrow> ExprType list \<Rightarrow> ColumnBinding option list \<Rightarrow> ColumnType option list \<Rightarrow> nat \<Rightarrow> nat \<Rightarrow> Program \<Rightarrow>
      Program res" where
  "CompileNode ns types bindings declared offset i program =
    (let node = ns ! i; step = new_step (length (prog_operands program)) node (types ! i);
         program = program\<lparr>prog_operands := prog_operands program @ map (u32_add offset) (node_operands node)\<rparr>;
         push = (\<lambda>step program. Inr (program\<lparr>steps := steps program @ [step]\<rparr>))
     in if node_op node = kColumn \<or> node_op node = kChunkColumn then
          (case bindings ! i of None \<Rightarrow> Inl (Undefined ''optional'')
           | Some b \<Rightarrow> push (step\<lparr>step_slot := bind_slot b, step_type := bind_type b\<rparr>) program)
        else if node_op node = kParameter then
          rbind (ParameterIndex (node_literal node)) (\<lambda>index.
            case declared ! i of None \<Rightarrow> Inl (Undefined ''optional'')
            | Some t \<Rightarrow> push (step\<lparr>step_slot := size_add index (2 ^ 64 - 1), step_type := t\<rparr>)
                (program\<lparr>prog_parameters := prog_parameters program @ [\<lparr>par_index = index, par_type = t\<rparr>]\<rparr>))
        else if node_op node = kLiteral then
          push (step\<lparr>step_literal := LiteralValue (types ! i) (node_literal node)\<rparr>) program
        else push step program)"

definition Compile ::
    "Expression \<Rightarrow> ExprType list \<Rightarrow> ColumnBinding option list \<Rightarrow> ColumnType option list \<Rightarrow> Program \<Rightarrow>
      (nat \<times> Program) res" where
  "Compile e types bindings declared program =
    (let offset = u32_of (length (steps program)) in
     rbind (rfold (CompileNode (nodes e) types bindings declared offset) [0..<length (nodes e)] program)
       (\<lambda>program. Inr (u32_add offset (expr_root e), program)))"

text \<open>\<open>Plan\<close> also returns the type of the root, which \<open>RootType\<close> reads afterwards.\<close>

definition Plan ::
    "Expression \<Rightarrow> ExprSchema \<Rightarrow> ExprType option \<Rightarrow> Program \<Rightarrow> (nat \<times> ExprType \<times> Program) res" where
  "Plan e schema target program =
    (let ns = nodes e; n = length ns in
     if target \<noteq> None \<and> \<not> IsValue (node_op (ns ! expr_root e)) then
       Inl (Malformed ''an assignment takes a value'')
     else
       rbind (Infer ns False schema (replicate n None) (replicate n (plain kNullC), replicate n None))
         (\<lambda>(types, bindings).
       rbind (if target = None then CheckTruth ns types (expr_root e) else Inr ()) (\<lambda>_.
       rbind (Bind e types target) (\<lambda>declared.
       rbind (Infer ns True schema declared (types, bindings)) (\<lambda>(types, bindings).
       rbind (Compile e types bindings declared program) (\<lambda>(root, program).
         Inr (root, types ! expr_root e, program)))))))"

definition Planner ::
    "Expression \<Rightarrow> ExprSchema \<Rightarrow> Limits \<Rightarrow> ExprType option \<Rightarrow> Program \<Rightarrow> (nat \<times> ExprType \<times> Program) res" where
  "Planner e schema limits target program =
    rbind (CheckNodes e limits) (\<lambda>_. Plan e schema target program)"

definition SortParameters :: "Program \<Rightarrow> Program" where
  "SortParameters program = program\<lparr>prog_parameters := sort_key par_index (prog_parameters program)\<rparr>"

section \<open>Plans\<close>

definition empty_program :: Program where
  "empty_program =
    \<lparr>steps = [], prog_operands = [], prog_root = 0, targets = [], target_columns = [], prog_parameters = []\<rparr>"

definition PlanCondition :: "Expression \<Rightarrow> ExprSchema \<Rightarrow> Limits \<Rightarrow> Program res" where
  "PlanCondition condition schema limits =
    rbind (Planner condition schema limits None empty_program) (\<lambda>(root, t, program).
      Inr (SortParameters (program\<lparr>prog_root := root\<rparr>)))"

definition CheckTarget :: "ColumnBinding \<Rightarrow> ExprType \<Rightarrow> Op \<Rightarrow> unit res" where
  "CheckTarget column t root_op =
    (let wanted = CategoryOf (kind (bind_type column)) in
     if ty_category t = kNullC then
       (if \<not> bind_nullable column \<and> root_op = kLiteral then Inl (InvalidArgument ''the column cannot be NULL'')
        else Inr ())
     else if (ty_category t \<noteq> wanted \<and> \<not> (wanted = kFloatC \<and> ty_category t = kIntC)) \<or>
         (wanted = kBitsC \<and> csize (ty_repr t) \<noteq> csize (bind_type column)) then
       Inl (TypeError ''the column cannot take the value'')
     else Inr ())"

definition PlanAssignment ::
    "AssignmentExpression list \<Rightarrow> ExprSchema \<Rightarrow> Limits \<Rightarrow> nat \<Rightarrow> Program \<Rightarrow> Program res" where
  "PlanAssignment assignments schema limits i program =
    (let assignment = assignments ! i; e = as_value assignment in
     if as_column assignment \<in> set (map as_column (take i assignments)) then
       Inl (InvalidArgument ''the column is assigned twice'')
     else case BlockColumn schema (as_column assignment) of
       None \<Rightarrow> Inl (InvalidArgument ''the table has no column'')
     | Some column \<Rightarrow>
         rbind (Planner e schema limits (Some (TypeOf (bind_type column))) program) (\<lambda>(root, t, program).
         rbind (CheckTarget column t (node_op (nodes e ! expr_root e))) (\<lambda>_.
           Inr (program\<lparr>
             targets := targets program @
               [\<lparr>target_column = column, target_name = as_column assignment, target_root = root\<rparr>],
             target_columns := target_columns program @ [column]\<rparr>))))"

definition PlanAssignments :: "AssignmentExpression list \<Rightarrow> ExprSchema \<Rightarrow> Limits \<Rightarrow> Program res" where
  "PlanAssignments assignments schema limits =
    rbind (rfold (PlanAssignment assignments schema limits) [0..<length assignments] empty_program)
      (\<lambda>program. Inr (SortParameters program))"

section \<open>Columns by name\<close>

fun FindColumn :: "Column list \<Rightarrow> nat \<Rightarrow> string \<Rightarrow> ColumnBinding option" where
  "FindColumn [] i name = None"
| "FindColumn (c # cs) i name =
    (if col_name c = name
     then Some \<lparr>bind_id = col_id c, bind_slot = i, bind_type = ctype c, bind_nullable = nullable c\<rparr>
     else FindColumn cs (Suc i) name)"

definition ColumnList :: "Column list \<Rightarrow> Column list \<Rightarrow> ExprSchema" where
  "ColumnList block chunk = \<lparr>BlockColumn = FindColumn block 0, ChunkColumn = FindColumn chunk 0\<rparr>"

end
