(* ===== verification/Outcome.thy ===== *)
theory Outcome
  imports Chunkdb_Prelude
begin

text \<open>
  What a computation that may throw can end in: \<open>outcome E P r\<close> says that \<open>r\<close> is an exception of \<open>E\<close> or a
  result of \<open>P\<close>.  The rules follow sequencing and loops, so that a claim about a procedure is proved
  along its text.
\<close>

definition outcome :: "('e \<Rightarrow> bool) \<Rightarrow> ('a \<Rightarrow> bool) \<Rightarrow> 'e + 'a \<Rightarrow> bool" where
  "outcome E P r \<longleftrightarrow> (case r of Inl e \<Rightarrow> E e | Inr x \<Rightarrow> P x)"

lemma outcome_simps [simp]: "outcome E P (Inl e) = E e" "outcome E P (Inr x) = P x"
  by (simp_all add: outcome_def)

lemma outcome_weaken:
  "outcome E P r \<Longrightarrow> (\<And>e. E e \<Longrightarrow> F e) \<Longrightarrow> (\<And>x. P x \<Longrightarrow> Q x) \<Longrightarrow> outcome F Q r"
  by (cases r) auto

lemma outcome_InrD: "outcome E P r \<Longrightarrow> r = Inr x \<Longrightarrow> P x"
  by simp

lemma outcome_bind:
  "outcome E P m \<Longrightarrow> (\<And>x. m = Inr x \<Longrightarrow> P x \<Longrightarrow> outcome E Q (f x)) \<Longrightarrow> outcome E Q (rbind m f)"
  by (cases m) auto

lemma outcome_rfold_prefix:
  assumes "P [] s"
    and "\<And>pre x s. (\<exists>post. xs = pre @ x # post) \<Longrightarrow> P pre s \<Longrightarrow> outcome E (P (pre @ [x])) (f x s)"
  shows "outcome E (P xs) (rfold f xs s)"
  using assms
proof (induction xs rule: rev_induct)
  case Nil
  then show ?case by simp
next
  case (snoc y ys)
  have "outcome E (P ys) (rfold f ys s)"
    by (rule snoc.IH) (use snoc.prems in auto)
  then show ?case unfolding rfold_append
  proof (rule outcome_bind)
    fix t assume "P ys t"
    then have "outcome E (P (ys @ [y])) (f y t)" by (rule snoc.prems(2) [rotated]) simp
    then show "outcome E (P (ys @ [y])) (rfold f [y] t)" by (cases "f y t") simp_all
  qed
qed

lemma outcome_rfold:
  assumes "P s" and "\<And>x s. x \<in> set xs \<Longrightarrow> P s \<Longrightarrow> outcome E P (f x s)"
  shows "outcome E P (rfold f xs s)"
  by (rule outcome_rfold_prefix [where P = "\<lambda>_. P"]) (use assms in auto)

lemma outcome_upt:
  assumes "P m s" "m \<le> n" and "\<And>i s. m \<le> i \<Longrightarrow> i < n \<Longrightarrow> P i s \<Longrightarrow> outcome E (P (Suc i)) (f i s)"
  shows "outcome E (P n) (rfold f [m..<n] s)"
  using assms(2,3)
proof (induction n rule: dec_induct)
  case base
  then show ?case using assms(1) by simp
next
  case (step n)
  have "outcome E (P n) (rfold f [m..<n] s)" by (rule step.IH) (use step.prems in auto)
  then have "outcome E (P (Suc n)) (rbind (rfold f [m..<n] s) (rfold f [n]))"
  proof (rule outcome_bind)
    fix t assume "P n t"
    then have "outcome E (P (Suc n)) (f n t)" using step.prems step.hyps by auto
    then show "outcome E (P (Suc n)) (rfold f [n] t)" by (cases "f n t") simp_all
  qed
  then show ?case using step.hyps by (simp add: rfold_append)
qed

end
