(* ===== verification/Expr_Check.thy ===== *)
theory Expr_Check
  imports Expr_Plan Outcome
begin

text \<open>
  What the checks of the planner establish: every access of the typing, binding and compiling passes is
  in range, so planning ends in a program or an \<open>std::invalid_argument\<close>, and the depths bound every chain of operands.
\<close>

definition invalid :: "exn \<Rightarrow> bool" where
  "invalid e \<longleftrightarrow> (\<exists>m. e = InvalidArgument m)"

lemma invalid_simps [simp]: "invalid (InvalidArgument m)" "invalid (TypeError m)" "invalid (Malformed m)"
  by (simp_all add: invalid_def TypeError_def Malformed_def)

section \<open>The node array\<close>

definition node_ok :: "Node list \<Rightarrow> nat list \<Rightarrow> nat \<Rightarrow> nat \<Rightarrow> bool" where
  "node_ok ns d m i \<longleftrightarrow>
    (let node = ns ! i; op = node_op node; ops = node_operands node in
     OperandCount op (length ops) = length ops \<and> (op = kParameter) = is_parameter (node_literal node) \<and>
     (\<forall>o' \<in> set ops. o' < i \<and> (is_logic op \<or> IsValue (node_op (ns ! o'))) \<and> d ! o' < d ! i) \<and> d ! i \<le> m)"

definition operands_of :: "Node list \<Rightarrow> nat list" where
  "operands_of ns = concat (map node_operands ns)"

definition checked :: "Node list \<Rightarrow> nat list \<Rightarrow> nat \<Rightarrow> bool" where
  "checked ns d m \<longleftrightarrow>
    length d = length ns \<and> (\<forall>i < length ns. 1 \<le> d ! i \<and> node_ok ns d m i) \<and> distinct (operands_of ns)"

definition progress :: "Node list \<Rightarrow> nat \<Rightarrow> nat \<Rightarrow> nat list \<times> bool list \<Rightarrow> bool" where
  "progress ns m i = (\<lambda>(d, u).
    length d = length ns \<and> length u = length ns \<and> (\<forall>j < length ns. 1 \<le> d ! j) \<and> (\<forall>j < i. node_ok ns d m j) \<and>
    distinct (operands_of (take i ns)) \<and> (\<forall>j < length ns. u ! j \<longleftrightarrow> j \<in> set (operands_of (take i ns))))"

lemma operands_of_Suc: "i < length ns \<Longrightarrow> operands_of (take (Suc i) ns) = operands_of (take i ns) @ node_operands (ns ! i)"
  by (simp add: operands_of_def take_Suc_conv_app_nth)

definition step_progress :: "Node list \<Rightarrow> nat \<Rightarrow> nat list \<Rightarrow> nat list \<Rightarrow> nat list \<times> bool list \<Rightarrow> bool" where
  "step_progress ns i d pre = (\<lambda>(d', u).
    length d' = length ns \<and> length u = length ns \<and> (\<forall>j < length ns. j \<noteq> i \<longrightarrow> d' ! j = d ! j) \<and> 1 \<le> d' ! i \<and>
    (\<forall>o' \<in> set pre. o' < i \<and> (is_logic (node_op (ns ! i)) \<or> IsValue (node_op (ns ! o'))) \<and> d' ! o' < d' ! i) \<and>
    distinct (operands_of (take i ns) @ pre) \<and> (\<forall>j < length ns. u ! j \<longleftrightarrow> j \<in> set (operands_of (take i ns) @ pre)))"

lemma CheckOperand_progress:
  assumes "i < length ns" "step_progress ns i d pre s"
  shows "outcome invalid (step_progress ns i d (pre @ [p])) (CheckOperand ns i p s)"
proof -
  obtain d' u where s: "s = (d', u)" by (cases s)
  show ?thesis
  proof (cases "p \<ge> i \<or> u ! p \<or> \<not> is_logic (node_op (ns ! i)) \<and> \<not> IsValue (node_op (ns ! p))")
    case True
    then show ?thesis by (auto simp: CheckOperand_def s)
  next
    case False
    then have c: "CheckOperand ns i p s = Inr (d'[i := max (d' ! i) (d' ! p + 1)], u[p := True])"
      by (auto simp: CheckOperand_def s)
    show ?thesis unfolding c
      using False assms by (auto simp: step_progress_def s nth_list_update less_max_iff_disj)
  qed
qed

lemma progress_Suc:
  assumes "i < length ns" "progress ns m i (d, u)"
    "OperandCount (node_op (ns ! i)) (length (node_operands (ns ! i))) = length (node_operands (ns ! i))"
    "(node_op (ns ! i) = kParameter) = is_parameter (node_literal (ns ! i))"
    "step_progress ns i d (node_operands (ns ! i)) (d', u')" "d' ! i \<le> m"
  shows "progress ns m (Suc i) (d', u')"
proof -
  have same: "d' ! j = d ! j" if "j < length ns" "j \<noteq> i" for j using assms(5) that by (simp add: step_progress_def)
  have "node_ok ns d' m j" if "j < i" for j
  proof -
    have "node_ok ns d m j" using assms(2) that by (simp add: progress_def)
    moreover have "d' ! j = d ! j" using same that assms(1) by simp
    moreover have "d' ! p = d ! p" if "p < j" for p using same that \<open>j < i\<close> assms(1) by simp
    ultimately show ?thesis unfolding node_ok_def Let_def by metis
  qed
  moreover have "node_ok ns d' m i"
    using assms(3-6) unfolding node_ok_def Let_def step_progress_def by blast
  ultimately have "\<forall>j < Suc i. node_ok ns d' m j" using less_Suc_eq by blast
  moreover have "1 \<le> d' ! j" if "j < length ns" for j
    using assms(2,5) same [OF that] that by (cases "j = i") (simp_all add: progress_def step_progress_def)
  ultimately show ?thesis
    using assms(1,5) by (simp add: progress_def step_progress_def operands_of_Suc)
qed

lemma CheckNode_progress:
  assumes "i < length ns" "progress ns (max_depth limits) i s"
  shows "outcome invalid (progress ns (max_depth limits) (Suc i)) (CheckNode ns limits i s)"
proof -
  obtain d u where s: "s = (d, u)" by (cases s)
  let ?ops = "node_operands (ns ! i)"
  have "outcome invalid (step_progress ns i d ?ops) (rfold (CheckOperand ns i) ?ops s)"
  proof (rule outcome_rfold_prefix)
    show "step_progress ns i d [] s" using assms by (simp add: step_progress_def progress_def s)
  qed (use assms(1) in \<open>auto intro: CheckOperand_progress\<close>)
  then have r: "outcome invalid (\<lambda>(d', u'). step_progress ns i d ?ops (d', u') \<and> d' ! i \<le> max_depth limits)
      (rbind (rfold (CheckOperand ns i) ?ops s) (\<lambda>(depths, used).
       if depths ! i > max_depth limits then Inl (InvalidArgument ''the expression is nested too deeply'')
       else Inr (depths, used)))"
    by (rule outcome_bind) auto
  have fin: "progress ns (max_depth limits) (Suc i) (d', u')"
    if "OperandCount (node_op (ns ! i)) (length ?ops) = length ?ops"
      "(node_op (ns ! i) = kParameter) = is_parameter (node_literal (ns ! i))"
      "step_progress ns i d ?ops (d', u')" "d' ! i \<le> max_depth limits" for d' u'
    using progress_Suc [OF assms(1) assms(2) [unfolded s] that] .
  show ?thesis
  proof (cases "OperandCount (node_op (ns ! i)) (length ?ops) = length ?ops \<and>
      (node_op (ns ! i) = kParameter) = is_parameter (node_literal (ns ! i))")
    case True
    then show ?thesis unfolding CheckNode_def Let_def using fin
      by (auto intro!: outcome_weaken [OF r])
  next
    case False
    then show ?thesis unfolding CheckNode_def Let_def by simp
  qed
qed

lemma CheckNodes_checked:
  "outcome invalid (\<lambda>_. \<exists>d. checked (nodes e) d (max_depth limits) \<and> nodes e \<noteq> [] \<and>
     expr_root e < length (nodes e) \<and> length (nodes e) \<le> max_nodes limits) (CheckNodes e limits)"
proof -
  let ?n = "length (nodes e)" and ?m = "max_depth limits"
  have "outcome invalid (progress (nodes e) ?m ?n)
      (rfold (CheckNode (nodes e) limits) [0..<?n] (replicate ?n 1, replicate ?n False))"
  proof (rule outcome_upt)
    show "progress (nodes e) ?m 0 (replicate ?n 1, replicate ?n False)" by (simp add: progress_def operands_of_def)
  qed (auto intro: CheckNode_progress)
  then have "outcome invalid (\<lambda>_. \<exists>d. checked (nodes e) d ?m)
      (rbind (rfold (CheckNode (nodes e) limits) [0..<?n] (replicate ?n 1, replicate ?n False)) (\<lambda>_. Inr ()))"
    by (rule outcome_bind) (auto simp: progress_def checked_def)
  then show ?thesis unfolding CheckNodes_def Let_def by (auto elim: outcome_weaken)
qed


section \<open>Typing\<close>

definition operands_in :: "nat list \<Rightarrow> 'a list \<Rightarrow> bool" where
  "operands_in ops xs \<longleftrightarrow> (\<forall>p \<in> set ops. p < length xs)"

lemma operands_in_nth [simp]: "operands_in ops xs \<Longrightarrow> k < length ops \<Longrightarrow> ops ! k < length xs"
  by (simp add: operands_in_def)

lemma TypeAt_in [simp]: "operands_in ops types \<Longrightarrow> k < length ops \<Longrightarrow> TypeAt types ops k = Inr (types ! (ops ! k))"
  by (simp add: TypeAt_def)

lemma outcome_RequireNumber [simp]: "outcome invalid (\<lambda>_. True) (RequireNumber t)"
  by (simp add: RequireNumber_def)

lemma outcome_InferNegate [simp]: "outcome invalid (\<lambda>_. True) (InferNegate t)"
  unfolding InferNegate_def by (rule outcome_bind [OF outcome_RequireNumber]) simp

lemma outcome_InferArithmetic [simp]: "outcome invalid (\<lambda>_. True) (InferArithmetic a b)"
  unfolding InferArithmetic_def by (intro outcome_bind [OF outcome_RequireNumber]) simp

lemma outcome_MergeAny [simp]: "outcome invalid (\<lambda>_. True) (MergeAny a b)"
  by (simp add: MergeAny_def Let_def)

lemma outcome_CheckComparable [simp]: "outcome invalid (\<lambda>_. True) (CheckComparable a b op)"
  by (simp add: CheckComparable_def Let_def)

lemma outcome_InferExtreme:
  "operands_in ops types \<Longrightarrow> outcome invalid (\<lambda>_. True) (InferExtreme types ops)"
  unfolding InferExtreme_def
  by (rule outcome_rfold) (auto intro!: outcome_bind [OF outcome_RequireNumber])

lemma outcome_InferCoalesce:
  assumes "operands_in ops types" "ops \<noteq> []"
  shows "outcome invalid (\<lambda>_. True) (InferCoalesce types ops)"
proof -
  have "TypeAt types ops 0 = Inr (types ! (ops ! 0))" using assms by (intro TypeAt_in) auto
  then show ?thesis unfolding InferCoalesce_def using assms(1) by (auto intro!: outcome_rfold)
qed

lemma outcome_CheckIn:
  assumes "operands_in ops types"
  shows "outcome invalid (\<lambda>_. True) (CheckIn types ops)"
proof -
  have "outcome invalid (\<lambda>_. True) (FirstKnown types ops)"
    unfolding FirstKnown_def using assms by (intro outcome_rfold) (auto simp: operands_in_def)
  then show ?thesis unfolding CheckIn_def
  proof (rule outcome_bind)
    fix known
    show "outcome invalid (\<lambda>_. True) (case known of None \<Rightarrow> Inr () | Some k \<Rightarrow>
        rfold (\<lambda>operand _. rbind (at_index types operand) (\<lambda>t. CheckComparable k t kEqual)) ops ())"
      using assms by (cases known) (auto simp: operands_in_def intro!: outcome_rfold)
  qed
qed

lemma outcome_CheckBetween [simp]: "outcome invalid (\<lambda>_. True) (CheckBetween v low high)"
  unfolding CheckBetween_def Let_def by (rule outcome_bind [OF outcome_CheckComparable]) simp

lemma outcome_CheckTruth:
  "i < length ns \<Longrightarrow> i < length types \<Longrightarrow> outcome invalid (\<lambda>_. True) (CheckTruth ns types i)"
  by (simp add: CheckTruth_def)

lemma outcome_bool: "outcome invalid (\<lambda>_. True) r \<Longrightarrow> outcome invalid (\<lambda>_. True) (rbind r (\<lambda>_. Inr (plain kBoolC)))"
  by (rule outcome_bind) auto

lemma OperandCount_lengths:
  assumes "OperandCount op (length ops) = length ops"
  shows "op \<in> {kNegate, kIsNull, kIsNotNull, kNot} \<Longrightarrow> length ops = 1"
    "op \<in> {kAdd, kSubtract, kMultiply, kDivide, kModulo} \<Longrightarrow> length ops = 2"
    "op \<in> {kEqual, kNotEqual, kLess, kLessEqual, kGreater, kGreaterEqual} \<Longrightarrow> length ops = 2"
    "op \<in> {kBetween, kNotBetween} \<Longrightarrow> length ops = 3"
    "op \<in> {kLeast, kGreatest, kCoalesce} \<Longrightarrow> 1 \<le> length ops"
    "op \<in> {kIn, kNotIn, kAnd, kOr} \<Longrightarrow> 2 \<le> length ops"
  using assms by (auto simp: OperandCount_def split: if_splits)

lemma outcome_InferOperator:
  assumes "OperandCount op (length ops) = length ops" "operands_in ops types" "operands_in ops ns"
  shows "outcome invalid (\<lambda>_. True) (InferOperator ns types op ops)"
proof -
  note len = OperandCount_lengths [OF assms(1)]
  consider "op = kNegate" | "op \<in> {kAdd, kSubtract, kMultiply, kDivide, kModulo}" | "op \<in> {kLeast, kGreatest}"
    | "op = kCoalesce" | "op \<in> {kEqual, kNotEqual, kLess, kLessEqual, kGreater, kGreaterEqual}" | "op \<in> {kIn, kNotIn}"
    | "op \<in> {kBetween, kNotBetween}" | "op \<in> {kNot, kAnd, kOr}"
    | "op \<notin> {kNegate, kAdd, kSubtract, kMultiply, kDivide, kModulo, kLeast, kGreatest, kCoalesce, kEqual, kNotEqual,
        kLess, kLessEqual, kGreater, kGreaterEqual, kIn, kNotIn, kBetween, kNotBetween, kNot, kAnd, kOr}"
    by blast
  then show ?thesis
  proof cases
    case 8
    have "outcome invalid (\<lambda>_. True) (rfold (\<lambda>operand _. CheckTruth ns types operand) ops ())"
      using assms by (intro outcome_rfold) (auto intro!: outcome_CheckTruth simp: operands_in_def)
    then show ?thesis using 8 by (auto simp: InferOperator_def Let_def intro!: outcome_bool)
  qed (use len assms(2) in \<open>auto simp: InferOperator_def Let_def intro!: outcome_bool outcome_InferExtreme
      outcome_InferCoalesce outcome_CheckIn\<close>)
qed


text \<open>The typing of a node reads the types of its operands only.\<close>

definition agree_on :: "nat list \<Rightarrow> 'a list \<Rightarrow> 'a list \<Rightarrow> bool" where
  "agree_on ops xs ys \<longleftrightarrow> length xs = length ys \<and> (\<forall>p \<in> set ops. xs ! p = ys ! p)"

lemma at_index_agree: "agree_on ops xs ys \<Longrightarrow> p \<in> set ops \<Longrightarrow> at_index xs p = at_index ys p"
  by (simp add: agree_on_def at_index_def)

lemma TypeAt_agree: "agree_on ops types types' \<Longrightarrow> TypeAt types ops k = TypeAt types' ops k"
  by (auto simp: TypeAt_def at_index_def [of ops] at_index_agree)

lemma InferOperator_agree:
  assumes "agree_on ops types types'"
  shows "InferOperator ns types op ops = InferOperator ns types' op ops"
proof -
  note at = TypeAt_agree [OF assms] and ix = at_index_agree [OF assms]
  have "InferExtreme types ops = InferExtreme types' ops" unfolding InferExtreme_def at ..
  moreover have "InferCoalesce types ops = InferCoalesce types' ops" unfolding InferCoalesce_def at ..
  moreover have "FirstKnown types ops = FirstKnown types' ops"
    unfolding FirstKnown_def by (rule rfold_cong) (simp add: ix)
  then have "CheckIn types ops = CheckIn types' ops"
    unfolding CheckIn_def
    by (intro rbind_cong refl option.case_cong rfold_cong) (auto simp: ix)
  moreover have "rfold (\<lambda>p _. CheckTruth ns types p) ops () = rfold (\<lambda>p _. CheckTruth ns types' p) ops ()"
    by (rule rfold_cong) (simp add: CheckTruth_def ix cong: if_cong)
  ultimately show ?thesis unfolding InferOperator_def Let_def at by simp
qed

definition lookup :: "ExprSchema \<Rightarrow> Node \<Rightarrow> ColumnBinding option" where
  "lookup schema node =
    (if node_op node = kChunkColumn then ChunkColumn schema (node_name node) else BlockColumn schema (node_name node))"

definition is_column :: "Op \<Rightarrow> bool" where
  "is_column op \<longleftrightarrow> op = kColumn \<or> op = kChunkColumn"

definition inferred ::
    "Node list \<Rightarrow> bool \<Rightarrow> ExprSchema \<Rightarrow> ColumnType option list \<Rightarrow> ColumnBinding option list \<Rightarrow> ExprType list \<Rightarrow> nat \<Rightarrow> bool" where
  "inferred ns bound schema declared bindings types i \<longleftrightarrow>
    (let node = ns ! i; op = node_op node; t = types ! i in
     if op = kLiteral then t = LiteralType (node_literal node)
     else if op = kParameter then
       (if bound then \<exists>c. declared ! i = Some c \<and> t = TypeOf c else t = plain kUnknownC)
     else if op \<in> {kPosX, kPosY, kPosZ} then t = TypeOf kI64
     else if op = kNow then t = TypeOf kU64
     else if is_column op then \<exists>b. bindings ! i = Some b \<and> lookup schema node = Some b \<and> t = TypeOf (bind_type b)
     else InferOperator ns types op (node_operands node) = Inr t)"

definition infers ::
    "Node list \<Rightarrow> bool \<Rightarrow> ExprSchema \<Rightarrow> ColumnType option list \<Rightarrow> nat \<Rightarrow> ExprType list \<times> ColumnBinding option list \<Rightarrow> bool" where
  "infers ns bound schema declared i = (\<lambda>(types, bindings).
    length types = length ns \<and> length bindings = length ns \<and>
    (\<forall>j < length ns. \<forall>b. bindings ! j = Some b \<longrightarrow> is_column (node_op (ns ! j)) \<and> lookup schema (ns ! j) = Some b) \<and>
    (\<forall>j < i. inferred ns bound schema declared bindings types j))"

lemma inferred_keep:
  assumes "inferred ns bound schema declared bindings types j" "\<And>p. p \<in> set (node_operands (ns ! j)) \<Longrightarrow> p < j"
    "j < i" "bindings' ! j = bindings ! j"
  shows "inferred ns bound schema declared bindings' (types[i := t]) j"
proof -
  have "agree_on (node_operands (ns ! j)) types (types[i := t])"
    using assms(2,3) by (fastforce simp: agree_on_def)
  from InferOperator_agree [OF this]
  have "InferOperator ns (types[i := t]) op (node_operands (ns ! j)) = InferOperator ns types op (node_operands (ns ! j))" for op
    by simp
  moreover have "types[i := t] ! j = types ! j" using assms(3) by simp
  ultimately show ?thesis using assms(1) by (simp only: inferred_def Let_def assms(4))
qed

definition parameters_declared :: "Node list \<Rightarrow> ColumnType option list \<Rightarrow> bool" where
  "parameters_declared ns declared \<longleftrightarrow> (\<forall>i < length ns. node_op (ns ! i) = kParameter \<longrightarrow> declared ! i \<noteq> None)"

lemma infers_Suc:
  assumes below: "\<And>j p. j < i \<Longrightarrow> p \<in> set (node_operands (ns ! j)) \<Longrightarrow> p < j"
    and s: "infers ns bound schema declared i (types, bindings)" and i: "i < length ns"
    and new: "inferred ns bound schema declared bindings' (types[i := t]) i" "length bindings' = length ns"
    and same: "\<And>j. j < length ns \<Longrightarrow> j \<noteq> i \<Longrightarrow> bindings' ! j = bindings ! j"
    and at: "bindings' ! i = bindings ! i \<or> is_column (node_op (ns ! i)) \<and> bindings' ! i = lookup schema (ns ! i)"
  shows "infers ns bound schema declared (Suc i) (types[i := t], bindings')"
proof -
  have old: "inferred ns bound schema declared bindings types j" if "j < i" for j using s that by (simp add: infers_def)
  have "inferred ns bound schema declared bindings' (types[i := t]) j" if "j < i" for j
    by (rule inferred_keep [OF old [OF that]]) (use that i in \<open>auto intro: below simp: same\<close>)
  then have "\<forall>j < Suc i. inferred ns bound schema declared bindings' (types[i := t]) j"
    using new(1) less_Suc_eq by auto
  moreover have "is_column (node_op (ns ! j)) \<and> lookup schema (ns ! j) = Some b"
    if j: "j < length ns" and b: "bindings' ! j = Some b" for j b
  proof (cases "bindings' ! j = bindings ! j")
    case True
    then have "bindings ! j = Some b" using b by simp
    then show ?thesis using s j unfolding infers_def by blast
  next
    case False
    then have "j = i" using same j by blast
    then show ?thesis using False b at by auto
  qed
  ultimately show ?thesis using s new(2) by (simp add: infers_def)
qed

lemma outcome_BindingOf:
  assumes "\<And>b. bound = Some b \<Longrightarrow> lookup schema node = Some b"
  shows "outcome invalid (\<lambda>b. lookup schema node = Some b) (BindingOf schema node bound)"
  unfolding BindingOf_def lookup_def [symmetric]
  using assms by (cases bound; cases "lookup schema node") simp_all

lemma InferNode_infers:
  assumes i: "i < length ns" and ok: "\<And>j. j < length ns \<Longrightarrow> node_ok ns d m j"
    and bound: "bound \<Longrightarrow> parameters_declared ns declared" and s: "infers ns bound schema declared i (types, bindings)"
  shows "outcome invalid (infers ns bound schema declared (Suc i)) (InferNode ns bound schema declared i (types, bindings))"
proof -
  let ?node = "ns ! i" let ?op = "node_op ?node" and ?ops = "node_operands ?node"
  have below: "p < j" if "j \<le> i" "p \<in> set (node_operands (ns ! j))" for j p
    using ok that i by (simp add: node_ok_def Let_def)
  have len: "length types = length ns" "length bindings = length ns" using s by (simp_all add: infers_def)
  have keep: "infers ns bound schema declared (Suc i) (types[i := t], bindings)"
    if "inferred ns bound schema declared bindings (types[i := t]) i" for t
    by (rule infers_Suc [OF _ s i that len(2)]) (auto intro: below)
  consider "?op \<in> {kLiteral, kPosX, kPosY, kPosZ, kNow}" | "?op = kParameter" | "is_column ?op"
    | "?op \<notin> {kLiteral, kParameter, kPosX, kPosY, kPosZ, kNow}" "\<not> is_column ?op"
    by blast
  then show ?thesis
  proof cases
    case 1
    then show ?thesis using i len
      by (elim insertE emptyE) (simp_all add: InferNode_def Let_def inferred_def keep)
  next
    case 2
    let ?t = "if bound then TypeOf (the (declared ! i)) else plain kUnknownC"
    have c: "\<exists>c. declared ! i = Some c" if bound using bound [OF that] 2 i by (simp add: parameters_declared_def)
    then have "InferNode ns bound schema declared i (types, bindings) = Inr (types[i := ?t], bindings)"
      using 2 by (auto simp: InferNode_def Let_def)
    moreover have "inferred ns bound schema declared bindings (types[i := ?t]) i"
      using 2 c i len by (auto simp: inferred_def Let_def)
    ultimately show ?thesis using keep by simp
  next
    case 3
    have "infers ns bound schema declared (Suc i) (types[i := TypeOf (bind_type b)], bindings[i := Some b])"
      if "lookup schema ?node = Some b" for b
      by (rule infers_Suc [OF _ s i]) (use 3 that len i in \<open>auto intro: below simp: inferred_def is_column_def\<close>)
    moreover have "outcome invalid (\<lambda>b. lookup schema ?node = Some b) (BindingOf schema ?node (bindings ! i))"
      by (rule outcome_BindingOf) (use s i in \<open>auto simp: infers_def\<close>)
    ultimately have "outcome invalid (infers ns bound schema declared (Suc i))
       (rbind (BindingOf schema ?node (bindings ! i)) (\<lambda>b.
            Inr (types[i := TypeOf (bind_type b)], bindings[i := Some b])))"
      by (intro outcome_bind) auto
    then show ?thesis using 3 by (auto simp: InferNode_def Let_def is_column_def)
  next
    case 4
    have "OperandCount ?op (length ?ops) = length ?ops" using ok [OF i] by (simp add: node_ok_def Let_def)
    then have o: "outcome invalid (\<lambda>_. True) (InferOperator ns types ?op ?ops)"
      by (rule outcome_InferOperator) (use below [of i] i len in \<open>fastforce simp: operands_in_def\<close>)+
    have "inferred ns bound schema declared bindings (types[i := t]) i" if t: "InferOperator ns types ?op ?ops = Inr t" for t
    proof -
      have "agree_on ?ops types (types[i := t])" using below [of i] by (fastforce simp: agree_on_def)
      then have "InferOperator ns (types[i := t]) ?op ?ops = Inr t" using t InferOperator_agree by metis
      then show ?thesis using 4 i len by (simp add: inferred_def Let_def)
    qed
    then have "outcome invalid (infers ns bound schema declared (Suc i))
        (rbind (InferOperator ns types ?op ?ops) (\<lambda>t. Inr (types[i := t], bindings)))"
      by (intro outcome_bind [OF o]) (simp add: keep)
    moreover have "InferNode ns bound schema declared i (types, bindings) =
        rbind (InferOperator ns types ?op ?ops) (\<lambda>t. Inr (types[i := t], bindings))"
      using 4 unfolding InferNode_def Let_def is_column_def by (cases ?op) simp_all
    ultimately show ?thesis by simp
  qed
qed

lemma Infer_infers:
  assumes "checked ns d m" "bound \<Longrightarrow> parameters_declared ns declared" "infers ns bound schema declared 0 s"
  shows "outcome invalid (infers ns bound schema declared (length ns)) (Infer ns bound schema declared s)"
  unfolding Infer_def
proof (rule outcome_upt)
  show "infers ns bound schema declared 0 s" by (rule assms(3))
next
  fix i s assume "i < length ns" "infers ns bound schema declared i s"
  then show "outcome invalid (infers ns bound schema declared (Suc i)) (InferNode ns bound schema declared i s)"
    using assms(1,2) by (cases s) (auto intro!: InferNode_infers simp: checked_def)
qed simp


section \<open>Binding\<close>

lemma SetContext_in:
  assumes "operands_in ops ctx"
  obtains c where "SetContext t ops ctx = Inr c" "length c = length ctx"
    "\<And>j. j < length ctx \<Longrightarrow> c ! j = (if j \<in> set ops then t else ctx ! j)"
proof -
  have "\<exists>c. SetContext t ops ctx = Inr c \<and> length c = length ctx \<and>
      (\<forall>j < length ctx. c ! j = (if j \<in> set ops then t else ctx ! j))"
    using assms
  proof (induction ops arbitrary: ctx)
    case Nil
    then show ?case by (simp add: SetContext_def)
  next
    case (Cons p ops)
    then have p: "p < length ctx" and o: "operands_in ops (ctx[p := t])" by (simp_all add: operands_in_def)
    from Cons.IH [OF o] obtain c where c: "SetContext t ops (ctx[p := t]) = Inr c" "length c = length ctx"
      "\<forall>j < length ctx. c ! j = (if j \<in> set ops then t else ctx[p := t] ! j)" by auto
    then show ?case using p by (auto simp: SetContext_def nth_list_update)
  qed
  then show ?thesis using that by blast
qed

text \<open>A step of \<open>Bind\<close> writes the context of the node's operands and declares the node if it is a parameter.\<close>

definition bound_step :: "Node list \<Rightarrow> nat \<Rightarrow> ExprType option list \<times> ColumnType option list \<Rightarrow>
    ExprType option list \<times> ColumnType option list \<Rightarrow> bool" where
  "bound_step ns i = (\<lambda>(c, d) (c', d').
    length c' = length c \<and> length d' = length d \<and>
    (\<forall>j < length c. j \<notin> set (node_operands (ns ! i)) \<longrightarrow> c' ! j = c ! j) \<and>
    (\<forall>j < length d. d ! j \<noteq> None \<longrightarrow> d' ! j \<noteq> None) \<and>
    (node_op (ns ! i) = kParameter \<longrightarrow> i < length d \<longrightarrow> d' ! i \<noteq> None))"

lemma SetContext_step:
  assumes "operands_in ops c" "set ops \<subseteq> set (node_operands (ns ! i))" "node_op (ns ! i) \<noteq> kParameter"
  shows "outcome invalid (bound_step ns i (c, d)) (rbind (SetContext t ops c) (\<lambda>c. Inr (c, d)))"
proof -
  obtain c' where "SetContext t ops c = Inr c'" "length c' = length c"
    "\<And>j. j < length c \<Longrightarrow> c' ! j = (if j \<in> set ops then t else c ! j)"
    using SetContext_in [OF assms(1)] by metis
  then show ?thesis using assms(2,3) by (auto simp: bound_step_def)
qed

lemma typed_at_in:
  "operands_in ops types \<Longrightarrow> k < length ops \<Longrightarrow>
    typed_at types ops k = Inr (if ty_typed (types ! (ops ! k)) then Some (types ! (ops ! k)) else None)"
  by (simp add: typed_at_def)

lemma BindNode_step:
  assumes ok: "node_ok ns d m i" and len: "i < length types" "length c = length types" "length declared = length types"
  shows "outcome invalid (bound_step ns i (c, declared)) (BindNode ns types i (c, declared))"
proof -
  let ?op = "node_op (ns ! i)" and ?ops = "node_operands (ns ! i)"
  have arity: "OperandCount ?op (length ?ops) = length ?ops" and below: "\<And>p. p \<in> set ?ops \<Longrightarrow> p < i"
    using ok by (simp_all add: node_ok_def Let_def)
  note l = OperandCount_lengths [OF arity]
  have opsin: "operands_in ?ops types" "operands_in ?ops c" using below len by (fastforce simp: operands_in_def)+
  have sub: "operands_in ops c" if "set ops \<subseteq> set ?ops" for ops using opsin(2) that by (auto simp: operands_in_def)
  note step = SetContext_step [OF sub]
  consider "?op = kParameter"
    | "?op \<in> {kNegate, kAdd, kSubtract, kMultiply, kDivide, kModulo, kLeast, kGreatest, kCoalesce}"
    | "?op \<in> {kEqual, kNotEqual, kLess, kLessEqual, kGreater, kGreaterEqual}"
    | "?op \<in> {kIn, kNotIn}" | "?op \<in> {kBetween, kNotBetween}"
    | "?op \<notin> {kParameter, kNegate, kAdd, kSubtract, kMultiply, kDivide, kModulo, kLeast, kGreatest, kCoalesce, kEqual,
        kNotEqual, kLess, kLessEqual, kGreater, kGreaterEqual, kIn, kNotIn, kBetween, kNotBetween}"
    by blast
  then show ?thesis
  proof cases
    case 1
    then show ?thesis using len
      by (auto simp: BindNode_def Let_def bound_step_def nth_list_update split: option.splits)
  next
    case 2
    then have "?op \<noteq> kParameter" by auto
    then show ?thesis using 2 unfolding BindNode_def Let_def by (auto intro: step)
  next
    case 3
    then have o: "?op \<noteq> kParameter" "length ?ops = 2" using l by auto
    then have s: "set [?ops ! 0] \<subseteq> set ?ops" "set [?ops ! 1] \<subseteq> set ?ops" by simp_all
    define a where "a = (if ty_typed (types ! (?ops ! 0)) then Some (types ! (?ops ! 0)) else None)"
    define b where "b = (if ty_typed (types ! (?ops ! 1)) then Some (types ! (?ops ! 1)) else None)"
    have t: "typed_at types ?ops 0 = Inr a" "typed_at types ?ops 1 = Inr b"
      using o(2) typed_at_in [OF opsin(1)] by (simp_all add: a_def b_def)
    obtain c' where c': "SetContext b [?ops ! 0] c = Inr c'" "length c' = length c"
      "\<And>j. j < length c \<Longrightarrow> c' ! j = (if j \<in> set [?ops ! 0] then b else c ! j)"
      using SetContext_in [OF sub [OF s(1)]] by metis
    have "operands_in [?ops ! 1] c'" using sub [OF s(2)] c'(2) by (simp add: operands_in_def)
    from SetContext_step [OF this s(2) o(1), of declared a]
    have "outcome invalid (bound_step ns i (c, declared)) (rbind (SetContext a [?ops ! 1] c') (\<lambda>c. Inr (c, declared)))"
      using c'(2,3) s(1) by (elim outcome_weaken) (auto simp: bound_step_def)
    moreover have "BindNode ns types i (c, declared) = rbind (SetContext a [?ops ! 1] c') (\<lambda>c. Inr (c, declared))"
      using 3 o(1) t c'(1) unfolding BindNode_def Let_def by auto
    ultimately show ?thesis by simp
  next
    case 4
    then have "?op \<noteq> kParameter" and two: "0 < length ?ops" using l by auto
    moreover have "set (tl ?ops) \<subseteq> set ?ops" by (cases ?ops) auto
    ultimately show ?thesis using 4 unfolding BindNode_def Let_def by (auto simp: typed_at_in [OF opsin(1) two] intro: step)
  next
    case 5
    then have "?op \<noteq> kParameter" and three: "0 < length ?ops" "1 < length ?ops" "2 < length ?ops" using l by auto
    then show ?thesis using 5 unfolding BindNode_def Let_def
      by (auto simp: typed_at_in [OF opsin(1) three(1)] typed_at_in [OF opsin(1) three(2), simplified]
          typed_at_in [OF opsin(1) three(3)] intro: step)
  next
    case 6
    then show ?thesis by (simp add: BindNode_def Let_def bound_step_def)
  qed
qed


lemma Bind_declares:
  assumes "checked (nodes e) d m" "length types = length (nodes e)"
  shows "outcome invalid (\<lambda>declared. parameters_declared (nodes e) declared) (Bind e types target)"
proof -
  let ?n = "length (nodes e)" and ?ns = "nodes e"
  let ?P = "\<lambda>done (c :: ExprType option list, declared :: ColumnType option list). length c = ?n \<and> length declared = ?n \<and>
    (\<forall>i \<in> set done. node_op (?ns ! i) = kParameter \<longrightarrow> declared ! i \<noteq> None)"
  let ?s = "((replicate ?n None)[expr_root e := target], replicate ?n None)"
  have "outcome invalid (?P (rev [0..<?n])) (rfold (BindNode ?ns types) (rev [0..<?n]) ?s)"
  proof (rule outcome_rfold_prefix)
    show "?P [] ?s" by simp
  next
    fix pre i s
    assume "\<exists>post. rev [0..<?n] = pre @ i # post" and s: "?P pre s"
    then obtain post where "rev [0..<?n] = pre @ i # post" by blast
    then have "set (rev [0..<?n]) = set (pre @ i # post)" by (rule arg_cong)
    then have i: "i < ?n" and pre: "\<And>j. j \<in> set pre \<Longrightarrow> j < ?n" by auto
    obtain c declared where cd: "s = (c, declared)" by (cases s)
    have "outcome invalid (bound_step ?ns i (c, declared)) (BindNode ?ns types i (c, declared))"
      using s i assms by (intro BindNode_step) (auto simp: checked_def cd)
    then show "outcome invalid (?P (pre @ [i])) (BindNode ?ns types i s)"
      unfolding cd using s i pre by (elim outcome_weaken) (auto simp: bound_step_def cd)
  qed
  then show ?thesis unfolding Bind_def Let_def
    by (rule outcome_bind) (auto simp: parameters_declared_def)
qed

section \<open>Compilation\<close>

definition step_of ::
    "Node list \<Rightarrow> ExprType list \<Rightarrow> ColumnBinding option list \<Rightarrow> ColumnType option list \<Rightarrow> nat \<Rightarrow> nat \<Rightarrow> Step" where
  "step_of ns types bindings declared first i =
    (let node = ns ! i; s = new_step first node (types ! i) in
     if is_column (node_op node) then
       s\<lparr>step_slot := bind_slot (the (bindings ! i)), step_type := bind_type (the (bindings ! i))\<rparr>
     else if node_op node = kParameter then
       s\<lparr>step_slot := size_add (projr (ParameterIndex (node_literal node))) (2 ^ 64 - 1), step_type := the (declared ! i)\<rparr>
     else if node_op node = kLiteral then s\<lparr>step_literal := LiteralValue (types ! i) (node_literal node)\<rparr>
     else s)"

text \<open>A program that ends with the steps of the first \<open>i\<close> nodes, compiled after \<open>p\<close>.\<close>

definition appended ::
    "Node list \<Rightarrow> ExprType list \<Rightarrow> ColumnBinding option list \<Rightarrow> ColumnType option list \<Rightarrow> Program \<Rightarrow> nat \<Rightarrow> Program \<Rightarrow> bool" where
  "appended ns types bindings declared p i q \<longleftrightarrow>
    prog_operands q = prog_operands p @ map (u32_add (u32_of (length (steps p)))) (operands_of (take i ns)) \<and>
    steps q = steps p @ map (\<lambda>j. step_of ns types bindings declared
      (length (prog_operands p) + length (operands_of (take j ns))) j) [0..<i] \<and>
    targets q = targets p \<and> target_columns q = target_columns p"

definition resolved :: "Node list \<Rightarrow> ColumnBinding option list \<Rightarrow> ColumnType option list \<Rightarrow> bool" where
  "resolved ns bindings declared \<longleftrightarrow> (\<forall>i < length ns.
    (is_column (node_op (ns ! i)) \<longrightarrow> bindings ! i \<noteq> None) \<and>
    (node_op (ns ! i) = kParameter \<longrightarrow> is_parameter (node_literal (ns ! i)) \<and> declared ! i \<noteq> None))"

lemma CompileNode_appended:
  assumes "resolved ns bindings declared" "i < length ns" "appended ns types bindings declared p i q"
  shows "outcome invalid (appended ns types bindings declared p (Suc i))
    (CompileNode ns types bindings declared (u32_of (length (steps p))) i q)"
proof -
  let ?lit = "node_literal (ns ! i)"
  have first: "length (prog_operands q) = length (prog_operands p) + length (operands_of (take i ns))"
    using assms(3) by (simp add: appended_def)
  have par: "\<exists>n. ?lit = LParameter n" if "node_op (ns ! i) = kParameter"
    using assms(1,2) that by (cases ?lit) (auto simp: resolved_def)
  consider "is_column (node_op (ns ! i))" | "node_op (ns ! i) = kParameter" | "node_op (ns ! i) = kLiteral"
    | "\<not> is_column (node_op (ns ! i))" "node_op (ns ! i) \<noteq> kParameter" "node_op (ns ! i) \<noteq> kLiteral" by blast
  then show ?thesis
  proof cases
    case 1
    then obtain b where "bindings ! i = Some b" using assms(1,2) by (auto simp: resolved_def)
    then show ?thesis using 1 assms(2,3) first
      by (auto simp: CompileNode_def Let_def appended_def operands_of_Suc step_of_def is_column_def)
  next
    case 2
    then obtain n t where "?lit = LParameter n" "declared ! i = Some t" using par assms(1,2) by (auto simp: resolved_def)
    then show ?thesis using 2 assms(2,3) first
      by (auto simp: CompileNode_def Let_def appended_def operands_of_Suc step_of_def is_column_def)
  qed (use assms(2,3) first in \<open>auto simp: CompileNode_def Let_def appended_def operands_of_Suc step_of_def is_column_def\<close>)
qed

lemma Compile_appended:
  assumes "resolved (nodes e) bindings declared"
  shows "outcome invalid (\<lambda>(root, q). root = u32_add (u32_of (length (steps p))) (expr_root e) \<and>
    appended (nodes e) types bindings declared p (length (nodes e)) q) (Compile e types bindings declared p)"
proof -
  have "outcome invalid (appended (nodes e) types bindings declared p (length (nodes e)))
     (rfold (CompileNode (nodes e) types bindings declared (u32_of (length (steps p)))) [0..<length (nodes e)] p)"
  proof (rule outcome_upt)
    show "appended (nodes e) types bindings declared p 0 p" by (simp add: appended_def operands_of_def)
  qed (use assms in \<open>auto intro: CompileNode_appended\<close>)
  then show ?thesis unfolding Compile_def Let_def by (rule outcome_bind) simp
qed


section \<open>Plans\<close>

text \<open>What a successful run of the planner has established.\<close>

record plan_facts =
  pf_depths :: "nat list"
  pf_types0 :: "ExprType list"
  pf_bindings0 :: "ColumnBinding option list"
  pf_declared :: "ColumnType option list"
  pf_types :: "ExprType list"
  pf_bindings :: "ColumnBinding option list"

definition planned ::
    "Expression \<Rightarrow> ExprSchema \<Rightarrow> Limits \<Rightarrow> ExprType option \<Rightarrow> Program \<Rightarrow> plan_facts \<Rightarrow> nat \<times> ExprType \<times> Program \<Rightarrow> bool" where
  "planned e schema limits target p f = (\<lambda>(root, t, q).
    let ns = nodes e; n = length ns in
    checked ns (pf_depths f) (max_depth limits) \<and> expr_root e < n \<and> n \<le> max_nodes limits \<and>
    (target \<noteq> None \<longrightarrow> IsValue (node_op (ns ! expr_root e))) \<and>
    infers ns False schema (replicate n None) n (pf_types0 f, pf_bindings0 f) \<and>
    (target = None \<longrightarrow> CheckTruth ns (pf_types0 f) (expr_root e) = Inr ()) \<and>
    Bind e (pf_types0 f) target = Inr (pf_declared f) \<and>
    infers ns True schema (pf_declared f) n (pf_types f, pf_bindings f) \<and>
    appended ns (pf_types f) (pf_bindings f) (pf_declared f) p n q \<and>
    root = u32_add (u32_of (length (steps p))) (expr_root e) \<and> t = pf_types f ! expr_root e)"

lemma resolved_infers:
  assumes "checked ns d m" "infers ns True schema declared (length ns) (types, bindings)"
  shows "resolved ns bindings declared"
  unfolding resolved_def
proof (intro allI impI conjI)
  fix i assume i: "i < length ns"
  then have t: "inferred ns True schema declared bindings types i" and ok: "node_ok ns d m i"
    using assms by (auto simp: infers_def checked_def)
  show "bindings ! i \<noteq> None" if "is_column (node_op (ns ! i))"
    using t that by (auto simp: inferred_def is_column_def Let_def)
  show "declared ! i \<noteq> None" if "node_op (ns ! i) = kParameter"
    using t that by (auto simp: inferred_def Let_def)
  show "is_parameter (node_literal (ns ! i))" if "node_op (ns ! i) = kParameter"
    using ok that by (simp add: node_ok_def Let_def)
qed

lemma infers_start:
  "length types = length ns \<Longrightarrow> infers ns bound schema declared 0 (types, replicate (length ns) None)"
  by (simp add: infers_def)

lemma infers_restart: "infers ns b schema d n s \<Longrightarrow> infers ns bound schema declared 0 s"
  by (auto simp: infers_def)

text \<open>The passes after the first typing.\<close>

lemma outcome_passes:
  fixes e defines "ns \<equiv> nodes e" and "n \<equiv> length (nodes e)"
  assumes d: "checked ns d (max_depth limits)" "expr_root e < n" "n \<le> max_nodes limits"
    and v: "target \<noteq> None \<longrightarrow> IsValue (node_op (ns ! expr_root e))"
    and s0: "infers ns False schema (replicate n None) n (types0, bindings0)"
  shows "outcome invalid (\<lambda>r. \<exists>f. planned e schema limits target p f r)
    (rbind (if target = None then CheckTruth ns types0 (expr_root e) else Inr ()) (\<lambda>_.
     rbind (Bind e types0 target) (\<lambda>declared.
     rbind (Infer ns True schema declared (types0, bindings0)) (\<lambda>(types, bindings).
     rbind (Compile e types bindings declared p) (\<lambda>(root, q). Inr (root, types ! expr_root e, q))))))"
proof -
  have len: "length types0 = length ns" using s0 by (simp add: infers_def)
  have truth: "outcome invalid (\<lambda>_. True) (if target = None then CheckTruth ns types0 (expr_root e) else Inr ())"
    using d(2) len by (auto intro: outcome_CheckTruth simp: ns_def n_def)
  show ?thesis
  proof (rule outcome_bind [OF truth], rule outcome_bind [OF Bind_declares [OF d(1) [unfolded ns_def] len [unfolded ns_def]]],
      rule outcome_bind [OF Infer_infers [OF d(1) _ infers_restart [OF s0]]])
    fix u declared s
    assume u: "(if target = None then CheckTruth ns types0 (expr_root e) else Inr ()) = Inr u"
      and b: "Bind e types0 target = Inr declared" and s: "infers ns True schema declared (length ns) s"
    obtain types bindings where s_eq: "s = (types, bindings)" by (cases s)
    have r: "resolved (nodes e) bindings declared"
      using resolved_infers [OF d(1) s [unfolded s_eq]] by (simp add: ns_def)
    show "outcome invalid (\<lambda>r. \<exists>f. planned e schema limits target p f r) (case s of (types, bindings) \<Rightarrow>
       rbind (Compile e types bindings declared p) (\<lambda>(root, q). Inr (root, types ! expr_root e, q)))"
      unfolding s_eq prod.case
    proof (rule outcome_bind [OF Compile_appended [OF r, of p]])
      fix x assume "case x of (root, q) \<Rightarrow> root = u32_add (u32_of (length (steps p))) (expr_root e) \<and>
          appended (nodes e) types bindings declared p (length (nodes e)) q"
      then have "planned e schema limits target p
          \<lparr>pf_depths = d, pf_types0 = types0, pf_bindings0 = bindings0, pf_declared = declared,
           pf_types = types, pf_bindings = bindings\<rparr> (fst x, types ! expr_root e, snd x)"
        using d v s0 s u b by (auto simp: planned_def s_eq ns_def n_def split: if_splits)
      then show "outcome invalid (\<lambda>r. \<exists>f. planned e schema limits target p f r)
          (case x of (root, q) \<Rightarrow> Inr (root, types ! expr_root e, q))"
        by (cases x) auto
    qed
  qed (simp_all add: ns_def)
qed

lemma outcome_Planner:
  "outcome invalid (\<lambda>r. \<exists>f. planned e schema limits target p f r) (Planner e schema limits target p)"
  unfolding Planner_def
proof (rule outcome_bind [OF CheckNodes_checked])
  let ?ns = "nodes e" let ?n = "length ?ns"
  assume "\<exists>d. checked ?ns d (max_depth limits) \<and> ?ns \<noteq> [] \<and> expr_root e < ?n \<and> ?n \<le> max_nodes limits"
  then obtain d where d: "checked ?ns d (max_depth limits)" "expr_root e < ?n" "?n \<le> max_nodes limits" by blast
  show "outcome invalid (\<lambda>r. \<exists>f. planned e schema limits target p f r) (Plan e schema target p)"
  proof (cases "target \<noteq> None \<and> \<not> IsValue (node_op (?ns ! expr_root e))")
    case True
    then show ?thesis by (simp add: Plan_def Let_def)
  next
    case False
    then have v: "target \<noteq> None \<longrightarrow> IsValue (node_op (?ns ! expr_root e))" by blast
    have "length (replicate ?n (plain kNullC)) = ?n" by simp
    from Infer_infers [OF d(1) _ infers_start [OF this]]
    have first: "outcome invalid (infers ?ns False schema (replicate ?n None) ?n)
        (Infer ?ns False schema (replicate ?n None) (replicate ?n (plain kNullC), replicate ?n None))" by simp
    have plan: "Plan e schema target p =
        rbind (Infer ?ns False schema (replicate ?n None) (replicate ?n (plain kNullC), replicate ?n None))
          (\<lambda>(types, bindings).
         rbind (if target = None then CheckTruth ?ns types (expr_root e) else Inr ()) (\<lambda>_.
         rbind (Bind e types target) (\<lambda>declared.
         rbind (Infer ?ns True schema declared (types, bindings)) (\<lambda>(types, bindings).
         rbind (Compile e types bindings declared p) (\<lambda>(root, q). Inr (root, types ! expr_root e, q))))))"
      using False by (simp only: Plan_def Let_def if_False)
    show ?thesis unfolding plan
      by (rule outcome_bind [OF first]) (auto simp only: prod.case split_paired_all intro!: outcome_passes [OF d v])
  qed
qed

text \<open>
  Claim C9. Planning ends in a plan or an \<open>std::invalid_argument\<close>, whatever the node array, the schema and
  the limits: it never reads outside its vectors, never takes the value of an empty optional and never
  throws another exception.  In particular no literal makes it throw \<open>std::out_of_range\<close>.
\<close>

theorem planning_errors:
  "outcome invalid (\<lambda>_. True) (PlanCondition condition schema limits) \<and>
   outcome invalid (\<lambda>_. True) (PlanAssignments assignments schema limits)"
proof
  show "outcome invalid (\<lambda>_. True) (PlanCondition condition schema limits)"
    unfolding PlanCondition_def by (rule outcome_bind [OF outcome_Planner]) auto
  have target: "outcome invalid (\<lambda>_. True) (CheckTarget column t op)" for column t op
    by (simp add: CheckTarget_def Let_def)
  have step: "outcome invalid (\<lambda>_. True) (PlanAssignment assignments schema limits i p)" for i p
    unfolding PlanAssignment_def Let_def
    by (auto split: option.split intro!: outcome_bind [OF outcome_Planner] outcome_bind [OF target])
  show "outcome invalid (\<lambda>_. True) (PlanAssignments assignments schema limits)"
    unfolding PlanAssignments_def
    by (rule outcome_bind [OF outcome_rfold [where P = "\<lambda>_. True"]]) (simp_all add: step)
qed

end
