(* ===== verification/Expr_Values.thy ===== *)
theory Expr_Values
  imports Expr_Eval Expr_Check
begin

text \<open>
  The values of typed nodes: how the type of an operator relates to those of its operands, and that each
  operation of the evaluator maps values of the operand types to a value of the result type, or throws
  one of the two exceptions a statement may cause.
\<close>

definition client :: "exn \<Rightarrow> bool" where
  "client e \<longleftrightarrow> (\<exists>m. e = InvalidArgument m \<or> e = OutOfRange m)"

lemma client_simps [simp]: "client (InvalidArgument m)" "client (OutOfRange m)" "client Overflow" "client DoesNotHold"
  by (simp_all add: client_def Overflow_def DoesNotHold_def)

section \<open>The order of types\<close>

text \<open>NULL is below every type, an untyped parameter below all but NULL, integers are below floats.\<close>

definition subtype :: "ExprType \<Rightarrow> ExprType \<Rightarrow> bool" where
  "subtype a t \<longleftrightarrow>
    ty_category a = kNullC \<or> (ty_category a = kUnknownC \<and> ty_category t \<noteq> kNullC) \<or>
    (ty_category a = ty_category t \<and> (ty_category t = kBitsC \<longrightarrow> csize (ty_repr a) = csize (ty_repr t))) \<or>
    (ty_category a = kIntC \<and> ty_category t = kFloatC)"

definition numeric :: "ExprType \<Rightarrow> bool" where
  "numeric t \<longleftrightarrow> IsNumber (ty_category t) \<or> IsOpen (ty_category t)"

lemma subtype_refl [simp]: "subtype a a"
  by (simp add: subtype_def)

lemma subtype_trans: "subtype a b \<Longrightarrow> subtype b c \<Longrightarrow> subtype a c"
  by (auto simp: subtype_def)

lemma RequireNumber_numeric: "RequireNumber t = Inr u \<Longrightarrow> numeric t"
  by (auto simp: RequireNumber_def numeric_def split: if_splits)

lemma MergeNumbers_above:
  assumes "numeric a" "numeric b"
  shows "subtype a (MergeNumbers a b)" "subtype b (MergeNumbers a b)" "numeric (MergeNumbers a b)"
    "ty_category (MergeNumbers a b) \<in> {ty_category a, ty_category b}"
  using assms
  by (auto simp: MergeNumbers_def subtype_def numeric_def IsNumber_def IsOpen_def plain_def)

lemma MergeAny_above:
  assumes "MergeAny a b = Inr t"
  shows "subtype a t" "subtype b t" "ty_category t \<in> {ty_category a, ty_category b}"
proof -
  consider "IsOpen (ty_category a)" "\<not> IsOpen (ty_category b)" | "IsOpen (ty_category b)" "\<not> IsOpen (ty_category a)"
    | "numeric a" "numeric b" "IsOpen (ty_category a) \<longleftrightarrow> IsOpen (ty_category b)"
    | "\<not> IsOpen (ty_category a)" "\<not> IsOpen (ty_category b)" "\<not> (IsNumber (ty_category a) \<and> IsNumber (ty_category b))"
    by (auto simp: numeric_def)
  then have "subtype a t \<and> subtype b t \<and> ty_category t \<in> {ty_category a, ty_category b}"
  proof cases
    case 3
    then have "t = MergeNumbers a b" using assms by (auto simp: MergeAny_def Let_def numeric_def split: if_splits)
    then show ?thesis using MergeNumbers_above [OF 3(1,2)] by simp
  qed (use assms in \<open>auto simp: MergeAny_def Let_def subtype_def IsOpen_def split: if_splits\<close>)
  then show "subtype a t" "subtype b t" "ty_category t \<in> {ty_category a, ty_category b}" by blast+
qed

text \<open>The result of a merge over a list of operands lies above each and has the category of one.\<close>

definition above :: "ExprType list \<Rightarrow> nat list \<Rightarrow> ExprType \<Rightarrow> bool" where
  "above types ops t \<longleftrightarrow> (\<forall>p \<in> set ops. subtype (types ! p) t) \<and> (\<exists>p \<in> set ops. ty_category t = ty_category (types ! p))"

lemma TypeAt_InrD: "TypeAt types ops k = Inr t \<Longrightarrow> k < length ops \<and> t = types ! (ops ! k)"
  by (auto simp: TypeAt_def at_index_def split: if_splits)

lemma InferExtreme_above:
  assumes "InferExtreme types ops = Inr t" "ops \<noteq> []"
  shows "above types ops t" "\<forall>p \<in> set ops. numeric (types ! p)"
proof -
  let ?P = "\<lambda>i t. (0 < i \<longrightarrow> above types (take i ops) t \<and> numeric t) \<and> (\<forall>p \<in> set (take i ops). numeric (types ! p))"
  have "outcome (\<lambda>_. True) (?P (length ops)) (InferExtreme types ops)"
    unfolding InferExtreme_def
  proof (rule outcome_upt)
    fix i t assume i: "i < length ops" and t: "?P i t"
    have new: "outcome (\<lambda>_. True) (\<lambda>tk. tk = types ! (ops ! i)) (TypeAt types ops i)"
      by (cases "TypeAt types ops i") (auto dest: TypeAt_InrD)
    show "outcome (\<lambda>_. True) (?P (Suc i)) (rbind (TypeAt types ops i) (\<lambda>tk. rbind (RequireNumber tk) (\<lambda>_.
        Inr (if i = 0 then tk else MergeNumbers t tk))))"
    proof (rule outcome_bind [OF new])
      fix tk assume tk: "tk = types ! (ops ! i)"
      show "outcome (\<lambda>_. True) (?P (Suc i)) (rbind (RequireNumber tk) (\<lambda>_. Inr (if i = 0 then tk else MergeNumbers t tk)))"
      proof (cases "RequireNumber tk")
        case (Inr u)
        then have n: "numeric tk" by (rule RequireNumber_numeric)
        show ?thesis
        proof (cases "i = 0")
          case True
          then show ?thesis using Inr n i tk by (simp add: take_Suc_conv_app_nth above_def)
        next
          case False
          then have a: "above types (take i ops) t" "numeric t" using t by auto
          note m = MergeNumbers_above [OF a(2) n]
          have "above types (take (Suc i) ops) (MergeNumbers t tk)"
            using a(1) m i tk unfolding above_def
            by (auto simp: take_Suc_conv_app_nth intro: subtype_trans)
          then show ?thesis using Inr False n m(3) t i tk by (simp add: take_Suc_conv_app_nth)
        qed
      qed simp
    qed
  qed simp_all
  then show "above types ops t" "\<forall>p \<in> set ops. numeric (types ! p)" using assms by simp_all
qed

lemma InferCoalesce_above:
  assumes "InferCoalesce types ops = Inr t"
  shows "above types ops t"
proof -
  have ne: "0 < length ops" using assms by (auto simp: InferCoalesce_def dest: TypeAt_InrD)
  have "outcome (\<lambda>_. True) (above types (take (length ops) ops)) (InferCoalesce types ops)"
    unfolding InferCoalesce_def
  proof (cases "TypeAt types ops 0")
    case (Inr t0)
    then have t0: "t0 = types ! (ops ! 0)" by (auto dest: TypeAt_InrD)
    have "outcome (\<lambda>_. True) (\<lambda>t. above types (take (length ops) ops) t)
        (rfold (\<lambda>k t. rbind (TypeAt types ops k) (MergeAny t)) [1..<length ops] t0)"
    proof (rule outcome_upt [where P = "\<lambda>i. above types (take i ops)"])
      show "above types (take 1 ops) t0" using ne t0 by (cases ops) (simp_all add: above_def)
    next
      fix i t assume i: "1 \<le> i" "i < length ops" and t: "above types (take i ops) t"
      show "outcome (\<lambda>_. True) (above types (take (Suc i) ops)) (rbind (TypeAt types ops i) (MergeAny t))"
      proof (cases "rbind (TypeAt types ops i) (MergeAny t)")
        case r: (Inr u)
        then obtain tk where "TypeAt types ops i = Inr tk" and u: "MergeAny t tk = Inr u" by auto
        then have tk: "tk = types ! (ops ! i)" by (auto dest: TypeAt_InrD)
        have "above types (take (Suc i) ops) u"
          using t MergeAny_above [OF u] i tk unfolding above_def
          by (auto simp: take_Suc_conv_app_nth intro: subtype_trans)
        then show ?thesis using r by simp
      qed simp
    qed (use ne in linarith)
    then show "outcome (\<lambda>_. True) (above types (take (length ops) ops)) (rbind (TypeAt types ops 0) (\<lambda>t.
      rfold (\<lambda>k t. rbind (TypeAt types ops k) (\<lambda>tk. MergeAny t tk)) [1..<length ops] t))"
      using Inr by simp
  qed simp
  then show ?thesis using assms by simp
qed


section \<open>Values of a type\<close>

text \<open>
  A value of a type is NULL or has its category; \<open>D\<close> is what is known of the digits of bits of a size.
\<close>

definition value_ok :: "(u32 \<Rightarrow> bytes \<Rightarrow> bool) \<Rightarrow> ExprType \<Rightarrow> Value \<Rightarrow> bool" where
  "value_ok D t v \<longleftrightarrow> category v = kNullC \<or>
    (category v = ty_category t \<and> category v \<noteq> kUnknownC \<and>
     (category v = kBitsC \<longrightarrow> D (csize (ty_repr t)) (val_bytes v)))"

lemma null_value_ok [simp]: "value_ok D t null_value"
  by (simp add: value_ok_def null_value_def)

lemma IntegerVal_category [simp]: "category (IntegerVal n) = kIntC" "category (FloatVal x) = kFloatC"
  by (simp_all add: IntegerVal_def FloatVal_def)

lemma null_value_category [simp]: "category null_value = kNullC"
  by (simp add: null_value_def)

lemma Widen_ok: "value_ok D a v \<Longrightarrow> subtype a t \<Longrightarrow> value_ok D t (Widen v (ty_category t))"
  by (auto simp: value_ok_def subtype_def Widen_def)

lemma Negated_ok:
  assumes "InferNegate a = Inr t" "value_ok D a v"
  shows "outcome client (value_ok D t) (Negated v)"
proof -
  have "ty_category t = ty_category a" "csize (ty_repr t) = csize (ty_repr a) \<or> ty_category t = kIntC"
    using assms(1) by (auto simp: InferNegate_def split: if_splits)
  then show ?thesis using assms(2) by (auto simp: Negated_def value_ok_def)
qed

lemma outcome_int128 [simp]:
  "outcome client (\<lambda>_. True) (Add x y)" "outcome client (\<lambda>_. True) (Subtract x y)"
  "outcome client (\<lambda>_. True) (Multiply x y)" "outcome client (\<lambda>_. True) (Divide x y)"
  "outcome client (\<lambda>_. True) (Modulo x y)"
  by (simp_all add: Add_def Subtract_def Multiply_def Divide_def Modulo_def Let_def)

lemma Arithmetic_ok:
  assumes "InferArithmetic a b = Inr t" "value_ok D a v" "value_ok D b w"
  shows "outcome client (value_ok D t) (Arithmetic op v w)"
proof -
  have num: "numeric a" "numeric b" and t: "t = MergeNumbers a b"
    using assms(1) by (auto simp: InferArithmetic_def intro: RequireNumber_numeric)
  consider "category v = kNullC \<or> category w = kNullC" | "category v = kIntC" "category w = kIntC"
    | "category v \<noteq> kNullC" "category w \<noteq> kNullC" "\<not> (category v = kIntC \<and> category w = kIntC)" by blast
  then show ?thesis
  proof cases
    case 1
    then show ?thesis by (auto simp: Arithmetic_def)
  next
    case 2
    then have "ty_category a = kIntC" "ty_category b = kIntC" using assms(2,3) by (simp_all add: value_ok_def)
    then have "value_ok D t (IntegerVal n)" for n by (simp add: value_ok_def t MergeNumbers_def IsOpen_def)
    moreover have "outcome client (\<lambda>_. True) (case op of kAdd \<Rightarrow> Add x y | kSubtract \<Rightarrow> Subtract x y
        | kMultiply \<Rightarrow> Multiply x y | kDivide \<Rightarrow> Divide x y | _ \<Rightarrow> Modulo x y)" for x y
      by (cases op) simp_all
    ultimately show ?thesis using 2 by (auto simp: Arithmetic_def Let_def intro!: outcome_bind)
  next
    case 3
    then have "ty_category t = kFloatC"
      using assms(2,3) num by (auto simp: value_ok_def t MergeNumbers_def numeric_def IsNumber_def IsOpen_def)
    then show ?thesis using 3 by (auto simp: Arithmetic_def Let_def value_ok_def)
  qed
qed

section \<open>Comparisons\<close>

definition comparable :: "Value \<Rightarrow> Value \<Rightarrow> bool" where
  "comparable v w \<longleftrightarrow> category v = kNullC \<or> category w = kNullC \<or> category v = category w \<or>
    (IsNumber (category v) \<and> IsNumber (category w))"

lemma Compare_ok:
  "comparable v w \<Longrightarrow> category v \<noteq> kNullC \<Longrightarrow> category w \<noteq> kNullC \<Longrightarrow> outcome client (\<lambda>_. True) (Compare v w)"
  by (auto simp: comparable_def Compare_def Let_def IsNumber_def)

lemma CheckComparable_ok:
  "CheckComparable a b op = Inr u \<Longrightarrow> value_ok D a v \<Longrightarrow> value_ok D b w \<Longrightarrow> comparable v w"
  by (auto simp: CheckComparable_def Let_def value_ok_def comparable_def IsOpen_def split: if_splits)

lemma Compared_ok:
  assumes "comparable v w" "op \<in> {kEqual, kNotEqual, kLess, kLessEqual, kGreater, kGreaterEqual}"
  shows "outcome client (\<lambda>_. True) (Compared op v w)"
proof (cases "category v = kNullC \<or> category w = kNullC")
  case True
  then show ?thesis by (auto simp: Compared_def)
next
  case False
  have "outcome client (\<lambda>_. True) (Holds op ord)" for ord using assms(2) by (auto simp: Holds_def)
  then show ?thesis using False Compare_ok [OF assms(1)]
    by (auto simp: Compared_def intro!: outcome_bind)
qed


section \<open>Operators over lists\<close>

definition extreme_ok :: "ExprType \<Rightarrow> Value \<times> bool \<Rightarrow> bool" where
  "extreme_ok t = (\<lambda>(best, nan).
    (category best = kNullC \<or> category best = kIntC \<and> ty_category t \<in> {kIntC, kFloatC} \<or>
     category best = kFloatC \<and> ty_category t = kFloatC) \<and> (nan \<longrightarrow> ty_category t = kFloatC))"

lemma ExtremeStep_ok:
  assumes "outcome client (value_ok D a) (operand k)" "subtype a t" "numeric a" "extreme_ok t s"
  shows "outcome client (extreme_ok t) (ExtremeStep operand better k s)"
proof -
  obtain best nan where s: "s = (best, nan)" by (cases s)
  show ?thesis unfolding ExtremeStep_def s prod.case
  proof (rule outcome_bind [OF assms(1)])
    fix v assume "value_ok D a v"
    then have v: "category v = kNullC \<or> category v = kIntC \<and> ty_category t \<in> {kIntC, kFloatC} \<or>
        category v = kFloatC \<and> ty_category t = kFloatC"
      using assms(2,3) by (auto simp: value_ok_def subtype_def numeric_def IsNumber_def IsOpen_def)
    have "outcome client (\<lambda>_. True) (Compare v best)" if "category v \<noteq> kNullC" "category best \<noteq> kNullC"
      using v assms(4) that by (intro Compare_ok) (auto simp: comparable_def extreme_ok_def s IsNumber_def)
    then show "outcome client (extreme_ok t) (if category v = kNullC then Inr (best, nan)
        else if category v = kFloatC \<and> f64_isnan (number v) then Inr (best, True)
        else if category best = kNullC then Inr (v, nan)
        else rbind (Compare v best) (\<lambda>ord. Inr (if ord = better then v else best, nan)))"
      using v assms(4) by (auto simp: extreme_ok_def s intro!: outcome_bind)
  qed
qed

lemma Extreme_ok:
  assumes "above types ops t" "\<forall>p \<in> set ops. numeric (types ! p)" "step_count step = length ops"
    "step_category step = ty_category t"
    and "\<And>k. k < length ops \<Longrightarrow> outcome client (value_ok D (types ! (ops ! k))) (OperandOf value program step k)"
  shows "outcome client (value_ok D t) (Extreme value program step)"
proof -
  have "outcome client (extreme_ok t)
    (rfold (ExtremeStep (OperandOf value program step) better) [0..<step_count step] (null_value, False))" for better
  proof (rule outcome_rfold)
    show "extreme_ok t (null_value, False)" by (simp add: extreme_ok_def)
    show "outcome client (extreme_ok t) (ExtremeStep (OperandOf value program step) better k s)"
      if "k \<in> set [0..<step_count step]" "extreme_ok t s" for k s
      using that assms(1-3) by (intro ExtremeStep_ok [OF assms(5)]) (auto simp: above_def)
  qed
  then show ?thesis unfolding Extreme_def Let_def
    by (rule outcome_bind) (auto simp: extreme_ok_def value_ok_def Widen_def assms(4))
qed

lemma Coalesce_ok:
  assumes "\<And>k. k \<in> set ks \<Longrightarrow> outcome client (value_ok D (types ! (ops ! k))) (operand k)"
    "\<And>k. k \<in> set ks \<Longrightarrow> subtype (types ! (ops ! k)) t"
  shows "outcome client (value_ok D t) (Coalesce operand (ty_category t) ks)"
  using assms
proof (induction ks)
  case Nil
  then show ?case by simp
next
  case (Cons k ks)
  have "outcome client (value_ok D (types ! (ops ! k))) (operand k)" by (rule Cons.prems) simp
  then show ?case unfolding Coalesce.simps
  proof (rule outcome_bind)
    fix v assume "value_ok D (types ! (ops ! k)) v"
    then have "value_ok D t (Widen v (ty_category t))" by (rule Widen_ok) (simp add: Cons.prems)
    moreover have "outcome client (value_ok D t) (Coalesce operand (ty_category t) ks)"
      by (rule Cons.IH) (simp_all add: Cons.prems)
    ultimately show "outcome client (value_ok D t)
        (if category v \<noteq> kNullC then Inr (Widen v (ty_category t)) else Coalesce operand (ty_category t) ks)" by simp
  qed
qed

lemma InList_ok:
  assumes "outcome client (value_ok D a) (operand 0)"
    and "\<And>k. 1 \<le> k \<Longrightarrow> k < count \<Longrightarrow> outcome client (value_ok D (b k)) (operand k)"
    and "\<And>k v w. 1 \<le> k \<Longrightarrow> k < count \<Longrightarrow> value_ok D a v \<Longrightarrow> value_ok D (b k) w \<Longrightarrow> comparable v w"
  shows "outcome client (\<lambda>_. True) (InList operand count)"
  unfolding InList_def
proof (rule outcome_bind [OF assms(1)])
  fix v assume v: "value_ok D a v"
  have item: "outcome client (\<lambda>_. True) (InItem operand v k s)" if k: "k \<in> set [1..<count]" for k s
  proof -
    obtain found null where s: "s = (found, null)" by (cases s)
    have "1 \<le> k" "k < count" using k by auto
    note k = this
    show ?thesis unfolding InItem_def s prod.case
    proof (rule outcome_bind [OF assms(2) [OF k]])
      fix w assume w: "value_ok D (b k) w"
      show "outcome client (\<lambda>_. True) (if category w = kNullC then Inr (found, True)
          else if category v \<noteq> kNullC then rbind (Compare v w) (\<lambda>ord. Inr (found \<or> ord = kEqualO, null))
          else Inr (found, null))"
        using Compare_ok [OF assms(3) [OF k v w]] by (auto intro!: outcome_bind)
    qed
  qed
  then have "outcome client (\<lambda>_. True) (rfold (InItem operand v) [1..<count] (False, category v = kNullC))"
    by (intro outcome_rfold) auto
  then show "outcome client (\<lambda>_. True) (rbind (rfold (InItem operand v) [1..<count] (False, category v = kNullC))
      (\<lambda>(found, null). Inr (if category v \<noteq> kNullC \<and> found then kTrueT else if null then kUnknownT else kFalseT)))"
    by (rule outcome_bind) auto
qed

lemma BetweenBounds_ok:
  assumes "outcome client (value_ok D a) (operand 0)" "outcome client (value_ok D b) (operand 1)"
    "outcome client (value_ok D c) (operand 2)"
    and "CheckBetween a b c = Inr ()"
  shows "outcome client (\<lambda>_. True) (BetweenBounds operand)"
  unfolding BetweenBounds_def
proof (rule outcome_bind [OF assms(1)], rule outcome_bind [OF assms(2)], rule outcome_bind [OF assms(3)])
  fix v low high assume v: "value_ok D a v" "value_ok D b low" "value_ok D c high"
  have "comparable v low \<and> comparable v high"
  proof (cases "IsOpen (ty_category a)")
    case True
    then have "category v = kNullC" using v(1) by (auto simp: value_ok_def IsOpen_def)
    then show ?thesis by (simp add: comparable_def)
  next
    case False
    then have "CheckComparable a b kGreaterEqual = Inr ()" "CheckComparable a c kLessEqual = Inr ()"
      using assms(4) by (auto simp: CheckBetween_def Let_def)
    then show ?thesis using v by (auto intro: CheckComparable_ok)
  qed
  then show "outcome client (\<lambda>_. True) (rbind (Compared kGreaterEqual v low) (\<lambda>above. rbind (Compared kLessEqual v high)
      (\<lambda>below. Inr (And above below))))"
    by (auto intro!: outcome_bind [OF Compared_ok])
qed

lemma Logic_ok:
  "(\<And>k. k \<in> set ks \<Longrightarrow> outcome client (\<lambda>_. True) (operand k)) \<Longrightarrow>
    outcome client (\<lambda>_. True) (Logic operand decides ks result)"
proof (induction ks arbitrary: result)
  case Nil
  then show ?case by simp
next
  case (Cons k ks)
  have "outcome client (\<lambda>_. True) (operand k)" by (rule Cons.prems) simp
  then show ?case unfolding Logic.simps using Cons by (auto intro!: outcome_bind)
qed

section \<open>Stored values\<close>

definition digits_known :: "(u32 \<Rightarrow> bytes \<Rightarrow> bool) \<Rightarrow> bool" where
  "digits_known D \<longleftrightarrow> (\<forall>n s. length s = unat n \<longrightarrow> IsBitString s \<longrightarrow> D n (digit_bytes s))"

lemma LoadValue_holds:
  assumes "v = NullV \<or> holds_value t v" "digits_known D"
  obtains x where "LoadValue v t = Some x" "value_ok D (TypeOf t) x"
  using assms
  by (cases "kind t"; cases v)
     (auto simp: LoadValue_def value_ok_def TypeOf_def null_value_def digits_known_def IntegerVal_def FloatVal_def)

lemma LoadValue_value:
  assumes "LoadValue v t = Some x" "\<And>s. v = BitsV s \<Longrightarrow> length s = unat (csize t) \<Longrightarrow> D (csize t) (digit_bytes s)"
  shows "value_ok D (TypeOf t) x"
  using assms
  by (cases "kind t"; cases v)
     (auto simp: LoadValue_def value_ok_def TypeOf_def null_value_def IntegerVal_def FloatVal_def split: if_splits)

lemma LiteralValue_ok:
  assumes "\<not> is_parameter l" "\<And>s. l = LBits s \<Longrightarrow> D (of_nat (length s)) (digit_bytes s)"
  shows "value_ok D (LiteralType l) (LiteralValue (LiteralType l) l)"
  using assms by (cases l) (auto simp: value_ok_def LiteralValue_def Let_def plain_def)

end
