(* ===== verification/Expr_Sound.thy ===== *)
theory Expr_Sound
  imports Expr_Values
begin

text \<open>
  Planned expressions evaluate: with inputs that fit the schema, evaluation of a planned program ends in
  a result or in an exception that the statement itself causes, within the stack that the depth limit
  of the planner allows.
\<close>

section \<open>The steps of an expression in a program\<close>

definition runs ::
    "Program \<Rightarrow> nat \<Rightarrow> Node list \<Rightarrow> ExprType list \<Rightarrow> ColumnBinding option list \<Rightarrow> ColumnType option list \<Rightarrow> nat \<Rightarrow> Step \<Rightarrow> bool" where
  "runs q off ns types bindings declared i s \<longleftrightarrow>
    at_index (steps q) (off + i) = Inr s \<and> (\<exists>first. s = step_of ns types bindings declared first i) \<and>
    length (node_operands (ns ! i)) < 2 ^ 32 \<and>
    (\<forall>k < length (node_operands (ns ! i)). Operand q s k = Inr (off + node_operands (ns ! i) ! k))"

definition extends :: "Program \<Rightarrow> Program \<Rightarrow> bool" where
  "extends p q \<longleftrightarrow> (\<exists>ss os. steps q = steps p @ ss \<and> prog_operands q = prog_operands p @ os)"

lemma extends_refl [simp]: "extends p p"
  by (simp add: extends_def)

lemma extends_trans: "extends p q \<Longrightarrow> extends q r \<Longrightarrow> extends p r"
  by (auto simp: extends_def)

lemma at_index_append: "at_index xs i = Inr x \<Longrightarrow> at_index (xs @ ys) i = Inr x"
  by (auto simp: at_index_def nth_append split: if_splits)

lemma runs_extends: "runs p off ns types bindings declared i s \<Longrightarrow> extends p q \<Longrightarrow> runs q off ns types bindings declared i s"
  unfolding runs_def extends_def Operand_def by (auto intro!: at_index_append)

lemma appended_extends: "appended ns types bindings declared p n q \<Longrightarrow> extends p q"
  by (auto simp: appended_def extends_def)

lemma operands_of_split:
  "i < length ns \<Longrightarrow> operands_of ns = operands_of (take i ns) @ node_operands (ns ! i) @ operands_of (drop (Suc i) ns)"
  unfolding operands_of_def by (subst id_take_nth_drop [of i ns]) simp_all

lemma length_operands_of:
  assumes "checked ns d m"
  shows "length (operands_of ns) \<le> length ns"
proof -
  have "set (operands_of ns) \<subseteq> {..<length ns}"
  proof
    fix p assume "p \<in> set (operands_of ns)"
    then obtain i where "i < length ns" "p \<in> set (node_operands (ns ! i))"
      unfolding operands_of_def set_concat set_map by (auto dest: in_set_conv_nth [THEN iffD1])
    then show "p \<in> {..<length ns}" using assms by (fastforce simp: checked_def node_ok_def Let_def)
  qed
  then have "card (set (operands_of ns)) \<le> length ns" using card_mono [of "{..<length ns}"] by simp
  then show ?thesis using assms by (simp add: checked_def distinct_card)
qed

lemma appended_runs:
  assumes ap: "appended ns types bindings declared p (length ns) q" and ch: "checked ns d m"
    and small: "length (steps p) + length ns < 2 ^ 32" "length (prog_operands p) + length ns < 2 ^ 32" and i: "i < length ns"
  shows "\<exists>s. runs q (length (steps p)) ns types bindings declared i s"
proof -
  let ?off = "length (steps p)" and ?ops = "node_operands (ns ! i)"
  let ?first = "length (prog_operands p) + length (operands_of (take i ns))"
  let ?s = "step_of ns types bindings declared ?first i"
  note split = operands_of_split [OF i]
  have total: "length (operands_of (take i ns)) + length ?ops \<le> length ns"
    using length_operands_of [OF ch] unfolding split by simp
  have off: "u32_of ?off = ?off" using small(1) by (simp add: u32_of_def)
  have s: "at_index (steps q) (?off + i) = Inr ?s" using ap i by (simp add: appended_def nth_append)
  have first: "step_first ?s = ?first" using small(2) total by (simp add: step_of_def new_step_def u32_of_def Let_def)
  have "Operand q ?s k = Inr (?off + ?ops ! k)" if k: "k < length ?ops" for k
  proof -
    have "?ops ! k < i" using ch i k by (auto simp: checked_def node_ok_def Let_def)
    then have "u32_add ?off (?ops ! k) = ?off + ?ops ! k" using small(1) i by (intro u32_add_small) simp
    moreover have "u32_add ?first k = ?first + k" using small(2) total k by (intro u32_add_small) simp
    moreover have "prog_operands q = prog_operands p @ map (u32_add ?off) (operands_of (take i ns)) @
        map (u32_add ?off) ?ops @ map (u32_add ?off) (operands_of (drop (Suc i) ns))"
      using ap off split by (simp add: appended_def)
    ultimately show ?thesis using k unfolding Operand_def first by (simp add: nth_append)
  qed
  moreover have "length ?ops < 2 ^ 32" using total small(1) by simp
  ultimately show ?thesis using s unfolding runs_def by blast
qed

lemma step_of_fields:
  "step_op (step_of ns types bindings declared first i) = node_op (ns ! i)"
  "step_category (step_of ns types bindings declared first i) = ty_category (types ! i)"
  "step_count (step_of ns types bindings declared first i) = u32_of (length (node_operands (ns ! i)))"
  by (simp_all add: step_of_def new_step_def Let_def)

lemma runs_fields:
  assumes "runs q off ns types bindings declared i s"
  shows "step_op s = node_op (ns ! i)" "step_category s = ty_category (types ! i)"
    "step_count s = length (node_operands (ns ! i))"
    "is_column (node_op (ns ! i)) \<Longrightarrow> bindings ! i = Some b \<Longrightarrow> step_slot s = bind_slot b \<and> step_type s = bind_type b"
    "node_op (ns ! i) = kParameter \<Longrightarrow> declared ! i = Some t \<Longrightarrow> step_type s = t"
    "node_op (ns ! i) = kLiteral \<Longrightarrow> step_literal s = LiteralValue (types ! i) (node_literal (ns ! i))"
proof -
  obtain first where s: "s = step_of ns types bindings declared first i" and l: "length (node_operands (ns ! i)) < 2 ^ 32"
    using assms by (auto simp: runs_def)
  show "step_op s = node_op (ns ! i)" "step_category s = ty_category (types ! i)"
    "step_count s = length (node_operands (ns ! i))"
    using l by (simp_all add: s step_of_fields u32_of_def)
  show "is_column (node_op (ns ! i)) \<Longrightarrow> bindings ! i = Some b \<Longrightarrow> step_slot s = bind_slot b \<and> step_type s = bind_type b"
    "node_op (ns ! i) = kParameter \<Longrightarrow> declared ! i = Some t \<Longrightarrow> step_type s = t"
    "node_op (ns ! i) = kLiteral \<Longrightarrow> step_literal s = LiteralValue (types ! i) (node_literal (ns ! i))"
    by (auto simp: s step_of_def new_step_def Let_def is_column_def)
qed

lemma runs_OperandOf:
  "runs q off ns types bindings declared i s \<Longrightarrow> k < length (node_operands (ns ! i)) \<Longrightarrow>
    OperandOf f q s k = f (off + node_operands (ns ! i) ! k)"
  by (simp add: OperandOf_def runs_def)

section \<open>Inputs\<close>

definition row_fits :: "(string \<Rightarrow> ColumnBinding option) \<Rightarrow> ColumnValue list \<Rightarrow> bool" where
  "row_fits column row \<longleftrightarrow> (\<forall>name b. column name = Some b \<longrightarrow>
    bind_slot b < length row \<and> (row ! bind_slot b = NullV \<or> holds_value (bind_type b) (row ! bind_slot b)))"

text \<open>The block's values matter only when it exists; parameters are not constrained.\<close>

definition inputs_fit :: "ExprSchema \<Rightarrow> Inputs \<Rightarrow> bool" where
  "inputs_fit schema inputs \<longleftrightarrow>
    (in_exists inputs \<longrightarrow> row_fits (BlockColumn schema) (in_block inputs)) \<and>
    row_fits (ChunkColumn schema) (in_chunk inputs)"

definition digits_in :: "(u32 \<Rightarrow> bytes \<Rightarrow> bool) \<Rightarrow> Inputs \<Rightarrow> Node list \<Rightarrow> bool" where
  "digits_in D inputs ns \<longleftrightarrow> digits_known D \<and>
    (\<forall>s n. BitsV s \<in> set (in_parameters inputs) \<longrightarrow> length s = unat n \<longrightarrow> D n (digit_bytes s)) \<and>
    (\<forall>node \<in> set ns. \<forall>s. node_literal node = LBits s \<longrightarrow> D (of_nat (length s)) (digit_bytes s))"

lemma digits_in_trivial: "digits_in (\<lambda>_ _. True) inputs ns"
  by (simp add: digits_in_def digits_known_def)

lemma Stored_ok:
  assumes "row_fits column row" "column name = Some b" "step_slot s = bind_slot b" "step_type s = bind_type b" "digits_known D"
  shows "outcome client (value_ok D (TypeOf (bind_type b))) (Stored row s)"
proof -
  have r: "bind_slot b < length row" "row ! bind_slot b = NullV \<or> holds_value (bind_type b) (row ! bind_slot b)"
    using assms(1,2) by (auto simp: row_fits_def)
  obtain x where "LoadValue (row ! bind_slot b) (bind_type b) = Some x" "value_ok D (TypeOf (bind_type b)) x"
    using r(2) assms(5) by (rule LoadValue_holds)
  then show ?thesis using r(1) assms(3,4) by (simp add: Stored_def)
qed

lemma Parameter_ok:
  assumes "step_type s = t" "digits_in D inputs ns"
  shows "outcome client (value_ok D (TypeOf t)) (Parameter (in_parameters inputs) s)"
proof (cases "step_slot s < length (in_parameters inputs)")
  case True
  let ?v = "in_parameters inputs ! step_slot s"
  have "?v \<in> set (in_parameters inputs)" using True by simp
  then have "value_ok D (TypeOf t) x" if "LoadValue ?v t = Some x" for x
    using assms(2) by (intro LoadValue_value [OF that]) (auto simp: digits_in_def)
  then show ?thesis using True assms(1) by (auto simp: Parameter_def split: option.splits)
qed (simp add: Parameter_def)

section \<open>Values\<close>

definition evaluable ::
    "(u32 \<Rightarrow> bytes \<Rightarrow> bool) \<Rightarrow> ExprSchema \<Rightarrow> Inputs \<Rightarrow> Program \<Rightarrow> nat \<Rightarrow> Node list \<Rightarrow> nat list \<Rightarrow> nat \<Rightarrow> ExprType list \<Rightarrow>
      ColumnBinding option list \<Rightarrow> ColumnType option list \<Rightarrow> bool" where
  "evaluable D schema inputs q off ns d m types bindings declared \<longleftrightarrow>
    checked ns d m \<and> infers ns True schema declared (length ns) (types, bindings) \<and>
    (\<forall>i < length ns. \<exists>s. runs q off ns types bindings declared i s) \<and>
    inputs_fit schema inputs \<and> digits_in D inputs ns"

lemma IsValue_iff: "IsValue op \<longleftrightarrow> op \<in> {kLiteral, kParameter, kColumn, kChunkColumn, kPosX, kPosY, kPosZ, kNow,
    kNegate, kAdd, kSubtract, kMultiply, kDivide, kModulo, kLeast, kGreatest, kCoalesce}"
  by (cases op) (simp_all add: IsValue_def less_eq_Op_def)

text \<open>One step, with the operands evaluated by \<open>value\<close>.\<close>

lemma ValueStep_leaf:
  assumes ev: "evaluable D schema inputs q off ns d m types bindings declared"
    and i: "i < length ns" and s: "runs q off ns types bindings declared i s"
    and op: "node_op (ns ! i) \<in> {kLiteral, kParameter, kColumn, kChunkColumn, kPosX, kPosY, kPosZ, kNow}"
  shows "outcome client (value_ok D (types ! i)) (ValueStep f q inputs s)"
proof -
  have t: "inferred ns True schema declared bindings types i" and ok: "node_ok ns d m i"
    and rows: "inputs_fit schema inputs" and dig: "digits_in D inputs ns"
    using ev i by (auto simp: evaluable_def infers_def checked_def)
  note fields = runs_fields [OF s]
  have dk: "digits_known D" using dig by (simp add: digits_in_def)
  have int: "value_ok D (TypeOf kI64) (IntegerVal n)" "value_ok D (TypeOf kU64) (IntegerVal n)" for n
    by (simp_all add: value_ok_def TypeOf_def kI64_def kU64_def)
  consider "node_op (ns ! i) = kLiteral" | "node_op (ns ! i) = kParameter" | "is_column (node_op (ns ! i))"
    | "node_op (ns ! i) \<in> {kPosX, kPosY, kPosZ, kNow}" using op by (auto simp: is_column_def)
  then show ?thesis
  proof cases
    case 1
    have "\<not> is_parameter (node_literal (ns ! i))" using ok 1 by (auto simp: node_ok_def Let_def)
    moreover have "D (of_nat (length w)) (digit_bytes w)" if "node_literal (ns ! i) = LBits w" for w
      using dig that i by (auto simp: digits_in_def)
    ultimately have "value_ok D (types ! i) (LiteralValue (types ! i) (node_literal (ns ! i)))"
      using t 1 by (auto simp: inferred_def Let_def intro: LiteralValue_ok)
    then show ?thesis using 1 fields(1) fields(6) by (simp add: ValueStep_def Let_def)
  next
    case 2
    then obtain c where c: "declared ! i = Some c" "types ! i = TypeOf c" using t by (auto simp: inferred_def Let_def)
    show ?thesis using 2 c(2) fields(1) Parameter_ok [OF fields(5) [OF 2 c(1)] dig] by (simp add: ValueStep_def Let_def)
  next
    case 3
    then obtain b where b: "bindings ! i = Some b" "lookup schema (ns ! i) = Some b" "types ! i = TypeOf (bind_type b)"
      using t by (auto simp: inferred_def Let_def is_column_def)
    note f = fields(4) [OF 3 b(1)]
    show ?thesis
    proof (cases "node_op (ns ! i) = kChunkColumn")
      case True
      then show ?thesis using rows b f fields(1) dk Stored_ok [of "ChunkColumn schema"]
        by (auto simp: ValueStep_def Let_def inputs_fit_def lookup_def)
    next
      case False
      then have "node_op (ns ! i) = kColumn" using 3 by (simp add: is_column_def)
      then show ?thesis using rows b f fields(1) dk Stored_ok [of "BlockColumn schema"]
        by (auto simp: ValueStep_def Let_def inputs_fit_def lookup_def)
    qed
  next
    case 4
    then show ?thesis using t fields(1) int by (auto simp: ValueStep_def Let_def inferred_def is_column_def)
  qed
qed

lemma ValueStep_operator:
  assumes ev: "evaluable D schema inputs q off ns d m types bindings declared"
    and i: "i < length ns" and s: "runs q off ns types bindings declared i s"
    and op: "node_op (ns ! i) \<in> {kNegate, kAdd, kSubtract, kMultiply, kDivide, kModulo, kLeast, kGreatest, kCoalesce}"
    and operand: "\<And>k. k < length (node_operands (ns ! i)) \<Longrightarrow>
      outcome client (value_ok D (types ! (node_operands (ns ! i) ! k))) (OperandOf f q s k)"
  shows "outcome client (value_ok D (types ! i)) (ValueStep f q inputs s)"
proof -
  let ?op = "node_op (ns ! i)" and ?ops = "node_operands (ns ! i)"
  have t: "InferOperator ns types ?op ?ops = Inr (types ! i)" and ok: "node_ok ns d m i"
    using ev i op by (auto simp: evaluable_def infers_def checked_def inferred_def is_column_def Let_def)
  have arity: "OperandCount ?op (length ?ops) = length ?ops" using ok by (simp add: node_ok_def Let_def)
  note l = OperandCount_lengths [OF arity] and fields = runs_fields [OF s]
  consider "?op = kNegate" | "?op \<in> {kAdd, kSubtract, kMultiply, kDivide, kModulo}" | "?op \<in> {kLeast, kGreatest}" | "?op = kCoalesce"
    using op by blast
  then show ?thesis
  proof cases
    case 1
    then have "InferNegate (types ! (?ops ! 0)) = Inr (types ! i)" and one: "0 < length ?ops"
      using t l by (auto simp: InferOperator_def Let_def dest: TypeAt_InrD)
    then have "outcome client (value_ok D (types ! i)) (rbind (OperandOf f q s 0) Negated)"
      by (intro outcome_bind [OF operand [OF one]] Negated_ok)
    then show ?thesis using 1 fields(1) by (simp add: ValueStep_def Let_def)
  next
    case 2
    then have "InferArithmetic (types ! (?ops ! 0)) (types ! (?ops ! 1)) = Inr (types ! i)" and two: "0 < length ?ops" "1 < length ?ops"
      using t l by (auto simp: InferOperator_def Let_def dest!: TypeAt_InrD)
    then have "outcome client (value_ok D (types ! i))
        (rbind (OperandOf f q s 0) (\<lambda>a. rbind (OperandOf f q s 1) (\<lambda>b. Arithmetic ?op a b)))"
      by (intro outcome_bind [OF operand [OF two(1)]] outcome_bind [OF operand [OF two(2)]] Arithmetic_ok)
    then show ?thesis using 2 fields(1) by (auto simp: ValueStep_def Let_def)
  next
    case 3
    then have e: "InferExtreme types ?ops = Inr (types ! i)" "?ops \<noteq> []"
      using t l by (auto simp: InferOperator_def Let_def)
    have "outcome client (value_ok D (types ! i)) (Extreme f q s)"
      by (rule Extreme_ok [OF InferExtreme_above [OF e]]) (simp_all add: fields operand)
    then show ?thesis using 3 fields(1) by (auto simp: ValueStep_def Let_def)
  next
    case 4
    then have "InferCoalesce types ?ops = Inr (types ! i)" using t by (simp add: InferOperator_def Let_def)
    then have a: "above types ?ops (types ! i)" by (rule InferCoalesce_above)
    have "outcome client (value_ok D (types ! i)) (Coalesce (OperandOf f q s) (ty_category (types ! i)) [0..<length ?ops])"
      using a by (intro Coalesce_ok [where types = types and ops = ?ops] operand) (auto simp: above_def)
    then show ?thesis using 4 fields by (simp add: ValueStep_def Let_def)
  qed
qed


lemma value_sound:
  assumes ev: "evaluable D schema inputs q off ns d m types bindings declared"
    and "i < length ns" "IsValue (node_op (ns ! i))" "d ! i \<le> f"
  shows "outcome client (value_ok D (types ! i)) (ValueOf f q inputs (off + i))"
  using assms(2-)
proof (induction i arbitrary: f rule: less_induct)
  case (less i)
  have ok: "node_ok ns d m i" "1 \<le> d ! i" using ev less.prems by (auto simp: evaluable_def checked_def)
  then obtain g where f: "f = Suc g" using less.prems by (cases f) auto
  obtain s where s: "runs q off ns types bindings declared i s" using ev less.prems by (auto simp: evaluable_def)
  have val: "ValueOf f q inputs (off + i) = ValueStep (ValueOf g q inputs) q inputs s"
    using s by (simp add: f runs_def)
  let ?op = "node_op (ns ! i)" and ?ops = "node_operands (ns ! i)"
  consider "?op \<in> {kLiteral, kParameter, kColumn, kChunkColumn, kPosX, kPosY, kPosZ, kNow}"
    | "?op \<in> {kNegate, kAdd, kSubtract, kMultiply, kDivide, kModulo, kLeast, kGreatest, kCoalesce}"
    using less.prems(2) unfolding IsValue_iff by blast
  then show ?case
  proof cases
    case 1
    show ?thesis unfolding val by (rule ValueStep_leaf [OF ev less.prems(1) s 1])
  next
    case 2
    then have nl: "\<not> is_logic ?op" by (auto simp: is_logic_def)
    show ?thesis unfolding val
    proof (rule ValueStep_operator [OF ev less.prems(1) s 2])
      fix k assume k: "k < length ?ops"
      then have p: "?ops ! k < i" "IsValue (node_op (ns ! (?ops ! k)))" "d ! (?ops ! k) < d ! i"
        using ok(1) nl by (auto simp: node_ok_def Let_def)
      show "outcome client (value_ok D (types ! (?ops ! k))) (OperandOf (ValueOf g q inputs) q s k)"
        unfolding runs_OperandOf [OF s k] by (rule less.IH) (use p less.prems f in auto)
    qed
  qed
qed

section \<open>Truths\<close>

definition truthy :: "Node list \<Rightarrow> ExprType list \<Rightarrow> nat \<Rightarrow> bool" where
  "truthy ns types i \<longleftrightarrow> (IsValue (node_op (ns ! i)) \<longrightarrow> ty_category (types ! i) = kBoolC \<or> IsOpen (ty_category (types ! i)))"

lemma CheckTruth_truthy: "CheckTruth ns types i = Inr u \<Longrightarrow> truthy ns types i"
  by (auto simp: CheckTruth_def truthy_def at_index_def split: if_splits)

lemma rfold_each: "rfold (\<lambda>x _. f x) xs u = Inr w \<Longrightarrow> x \<in> set xs \<Longrightarrow> \<exists>y. f x = Inr y"
  by (induction xs arbitrary: u) auto

lemma at_index_InrD: "at_index xs i = Inr x \<Longrightarrow> i < length xs \<and> x = xs ! i"
  by (auto simp: at_index_def split: if_splits)

lemma CheckIn_comparable:
  assumes "CheckIn types ops = Inr u" "ops \<noteq> []" "p \<in> set ops" "value_ok D (types ! hd ops) v" "value_ok D (types ! p) w"
  shows "comparable v w"
proof (cases "IsOpen (ty_category (types ! hd ops))")
  case True
  then have "category v = kNullC" using assms(4) by (auto simp: value_ok_def IsOpen_def)
  then show ?thesis by (simp add: comparable_def)
next
  case False
  obtain o' os where ops: "ops = o' # os" using assms(2) by (cases ops) auto
  have keep: "rfold (\<lambda>operand known. rbind (at_index types operand) (\<lambda>t.
      Inr (if known = None \<and> \<not> IsOpen (ty_category t) then Some t else known))) os (Some x) = Inr y \<Longrightarrow> y = Some x" for x y
    by (induction os) auto
  from assms(1) obtain known where known: "FirstKnown types ops = Inr known"
    and each: "(case known of None \<Rightarrow> Inr () | Some k \<Rightarrow>
        rfold (\<lambda>operand _. rbind (at_index types operand) (\<lambda>t. CheckComparable k t kEqual)) ops ()) = Inr u"
    by (auto simp: CheckIn_def)
  have "known = Some (types ! o')"
    using known False unfolding FirstKnown_def ops by (auto dest!: at_index_InrD keep)
  then have "rfold (\<lambda>operand _. rbind (at_index types operand) (\<lambda>t. CheckComparable (types ! o') t kEqual)) ops () = Inr u"
    using each by simp
  from rfold_each [OF this assms(3)] have "\<exists>y. CheckComparable (types ! o') (types ! p) kEqual = Inr y"
    by (auto dest!: at_index_InrD)
  then show ?thesis using assms(4,5) by (auto simp: ops intro: CheckComparable_ok)
qed

lemma TruthOfValue_ok:
  "value_ok D t v \<Longrightarrow> ty_category t = kBoolC \<or> IsOpen (ty_category t) \<Longrightarrow> outcome client (\<lambda>_. True) (TruthOfValue v)"
  by (auto simp: TruthOfValue_def value_ok_def IsOpen_def)

lemma comparison_planned:
  assumes t: "InferOperator ns types op ops = Inr t" and op: "op \<in> {kEqual, kNotEqual, kLess, kLessEqual, kGreater, kGreaterEqual}"
    and two: "0 < length ops" "1 < length ops"
    and operand: "\<And>k. k < length ops \<Longrightarrow> outcome client (value_ok D (types ! (ops ! k))) (operand k)"
  shows "outcome client (\<lambda>_. True) (rbind (operand 0) (\<lambda>a. rbind (operand 1) (\<lambda>b. Compared op a b)))"
proof -
  have "\<exists>u. CheckComparable (types ! (ops ! 0)) (types ! (ops ! 1)) op = Inr u"
    using t op by (auto simp: InferOperator_def Let_def dest!: TypeAt_InrD)
  then show ?thesis
    by (intro outcome_bind [OF operand [OF two(1)]] outcome_bind [OF operand [OF two(2)]] Compared_ok [OF _ op])
      (auto intro: CheckComparable_ok)
qed

lemma InList_planned:
  assumes c: "CheckIn types ops = Inr u" and "2 \<le> length ops"
    and operand: "\<And>k. k < length ops \<Longrightarrow> outcome client (value_ok D (types ! (ops ! k))) (operand k)"
  shows "outcome client (\<lambda>_. True) (InList operand (length ops))"
proof (rule InList_ok [where a = "types ! (ops ! 0)" and b = "\<lambda>k. types ! (ops ! k)" and D = D])
  have ne: "ops \<noteq> []" "0 < length ops" using assms(2) by auto
  show "outcome client (value_ok D (types ! (ops ! 0))) (operand 0)" by (rule operand [OF ne(2)])
  show "outcome client (value_ok D (types ! (ops ! k))) (operand k)" if "k < length ops" for k by (rule operand [OF that])
  show "comparable v w" if "k < length ops" "value_ok D (types ! (ops ! 0)) v" "value_ok D (types ! (ops ! k)) w" for k v w
    using c that ne CheckIn_comparable [of types ops _ "ops ! k"] by (auto simp: hd_conv_nth)
qed

lemma TruthStep_predicate:
  assumes ev: "evaluable D schema inputs q off ns d m types bindings declared"
    and i: "i < length ns" and s: "runs q off ns types bindings declared i s" and op: "\<not> IsValue (node_op (ns ! i))"
    and operand: "\<And>k. \<not> is_logic (node_op (ns ! i)) \<Longrightarrow> k < length (node_operands (ns ! i)) \<Longrightarrow>
      outcome client (value_ok D (types ! (node_operands (ns ! i) ! k))) (OperandOf f q s k)"
    and truth: "\<And>k. is_logic (node_op (ns ! i)) \<Longrightarrow> k < length (node_operands (ns ! i)) \<Longrightarrow>
      outcome client (\<lambda>_. True) (OperandOf g q s k)"
  shows "outcome client (\<lambda>_. True) (TruthStep f g q inputs j s)"
proof -
  let ?op = "node_op (ns ! i)" and ?ops = "node_operands (ns ! i)" and ?o = "OperandOf f q s"
  have t: "InferOperator ns types ?op ?ops = Inr (types ! i)" and ok: "node_ok ns d m i"
    using ev i op by (auto simp: evaluable_def infers_def checked_def inferred_def is_column_def IsValue_iff Let_def)
  have arity: "OperandCount ?op (length ?ops) = length ?ops" using ok by (simp add: node_ok_def Let_def)
  note l = OperandCount_lengths [OF arity] and fields = runs_fields [OF s]
  have nots: "outcome client (\<lambda>_. True) (rbind r (\<lambda>t. Inr (h t)))" if "outcome client (\<lambda>_. True) r" for r :: "Truth res" and h :: "Truth \<Rightarrow> Truth"
    using that by (rule outcome_bind) simp
  consider "?op \<in> {kEqual, kNotEqual, kLess, kLessEqual, kGreater, kGreaterEqual}" | "?op \<in> {kIsNull, kIsNotNull}"
    | "?op \<in> {kIn, kNotIn}" | "?op \<in> {kBetween, kNotBetween}" | "?op = kExists" | "?op = kNot" | "?op \<in> {kAnd, kOr}"
    using op by (cases ?op) (auto simp: IsValue_iff)
  then show ?thesis
  proof cases
    case 1
    then have two: "0 < length ?ops" "1 < length ?ops" and nl: "\<not> is_logic ?op" using l by (auto simp: is_logic_def)
    have "outcome client (\<lambda>_. True) (rbind (?o 0) (\<lambda>a. rbind (?o 1) (\<lambda>b. Compared ?op a b)))"
      by (rule comparison_planned [OF t 1 two]) (rule operand [OF nl])
    then show ?thesis using 1 fields(1) unfolding TruthStep_def Let_def by auto
  next
    case 2
    then have one: "0 < length ?ops" and nl: "\<not> is_logic ?op" using l by (auto simp: is_logic_def)
    show ?thesis using 2 fields(1) unfolding TruthStep_def Let_def by (auto intro!: outcome_bind [OF operand [OF nl one]])
  next
    case 3
    then obtain u where c: "CheckIn types ?ops = Inr u" and two: "2 \<le> length ?ops" and nl: "\<not> is_logic ?op"
      using t l by (auto simp: InferOperator_def Let_def is_logic_def)
    have "outcome client (\<lambda>_. True) (InList ?o (step_count s))" unfolding fields(3)
      by (rule InList_planned [OF c two]) (rule operand [OF nl])
    then show ?thesis using 3 fields(1) unfolding TruthStep_def Let_def by (auto intro!: nots)
  next
    case 4
    then have c: "CheckBetween (types ! (?ops ! 0)) (types ! (?ops ! 1)) (types ! (?ops ! 2)) = Inr ()"
      and three: "0 < length ?ops" "1 < length ?ops" "2 < length ?ops" and nl: "\<not> is_logic ?op"
      using t l by (auto simp: InferOperator_def Let_def is_logic_def dest!: TypeAt_InrD)
    have "outcome client (\<lambda>_. True) (BetweenBounds ?o)"
      by (rule BetweenBounds_ok [OF _ _ _ c, where operand = ?o]) (rule operand [OF nl], rule three)+
    then show ?thesis using 4 fields(1) unfolding TruthStep_def Let_def by (auto intro!: nots)
  next
    case 5
    then show ?thesis using fields(1) unfolding TruthStep_def Let_def by simp
  next
    case 6
    then have "0 < length ?ops" "is_logic ?op" using l by (auto simp: is_logic_def)
    then show ?thesis using 6 fields(1) truth unfolding TruthStep_def Let_def by (auto intro!: nots)
  next
    case 7
    then have "is_logic ?op" by (auto simp: is_logic_def)
    then show ?thesis using 7 fields(1,3) truth unfolding TruthStep_def Let_def by (auto intro!: Logic_ok)
  qed
qed

lemma logic_operands_truthy:
  assumes "evaluable D schema inputs q off ns d m types bindings declared" "i < length ns"
    "is_logic (node_op (ns ! i))" "p \<in> set (node_operands (ns ! i))"
  shows "truthy ns types p"
proof -
  have "InferOperator ns types (node_op (ns ! i)) (node_operands (ns ! i)) = Inr (types ! i)"
    using assms by (auto simp: evaluable_def infers_def inferred_def is_column_def is_logic_def Let_def)
  then have "\<exists>u. rfold (\<lambda>operand _. CheckTruth ns types operand) (node_operands (ns ! i)) () = Inr u"
    using assms(3) by (auto simp: InferOperator_def Let_def is_logic_def)
  then show ?thesis using rfold_each assms(4) CheckTruth_truthy by metis
qed

lemma truth_sound:
  assumes ev: "evaluable D schema inputs q off ns d m types bindings declared"
    and "i < length ns" "truthy ns types i" "d ! i < f"
  shows "outcome client (\<lambda>_. True) (TruthOf f q inputs (off + i))"
  using assms(2-)
proof (induction i arbitrary: f rule: less_induct)
  case (less i)
  have ok: "node_ok ns d m i" using ev less.prems by (auto simp: evaluable_def checked_def)
  obtain g where f: "f = Suc g" "d ! i \<le> g" using less.prems(3) by (cases f) auto
  obtain s where s: "runs q off ns types bindings declared i s" using ev less.prems by (auto simp: evaluable_def)
  have val: "TruthOf f q inputs (off + i) = TruthStep (ValueOf g q inputs) (TruthOf g q inputs) q inputs (off + i) s"
    using s by (simp add: f runs_def)
  let ?op = "node_op (ns ! i)" and ?ops = "node_operands (ns ! i)"
  show ?case unfolding val
  proof (cases "IsValue ?op")
    case True
    then have "outcome client (\<lambda>_. True) (rbind (ValueOf g q inputs (off + i)) TruthOfValue)"
      using less.prems(2) by (intro outcome_bind [OF value_sound [OF ev less.prems(1) True f(2)]] TruthOfValue_ok)
        (auto simp: truthy_def)
    then show "outcome client (\<lambda>_. True) (TruthStep (ValueOf g q inputs) (TruthOf g q inputs) q inputs (off + i) s)"
      using True runs_fields(1) [OF s] unfolding TruthStep_def Let_def IsValue_iff by auto
  next
    case False
    have p: "?ops ! k < i" "d ! (?ops ! k) < d ! i" "?ops ! k \<in> set ?ops" if "k < length ?ops" for k
      using ok that by (auto simp: node_ok_def Let_def)
    show "outcome client (\<lambda>_. True) (TruthStep (ValueOf g q inputs) (TruthOf g q inputs) q inputs (off + i) s)"
    proof (rule TruthStep_predicate [OF ev less.prems(1) s False])
      fix k assume nl: "\<not> is_logic ?op" and k: "k < length ?ops"
      have "IsValue (node_op (ns ! (?ops ! k)))" using ok nl k by (auto simp: node_ok_def Let_def)
      then show "outcome client (value_ok D (types ! (?ops ! k))) (OperandOf (ValueOf g q inputs) q s k)"
        unfolding runs_OperandOf [OF s k] using p [OF k] f(2) less.prems(1) by (intro value_sound [OF ev]) auto
    next
      fix k assume lg: "is_logic ?op" and k: "k < length ?ops"
      show "outcome client (\<lambda>_. True) (OperandOf (TruthOf g q inputs) q s k)"
        unfolding runs_OperandOf [OF s k]
        by (rule less.IH) (use p [OF k] f(2) less.prems(1) logic_operands_truthy [OF ev less.prems(1) lg] in auto)
    qed
  qed
qed


section \<open>Binding does not change a condition's category\<close>

text \<open>The nodes whose type is merged from their operands.\<close>

lemma operator_above:
  assumes "InferOperator ns types op ops = Inr t" "OperandCount op (length ops) = length ops"
    "op \<in> {kNegate, kAdd, kSubtract, kMultiply, kDivide, kModulo, kLeast, kGreatest, kCoalesce}"
  shows "above types ops t" "op \<noteq> kCoalesce \<Longrightarrow> numeric t"
proof -
  note l = OperandCount_lengths [OF assms(2)]
  consider "op = kNegate" | "op \<in> {kAdd, kSubtract, kMultiply, kDivide, kModulo}" | "op \<in> {kLeast, kGreatest}" | "op = kCoalesce"
    using assms(3) by blast
  then have "above types ops t \<and> (op \<noteq> kCoalesce \<longrightarrow> numeric t)"
  proof cases
    case 1
    then obtain p where p: "ops = [p]" using l(1) by (auto simp: length_Suc_conv)
    then have "InferNegate (types ! p) = Inr t"
      using assms(1) 1 by (auto simp: InferOperator_def Let_def dest!: TypeAt_InrD)
    then have "ty_category t = ty_category (types ! p)" "numeric (types ! p)"
        "ty_category t = kIntC \<or> ty_repr t = ty_repr (types ! p)"
      by (auto simp: InferNegate_def intro: RequireNumber_numeric split: if_splits)
    then show ?thesis using p by (auto simp: above_def subtype_def numeric_def)
  next
    case 2
    then obtain p r where p: "ops = [p, r]" using l(2) by (auto simp: length_Suc_conv numeral_2_eq_2)
    then have "InferArithmetic (types ! p) (types ! r) = Inr t"
      using assms(1) 2 by (auto simp: InferOperator_def Let_def dest!: TypeAt_InrD)
    then have "numeric (types ! p)" "numeric (types ! r)" "t = MergeNumbers (types ! p) (types ! r)"
      by (auto simp: InferArithmetic_def intro: RequireNumber_numeric)
    then show ?thesis using MergeNumbers_above [of "types ! p" "types ! r"] p by (auto simp: above_def)
  next
    case 3
    then have e: "InferExtreme types ops = Inr t" "ops \<noteq> []" using assms(1) l by (auto simp: InferOperator_def Let_def)
    then show ?thesis using InferExtreme_above [OF e] by (auto simp: above_def numeric_def)
  next
    case 4
    then show ?thesis using assms(1) by (simp add: InferOperator_def Let_def InferCoalesce_above)
  qed
  then show "above types ops t" "op \<noteq> kCoalesce \<Longrightarrow> numeric t" by blast+
qed

lemma predicate_type:
  "InferOperator ns types op ops = Inr t \<Longrightarrow> \<not> IsValue op \<Longrightarrow> t = plain kBoolC"
  by (auto simp: InferOperator_def Let_def IsValue_iff split: if_splits)

lemma category_kept:
  assumes ch: "checked ns d m" and pre: "infers ns False schema declared0 (length ns) (types0, bindings0)"
    and post: "infers ns True schema declared (length ns) (types, bindings)"
    and "i < length ns" "ty_category (types0 ! i) \<in> {kBoolC, kNullC}"
  shows "ty_category (types ! i) = ty_category (types0 ! i)"
  using assms(4,5)
proof (induction i rule: less_induct)
  case (less i)
  let ?op = "node_op (ns ! i)" and ?ops = "node_operands (ns ! i)"
  have a: "inferred ns False schema declared0 bindings0 types0 i" and b: "inferred ns True schema declared bindings types i"
    and ok: "node_ok ns d m i" using ch pre post less.prems by (auto simp: infers_def checked_def)
  have arity: "OperandCount ?op (length ?ops) = length ?ops" using ok by (simp add: node_ok_def Let_def)
  consider "?op \<in> {kLiteral, kParameter, kColumn, kChunkColumn, kPosX, kPosY, kPosZ, kNow}" | "\<not> IsValue ?op"
    | "?op \<in> {kNegate, kAdd, kSubtract, kMultiply, kDivide, kModulo, kLeast, kGreatest, kCoalesce}"
    by (auto simp: IsValue_iff)
  then show ?case
  proof cases
    case 1
    then show ?thesis using a b less.prems by (auto simp: inferred_def is_column_def Let_def plain_def)
  next
    case 2
    then have "InferOperator ns types0 ?op ?ops = Inr (types0 ! i)" "InferOperator ns types ?op ?ops = Inr (types ! i)"
      using a b by (auto simp: inferred_def is_column_def IsValue_iff Let_def)
    then show ?thesis using predicate_type 2 by metis
  next
    case 3
    then have t: "InferOperator ns types0 ?op ?ops = Inr (types0 ! i)" "InferOperator ns types ?op ?ops = Inr (types ! i)"
      using a b by (auto simp: inferred_def is_column_def Let_def)
    note a0 = operator_above [OF t(1) arity 3] and a1 = operator_above [OF t(2) arity 3]
    have IH: "ty_category (types ! p) = ty_category (types0 ! p)" if "p \<in> set ?ops" "ty_category (types0 ! p) \<in> {kBoolC, kNullC}" for p
      using that ok less.prems by (intro less.IH) (auto simp: node_ok_def Let_def)
    obtain p where p: "p \<in> set ?ops" "ty_category (types0 ! i) = ty_category (types0 ! p)" using a0(1) by (auto simp: above_def)
    show ?thesis
    proof (cases "ty_category (types0 ! i) = kBoolC")
      case True
      then have "ty_category (types ! p) = kBoolC" using IH p by simp
      then show ?thesis using True a1(1) p(1) by (auto simp: above_def subtype_def)
    next
      case False
      then have "ty_category (types0 ! r) = kNullC" if "r \<in> set ?ops" for r
        using less.prems a0(1) that by (auto simp: above_def subtype_def)
      then have "ty_category (types ! r) = kNullC" if "r \<in> set ?ops" for r using IH that by simp
      then show ?thesis using False less.prems a1(1) by (auto simp: above_def)
    qed
  qed
qed

end
