(* ===== verification/Expr_Safe.thy ===== *)
theory Expr_Safe
  imports Expr_Sound
begin

text \<open>
  Planned conditions are safe: the type the planner gives a condition's root before it binds parameters
  is the one evaluation relies on.
\<close>

section \<open>A condition's root has a type before binding\<close>

lemma MergeNumbers_unknown: "ty_category (MergeNumbers a b) = kUnknownC \<Longrightarrow> \<not> ty_typed (MergeNumbers a b)"
  by (auto simp: MergeNumbers_def plain_def IsOpen_def split: if_splits)

lemma MergeAny_unknown: "MergeAny a b = Inr t \<Longrightarrow> ty_category t = kUnknownC \<Longrightarrow> \<not> ty_typed t"
  by (auto simp: MergeAny_def Let_def IsOpen_def dest: MergeNumbers_unknown split: if_splits)

definition unknown_untyped :: "ExprType \<Rightarrow> bool" where
  "unknown_untyped t \<longleftrightarrow> (ty_category t = kUnknownC \<longrightarrow> \<not> ty_typed t)"

lemma plain_unknown_untyped [simp]: "unknown_untyped (plain c)"
  by (simp add: unknown_untyped_def plain_def)

lemma operator_unknown_untyped:
  assumes "InferOperator ns types op ops = Inr t" "\<forall>p \<in> set ops. unknown_untyped (types ! p)"
  shows "unknown_untyped t"
proof -
  have at: "unknown_untyped x" if "TypeAt types ops k = Inr x" for k x
    using TypeAt_InrD [OF that] assms(2) by auto
  have m: "unknown_untyped (MergeNumbers a b)" for a b
    using MergeNumbers_unknown by (simp add: unknown_untyped_def)
  have e: "unknown_untyped x" if "InferExtreme types ops = Inr x" for x
    using that unfolding InferExtreme_def
    by (rule rfold_invariant) (auto simp: m intro: at)
  have c: "unknown_untyped x" if x: "InferCoalesce types ops = Inr x" for x
  proof -
    obtain t0 where "TypeAt types ops 0 = Inr t0"
      "rfold (\<lambda>k t. rbind (TypeAt types ops k) (\<lambda>tk. MergeAny t tk)) [1..<length ops] t0 = Inr x"
      using x by (auto simp: InferCoalesce_def)
    from this(2) at [OF this(1)] show ?thesis
      by (rule rfold_invariant) (auto dest: MergeAny_unknown simp: unknown_untyped_def)
  qed
  have n: "unknown_untyped y" if "InferNegate x = Inr y" "unknown_untyped x" for x y
    using that by (auto simp: InferNegate_def unknown_untyped_def split: if_splits)
  have a: "unknown_untyped y" if "InferArithmetic x z = Inr y" for x y z
    using that m by (auto simp: InferArithmetic_def)
  show ?thesis using assms(1) at n a e c
    unfolding InferOperator_def Let_def by (auto split: if_splits)
qed

lemma inferred_unknown_untyped:
  assumes ch: "checked ns d m" and pre: "infers ns bound schema declared (length ns) (types, bindings)" and "i < length ns"
  shows "unknown_untyped (types ! i)"
  using assms(3)
proof (induction i rule: less_induct)
  case (less i)
  have a: "inferred ns bound schema declared bindings types i" and ok: "node_ok ns d m i"
    using ch pre less.prems by (auto simp: infers_def checked_def)
  have "\<forall>p \<in> set (node_operands (ns ! i)). unknown_untyped (types ! p)"
    using ok less.prems less.IH by (auto simp: node_ok_def Let_def)
  moreover have "\<not> is_parameter (node_literal (ns ! i))" if "node_op (ns ! i) = kLiteral"
    using ok that by (auto simp: node_ok_def Let_def)
  moreover have "unknown_untyped (LiteralType l)" for l by (cases l) (simp_all add: unknown_untyped_def plain_def)
  moreover have "unknown_untyped (TypeOf t)" for t by (cases "kind t") (simp_all add: unknown_untyped_def TypeOf_def)
  ultimately show ?case using a
    by (auto simp: inferred_def Let_def split: if_splits
        intro: operator_unknown_untyped)
qed

lemma operand_parent_unique:
  assumes "checked ns d m" "i < length ns" "j < length ns" "p \<in> set (node_operands (ns ! i))" "p \<in> set (node_operands (ns ! j))"
  shows "i = j"
proof -
  have less: "\<not> a < b" if "a < length ns" "b < length ns" "p \<in> set (node_operands (ns ! a))" "p \<in> set (node_operands (ns ! b))" for a b
  proof
    assume ab: "a < b"
    then have "take b ns ! a = ns ! a" "a < length (take b ns)" using that(2) by simp_all
    then have "ns ! a \<in> set (take b ns)" by (metis nth_mem)
    then have "p \<in> set (operands_of (take b ns))" using that(3) by (auto simp: operands_of_def)
    moreover have "distinct (operands_of (take b ns) @ node_operands (ns ! b) @ operands_of (drop (Suc b) ns))"
      using assms(1) operands_of_split [OF that(2)] by (simp add: checked_def)
    ultimately show False using that(4) by auto
  qed
  show ?thesis using less [of i j] less [of j i] assms by (meson linorder_less_linear)
qed


text \<open>
  A node of unknown type that no context reaches makes binding fail: the chain of its unknown operands
  ends in a parameter, and nothing else writes their context.
\<close>

lemma BindNode_context:
  assumes "BindNode ns types j (c, declared) = Inr (c', declared')" "checked ns d m" "j < length ns"
    "length types = length ns" "length c = length ns" "length declared = length ns"
  shows "length c' = length ns" "length declared' = length ns"
    "\<And>p. p < length ns \<Longrightarrow> p \<notin> set (node_operands (ns ! j)) \<Longrightarrow> c' ! p = c ! p"
proof -
  have "outcome invalid (bound_step ns j (c, declared)) (BindNode ns types j (c, declared))"
    using assms(2-) by (intro BindNode_step) (auto simp: checked_def)
  then have "bound_step ns j (c, declared) (c', declared')" using assms(1) by simp
  then show "length c' = length ns" "length declared' = length ns"
    "\<And>p. p < length ns \<Longrightarrow> p \<notin> set (node_operands (ns ! j)) \<Longrightarrow> c' ! p = c ! p"
    using assms(5,6) by (simp_all add: bound_step_def)
qed

lemma BindNodes_context:
  assumes "rfold (BindNode ns types) js (c, declared) = Inr (c', declared')" "checked ns d m"
    "\<forall>j \<in> set js. j < length ns \<and> p \<notin> set (node_operands (ns ! j))" "p < length ns"
    "length types = length ns" "length c = length ns" "length declared = length ns"
  shows "length c' = length ns \<and> length declared' = length ns \<and> c' ! p = c ! p"
  using assms(1,3,6,7)
proof (induction js arbitrary: c declared)
  case Nil
  then show ?case by simp
next
  case (Cons j js)
  from Cons.prems(1) obtain c1 d1 where 1: "BindNode ns types j (c, declared) = Inr (c1, d1)"
    "rfold (BindNode ns types) js (c1, d1) = Inr (c', declared')" by auto
  have j: "j < length ns" "p \<notin> set (node_operands (ns ! j))" using Cons.prems(2) by auto
  note step = BindNode_context [OF 1(1) assms(2) j(1) assms(5) Cons.prems(3,4)]
  show ?case using Cons.IH [OF 1(2)] step j assms(4) Cons.prems(2) by simp
qed

lemma unknown_operand:
  assumes "checked ns d m" "infers ns False schema declared (length ns) (types, bindings)" "i < length ns"
    "ty_category (types ! i) = kUnknownC" "node_op (ns ! i) \<noteq> kParameter"
  shows "node_op (ns ! i) \<in> {kNegate, kAdd, kSubtract, kMultiply, kDivide, kModulo, kLeast, kGreatest, kCoalesce}"
    "\<exists>p \<in> set (node_operands (ns ! i)). ty_category (types ! p) = kUnknownC"
proof -
  let ?op = "node_op (ns ! i)" and ?ops = "node_operands (ns ! i)"
  have a: "inferred ns False schema declared bindings types i" and ok: "node_ok ns d m i"
    using assms by (auto simp: infers_def checked_def)
  have cat: "CategoryOf k \<noteq> kUnknownC" for k by (cases k) simp_all
  have lit: "ty_category (LiteralType l) \<noteq> kUnknownC" if "\<not> is_parameter l" for l using that by (cases l) (simp_all add: plain_def)
  have op: "?op \<notin> {kLiteral, kParameter, kColumn, kChunkColumn, kPosX, kPosY, kPosZ, kNow}"
    using a assms(4,5) ok cat lit by (auto simp: inferred_def is_column_def Let_def TypeOf_def node_ok_def)
  then have t: "InferOperator ns types ?op ?ops = Inr (types ! i)" using a by (auto simp: inferred_def is_column_def Let_def)
  then have "IsValue ?op" using predicate_type assms(4) by (force simp: plain_def)
  then show o: "?op \<in> {kNegate, kAdd, kSubtract, kMultiply, kDivide, kModulo, kLeast, kGreatest, kCoalesce}"
    using op by (auto simp: IsValue_iff)
  have "OperandCount ?op (length ?ops) = length ?ops" using ok by (simp add: node_ok_def Let_def)
  from operator_above(1) [OF t this o] show "\<exists>p \<in> set ?ops. ty_category (types ! p) = kUnknownC"
    using assms(4) unfolding above_def by metis
qed

lemma Bind_unknown_fails:
  assumes ch: "checked ns d m" and pre: "infers ns False schema declared0 (length ns) (types, bindings)"
    and "i < length ns" "ty_category (types ! i) = kUnknownC" "c ! i = None" "length c = length ns" "length declared = length ns"
  shows "rfold (BindNode ns types) (rev [0..<Suc i]) (c, declared) \<noteq> Inr r"
  using assms(3-)
proof (induction i arbitrary: c declared rule: less_induct)
  case (less i)
  let ?op = "node_op (ns ! i)" and ?ops = "node_operands (ns ! i)"
  have len: "length types = length ns" using pre by (simp add: infers_def)
  have untyped: "\<not> ty_typed (types ! i)"
    using inferred_unknown_untyped [OF ch pre less.prems(1)] less.prems(2) by (simp add: unknown_untyped_def)
  show ?case
  proof (cases "?op = kParameter")
    case True
    then show ?thesis using untyped less.prems(3) by (simp add: BindNode_def Let_def)
  next
    case False
    note u = unknown_operand [OF ch pre less.prems(1,2) False]
    obtain p where p: "p \<in> set ?ops" "ty_category (types ! p) = kUnknownC" using u(2) by blast
    have below: "x < i" if "x \<in> set ?ops" for x using ch less.prems(1) that by (auto simp: checked_def node_ok_def Let_def)
    have "operands_in ?ops c" using below less.prems(1,4) by (fastforce simp: operands_in_def)
    then obtain c1 where c1: "SetContext None ?ops c = Inr c1" "length c1 = length c" "c1 ! p = None"
      using SetContext_in [of ?ops c None] p(1) below [OF p(1)] less.prems(1,4) by (metis less_trans)
    have step: "BindNode ns types i (c, declared) = Inr (c1, declared)"
      using u(1) False untyped less.prems(3) c1(1) unfolding BindNode_def Let_def by auto
    have "rev [0..<i] = rev [Suc p..<i] @ rev [0..<Suc p]"
      using below [OF p(1)] by (metis rev_append Suc_leI le0 upt_add_eq_append le_add_diff_inverse)
    moreover have "rbind (rfold (BindNode ns types) (rev [Suc p..<i]) (c1, declared)) (rfold (BindNode ns types) (rev [0..<Suc p])) \<noteq> Inr r"
    proof
      assume "rbind (rfold (BindNode ns types) (rev [Suc p..<i]) (c1, declared)) (rfold (BindNode ns types) (rev [0..<Suc p])) = Inr r"
      then obtain c2 d2 where 2: "rfold (BindNode ns types) (rev [Suc p..<i]) (c1, declared) = Inr (c2, d2)"
        "rfold (BindNode ns types) (rev [0..<Suc p]) (c2, d2) = Inr r" by auto
      have "p \<notin> set (node_operands (ns ! j))" if "j \<in> set (rev [Suc p..<i])" for j
        using operand_parent_unique [OF ch, of j i p] that p(1) less.prems(1) by auto
      then have "length c2 = length ns \<and> length d2 = length ns \<and> c2 ! p = c1 ! p"
        using below [OF p(1)] less.prems c1(2) len by (intro BindNodes_context [OF 2(1) ch]) auto
      then show False using less.IH [OF below [OF p(1)], of c2 d2] 2(2) p below [OF p(1)] less.prems(1) c1(3) by simp
    qed
    ultimately show ?thesis using step by (simp add: rfold_append)
  qed
qed


lemma root_truthy:
  assumes pl: "planned e schema limits None p f r" and last: "expr_root e = length (nodes e) - 1"
  shows "truthy (nodes e) (pf_types f) (expr_root e)"
proof (cases "IsValue (node_op (nodes e ! expr_root e))")
  case True
  let ?ns = "nodes e" and ?i = "expr_root e" and ?t0 = "pf_types0 f"
  have facts: "checked ?ns (pf_depths f) (max_depth limits)" "?i < length ?ns" "CheckTruth ?ns ?t0 ?i = Inr ()"
    "infers ?ns False schema (replicate (length ?ns) None) (length ?ns) (?t0, pf_bindings0 f)"
    "Bind e ?t0 None = Inr (pf_declared f)"
    "infers ?ns True schema (pf_declared f) (length ?ns) (pf_types f, pf_bindings f)"
    using pl by (auto simp: planned_def Let_def)
  have n: "length ?ns = Suc ?i" using facts(2) last by simp
  have "ty_category (?t0 ! ?i) \<noteq> kUnknownC"
  proof
    assume u: "ty_category (?t0 ! ?i) = kUnknownC"
    have "\<exists>r. rfold (BindNode ?ns ?t0) (rev [0..<Suc ?i]) ((replicate (length ?ns) None)[?i := None], replicate (length ?ns) None) = Inr r"
      using facts(5) unfolding Bind_def Let_def n by auto
    then show False using Bind_unknown_fails [OF facts(1,4,2) u] facts(2) by auto
  qed
  then have "ty_category (?t0 ! ?i) \<in> {kBoolC, kNullC}"
    using CheckTruth_truthy [OF facts(3)] True by (auto simp: truthy_def IsOpen_def)
  then have "ty_category (pf_types f ! ?i) \<in> {kBoolC, kNullC}"
    using category_kept [OF facts(1,4,6,2)] by simp
  then show ?thesis by (auto simp: truthy_def IsOpen_def)
qed (simp add: truthy_def)

section \<open>Conditions\<close>

lemma evaluable_planned:
  assumes pl: "planned e schema limits target p f (root, t, q)" and ex: "extends q r"
    and small: "length (steps p) + length (nodes e) < 2 ^ 32" "length (prog_operands p) + length (nodes e) < 2 ^ 32"
    and inp: "inputs_fit schema inputs" "digits_in D inputs (nodes e)"
  shows "evaluable D schema inputs r (length (steps p)) (nodes e) (pf_depths f) (max_depth limits)
      (pf_types f) (pf_bindings f) (pf_declared f)"
    and "root = length (steps p) + expr_root e"
proof -
  have facts: "checked (nodes e) (pf_depths f) (max_depth limits)" "expr_root e < length (nodes e)"
    "infers (nodes e) True schema (pf_declared f) (length (nodes e)) (pf_types f, pf_bindings f)"
    "appended (nodes e) (pf_types f) (pf_bindings f) (pf_declared f) p (length (nodes e)) q"
    "root = u32_add (u32_of (length (steps p))) (expr_root e)"
    using pl by (auto simp: planned_def Let_def)
  have "\<exists>s. runs r (length (steps p)) (nodes e) (pf_types f) (pf_bindings f) (pf_declared f) i s" if "i < length (nodes e)" for i
    using appended_runs [OF facts(4,1) small that] runs_extends [OF _ ex] by blast
  then show "evaluable D schema inputs r (length (steps p)) (nodes e) (pf_depths f) (max_depth limits)
      (pf_types f) (pf_bindings f) (pf_declared f)"
    using facts inp by (simp add: evaluable_def)
  show "root = length (steps p) + expr_root e"
    using facts(2,5) small(1) by (simp add: u32_of_def)
qed

text \<open>
  Claim C5. A planned condition evaluates: for every expression the planner accepts whose root is its
  last node, and every block that fits the schema, evaluation gives a truth value or throws an
  \<open>std::invalid_argument\<close> or \<open>std::out_of_range\<close> that the statement causes (division by zero, a missing or ill-typed
  parameter, a 128-bit overflow).  It never meets an \<open>std::logic_error\<close>, never compares values of different
  types, never reads outside the program or the row, and never uses more stack frames than one above the
  depth limit, so it always returns.  Parameters are arbitrary.
\<close>

theorem planned_condition_safe:
  assumes plan: "PlanCondition e schema limits = Inr program" and last: "expr_root e = length (nodes e) - 1"
    and "max_nodes limits < 2 ^ 32" "inputs_fit schema inputs" and stack: "max_depth limits < stack"
  shows "outcome client (\<lambda>_. True) (EvaluateCondition stack program inputs)"
proof -
  obtain root t q where q: "Planner e schema limits None empty_program = Inr (root, t, q)"
    and prog: "program = SortParameters (q\<lparr>prog_root := root\<rparr>)"
    using plan by (auto simp: PlanCondition_def)
  then obtain f where f: "planned e schema limits None empty_program f (root, t, q)"
    using outcome_Planner [of e schema limits None empty_program] by auto
  have "length (nodes e) \<le> max_nodes limits" using f by (simp add: planned_def Let_def)
  then have small: "length (steps empty_program) + length (nodes e) < 2 ^ 32"
      "length (prog_operands empty_program) + length (nodes e) < 2 ^ 32"
    using assms(3) by (simp_all add: empty_program_def)
  have ex: "extends q program" by (simp add: prog extends_def SortParameters_def)
  note ev = evaluable_planned [OF f ex small assms(4) digits_in_trivial]
  have i: "expr_root e < length (nodes e)" and "pf_depths f ! expr_root e \<le> max_depth limits"
    using f by (auto simp: planned_def checked_def node_ok_def Let_def)
  then have "outcome client (\<lambda>_. True) (TruthOf stack program inputs (length (steps empty_program) + expr_root e))"
    using stack by (intro truth_sound [OF ev(1) i root_truthy [OF f last]]) simp
  moreover have "prog_root program = length (steps empty_program) + expr_root e"
    using ev(2) by (simp add: prog SortParameters_def)
  ultimately show ?thesis unfolding EvaluateCondition_def by (auto intro: outcome_bind)
qed


definition example_limits :: Limits where
  "example_limits = \<lparr>max_nodes = 256, max_depth = 32\<rparr>"

definition example_coins :: Column where
  "example_coins = \<lparr>col_id = 1, col_name = ''coins'', ctype = \<lparr>kind = kUnsigned, csize = 8\<rparr>, nullable = True,
     required = False, has_default = False, default_value = []\<rparr>"

text \<open>\<open>coins < $1\<close> and \<open>coins = coins + $1\<close> on a table with one column of bytes.\<close>

definition leaf :: "Op \<Rightarrow> Literal \<Rightarrow> string \<Rightarrow> Node" where
  "leaf op l name = \<lparr>node_op = op, node_column = 1, node_literal = l, node_name = name, node_operands = []\<rparr>"

definition inner :: "Op \<Rightarrow> nat list \<Rightarrow> Node" where
  "inner op ops = \<lparr>node_op = op, node_column = 7, node_literal = LNull, node_name = [], node_operands = ops\<rparr>"

definition example_expression :: "Op \<Rightarrow> Expression" where
  "example_expression op =
    \<lparr>nodes = [leaf kColumn LNull ''coins'', leaf kParameter (LParameter 1) [], inner op [0, 1]], expr_root = 2\<rparr>"

definition example_inputs :: Inputs where
  "example_inputs = \<lparr>in_exists = True, in_block = [UIntV 200], in_chunk = [], in_x = 0, in_y = 0, in_z = 0, in_now = 0,
     in_parameters = [UIntV 100]\<rparr>"

definition example_schema :: ExprSchema where
  "example_schema = ColumnList [example_coins] []"

lemma example_inputs_fit: "inputs_fit example_schema example_inputs"
  by (simp add: inputs_fit_def row_fits_def example_schema_def example_inputs_def ColumnList_def example_coins_def)

lemma example_range: "[0..<Suc (Suc (Suc 0))] = [0, 1, 2]" "[0..<3] = [0, 1, 2 :: nat]"
  by (simp_all add: upt_rec)

lemmas example_defs = example_expression_def leaf_def inner_def example_schema_def ColumnList_def example_coins_def
  example_limits_def example_range

lemmas planner_defs = Planner_def CheckNodes_def CheckNode_def CheckOperand_def OperandCount_def is_logic_def IsValue_iff Let_def
  Plan_def Infer_def InferNode_def InferOperator_def TypeAt_def at_index_def BindingOf_def TypeOf_def plain_def
  CheckComparable_def CheckTruth_def InferArithmetic_def RequireNumber_def MergeNumbers_def IsOpen_def IsNumber_def is_f32_def
  Bind_def BindNode_def typed_at_def SetContext_def put_index_def
  Compile_def CompileNode_def empty_program_def

lemma example_plan: "\<exists>program. PlanCondition (example_expression kLess) example_schema example_limits = Inr program"
  by (simp add: PlanCondition_def example_defs planner_defs)

theorem planned_condition_safe_witness:
  "case PlanCondition (example_expression kLess) example_schema example_limits of
     Inl e \<Rightarrow> False
   | Inr program \<Rightarrow> outcome client (\<lambda>_. True) (EvaluateCondition 33 program example_inputs)"
proof -
  obtain program where p: "PlanCondition (example_expression kLess) example_schema example_limits = Inr program"
    using example_plan by blast
  show ?thesis unfolding p
    using planned_condition_safe [OF p _ _ example_inputs_fit, of 33]
    by (simp add: example_expression_def example_limits_def)
qed

end
