(* ===== verification/Expr_Assign.thy ===== *)
theory Expr_Assign
  imports Expr_Safe Column_Conversion
begin

text \<open>
  Planned assignments: every value that evaluation returns is NULL in a nullable column or a value the
  column's type holds.
\<close>

section \<open>Storing a value\<close>

definition bit_digits :: "u32 \<Rightarrow> bytes \<Rightarrow> bool" where
  "bit_digits n bs \<longleftrightarrow> length bs = unat n \<and> IsBitString (map (\<lambda>b. char_of (unat b)) bs)"

lemma digit_bytes_chars: "map (\<lambda>b. char_of (unat b)) (digit_bytes s) = s"
proof -
  have "unat (of_nat (of_char c) :: byte) = of_char c" for c :: char
    using nat_of_char_less_256 [of c] by (simp add: unat_of_nat)
  then show ?thesis by (simp add: digit_bytes_def comp_def)
qed

lemma bit_digits_known: "digits_known bit_digits"
  by (simp add: digits_known_def bit_digits_def digit_bytes_chars) (simp add: digit_bytes_def)

definition fits_column :: "ColumnBinding \<Rightarrow> ColumnValue \<Rightarrow> bool" where
  "fits_column b v \<longleftrightarrow> v = NullV \<and> bind_nullable b \<or> holds_value (bind_type b) v"

lemma StoreInteger_ok:
  assumes "type_ok t" "kind t = kUnsigned \<or> kind t = kSigned" "category v = kIntC"
  shows "outcome client (holds_value t) (StoreInteger t v)"
proof -
  let ?n = "sint (integer v)" and ?z = "unat (csize t)"
  have p: "2 ^ k \<le> (2 :: int) ^ l" if "k \<le> l" for k l using that by (rule power_increasing) simp
  show ?thesis
  proof (cases "kind t = kUnsigned")
    case True
    then have "?z \<le> 64" using assms(1) by (simp add: type_ok_def Let_def)
    then have "uint (word_of_int ?n :: u64) = ?n" if "0 \<le> ?n" "?n \<le> 2 ^ ?z - 1"
      using that p [of ?z 64] by (intro Column_Conversion.uint_word_of_int) linarith+
    then show ?thesis using True assms(3) \<open>?z \<le> 64\<close> by (auto simp: StoreInteger_def Let_def)
  next
    case False
    then have k: "kind t = kSigned" and z: "2 \<le> ?z" "?z \<le> 64" using assms(1,2) by (auto simp: type_ok_def Let_def)
    then have "sint (word_of_int ?n :: u64) = ?n" if "- (2 ^ (?z - 1)) \<le> ?n" "?n < 2 ^ (?z - 1)"
      using that p [of "?z - 1" 63] by (intro Column_Conversion.sint_word_of_int) linarith+
    then show ?thesis using k z assms(3) by (auto simp: StoreInteger_def Let_def)
  qed
qed

lemma Store_ok:
  assumes "CheckTarget column t op = Inr ()" "type_ok (bind_type column)" "target_column target = column"
    "value_ok bit_digits t v"
  shows "outcome client (fits_column column) (Store target v)"
proof (cases "category v = kNullC")
  case True
  then show ?thesis using assms(3) by (simp add: Store_def Let_def fits_column_def)
next
  case False
  let ?k = "kind (bind_type column)"
  have v: "category v = ty_category t" "category v = kBitsC \<longrightarrow> bit_digits (csize (ty_repr t)) (val_bytes v)"
    using assms(4) False by (auto simp: value_ok_def)
  have c: "category v = CategoryOf ?k \<or> CategoryOf ?k = kFloatC \<and> category v = kIntC"
    "CategoryOf ?k = kBitsC \<longrightarrow> csize (ty_repr t) = csize (bind_type column)"
    using assms(1) False v(1) by (auto simp: CheckTarget_def Let_def split: if_splits)
  have int: "outcome client (fits_column column) (StoreInteger (bind_type column) v)" if "?k = kUnsigned \<or> ?k = kSigned"
  proof (rule outcome_weaken)
    show "outcome client (holds_value (bind_type column)) (StoreInteger (bind_type column) v)"
      using StoreInteger_ok [OF assms(2) that] c(1) that by auto
  qed (simp_all add: fits_column_def)
  show ?thesis
    using False assms(3) int v(2) c
    by (cases ?k) (auto simp: Store_def Let_def fits_column_def bit_digits_def)
qed

section \<open>Planning a list of assignments\<close>

definition bit_strings :: "Inputs \<Rightarrow> Node list \<Rightarrow> bool" where
  "bit_strings inputs ns \<longleftrightarrow> (\<forall>s. BitsV s \<in> set (in_parameters inputs) \<longrightarrow> IsBitString s) \<and>
    (\<forall>node \<in> set ns. \<forall>s. node_literal node = LBits s \<longrightarrow> IsBitString s \<and> length s < 2 ^ 32)"

lemma bit_digits_in: "bit_strings inputs ns \<Longrightarrow> digits_in bit_digits inputs ns"
  using bit_digits_known by (fastforce simp: bit_strings_def digits_in_def digits_known_def unat_of_nat)

text \<open>An assignment's target names its column, and in every longer program its value can be stored.\<close>

definition assigned :: "ExprSchema \<Rightarrow> Inputs \<Rightarrow> nat \<Rightarrow> Program \<Rightarrow> AssignmentExpression \<Rightarrow> Target \<Rightarrow> bool" where
  "assigned schema inputs stack p a target \<longleftrightarrow> BlockColumn schema (as_column a) = Some (target_column target) \<and>
    (\<forall>q. extends p q \<longrightarrow>
      outcome client (\<lambda>v. outcome client (fits_column (target_column target)) (Store target v))
        (ValueOf stack q inputs (target_root target)))"

lemma assigned_extends: "assigned schema inputs stack p a target \<Longrightarrow> extends p q \<Longrightarrow> assigned schema inputs stack q a target"
  unfolding assigned_def using extends_trans by blast

definition assigns :: "AssignmentExpression list \<Rightarrow> ExprSchema \<Rightarrow> Limits \<Rightarrow> Inputs \<Rightarrow> nat \<Rightarrow> nat \<Rightarrow> Program \<Rightarrow> bool" where
  "assigns as schema limits inputs stack i p \<longleftrightarrow>
    length (steps p) \<le> i * max_nodes limits \<and> length (prog_operands p) \<le> i * max_nodes limits \<and>
    list_all2 (assigned schema inputs stack p) (take i as) (targets p)"

lemma planned_sizes:
  assumes "planned e schema limits target p f (root, t, q)"
  shows "length (steps q) \<le> length (steps p) + max_nodes limits"
    "length (prog_operands q) \<le> length (prog_operands p) + max_nodes limits"
    "targets q = targets p" "extends p q"
proof -
  have f: "checked (nodes e) (pf_depths f) (max_depth limits)" "length (nodes e) \<le> max_nodes limits"
    and ap: "appended (nodes e) (pf_types f) (pf_bindings f) (pf_declared f) p (length (nodes e)) q"
    using assms by (auto simp: planned_def Let_def)
  show "length (steps q) \<le> length (steps p) + max_nodes limits"
    "length (prog_operands q) \<le> length (prog_operands p) + max_nodes limits" "targets q = targets p"
    using f(2) length_operands_of [OF f(1)] ap by (auto simp: appended_def)
  show "extends p q" using appended_extends [OF ap] .
qed

lemma planned_assigned:
  assumes pl: "planned (as_value a) schema limits (Some (TypeOf (bind_type column))) p f (root, t, q)"
    and "BlockColumn schema (as_column a) = Some column" "type_ok (bind_type column)" "CheckTarget column t op = Inr ()"
    and small: "length (steps p) + max_nodes limits < 2 ^ 32" "length (prog_operands p) + max_nodes limits < 2 ^ 32"
    and inp: "inputs_fit schema inputs" "bit_strings inputs (nodes (as_value a))" and stack: "max_depth limits \<le> stack"
  shows "assigned schema inputs stack q a \<lparr>target_column = column, target_name = name, target_root = root\<rparr>"
proof -
  let ?e = "as_value a" and ?target = "\<lparr>target_column = column, target_name = name, target_root = root\<rparr>"
  have e: "length (nodes ?e) \<le> max_nodes limits" "expr_root ?e < length (nodes ?e)" "IsValue (node_op (nodes ?e ! expr_root ?e))"
    "pf_depths f ! expr_root ?e \<le> stack" "t = pf_types f ! expr_root ?e"
    using pl stack by (auto simp: planned_def checked_def node_ok_def Let_def)
  have n: "length (steps p) + length (nodes ?e) < 2 ^ 32" "length (prog_operands p) + length (nodes ?e) < 2 ^ 32"
    using small e(1) by linarith+
  have "outcome client (\<lambda>v. outcome client (fits_column column) (Store ?target v)) (ValueOf stack r inputs root)" if "extends q r" for r
  proof -
    note ev = evaluable_planned [OF pl that n inp(1) bit_digits_in [OF inp(2)]]
    have "outcome client (value_ok bit_digits t) (ValueOf stack r inputs root)"
      using value_sound [OF ev(1) e(2-4)] unfolding ev(2) e(5) .
    then show ?thesis by (rule outcome_weaken) (use Store_ok [OF assms(4,3)] in auto)
  qed
  then show ?thesis using assms(2) by (simp add: assigned_def)
qed

lemma PlanAssignment_assigns:
  assumes "assigns as schema limits inputs stack i p" "PlanAssignment as schema limits i p = Inr q" "i < length as"
    and small: "length as * max_nodes limits < 2 ^ 32"
    and ok: "\<And>name b. BlockColumn schema name = Some b \<Longrightarrow> type_ok (bind_type b)"
    and inp: "inputs_fit schema inputs" "\<forall>a \<in> set as. bit_strings inputs (nodes (as_value a))" and stack: "max_depth limits \<le> stack"
  shows "assigns as schema limits inputs stack (Suc i) q"
proof -
  let ?a = "as ! i"
  obtain column root t r where c: "BlockColumn schema (as_column ?a) = Some column"
    and pl: "Planner (as_value ?a) schema limits (Some (TypeOf (bind_type column))) p = Inr (root, t, r)"
    and ch: "CheckTarget column t (node_op (nodes (as_value ?a) ! expr_root (as_value ?a))) = Inr ()"
    and q: "q = r\<lparr>targets := targets r @ [\<lparr>target_column = column, target_name = as_column ?a, target_root = root\<rparr>],
      target_columns := target_columns r @ [column]\<rparr>"
    using assms(2) by (auto simp: PlanAssignment_def Let_def split: if_splits option.splits)
  obtain f where f: "planned (as_value ?a) schema limits (Some (TypeOf (bind_type column))) p f (root, t, r)"
    using outcome_Planner [of "as_value ?a" schema limits "Some (TypeOf (bind_type column))" p] pl by auto
  note sizes = planned_sizes [OF f]
  have p: "length (steps p) \<le> i * max_nodes limits" "length (prog_operands p) \<le> i * max_nodes limits"
    "list_all2 (assigned schema inputs stack p) (take i as) (targets p)"
    using assms(1) by (auto simp: assigns_def)
  have "Suc i * max_nodes limits \<le> length as * max_nodes limits" using assms(3) by (intro mult_le_mono1) simp
  then have n: "length (steps p) + max_nodes limits < 2 ^ 32" "length (prog_operands p) + max_nodes limits < 2 ^ 32"
    using p small by auto
  have bits: "bit_strings inputs (nodes (as_value ?a))" using inp(2) assms(3) by simp
  have ex: "extends r q" "extends p q" using sizes(4) by (auto simp: q extends_def)
  have "assigned schema inputs stack q ?a \<lparr>target_column = column, target_name = as_column ?a, target_root = root\<rparr>"
    using planned_assigned [OF f c ok [OF c] ch n inp(1) bits stack] assigned_extends ex(1) by blast
  moreover have "list_all2 (assigned schema inputs stack q) (take i as) (targets p)"
    using p(3) by (rule list_all2_mono) (use assigned_extends ex(2) in blast)
  ultimately show ?thesis
    using sizes p(1,2) assms(3) by (simp add: assigns_def q take_Suc_conv_app_nth list_all2_appendI)
qed

lemma PlanAssignments_assigns:
  assumes "PlanAssignments as schema limits = Inr program" "length as * max_nodes limits < 2 ^ 32"
    "\<And>name b. BlockColumn schema name = Some b \<Longrightarrow> type_ok (bind_type b)"
    "inputs_fit schema inputs" "\<forall>a \<in> set as. bit_strings inputs (nodes (as_value a))" "max_depth limits \<le> stack"
  shows "list_all2 (assigned schema inputs stack program) as (targets program)"
proof -
  obtain p where p: "rfold (PlanAssignment as schema limits) [0..<length as] empty_program = Inr p" and "program = SortParameters p"
    using assms(1) by (auto simp: PlanAssignments_def)
  have "outcome (\<lambda>_. True) (assigns as schema limits inputs stack (length as)) (rfold (PlanAssignment as schema limits) [0..<length as] empty_program)"
  proof (rule outcome_upt)
    show "assigns as schema limits inputs stack 0 empty_program" by (simp add: assigns_def empty_program_def)
  next
    fix i s assume "i < length as" "assigns as schema limits inputs stack i s"
    then show "outcome (\<lambda>_. True) (assigns as schema limits inputs stack (Suc i)) (PlanAssignment as schema limits i s)"
      using PlanAssignment_assigns [OF _ _ _ assms(2-6)] by (cases "PlanAssignment as schema limits i s") auto
  qed simp
  then have "list_all2 (assigned schema inputs stack p) as (targets p)" unfolding p by (simp add: assigns_def)
  then have "list_all2 (assigned schema inputs stack program) as (targets p)"
    by (rule list_all2_mono) (erule assigned_extends, simp add: \<open>program = SortParameters p\<close> SortParameters_def extends_def)
  then show ?thesis by (simp add: \<open>program = SortParameters p\<close> SortParameters_def)
qed

section \<open>Assignments\<close>

text \<open>
  Claim C6. Planned assignments evaluate to values their columns take: for every list of assignments the
  planner accepts on a schema of valid column types, every block that fits the schema and every parameters
  (bit strings made of digits), evaluation gives one value for each assignment, in order, and each value
  is NULL for a nullable column or a value in the range, size, encoding and kind of its column's type.
  Otherwise it throws an \<open>std::invalid_argument\<close> or \<open>std::out_of_range\<close> that the statement causes; it
  never meets an \<open>std::logic_error\<close>, reads outside the program or the row, or exceeds the depth limit in stack frames.
\<close>

theorem planned_assignments_fit:
  assumes plan: "PlanAssignments assignments schema limits = Inr program"
    and "length assignments * max_nodes limits < 2 ^ 32"
    and "\<And>name b. BlockColumn schema name = Some b \<Longrightarrow> type_ok (bind_type b)"
    and "inputs_fit schema inputs" "\<forall>a \<in> set assignments. bit_strings inputs (nodes (as_value a))"
    and "max_depth limits \<le> stack"
  shows "outcome client
    (list_all2 (\<lambda>a v. \<exists>b. BlockColumn schema (as_column a) = Some b \<and>
        (v = NullV \<and> bind_nullable b \<or> holds_value (bind_type b) v)) assignments)
    (EvaluateAssignments stack program inputs)"
proof -
  have all: "list_all2 (assigned schema inputs stack program) assignments (targets program)"
    using assms by (rule PlanAssignments_assigns)
  let ?fits = "\<lambda>a v. \<exists>b. BlockColumn schema (as_column a) = Some b \<and> (v = NullV \<and> bind_nullable b \<or> holds_value (bind_type b) v)"
  have "outcome client (\<lambda>vs. list_all2 ?fits (take (length (targets program)) assignments) vs) (EvaluateAssignments stack program inputs)"
    unfolding EvaluateAssignments_def
  proof (rule outcome_rfold_prefix [where P = "\<lambda>pre. list_all2 ?fits (take (length pre) assignments)"])
    fix pre target vs
    assume "\<exists>post. targets program = pre @ target # post" and pre: "list_all2 ?fits (take (length pre) assignments) vs"
    then have l: "length pre < length assignments" and at: "assigned schema inputs stack program (assignments ! length pre) target"
      using list_all2_lengthD [OF all] list_all2_nthD2 [OF all, where ?p = "length pre"] by auto
    then have "outcome client (\<lambda>v. outcome client (fits_column (target_column target)) (Store target v))
        (ValueOf stack program inputs (target_root target))"
      by (simp add: assigned_def)
    then show "outcome client (list_all2 ?fits (take (length (pre @ [target])) assignments))
        (rbind (ValueOf stack program inputs (target_root target)) (\<lambda>v. rbind (Store target v) (\<lambda>stored. Inr (vs @ [stored]))))"
      by (rule outcome_bind, elim outcome_bind)
        (use pre l at in \<open>auto simp: take_Suc_conv_app_nth assigned_def fits_column_def intro!: list_all2_appendI\<close>)
  qed simp
  then show ?thesis using list_all2_lengthD [OF all] by simp
qed

definition example_assignments :: "AssignmentExpression list" where
  "example_assignments = [\<lparr>as_column = ''coins'', as_at = 0, as_value = example_expression kAdd\<rparr>]"

lemma example_assignments_plan: "\<exists>program. PlanAssignments example_assignments example_schema example_limits = Inr program"
  by (simp add: PlanAssignments_def PlanAssignment_def CheckTarget_def example_assignments_def example_defs planner_defs)

lemma example_bit_strings: "\<forall>a \<in> set example_assignments. bit_strings example_inputs (nodes (as_value a))"
  by (simp add: example_assignments_def example_inputs_def bit_strings_def example_expression_def leaf_def inner_def)

lemma example_types_ok: "BlockColumn example_schema name = Some b \<Longrightarrow> type_ok (bind_type b)"
  by (auto simp: example_schema_def ColumnList_def example_coins_def type_ok_def split: if_splits)

theorem planned_assignments_fit_witness:
  "case PlanAssignments example_assignments example_schema example_limits of
     Inl e \<Rightarrow> False
   | Inr program \<Rightarrow> outcome client
       (list_all2 (\<lambda>a v. \<exists>b. BlockColumn example_schema (as_column a) = Some b \<and>
           (v = NullV \<and> bind_nullable b \<or> holds_value (bind_type b) v)) example_assignments)
       (EvaluateAssignments 32 program example_inputs)"
proof -
  obtain program where p: "PlanAssignments example_assignments example_schema example_limits = Inr program"
    using example_assignments_plan by blast
  show ?thesis unfolding p sum.case
    by (rule planned_assignments_fit [OF p _ _ example_inputs_fit example_bit_strings])
      (simp_all add: example_types_ok example_assignments_def example_limits_def)
qed

end
