(* ===== verification/Spec2Isabelle.thy ===== *)
theory Spec2Isabelle
  imports Bit_Codec Zrle Crc32_Clmul Schema_Codec Chunk_Vars_Laws Wal_Totality Expr_Arith_Laws Expr_Assign
begin

text \<open>
  This development models the storage core of chunkdb, a database of voxel chunks, as executable
  Isabelle functions, and proves the properties the rest of the server relies on.  Definitions keep
  the names of the C++ code; file names below are relative to \<^verbatim>\<open>src/src\<close>.

  \<^bold>\<open>The program.\<close>  A table has a \<^emph>\<open>schema\<close> of block columns and chunk columns that evolves by versions.  A
  \<^emph>\<open>chunk\<close> is a box of blocks.  The fixed-width columns of its blocks are packed in one \<^emph>\<open>payload\<close>, a bit
  stream with one slot per block; a \<^emph>\<open>presence\<close> bitmap says which blocks exist; values of text and
  bytes columns are kept apart in the chunk's \<^emph>\<open>vars\<close>.  A chunk is stored as an \<^emph>\<open>image\<close> file (payload,
  presence and vars, compressed with ZRLE and checked by CRC-32) and a \<^emph>\<open>write-ahead log\<close> whose frames
  are the mutations since the image.  Opening a chunk reads the image and replays the log over it.
  Conditions and assignments of statements are \<^emph>\<open>expressions\<close>, typed against the schema and evaluated
  per block.

  \<^bold>\<open>Conventions.\<close>  A byte is \<open>8 word\<close> and an unsigned integer of the code a word of its width; \<open>+\<close> on
  words wraps as in C++.  Sizes held in \<open>size_t\<close> are natural numbers except where the code computes
  with wrap-around, where they are \<open>64 word\<close>.  An exception is a value: \<open>'a res = exn + 'a\<close>, with the
  constructor of \<open>exn\<close> for the exception class and the constant part of the message.  Where the C++
  standard leaves behaviour undefined, the model has the result \<open>Undefined\<close>, so that a theorem which
  says a call succeeds also says that the undefined case is not met.  Loops are structural recursion,
  folds over \<open>[0..<n]\<close> (\<open>rfold\<close> where an iteration may throw) or functions with a termination proof;
  there is no fuel anywhere in the model.

  \<^bold>\<open>Shared theories.\<close>
  \<^item> \<open>Chunkdb_Prelude\<close>: types, exceptions, \<open>rbind\<close> and \<open>rfold\<close> with their laws, list and word lemmas.
  \<^item> \<open>Le_Codec\<close>: \<open>WriteLe16/32/64\<close>, \<open>ReadLe16/32/64\<close> (chunk_format.cpp).
  \<^item> \<open>Byte_Reader\<close>: the bounds-checked readers of schema.cpp and the locale \<open>record_codec\<close>, the contract
    of a writer and a reader of one record; its lemmas carry over to lists of records.
  \<^item> \<open>Float_Bits\<close>: IEEE 754 binary32 and binary64 as bit patterns, their conversions and the numbers they
    stand for; widening keeps the number.
    \<open>Float_Arith\<close>: arithmetic, truncation and order of doubles, exact in units of the smallest double and
    rounded once.
  \<^item> \<open>Outcome\<close>: rules for what a computation that may throw can end in, along its sequencing and loops.

  \<^bold>\<open>Codecs.\<close>
  \<^item> \<open>Bit_Codec\<close> (bit_codec.cpp): copying, extracting, writing and comparing bit ranges.  The locale
    \<open>bit_range_store\<close> is the contract of a bit-addressed store; the lemmas show that the byte-wise
    routines act on exactly the named bits.  The range check of the source adds in \<open>std::size_t\<close>; what it does
    when the sum wraps is part of the model and of the lemmas.
  \<^item> \<open>Zrle\<close> (zrle.cpp): run-length compression; decompression inverts it, and on arbitrary bytes its cursor
    stays within the input and its output within the declared size at every token.
  \<^item> \<open>Crc32\<close>, \<open>Crc32_Fold\<close>, \<open>Crc32_Clmul\<close> (crc32.cpp, crc32_impl.hpp, crc32_clmul.cpp, crc32_armv8.cpp): the
    four kernels; the locale \<open>crc_kernel_law\<close> is the contract of a kernel, and each is shown to compute
    the polynomial remainder, the carry-less folding kernel by an argument on polynomials over GF(2).
    CPU features and the two ARMv8 instructions are parameters.

  \<^bold>\<open>Schemas and values.\<close>
  \<^item> \<open>Column_Types\<close>, \<open>Column_Values\<close> (schema.cpp): types, UTF-8, encoding of values, conversions;
    \<open>Column_Laws\<close> and \<open>Column_Conversion\<close>: round trips and that a conversion ends in the new type, with the same
    number, bytes or bits when the type is wider.
  \<^item> \<open>Schema\<close>, \<open>Schema_Laws\<close>: validation, evolution and undo of versions; every version of a table that
    the operations can reach is recovered.  \<open>Schema_Codec\<close>: the schema record and its round trip.

  \<^bold>\<open>Chunks.\<close>
  \<^item> \<open>Geometry\<close> (geometry.cpp): world, chunk and local coordinates and the block index.
  \<^item> \<open>Chunk_Layout\<close>, \<open>Chunk_Layout_Laws\<close>, \<open>Chunk_Translate\<close> (chunk_layout.cpp): the payload layout and its
    translation between schema versions.
  \<^item> \<open>Chunk_Vars\<close>, \<open>Chunk_Vars_Laws\<close> (chunk_vars.cpp): the sorted store of variable values, as a finite map
    through the locale \<open>value_map\<close>, and its section codec.
  \<^item> \<open>Feature_Flags\<close> (feature_flags.cpp), \<open>Chunk_Format\<close>, \<open>Chunk_Format_Laws\<close> (chunk_format.cpp,
    chunk_form.cpp): which stores may be opened, presence bitmap, image and WAL header, and the
    acceptance of an image.

  \<^bold>\<open>Write-ahead log.\<close>
  \<^item> \<open>Wal_Frame\<close>: the frame builder (wal_writer.cpp) and the frame parser (wal_replay.cpp);
    \<open>Wal_Frame_Laws\<close>: a written frame is read back operation by operation, and one with an
    operation the table does not take is refused.
  \<^item> \<open>Wal_Replay\<close> (wal_replay.cpp): header check, torn-tail rules and the replay loop, whose measure is the
    number of bytes left; \<open>Wal_Replay_Laws\<close>: replay of a frame depends on the bytes of that frame alone.
  \<^item> \<open>Wal_Recovery\<close>: replay of a cut file is replay of the whole frames before the cut, and replay of
    the frames written for a sequence of mutations applies those mutations.  \<open>Wal_Totality\<close>: for a
    table of schema version 1 without text or bytes columns, replay returns, without an exception, for every
    file.

  \<^bold>\<open>Expressions.\<close>
  \<^item> \<open>Expr_Program\<close> (expr.hpp, expr_program.hpp): parsed expressions and planned programs.
  \<^item> \<open>Expr_Plan\<close> (expr.cpp, from \<open>Type\<close> on): the checks of the node array, typing, the types of parameters,
    compilation, \<open>PlanCondition\<close> and \<open>PlanAssignments\<close>.  \<open>Expr_Check\<close>: what these passes establish; planning
    ends in a plan or an \<open>std::invalid_argument\<close>.
  \<^item> \<open>Expr_Eval\<close> (expr_eval.cpp): 128-bit integers, comparison, three-valued logic and the evaluator.  The
    evaluator counts stack frames, its only bounded resource.  \<open>Expr_Arith_Laws\<close>: the
    integers are exact, and so are comparisons of integers with floats.
  \<^item> \<open>Expr_Values\<close>, \<open>Expr_Sound\<close>: the types of the planner are sound for the evaluator.  \<open>value_ok\<close> says which
    values a planned type stands for, and every operation keeps it.  \<open>Expr_Safe\<close>, \<open>Expr_Assign\<close>: planned conditions
    and assignments evaluate on every block of the schema, within the stack the depth limit allows, and
    what an assignment stores fits its column.

  \<^bold>\<open>Not modelled.\<close>  Sockets, TLS, threads, locks, caches, eviction, file operations and their order on
  disk (server*.cpp, chunk_cache.cpp, eviction.cpp, durability_io.cpp, checkpoint.cpp, maintenance.cpp,
  the stream pools) act on the operating system, which has no model here.  The lexer and the parsers of statements and of
  expression texts and the engine (cql*.cpp, the \<open>Parser\<close> of expr.cpp, engine*.cpp), the catalog, backup, change feed, transaction and user records
  (table_catalog.cpp, backup*.cpp, feed_*.cpp, txn_*.cpp, users.cpp) are built on the parts above and on
  files; SCRAM and TLS rest on OpenSSL.  Texts of messages that carry values are left out of \<open>exn\<close>, and
  so are the functions that only format them.
\<close>

end
